(* ===== verification/Prelude.thy ===== *)
theory Prelude
  imports Main "HOL-Library.Word" "HOL-Library.Char_ord" "HOL-Library.List_Lexorder"
    "HOL-Library.Product_Lexorder" "HOL-Library.Multiset" "HOL-Library.AList"
begin

text \<open>
  Vocabulary shared by every component of the development.

  Machine integers keep their width: \<open>u64\<close>, \<open>u128\<close> and \<open>u32\<close> are words, with Rust's saturating
  operations written out on them; \<open>usize\<close> is \<open>nat\<close> where it is only a length or an index. Signed
  integers that the code only compares are \<open>int\<close>.

  Rust's \<open>str\<close> is its UTF-8 byte sequence: a HOL \<open>string\<close>, whose \<open>char\<close> is a byte and whose
  lexicographic order is the byte order Rust's \<open>Ord\<close> uses. The character level of \<open>str\<close>
  (\<open>chars()\<close>, \<open>trim()\<close>) is recovered from the bytes: a character is a lead byte followed by
  its continuation bytes.
\<close>

type_synonym u32 = "32 word"
type_synonym u64 = "64 word"
type_synonym u128 = "128 word"
type_synonym str = string

named_theorems word_sat \<open>unsigned value of a saturating operation\<close>

section \<open>Saturating arithmetic on u64\<close>

definition u64_max :: u64 where
  "u64_max = - 1"

definition sat_add :: "u64 \<Rightarrow> u64 \<Rightarrow> u64" where
  "sat_add a b = (if unat a + unat b < 2 ^ 64 then a + b else u64_max)"

definition sat_sub :: "u64 \<Rightarrow> u64 \<Rightarrow> u64" where
  "sat_sub a b = (if b \<le> a then a - b else 0)"

definition sat_mul :: "u64 \<Rightarrow> u64 \<Rightarrow> u64" where
  "sat_mul a b = (if unat a * unat b < 2 ^ 64 then a * b else u64_max)"

lemma unat_u64_max: "unat u64_max = 2 ^ 64 - 1"
  unfolding u64_max_def by (simp add: unsigned_minus_1_eq_mask mask_eq_exp_minus_1)

lemma unat_u64_lt: "unat (a :: u64) < 2 ^ 64"
  using unsigned_less [of a] by simp

lemma unat_sat_add [word_sat]: "unat (sat_add a b) = min (unat a + unat b) (2 ^ 64 - 1)"
  by (auto simp: sat_add_def unat_u64_max unat_word_ariths)

lemma unat_sat_sub [word_sat]: "unat (sat_sub a b) = unat a - unat b"
  by (auto simp: sat_sub_def unat_sub word_le_nat_alt)

lemma unat_sat_mul [word_sat]: "unat (sat_mul a b) = min (unat a * unat b) (2 ^ 64 - 1)"
  by (auto simp: sat_mul_def unat_u64_max unat_word_ariths)

lemma sat_add_commute: "sat_add a b = sat_add b a"
  by (simp add: unat_sat_add word_unat_eq_iff add.commute)

lemma sat_add_assoc: "sat_add (sat_add a b) c = sat_add a (sat_add b c)"
  by (simp add: word_unat_eq_iff unat_sat_add min_def)

lemma sat_add_left_commute: "sat_add a (sat_add b c) = sat_add b (sat_add a c)"
  by (simp add: word_unat_eq_iff unat_sat_add min_def)

lemmas sat_add_ac = sat_add_assoc sat_add_commute sat_add_left_commute

lemma sat_add_0 [simp]: "sat_add a 0 = a" "sat_add 0 a = a"
  using unat_u64_lt [of a] by (simp_all add: word_unat_eq_iff unat_sat_add)

lemma sat_sub_le: "sat_sub a b \<le> a"
  by (simp add: word_le_nat_alt unat_sat_sub)

section \<open>Options\<close>

definition is_none_or :: "('a \<Rightarrow> bool) \<Rightarrow> 'a option \<Rightarrow> bool" where
  "is_none_or p x = (case x of None \<Rightarrow> True | Some y \<Rightarrow> p y)"

definition is_some_and :: "('a \<Rightarrow> bool) \<Rightarrow> 'a option \<Rightarrow> bool" where
  "is_some_and p x = (case x of None \<Rightarrow> False | Some y \<Rightarrow> p y)"

definition unwrap_or :: "'a \<Rightarrow> 'a option \<Rightarrow> 'a" where
  "unwrap_or d x = (case x of None \<Rightarrow> d | Some y \<Rightarrow> y)"

definition or_else :: "'a option \<Rightarrow> 'a option \<Rightarrow> 'a option" where
  "or_else x y = (case x of None \<Rightarrow> y | Some _ \<Rightarrow> x)"

definition opt_zip :: "'a option \<Rightarrow> 'b option \<Rightarrow> ('a \<times> 'b) option" where
  "opt_zip x y = (case x of None \<Rightarrow> None | Some a \<Rightarrow> (case y of None \<Rightarrow> None | Some b \<Rightarrow> Some (a, b)))"

lemma is_none_or_simps [simp]: "is_none_or p None" "is_none_or p (Some x) = p x"
  by (simp_all add: is_none_or_def)

lemma is_some_and_simps [simp]: "\<not> is_some_and p None" "is_some_and p (Some x) = p x"
  by (simp_all add: is_some_and_def)

lemma unwrap_or_simps [simp]: "unwrap_or d None = d" "unwrap_or d (Some x) = x"
  by (simp_all add: unwrap_or_def)

lemma or_else_simps [simp]: "or_else None y = y" "or_else (Some x) y = Some x"
  by (simp_all add: or_else_def)

lemma opt_zip_simps [simp]:
  "opt_zip None y = None" "opt_zip x None = None" "opt_zip (Some a) (Some b) = Some (a, b)"
  by (simp_all add: opt_zip_def split: option.splits)

section \<open>Byte strings\<close>

fun starts_with :: "str \<Rightarrow> str \<Rightarrow> bool" where
  "starts_with _ [] = True"
| "starts_with [] (_ # _) = False"
| "starts_with (c # s) (p # ps) = (c = p \<and> starts_with s ps)"

definition strip_prefix :: "str \<Rightarrow> str \<Rightarrow> str option" where
  "strip_prefix s p = (if starts_with s p then Some (drop (length p) s) else None)"

definition ends_with :: "str \<Rightarrow> str \<Rightarrow> bool" where
  "ends_with s p = starts_with (rev s) (rev p)"

definition strip_suffix :: "str \<Rightarrow> str \<Rightarrow> str option" where
  "strip_suffix s p = (if ends_with s p then Some (take (length s - length p) s) else None)"

text \<open>\<open>str::find\<close>: the first offset at which the needle occurs.\<close>

fun find_sub :: "str \<Rightarrow> str \<Rightarrow> nat option" where
  "find_sub [] p = (if p = [] then Some 0 else None)"
| "find_sub (c # s) p = (if starts_with (c # s) p then Some 0 else map_option Suc (find_sub s p))"

definition contains_sub :: "str \<Rightarrow> str \<Rightarrow> bool" where
  "contains_sub s p = (find_sub s p \<noteq> None)"

lemma starts_with_iff: "starts_with s p \<longleftrightarrow> (\<exists>t. s = p @ t)"
  by (induction s p rule: starts_with.induct) auto

lemma starts_with_append [simp]: "starts_with (p @ t) p"
  by (auto simp: starts_with_iff)

lemma ends_with_iff: "ends_with s p \<longleftrightarrow> (\<exists>t. s = t @ p)"
proof -
  have "ends_with s p \<longleftrightarrow> (\<exists>t. rev s = rev p @ t)"
    by (simp add: ends_with_def starts_with_iff)
  also have "\<dots> \<longleftrightarrow> (\<exists>t. s = rev t @ p)"
    by (metis rev_append rev_rev_ident)
  also have "\<dots> \<longleftrightarrow> (\<exists>t. s = t @ p)"
    by (metis rev_rev_ident)
  finally show ?thesis .
qed

lemma strip_prefix_Some: "strip_prefix s p = Some t \<longleftrightarrow> s = p @ t"
  by (auto simp: strip_prefix_def starts_with_iff)

lemma strip_suffix_Some: "strip_suffix s p = Some t \<longleftrightarrow> s = t @ p"
  by (auto simp: strip_suffix_def ends_with_iff)

text \<open>The last piece of \<open>str::rsplit\<close> on a set of separator bytes, which is its first item.\<close>

definition last_segment :: "char set \<Rightarrow> str \<Rightarrow> str" where
  "last_segment seps s = rev (takeWhile (\<lambda>c. c \<notin> seps) (rev s))"

definition trim_end_matches :: "char set \<Rightarrow> str \<Rightarrow> str" where
  "trim_end_matches cs s = rev (dropWhile (\<lambda>c. c \<in> cs) (rev s))"

definition trim_start_matches :: "char set \<Rightarrow> str \<Rightarrow> str" where
  "trim_start_matches cs s = dropWhile (\<lambda>c. c \<in> cs) s"

definition trim_matches :: "char set \<Rightarrow> str \<Rightarrow> str" where
  "trim_matches cs s = trim_end_matches cs (trim_start_matches cs s)"

text \<open>ASCII case folding leaves every byte outside \<open>A\<close>--\<open>Z\<close> alone.\<close>

definition ascii_lower :: "char \<Rightarrow> char" where
  "ascii_lower c = (if 65 \<le> (of_char c :: nat) \<and> (of_char c :: nat) \<le> 90
     then char_of ((of_char c :: nat) + 32) else c)"

definition to_ascii_lowercase :: "str \<Rightarrow> str" where
  "to_ascii_lowercase s = map ascii_lower s"

definition eq_ignore_ascii_case :: "str \<Rightarrow> str \<Rightarrow> bool" where
  "eq_ignore_ascii_case a b = (to_ascii_lowercase a = to_ascii_lowercase b)"

definition is_ascii_digit :: "char \<Rightarrow> bool" where
  "is_ascii_digit c = (48 \<le> (of_char c :: nat) \<and> (of_char c :: nat) \<le> 57)"

definition is_ascii_hexdigit :: "char \<Rightarrow> bool" where
  "is_ascii_hexdigit c = (is_ascii_digit c
     \<or> 65 \<le> (of_char c :: nat) \<and> (of_char c :: nat) \<le> 70
     \<or> 97 \<le> (of_char c :: nat) \<and> (of_char c :: nat) \<le> 102)"

lemma eq_ignore_ascii_case_refl [simp]: "eq_ignore_ascii_case a a"
  by (simp add: eq_ignore_ascii_case_def)

lemma eq_ignore_ascii_case_sym: "eq_ignore_ascii_case a b \<Longrightarrow> eq_ignore_ascii_case b a"
  by (simp add: eq_ignore_ascii_case_def)

lemma eq_ignore_ascii_case_trans:
  "eq_ignore_ascii_case a b \<Longrightarrow> eq_ignore_ascii_case b c \<Longrightarrow> eq_ignore_ascii_case a c"
  by (simp add: eq_ignore_ascii_case_def)

section \<open>Characters of a UTF-8 string\<close>

definition is_continuation :: "char \<Rightarrow> bool" where
  "is_continuation c = ((of_char c :: nat) div 64 = 2)"

function utf8_chars :: "str \<Rightarrow> str list" where
  "utf8_chars [] = []"
| "utf8_chars (c # s) =
     (c # takeWhile is_continuation s) # utf8_chars (dropWhile is_continuation s)"
  by pat_completeness auto
termination
  by (relation "measure length") (auto simp: le_imp_less_Suc length_dropWhile_le)

lemma concat_utf8_chars [simp]: "concat (utf8_chars s) = s"
  by (induction s rule: utf8_chars.induct) auto

lemma utf8_chars_eq_Nil [simp]: "utf8_chars s = [] \<longleftrightarrow> s = []"
  by (cases s) auto

lemma takeWhile_append_stop:
  "t = [] \<or> \<not> p (hd t) \<Longrightarrow> takeWhile p (s @ t) = takeWhile p s"
  by (induction s) (cases t; auto)+

lemma dropWhile_append_stop:
  "t = [] \<or> \<not> p (hd t) \<Longrightarrow> dropWhile p (s @ t) = dropWhile p s @ t"
  by (induction s) (cases t; auto)+

text \<open>A well-formed UTF-8 string does not begin inside a character; every Rust \<open>str\<close> is one.\<close>

definition starts_char :: "str \<Rightarrow> bool" where
  "starts_char s = (s = [] \<or> \<not> is_continuation (hd s))"

lemma utf8_chars_append:
  "starts_char t \<Longrightarrow> utf8_chars (s @ t) = utf8_chars s @ utf8_chars t"
proof (induction s rule: utf8_chars.induct)
  case 1
  then show ?case by simp
next
  case (2 c s)
  then show ?case
    by (simp add: takeWhile_append_stop dropWhile_append_stop starts_char_def)
qed

lemma starts_char_take:
  "starts_char s \<Longrightarrow> starts_char (concat (take n (utf8_chars s)))"
  by (cases s; cases n) (auto simp: starts_char_def)

lemma starts_char_dropWhile: "starts_char (dropWhile is_continuation s)"
  using hd_dropWhile [of is_continuation s] by (auto simp: starts_char_def)

lemma utf8_chars_single:
  "utf8_chars (c # takeWhile is_continuation s) = [c # takeWhile is_continuation s]"
proof -
  have "takeWhile is_continuation (takeWhile is_continuation s) = takeWhile is_continuation s"
    by (simp add: takeWhile_eq_all_conv set_takeWhileD)
  moreover have "dropWhile is_continuation (takeWhile is_continuation s) = []"
    by (auto simp: dropWhile_eq_Nil_conv dest: set_takeWhileD)
  ultimately show ?thesis by simp
qed

lemma utf8_chars_concat_take [simp]:
  "utf8_chars (concat (take n (utf8_chars s))) = take n (utf8_chars s)"
proof (induction s arbitrary: n rule: utf8_chars.induct)
  case 1
  then show ?case by simp
next
  case (2 c s)
  show ?case
  proof (cases n)
    case 0
    then show ?thesis by simp
  next
    case (Suc m)
    let ?h = "c # takeWhile is_continuation s" and ?r = "dropWhile is_continuation s"
    have "utf8_chars (?h @ concat (take m (utf8_chars ?r))) =
        utf8_chars ?h @ utf8_chars (concat (take m (utf8_chars ?r)))"
      by (rule utf8_chars_append) (simp add: starts_char_take starts_char_dropWhile)
    then show ?thesis using 2 [of m] utf8_chars_single [of c s] by (simp add: Suc)
  qed
qed

lemma utf8_chars_concat_drop [simp]:
  assumes "starts_char s"
  shows "utf8_chars (concat (drop n (utf8_chars s))) = drop n (utf8_chars s)"
  using assms
proof (induction s arbitrary: n rule: utf8_chars.induct)
  case 1
  then show ?case by simp
next
  case (2 c s)
  then show ?case
    by (cases n) (simp_all add: starts_char_dropWhile)
qed

lemma starts_char_drop:
  assumes "starts_char s"
  shows "starts_char (concat (drop n (utf8_chars s)))"
  using assms
proof (induction s arbitrary: n rule: utf8_chars.induct)
  case 1
  then show ?case by (simp add: starts_char_def)
next
  case (2 c s)
  then show ?case
    by (cases n) (simp_all add: starts_char_dropWhile)
qed

text \<open>The characters with Unicode's \<open>White_Space\<close> property, in UTF-8: what \<open>str::trim\<close> removes.\<close>

definition is_whitespace_char :: "str \<Rightarrow> bool" where
  "is_whitespace_char ch = (map (of_char :: char \<Rightarrow> nat) ch \<in>
     {[9], [10], [11], [12], [13], [32], [194, 133], [194, 160], [225, 154, 128],
      [226, 128, 128], [226, 128, 129], [226, 128, 130], [226, 128, 131], [226, 128, 132],
      [226, 128, 133], [226, 128, 134], [226, 128, 135], [226, 128, 136], [226, 128, 137],
      [226, 128, 138], [226, 128, 168], [226, 128, 169], [226, 128, 175], [226, 129, 159],
      [227, 128, 128]})"

definition trim_start :: "str \<Rightarrow> str" where
  "trim_start s = concat (dropWhile is_whitespace_char (utf8_chars s))"

definition trim_end :: "str \<Rightarrow> str" where
  "trim_end s = concat (rev (dropWhile is_whitespace_char (rev (utf8_chars s))))"

definition trim :: "str \<Rightarrow> str" where
  "trim s = trim_end (trim_start s)"

section \<open>Sorted lists\<close>

text \<open>\<open>slice::partition_point\<close> on a slice whose \<open>p\<close>-elements come first.\<close>

definition partition_point :: "('a \<Rightarrow> bool) \<Rightarrow> 'a list \<Rightarrow> nat" where
  "partition_point p xs = length (takeWhile p xs)"

lemma partition_point_le: "partition_point p xs \<le> length xs"
  by (simp add: partition_point_def length_takeWhile_le)

lemma take_partition_point: "take (partition_point p xs) xs = takeWhile p xs"
  by (metis partition_point_def takeWhile_eq_take)

lemma drop_partition_point: "drop (partition_point p xs) xs = dropWhile p xs"
  by (metis partition_point_def dropWhile_eq_drop)

lemma takeWhile_filter_sorted:
  assumes "sorted (map f xs)"
  shows "takeWhile (\<lambda>x. f x < b) xs = filter (\<lambda>x. f x < b) xs"
  using assms
proof (induction xs)
  case (Cons x xs)
  then show ?case
    by (cases "f x < b") (auto simp: filter_empty_conv eq_commute [of "[]"] not_less
        intro: order_trans)
qed simp

lemma dropWhile_filter_sorted:
  assumes "sorted (map f xs)"
  shows "dropWhile (\<lambda>x. f x < b) xs = filter (\<lambda>x. b \<le> f x) xs"
  using assms
proof (induction xs)
  case (Cons x xs)
  then show ?case
  proof (cases "f x < b")
    case True
    with Cons show ?thesis by auto
  next
    case False
    with Cons.prems have "\<forall>y \<in> set xs. b \<le> f y" by auto
    with False show ?thesis by (simp add: filter_id_conv [THEN iffD2])
  qed
qed simp

lemma map_nth_slice:
  "start \<le> stop \<Longrightarrow> stop \<le> length xs \<Longrightarrow>
    map ((!) xs) [start..<stop] = take (stop - start) (drop start xs)"
  by (rule nth_equalityI) auto

section \<open>Hash maps\<close>

text \<open>
  A hash map that the code iterates over is its list of entries; the order of that list stands for
  the iteration order only through an explicit permutation. \<open>entry_update\<close> is
  \<open>entry(k).or_insert(d)\<close> followed by a mutation of the value.
\<close>

fun entry_update :: "'k \<Rightarrow> 'v \<Rightarrow> ('v \<Rightarrow> 'v) \<Rightarrow> ('k \<times> 'v) list \<Rightarrow> ('k \<times> 'v) list" where
  "entry_update k d g [] = [(k, g d)]"
| "entry_update k d g ((k', v) # xs) =
    (if k = k' then (k', g v) # xs else (k', v) # entry_update k d g xs)"

text \<open>\<open>if let Some(row) = map.get_mut(k)\<close>.\<close>

definition entry_modify :: "'k \<Rightarrow> ('v \<Rightarrow> 'v) \<Rightarrow> ('k \<times> 'v) list \<Rightarrow> ('k \<times> 'v) list" where
  "entry_modify k g xs = map (\<lambda>(k', v). (k', if k' = k then g v else v)) xs"

lemma map_of_entry_update:
  "map_of (entry_update k d g xs) = (map_of xs)(k \<mapsto> g (unwrap_or d (map_of xs k)))"
  by (induction k d g xs rule: entry_update.induct) (auto simp: fun_eq_iff)

lemma keys_entry_update:
  "map fst (entry_update k d g xs) =
    (if k \<in> fst ` set xs then map fst xs else map fst xs @ [k])"
  by (induction k d g xs rule: entry_update.induct) auto

lemma distinct_entry_update:
  "distinct (map fst xs) \<Longrightarrow> distinct (map fst (entry_update k d g xs))"
  by (auto simp: keys_entry_update)

lemma map_of_entry_modify:
  "map_of (entry_modify k g xs) = (map_of xs)(k := map_option g (map_of xs k))"
  by (induction xs) (auto simp: entry_modify_def fun_eq_iff)

lemma keys_entry_modify [simp]: "map fst (entry_modify k g xs) = map fst xs"
  by (simp add: entry_modify_def case_prod_beta comp_def)

section \<open>Little-endian integers\<close>

text \<open>\<open>to_le_bytes\<close> of an integer of \<open>k\<close> bytes.\<close>

fun le_bytes :: "nat \<Rightarrow> nat \<Rightarrow> str" where
  "le_bytes 0 n = []"
| "le_bytes (Suc k) n = char_of (n mod 256) # le_bytes k (n div 256)"

lemma length_le_bytes [simp]: "length (le_bytes k n) = k"
  by (induction k n rule: le_bytes.induct) auto

lemma char_of_mod_inject:
  "(char_of (m mod 256) :: char) = char_of (n mod 256) \<longleftrightarrow> m mod 256 = n mod (256 :: nat)"
  by (metis char_of_eq_iff char_of_mod_256 of_char_of mod_mod_trivial)

lemma le_bytes_inject:
  "m < 256 ^ k \<Longrightarrow> n < 256 ^ k \<Longrightarrow> le_bytes k m = le_bytes k n \<longleftrightarrow> m = n"
proof (induction k arbitrary: m n)
  case (Suc k)
  have "m div 256 < 256 ^ k" "n div 256 < 256 ^ k"
    using Suc.prems by (simp_all add: less_mult_imp_div_less mult.commute)
  then show ?case
    using Suc.IH [of "m div 256" "n div 256"]
    by (simp add: char_of_mod_inject) (metis div_mult_mod_eq)
qed simp

text \<open>A sequence of length-prefixed blocks determines its blocks.\<close>

definition prefixed :: "nat \<Rightarrow> str \<Rightarrow> str" where
  "prefixed k b = le_bytes k (length b) @ b"

lemma prefixed_append_inject:
  assumes "prefixed k a @ s = prefixed k b @ t" "length a < 256 ^ k" "length b < 256 ^ k"
  shows "a = b \<and> s = t"
proof -
  have "le_bytes k (length a) = le_bytes k (length b)"
    using arg_cong [OF assms(1), of "take k"] by (simp add: prefixed_def)
  then have "length a = length b" using assms(2,3) by (simp add: le_bytes_inject)
  then show ?thesis using assms(1) by (simp add: prefixed_def)
qed

lemma concat_prefixed_inject:
  assumes "concat (map (prefixed k) xs) = concat (map (prefixed k) ys)" "0 < k"
    and "\<forall>b \<in> set xs \<union> set ys. length b < 256 ^ k"
  shows "xs = ys"
  using assms(1,3)
proof (induction xs arbitrary: ys)
  case Nil
  then show ?case using assms(2) by (cases ys; cases k) (auto simp: prefixed_def)
next
  case (Cons x xs)
  then obtain y ys' where ys: "ys = y # ys'"
    using assms(2) by (cases ys; cases k) (auto simp: prefixed_def)
  have "x = y \<and> concat (map (prefixed k) xs) = concat (map (prefixed k) ys')"
    using Cons.prems ys by (intro prefixed_append_inject [of k]) auto
  then show ?case using Cons ys by auto
qed

section \<open>Association lists\<close>

lemma set_updateD: "x \<in> set (AList.update k v xs) \<Longrightarrow> x = (k, v) \<or> x \<in> set xs"
  by (induction xs) (auto split: if_splits)

lemma map_of_filter_Some: "map_of xs k = Some v \<Longrightarrow> P (k, v) \<Longrightarrow> map_of (filter P xs) k = Some v"
  by (induction xs) (auto split: if_splits)

end
