(* ===== verification/Types.thy ===== *)
theory Types
  imports Prelude
begin

text \<open>
  The shared data model of \<open>src/types.rs\<close>: the sources a record can come from with their index and
  label codecs, the command-line filter over them, the indexed \<open>Record\<close> with its links, and the two
  text cues that recognise a spawned worker. \<open>str::to_lowercase\<close> needs Unicode tables, so it is the
  argument \<open>lower\<close> of the definition that calls it.
\<close>

section \<open>Sources\<close>

datatype source_kind =
    Claude
  | Codex
  | Opencode
  | Cursor
  | Pi
  | OpenClaw
  | Copilot
  | Omp
  | Grok
  | Hermes
  | Jcode
  | Muse
  | Antigravity
  | Bob

definition source_all :: "source_kind list" where
  "source_all = [Claude, Codex, Opencode, Cursor, Pi, OpenClaw, Copilot, Omp, Grok, Hermes, Jcode, Muse, Antigravity, Bob]"

definition source_count :: nat where
  "source_count = length source_all"

fun source_idx :: "source_kind \<Rightarrow> nat" where
  "source_idx Claude = 0"
| "source_idx Codex = 1"
| "source_idx Opencode = 2"
| "source_idx Cursor = 3"
| "source_idx Pi = 4"
| "source_idx OpenClaw = 5"
| "source_idx Copilot = 6"
| "source_idx Omp = 7"
| "source_idx Grok = 8"
| "source_idx Hermes = 9"
| "source_idx Jcode = 10"
| "source_idx Muse = 11"
| "source_idx Antigravity = 12"
| "source_idx Bob = 13"

definition source_from_idx :: "nat \<Rightarrow> source_kind option" where
  "source_from_idx i =
    (if i = 0 then Some Claude
     else if i = 1 then Some Codex
     else if i = 2 then Some Opencode
     else if i = 3 then Some Cursor
     else if i = 4 then Some Pi
     else if i = 5 then Some OpenClaw
     else if i = 6 then Some Copilot
     else if i = 7 then Some Omp
     else if i = 8 then Some Grok
     else if i = 9 then Some Hermes
     else if i = 10 then Some Jcode
     else if i = 11 then Some Muse
     else if i = 12 then Some Antigravity
     else if i = 13 then Some Bob
     else None)"

fun source_label :: "source_kind \<Rightarrow> str" where
  "source_label Claude = ''claude''"
| "source_label Codex = ''codex''"
| "source_label Opencode = ''opencode''"
| "source_label Cursor = ''cursor''"
| "source_label Pi = ''pi''"
| "source_label OpenClaw = ''openclaw''"
| "source_label Copilot = ''copilot''"
| "source_label Omp = ''omp''"
| "source_label Grok = ''grok''"
| "source_label Hermes = ''hermes''"
| "source_label Jcode = ''jcode''"
| "source_label Muse = ''muse''"
| "source_label Antigravity = ''antigravity''"
| "source_label Bob = ''bob''"

fun source_storage_label :: "source_kind \<Rightarrow> str" where
  "source_storage_label Claude = ''claude''"
| "source_storage_label Codex = ''codex''"
| "source_storage_label Opencode = ''opencode''"
| "source_storage_label Cursor = ''cursor''"
| "source_storage_label Pi = ''pi''"
| "source_storage_label OpenClaw = ''openclaw''"
| "source_storage_label Copilot = ''copilot''"
| "source_storage_label Omp = ''omp''"
| "source_storage_label Grok = ''grok''"
| "source_storage_label Hermes = ''hermes''"
| "source_storage_label Jcode = ''jcode''"
| "source_storage_label Muse = ''muse''"
| "source_storage_label Antigravity = ''antigravity''"
| "source_storage_label Bob = ''bob''"

definition source_from_label :: "str \<Rightarrow> source_kind option" where
  "source_from_label l =
    (if l = ''claude'' then Some Claude
     else if l = ''codex'' \<or> l = ''codex-session'' \<or> l = ''codex-history'' then Some Codex
     else if l = ''opencode'' then Some Opencode
     else if l = ''cursor'' then Some Cursor
     else if l = ''pi'' then Some Pi
     else if l = ''openclaw'' then Some OpenClaw
     else if l = ''copilot'' then Some Copilot
     else if l = ''omp'' then Some Omp
     else if l = ''grok'' then Some Grok
     else if l = ''hermes'' then Some Hermes
     else if l = ''jcode'' then Some Jcode
     else if l = ''muse'' then Some Muse
     else if l = ''antigravity'' then Some Antigravity
     else if l = ''bob'' then Some Bob
     else None)"

datatype source_filter =
    FClaude
  | FCodex
  | FOpencode
  | FCursor
  | FPi
  | FOpenClaw
  | FCopilot
  | FOmp
  | FGrok
  | FHermes
  | FJcode
  | FMuse
  | FAntigravity
  | FBob

fun filter_matches :: "source_filter \<Rightarrow> source_kind \<Rightarrow> bool" where
  "filter_matches FClaude s = (s = Claude)"
| "filter_matches FCodex s = (s = Codex)"
| "filter_matches FOpencode s = (s = Opencode)"
| "filter_matches FCursor s = (s = Cursor)"
| "filter_matches FPi s = (s = Pi)"
| "filter_matches FOpenClaw s = (s = OpenClaw)"
| "filter_matches FCopilot s = (s = Copilot)"
| "filter_matches FOmp s = (s = Omp)"
| "filter_matches FGrok s = (s = Grok)"
| "filter_matches FHermes s = (s = Hermes)"
| "filter_matches FJcode s = (s = Jcode)"
| "filter_matches FMuse s = (s = Muse)"
| "filter_matches FAntigravity s = (s = Antigravity)"
| "filter_matches FBob s = (s = Bob)"

fun filter_storage_labels :: "source_filter \<Rightarrow> str list" where
  "filter_storage_labels FClaude = [''claude'']"
| "filter_storage_labels FCodex = [''codex'', ''codex-session'', ''codex-history'']"
| "filter_storage_labels FOpencode = [''opencode'']"
| "filter_storage_labels FCursor = [''cursor'']"
| "filter_storage_labels FPi = [''pi'']"
| "filter_storage_labels FOpenClaw = [''openclaw'']"
| "filter_storage_labels FCopilot = [''copilot'']"
| "filter_storage_labels FOmp = [''omp'']"
| "filter_storage_labels FGrok = [''grok'']"
| "filter_storage_labels FHermes = [''hermes'']"
| "filter_storage_labels FJcode = [''jcode'']"
| "filter_storage_labels FMuse = [''muse'']"
| "filter_storage_labels FAntigravity = [''antigravity'']"
| "filter_storage_labels FBob = [''bob'']"

fun filter_as_str :: "source_filter \<Rightarrow> str" where
  "filter_as_str FClaude = ''claude''"
| "filter_as_str FCodex = ''codex''"
| "filter_as_str FOpencode = ''opencode''"
| "filter_as_str FCursor = ''cursor''"
| "filter_as_str FPi = ''pi''"
| "filter_as_str FOpenClaw = ''openclaw''"
| "filter_as_str FCopilot = ''copilot''"
| "filter_as_str FOmp = ''omp''"
| "filter_as_str FGrok = ''grok''"
| "filter_as_str FHermes = ''hermes''"
| "filter_as_str FJcode = ''jcode''"
| "filter_as_str FMuse = ''muse''"
| "filter_as_str FAntigravity = ''antigravity''"
| "filter_as_str FBob = ''bob''"

lemma source_all_complete: "s \<in> set source_all"
  by (cases s) (simp_all add: source_all_def)

lemma source_tables:
  "list_all (\<lambda>i. source_idx (source_all ! i) = i \<and> source_from_idx i = Some (source_all ! i))
     [0..<source_count]"
  by code_simp

lemma source_all_idx: "i < source_count \<Longrightarrow> source_idx (source_all ! i) = i"
  using source_tables by (simp add: list_all_iff)

lemma source_idx_less: "source_idx s < source_count"
  by (cases s) (simp_all add: source_count_def source_all_def)

lemma source_all_nth_idx: "source_all ! source_idx s = s"
  by (cases s) (simp_all add: source_all_def)

lemma source_idx_inj: "source_idx s = source_idx t \<longleftrightarrow> s = t"
  by (metis source_all_nth_idx)

lemma source_from_idx_nth:
  "source_from_idx i = (if i < source_count then Some (source_all ! i) else None)"
  using source_tables
  by (auto simp: list_all_iff) (simp add: source_from_idx_def source_count_def source_all_def)

lemma source_label_inj: "source_label s = source_label t \<longleftrightarrow> s = t"
  by (cases s; cases t) simp_all

lemma source_from_storage_label [simp]: "source_from_label (source_storage_label s) = Some s"
  by (cases s) (simp_all add: source_from_label_def)

text \<open>
  The index codec of \<open>SourceKind\<close> is a bijection between the sources and \<open>0..COUNT\<close>, in the
  order of \<open>ALL\<close>: an index decodes exactly to the source that encodes to it, and no other index
  decodes.
\<close>

theorem source_idx_codec:
  "(source_from_idx i = Some s) = (i = source_idx s)
   \<and> (source_from_idx i = None) = (source_count \<le> i)"
  using source_idx_less [of s] source_all_idx [of i] source_all_nth_idx [of s]
  by (auto simp: source_from_idx_nth)

text \<open>
  A filter and the storage decoder agree on every label: a stored label is among those a filter
  asks the index for exactly when it decodes to a source the filter matches, legacy Codex labels
  included.
\<close>

theorem filter_labels_decode:
  "l \<in> set (filter_storage_labels f)
   \<longleftrightarrow> (case source_from_label l of Some s \<Rightarrow> filter_matches f s | None \<Rightarrow> False)"
  by (cases f) (auto simp: source_from_label_def split: if_splits)

section \<open>Records\<close>

record record_links =
  lk_legacy_turn_id :: "u32 option"
  lk_source_record_offset :: "u64 option"
  lk_source_turn_id :: "str option"
  lk_assistant_phase :: "str option"
  lk_lifecycle_event :: "str option"
  lk_source_record_type :: "str option"
  lk_source_content :: "str option"
  lk_tool_result_is_error :: "bool option"
  lk_event_id :: "str option"
  lk_parent_event_id :: "str option"
  lk_logical_parent_event_id :: "str option"
  lk_parent_session_id :: "str option"
  lk_thread_source :: "str option"
  lk_conversation_kind :: "str option"
  lk_parent_tool_use_id :: "str option"
  lk_source_tool_use_id :: "str option"
  lk_source_tool_assistant_uuid :: "str option"

record mrecord =
  rec_source :: source_kind
  rec_doc_id :: u64
  rec_ts :: u64
  rec_project :: str
  rec_session_id :: str
  rec_turn_id :: u32
  rec_role :: str
  rec_text :: str
  rec_tool_name :: "str option"
  rec_tool_input :: "str option"
  rec_tool_output :: "str option"
  rec_links :: record_links
  rec_source_path :: str

definition default_links :: record_links where
  "default_links = \<lparr>lk_legacy_turn_id = None, lk_source_record_offset = None,
     lk_source_turn_id = None, lk_assistant_phase = None, lk_lifecycle_event = None,
     lk_source_record_type = None, lk_source_content = None, lk_tool_result_is_error = None,
     lk_event_id = None, lk_parent_event_id = None, lk_logical_parent_event_id = None,
     lk_parent_session_id = None, lk_thread_source = None, lk_conversation_kind = None,
     lk_parent_tool_use_id = None, lk_source_tool_use_id = None,
     lk_source_tool_assistant_uuid = None\<rparr>"

section \<open>Spawned-worker cues\<close>

definition jcode_subagent_markers :: "str list" where
  "jcode_subagent_markers =
    [''you are a low-effort fact-checker'',
     ''you are a low effort'',
     ''you are a subagent'',
     ''you are downstream'',
     ''you are the downstream'',
     ''investigation subagent'',
     ''deep validation:'',
     ''bossmode task'',
     ''role: manager:'']"

definition jcode_worker_sandbox_tokens :: "str list" where
  "jcode_worker_sandbox_tokens =
    [''worker'', ''agent'', ''swarm'', ''sandbox'', ''spawn'', ''subagent'']"

definition jcode_tmp_cwd_is_worker_sandbox :: "(str \<Rightarrow> str) \<Rightarrow> str \<Rightarrow> bool" where
  "jcode_tmp_cwd_is_worker_sandbox lower cwd =
    (let under_tmp = cwd = ''/tmp'' \<or> cwd = ''/private/tmp''
           \<or> starts_with cwd ''/tmp/'' \<or> starts_with cwd ''/private/tmp/''
     in if \<not> under_tmp then False
        else let leaf = lower (last_segment {CHR ''/''} cwd)
             in list_ex (contains_sub leaf) jcode_worker_sandbox_tokens)"

definition jcode_text_is_subagent_directive :: "str \<Rightarrow> bool" where
  "jcode_text_is_subagent_directive l =
    (if list_ex (contains_sub l) jcode_subagent_markers then True
     else if contains_sub l ''implementation worker''
          \<and> (contains_sub l ''implementation worker for'' \<or> contains_sub l ''you are'') then True
     else case find_sub l ''0 repo writes'' of
            Some pos \<Rightarrow>
              (let rest = trim_start (drop (pos + length ''0 repo writes'') l)
               in starts_with rest ''outside'' \<or> starts_with rest ''.'')
          | None \<Rightarrow> False)"

end
