(* ===== verification/ReadBudget.thy ===== *)
theory ReadBudget
  imports Types
begin

text \<open>
  The character budget of \<open>src/read_budget.rs\<close>: how a record is cut to the characters a reader may
  still spend, and the continuations that let the reader fetch the rest. Characters are those of
  \<open>utf8_chars\<close>; the subtraction of \<open>consume\<close> is checked, so that an underflow would be an error of
  the model.
\<close>

definition default_max_chars :: nat where
  "default_max_chars = 16000"

definition usize_max :: nat where
  "usize_max = 2 ^ 64 - 1"

datatype read_field = RText | RToolInput | RToolOutput

record content_continuation =
  cc_field :: read_field
  cc_offset_chars :: nat
  cc_total_chars :: nat

record content_page =
  cp_returned_chars :: nat
  cp_total_chars :: nat
  cp_truncated :: bool
  cp_continuations :: "content_continuation list"

type_synonym read_budget = "nat option"

datatype read_error =
    ZeroMaxChars
  | OffsetNeedsField
  | OffsetPastEnd nat read_field nat
  | BudgetUnderflow

definition char_count :: "str \<Rightarrow> nat" where
  "char_count v = length (utf8_chars v)"

definition char_range :: "str \<Rightarrow> nat \<Rightarrow> nat \<Rightarrow> str" where
  "char_range v off len = concat (take len (drop off (utf8_chars v)))"

definition budget_new :: "nat option \<Rightarrow> read_error + read_budget" where
  "budget_new m = (if m = Some 0 then Inl ZeroMaxChars else Inr m)"

definition budget_from_remaining :: "nat option \<Rightarrow> read_budget" where
  "budget_from_remaining m = m"

definition budget_remaining :: "read_budget \<Rightarrow> nat option" where
  "budget_remaining b = b"

definition budget_consume :: "nat \<Rightarrow> read_budget \<Rightarrow> read_error + read_budget" where
  "budget_consume n b =
    (case b of
       None \<Rightarrow> Inr None
     | Some r \<Rightarrow> (if n \<le> r then Inr (Some (r - n)) else Inl BudgetUnderflow))"

definition field_value :: "read_field \<Rightarrow> mrecord \<Rightarrow> str option" where
  "field_value fld r =
    (case fld of
       RText \<Rightarrow> Some (rec_text r)
     | RToolInput \<Rightarrow> rec_tool_input r
     | RToolOutput \<Rightarrow> rec_tool_output r)"

definition set_field :: "read_field \<Rightarrow> str option \<Rightarrow> mrecord \<Rightarrow> mrecord" where
  "set_field fld v r =
    (case fld of
       RText \<Rightarrow> r\<lparr>rec_text := unwrap_or [] v\<rparr>
     | RToolInput \<Rightarrow> r\<lparr>rec_tool_input := v\<rparr>
     | RToolOutput \<Rightarrow> r\<lparr>rec_tool_output := v\<rparr>)"

definition clear_source_content :: "mrecord \<Rightarrow> mrecord" where
  "clear_source_content r = r\<lparr>rec_links := (rec_links r)\<lparr>lk_source_content := None\<rparr>\<rparr>"

definition apply_field ::
    "mrecord \<Rightarrow> read_field \<Rightarrow> nat \<Rightarrow> read_budget
     \<Rightarrow> read_error + (read_budget \<times> mrecord \<times> content_page)" where
  "apply_field r fld off b =
    (let original = field_value fld r;
         total = (case original of None \<Rightarrow> 0 | Some v \<Rightarrow> char_count v)
     in if total < off then Inl (OffsetPastEnd off fld total)
        else
          let available = unwrap_or usize_max b;
              returned = min available (total - off);
              selected = map_option (\<lambda>v. char_range v off returned) original;
              r1 = r\<lparr>rec_text := [], rec_tool_input := None, rec_tool_output := None\<rparr>;
              r2 = set_field fld selected (clear_source_content r1)
          in (case budget_consume returned b of
                Inl e \<Rightarrow> Inl e
              | Inr b' \<Rightarrow>
                  let next_off = off + returned;
                      conts = (if next_off < total
                        then [\<lparr>cc_field = fld, cc_offset_chars = next_off, cc_total_chars = total\<rparr>]
                        else [])
                  in Inr (b', r2, \<lparr>cp_returned_chars = returned, cp_total_chars = total,
                         cp_truncated = (conts \<noteq> []), cp_continuations = conts\<rparr>)))"

text \<open>
  One turn of the loop of \<open>apply_all\<close>. The loop's state is what is still available, the characters
  returned, the continuations and the record under construction.
\<close>

type_synonym page_state = "nat \<times> nat \<times> content_continuation list \<times> mrecord"

fun apply_one :: "read_field \<times> str option \<Rightarrow> page_state \<Rightarrow> page_state" where
  "apply_one (fld, None) (avail, ret, conts, r) = (avail, ret, conts, set_field fld None r)"
| "apply_one (fld, Some v) (avail, ret, conts, r) =
    (let field_total = char_count v;
         tk = min avail field_total
     in (avail - tk, ret + tk,
         (if tk < field_total
          then conts @ [\<lparr>cc_field = fld, cc_offset_chars = tk, cc_total_chars = field_total\<rparr>]
          else conts),
         set_field fld (Some (char_range v 0 tk)) r))"

definition apply_all ::
    "mrecord \<Rightarrow> read_budget \<Rightarrow> read_error + (read_budget \<times> mrecord \<times> content_page)" where
  "apply_all r b =
    (let r0 = (case b of Some _ \<Rightarrow> clear_source_content r | None \<Rightarrow> r);
         fields = [(RText, Some (rec_text r0)), (RToolInput, rec_tool_input r0),
                   (RToolOutput, rec_tool_output r0)];
         r1 = r0\<lparr>rec_text := [], rec_tool_input := None, rec_tool_output := None\<rparr>;
         total = sum_list (map char_count (List.map_filter snd fields));
         (avail, ret, conts, r2) = fold apply_one fields (unwrap_or usize_max b, 0, [], r1)
     in (case budget_consume ret b of
           Inl e \<Rightarrow> Inl e
         | Inr b' \<Rightarrow> Inr (b', r2, \<lparr>cp_returned_chars = ret, cp_total_chars = total,
                       cp_truncated = (conts \<noteq> []), cp_continuations = conts\<rparr>)))"

definition budget_apply ::
    "mrecord \<Rightarrow> read_field option \<Rightarrow> nat \<Rightarrow> read_budget
     \<Rightarrow> read_error + (read_budget \<times> mrecord \<times> content_page)" where
  "budget_apply r fld off b =
    (if fld = None \<and> off \<noteq> 0 then Inl OffsetNeedsField
     else case fld of
            Some f \<Rightarrow> apply_field r f off b
          | None \<Rightarrow> apply_all r b)"

section \<open>Character ranges\<close>

lemma utf8_chars_range:
  "starts_char v \<Longrightarrow> utf8_chars (char_range v off len) = take len (drop off (utf8_chars v))"
proof -
  assume sc: "starts_char v"
  let ?w = "concat (drop off (utf8_chars v))"
  have "utf8_chars ?w = drop off (utf8_chars v)" using sc by simp
  then show ?thesis
    using utf8_chars_concat_take [of len ?w] by (simp add: char_range_def)
qed

lemma char_count_range:
  "starts_char v \<Longrightarrow> char_count (char_range v off len) = min len (char_count v - off)"
  by (simp add: char_count_def utf8_chars_range)

lemma char_range_all: "char_count v \<le> len \<Longrightarrow> char_range v 0 len = v"
  by (simp add: char_range_def char_count_def)

lemma char_range_append:
  "char_range v off m @ char_range v (off + m) n = char_range v off (m + n)"
  by (simp add: char_range_def take_add drop_drop add.commute flip: concat_append)

lemma char_range_0 [simp]: "char_range v off 0 = []"
  by (simp add: char_range_def)

lemma char_range_past [simp]: "char_count v \<le> off \<Longrightarrow> char_range v off n = []"
  by (simp add: char_range_def char_count_def)

lemma char_range_prefix: "char_range v 0 tk @ char_range v tk (char_count v - tk) = v"
  if "tk \<le> char_count v"
  using char_range_append [of v 0 tk "char_count v - tk"] that by (simp add: char_range_all)


section \<open>Reading a whole record\<close>

text \<open>What a record shows to a reader, as one sequence of characters. Every Rust string starts a
  character, which \<open>record_wf\<close> states of the three fields.\<close>

definition opt_chars :: "str option \<Rightarrow> str list" where
  "opt_chars v = (case v of None \<Rightarrow> [] | Some s \<Rightarrow> utf8_chars s)"

definition record_chars :: "mrecord \<Rightarrow> str list" where
  "record_chars r = utf8_chars (rec_text r) @ opt_chars (rec_tool_input r)
     @ opt_chars (rec_tool_output r)"

definition record_wf :: "mrecord \<Rightarrow> bool" where
  "record_wf r = (starts_char (rec_text r)
     \<and> (\<forall>v \<in> set_option (rec_tool_input r). starts_char v)
     \<and> (\<forall>v \<in> set_option (rec_tool_output r). starts_char v))"

lemma opt_chars_simps [simp]: "opt_chars None = []" "opt_chars (Some s) = utf8_chars s"
  by (simp_all add: opt_chars_def)

text \<open>The field loop, one turn: it takes what it can and accounts for it.\<close>

definition taken_field :: "nat \<Rightarrow> str option \<Rightarrow> str option" where
  "taken_field avail v = map_option (\<lambda>s. char_range s 0 (min avail (char_count s))) v"

definition field_cont :: "nat \<Rightarrow> read_field \<Rightarrow> str option \<Rightarrow> content_continuation list" where
  "field_cont avail fld v =
    (case v of None \<Rightarrow> [] | Some s \<Rightarrow>
       (if avail < char_count s
        then [\<lparr>cc_field = fld, cc_offset_chars = avail, cc_total_chars = char_count s\<rparr>] else []))"

lemma apply_one_eq:
  "apply_one (fld, v) (avail, ret, conts, r) =
    (let n = min avail (length (opt_chars v))
     in (avail - n, ret + n, conts @ field_cont avail fld v, set_field fld (taken_field avail v) r))"
  by (cases v) (auto simp: Let_def char_count_def field_cont_def taken_field_def min_def)

lemma opt_chars_taken:
  "(\<forall>s \<in> set_option v. starts_char s) \<Longrightarrow> opt_chars (taken_field n v) = take n (opt_chars v)"
  by (cases v) (auto simp: taken_field_def utf8_chars_range char_count_def min_def)

lemma taken_text: "unwrap_or [] (taken_field n (Some s)) = char_range s 0 (min n (char_count s))"
  by (simp add: taken_field_def)

lemma starts_char_char_range [simp]: "starts_char s \<Longrightarrow> starts_char (char_range s 0 n)"
  by (simp add: char_range_def starts_char_take)

definition cut_record :: "nat \<Rightarrow> mrecord \<Rightarrow> mrecord" where
  "cut_record n r =
    (let n1 = n - length (utf8_chars (rec_text r));
         n2 = n1 - length (opt_chars (rec_tool_input r))
     in r\<lparr>rec_text := unwrap_or [] (taken_field n (Some (rec_text r))),
          rec_tool_input := taken_field n1 (rec_tool_input r),
          rec_tool_output := taken_field n2 (rec_tool_output r)\<rparr>)"

definition cut_conts :: "nat \<Rightarrow> mrecord \<Rightarrow> content_continuation list" where
  "cut_conts n r =
    (let n1 = n - length (utf8_chars (rec_text r));
         n2 = n1 - length (opt_chars (rec_tool_input r))
     in field_cont n RText (Some (rec_text r)) @ field_cont n1 RToolInput (rec_tool_input r)
          @ field_cont n2 RToolOutput (rec_tool_output r))"

lemma record_chars_cut: "record_wf r \<Longrightarrow> record_chars (cut_record n r) = take n (record_chars r)"
  by (simp add: record_chars_def cut_record_def Let_def record_wf_def opt_chars_taken
      taken_text utf8_chars_range char_count_def min_def)

lemma record_wf_cut: "record_wf r \<Longrightarrow> record_wf (cut_record n r)"
  by (auto simp: record_wf_def cut_record_def Let_def taken_text taken_field_def)

lemma cut_conts_empty: "cut_conts n r = [] \<longleftrightarrow> length (record_chars r) \<le> n"
  by (auto simp: cut_conts_def Let_def field_cont_def record_chars_def char_count_def
      split: option.splits if_splits)

lemma min_diff:
  "(a :: nat) - min a b = a - b"
  "(a :: nat) - (b + min (a - b) c) = a - (b + c)"
  by arith+

lemma record_clear_simps [simp]:
  "rec_text (clear_source_content r) = rec_text r"
  "rec_tool_input (clear_source_content r) = rec_tool_input r"
  "rec_tool_output (clear_source_content r) = rec_tool_output r"
  "record_chars (clear_source_content r) = record_chars r"
  "record_wf (clear_source_content r) = record_wf r"
  by (simp_all add: clear_source_content_def record_chars_def record_wf_def)

lemma total_chars_eq:
  "sum_list (map char_count (List.map_filter snd [(RText, Some (rec_text r)),
     (RToolInput, rec_tool_input r), (RToolOutput, rec_tool_output r)])) = length (record_chars r)"
  by (simp add: record_chars_def char_count_def List.map_filter_simps split: option.splits)

lemma apply_all_eq:
  "apply_all r b =
    (let r0 = (case b of Some _ \<Rightarrow> clear_source_content r | None \<Rightarrow> r);
         n = unwrap_or usize_max b;
         total = length (record_chars r)
     in Inr (map_option (\<lambda>k. k - min n total) b, cut_record n r0,
          \<lparr>cp_returned_chars = min n total, cp_total_chars = total,
           cp_truncated = (n < total), cp_continuations = cut_conts n r0\<rparr>))"
proof -
  define r0 where "r0 = (case b of Some _ \<Rightarrow> clear_source_content r | None \<Rightarrow> r)"
  define n where "n = unwrap_or usize_max b"
  have r0: "record_chars r0 = record_chars r"
    by (simp add: r0_def split: option.splits)
  have ret: "min n l1 + (min (n - l1) l2 + min (n - (l1 + l2)) l3) = min n (l1 + (l2 + l3))"
    for l1 l2 l3 by arith
  have loop: "fold apply_one
      [(RText, Some (rec_text r0)), (RToolInput, rec_tool_input r0), (RToolOutput, rec_tool_output r0)]
      (n, 0, [], r0\<lparr>rec_text := [], rec_tool_input := None, rec_tool_output := None\<rparr>) =
      (n - length (record_chars r0), min n (length (record_chars r0)), cut_conts n r0, cut_record n r0)"
    by (simp add: apply_one_eq Let_def min_diff cut_conts_def cut_record_def set_field_def
        record_chars_def ret add.assoc del: apply_one.simps)
  have consume: "budget_consume (min n t) b = Inr (map_option (\<lambda>k. k - min n t) b)" for t
    by (simp add: budget_consume_def n_def split: option.splits)
  have trunc: "(cut_conts n r0 \<noteq> []) = (n < length (record_chars r))"
    using cut_conts_empty [of n r0] r0 by auto
  show ?thesis
    unfolding apply_all_def Let_def r0_def [symmetric] n_def [symmetric] loop total_chars_eq
    by (simp add: r0 consume trunc del: apply_one.simps)
qed


text \<open>
  The budget is never overspent: \<open>consume\<close> cannot underflow, whatever the record, the field, the
  offset and the budget.
\<close>

lemma consume_within: "n \<le> unwrap_or usize_max b \<Longrightarrow>
    budget_consume n b = Inr (map_option (\<lambda>k. k - n) b)"
  by (cases b) (simp_all add: budget_consume_def)

text \<open>The value of \<open>apply_field\<close> past its guard, with the consumption resolved.\<close>

lemma apply_field_eq:
  "apply_field r fld off b =
    (let total = length (opt_chars (field_value fld r));
         n = min (unwrap_or usize_max b) (total - off);
         r1 = r\<lparr>rec_text := [], rec_tool_input := None, rec_tool_output := None\<rparr>;
         sel = map_option (\<lambda>v. char_range v off n) (field_value fld r)
     in if total < off then Inl (OffsetPastEnd off fld total)
        else Inr (map_option (\<lambda>k. k - n) b, set_field fld sel (clear_source_content r1),
          \<lparr>cp_returned_chars = n, cp_total_chars = total, cp_truncated = (off + n < total),
           cp_continuations = (if off + n < total
             then [\<lparr>cc_field = fld, cc_offset_chars = off + n, cc_total_chars = total\<rparr>]
             else [])\<rparr>))"
proof -
  have t: "(case field_value fld r of None \<Rightarrow> 0 | Some v \<Rightarrow> char_count v)
      = length (opt_chars (field_value fld r))"
    by (simp add: char_count_def split: option.splits)
  show ?thesis
    unfolding apply_field_def Let_def t by (simp add: consume_within) arith
qed

lemmas budget_apply_eqs = budget_apply_def apply_field_eq apply_all_eq Let_def

text \<open>
  C14: Applying a budget fails exactly for an offset without a selected field, or an offset past the
  end of the selected field, with that offset, field and size in the error; in every other case it
  succeeds, so the subtraction in \<open>consume\<close> never underflows.
\<close>

theorem budget_apply_errors:
  "budget_apply r fld off b = Inl e \<longleftrightarrow>
    (case fld of
       None \<Rightarrow> off \<noteq> 0 \<and> e = OffsetNeedsField
     | Some f \<Rightarrow> length (opt_chars (field_value f r)) < off
         \<and> e = OffsetPastEnd off f (length (opt_chars (field_value f r))))"
  by (auto simp: budget_apply_eqs split: option.splits if_splits)

section \<open>Several records under one budget\<close>

text \<open>The readers' loop: every record is read whole under one shared budget.\<close>

fun read_records :: "mrecord list \<Rightarrow> read_budget
    \<Rightarrow> read_error + (read_budget \<times> (mrecord \<times> content_page) list)" where
  "read_records [] b = Inr (b, [])"
| "read_records (r # rs) b =
    (case budget_apply r None 0 b of
       Inl e \<Rightarrow> Inl e
     | Inr (b', r', pg) \<Rightarrow>
         (case read_records rs b' of
            Inl e \<Rightarrow> Inl e
          | Inr (b'', out) \<Rightarrow> Inr (b'', (r', pg) # out)))"

definition all_chars :: "mrecord list \<Rightarrow> str list" where
  "all_chars rs = concat (map record_chars rs)"

lemma all_chars_simps [simp]:
  "all_chars [] = []" "all_chars (r # rs) = record_chars r @ all_chars rs"
  by (simp_all add: all_chars_def)

text \<open>
  C13: Records read under one shared limit show exactly the first \<open>n\<close> characters of their
  concatenated contents, the pages account for every character, and a page is truncated exactly
  when its record was cut.
\<close>

theorem read_records_prefix:
  assumes "\<forall>r \<in> set rs. record_wf r"
  shows "\<exists>out. read_records rs (Some n) = Inr (Some (n - length (all_chars rs)), out)
    \<and> all_chars (map fst out) = take n (all_chars rs)
    \<and> sum_list (map (\<lambda>x. cp_returned_chars (snd x)) out) = min n (length (all_chars rs))
    \<and> list_all2 (\<lambda>r (r', pg). cp_truncated pg = (record_chars r' \<noteq> record_chars r)) rs out"
  using assms
proof (induction rs arbitrary: n)
  case Nil
  then show ?case by simp
next
  case (Cons r rs)
  let ?k = "length (record_chars r)"
  let ?r = "cut_record n (clear_source_content r)"
  have step: "budget_apply r None 0 (Some n) = Inr (Some (n - ?k), ?r,
      \<lparr>cp_returned_chars = min n ?k, cp_total_chars = ?k, cp_truncated = (n < ?k),
       cp_continuations = cut_conts n (clear_source_content r)\<rparr>)"
    by (simp add: budget_apply_eqs)
  have chars: "record_chars ?r = take n (record_chars r)"
    using Cons.prems by (simp add: record_chars_cut)
  obtain out where out: "read_records rs (Some (n - ?k)) =
        Inr (Some (n - ?k - length (all_chars rs)), out)"
      "all_chars (map fst out) = take (n - ?k) (all_chars rs)"
      "sum_list (map (\<lambda>x. cp_returned_chars (snd x)) out) = min (n - ?k) (length (all_chars rs))"
      "list_all2 (\<lambda>r (r', pg). cp_truncated pg = (record_chars r' \<noteq> record_chars r)) rs out"
    using Cons.IH [of "n - ?k"] Cons.prems by auto
  have cut: "(n < ?k) = (take n (record_chars r) \<noteq> record_chars r)"
    by (metis length_take linorder_not_le min_less_iff_conj nat_less_le take_all)
  show ?case
    using out chars cut by (simp add: step)
qed

lemma read_records_prefix_witness:
  "\<exists>out. read_records [\<lparr>rec_source = Codex, rec_doc_id = 1, rec_ts = 2, rec_project = ''p'',
      rec_session_id = ''s'', rec_turn_id = 3, rec_role = ''assistant'', rec_text = ''abc'',
      rec_tool_name = None, rec_tool_input = Some ''de'', rec_tool_output = None,
      rec_links = default_links, rec_source_path = ''source''\<rparr>] (Some 4)
     = Inr (Some 0, out) \<and> all_chars (map fst out) = [''a'', ''b'', ''c'', ''d'']"
proof -
  let ?r = "\<lparr>rec_source = Codex, rec_doc_id = 1, rec_ts = 2, rec_project = ''p'',
      rec_session_id = ''s'', rec_turn_id = 3, rec_role = ''assistant'', rec_text = ''abc'',
      rec_tool_name = None, rec_tool_input = Some ''de'', rec_tool_output = None,
      rec_links = default_links, rec_source_path = ''source''\<rparr>"
  have wf: "\<forall>r \<in> set [?r]. record_wf r"
    by (simp add: record_wf_def starts_char_def is_continuation_def)
  have chars: "all_chars [?r] = [''a'', ''b'', ''c'', ''d'', ''e'']"
    by (simp add: record_chars_def is_continuation_def)
  show ?thesis
    using read_records_prefix [OF wf, of 4] unfolding chars by auto
qed

section \<open>Paging through one field\<close>

text \<open>
  The client's loop over the continuations: each page is read with a fresh limit, at the offset of the
  page before it, until a page has no continuation. \<open>None\<close> is running out of fuel.
\<close>

fun read_pages :: "nat \<Rightarrow> nat \<Rightarrow> mrecord \<Rightarrow> read_field \<Rightarrow> nat \<Rightarrow> (read_error + str list) option" where
  "read_pages 0 n r fld off = None"
| "read_pages (Suc fuel) n r fld off =
    (case budget_new (Some n) of
       Inl e \<Rightarrow> Some (Inl e)
     | Inr b \<Rightarrow>
         (case budget_apply r (Some fld) off b of
            Inl e \<Rightarrow> Some (Inl e)
          | Inr (b', r', pg) \<Rightarrow>
              (case cp_continuations pg of
                 [] \<Rightarrow> Some (Inr [unwrap_or [] (field_value fld r')])
               | c # _ \<Rightarrow>
                   (case read_pages fuel n r fld (cc_offset_chars c) of
                      None \<Rightarrow> None
                    | Some (Inl e) \<Rightarrow> Some (Inl e)
                    | Some (Inr out) \<Rightarrow> Some (Inr (unwrap_or [] (field_value fld r') # out))))))"

lemma field_value_set [simp]:
  "field_value fld (set_field fld (Some v) r) = Some v"
  by (cases fld) (simp_all add: field_value_def set_field_def)

lemma field_value_set_unwrap: "unwrap_or [] (field_value fld (set_field fld v r)) = unwrap_or [] v"
  by (cases fld) (simp_all add: field_value_def set_field_def)

text \<open>
  C12: Following the continuations of a field reconstructs it: for any positive limit, the loop ends
  after at most one page per character plus one, without error, and the pages concatenate to the
  field without loss or duplication.
\<close>

theorem read_pages_reconstruct:
  assumes "0 < n" and "field_value fld r = Some v" and "off \<le> char_count v"
    and "char_count v - off < fuel"
  shows "\<exists>out. read_pages fuel n r fld off = Some (Inr out)
    \<and> concat out = char_range v off (char_count v - off)"
  using assms(3,4)
proof (induction fuel arbitrary: off)
  case 0
  then show ?case by simp
next
  case (Suc fuel)
  let ?m = "min n (char_count v - off)"
  have oc: "opt_chars (field_value fld r) = utf8_chars v" by (simp add: assms)
  have cl: "length (utf8_chars v) = char_count v" by (simp add: char_count_def)
  show ?case
  proof (cases "off + ?m < char_count v")
    case True
    then have lt: "?m = n" by simp
    have "char_count v - (off + n) < fuel" "off + n \<le> char_count v"
      using Suc.prems True assms(1) lt by auto
    then obtain out where out: "read_pages fuel n r fld (off + n) = Some (Inr out)"
        "concat out = char_range v (off + n) (char_count v - (off + n))"
      using Suc.IH [of "off + n"] by auto
    have "char_range v off n @ concat out = char_range v off (char_count v - off)"
      using True lt by (simp add: out(2) char_range_append)
    with out(1) True Suc.prems assms(1,2) show ?thesis
      by (simp add: budget_new_def budget_apply_eqs cl lt)
  next
    case False
    then have "?m = char_count v - off" using Suc.prems by simp
    with False Suc.prems assms(1,2) show ?thesis
      by (simp add: budget_new_def budget_apply_eqs cl)
  qed
qed

lemma read_pages_reconstruct_witness:
  "\<exists>out. read_pages 4 2 \<lparr>rec_source = Codex, rec_doc_id = 1, rec_ts = 2, rec_project = ''p'',
      rec_session_id = ''s'', rec_turn_id = 3, rec_role = ''assistant'', rec_text = ''abc'',
      rec_tool_name = None, rec_tool_input = None, rec_tool_output = None,
      rec_links = default_links, rec_source_path = ''source''\<rparr> RText 0 = Some (Inr out)
    \<and> concat out = ''abc''"
proof -
  let ?r = "\<lparr>rec_source = Codex, rec_doc_id = 1, rec_ts = 2, rec_project = ''p'',
      rec_session_id = ''s'', rec_turn_id = 3, rec_role = ''assistant'', rec_text = ''abc'',
      rec_tool_name = None, rec_tool_input = None, rec_tool_output = None,
      rec_links = default_links, rec_source_path = ''source''\<rparr>"
  have c: "char_count ''abc'' = 3" "char_range ''abc'' 0 3 = ''abc''"
    by (simp_all add: char_count_def char_range_def is_continuation_def)
  have "field_value RText ?r = Some ''abc''" by (simp add: field_value_def)
  then show ?thesis
    using read_pages_reconstruct [of 2 RText ?r "''abc''" 0 4] by (simp add: c)
qed

end
