(* ===== verification/Decimal.thy ===== *)
theory Decimal
  imports Prelude
begin

text \<open>
  Decimal numerals: what \<open>to_string\<close> writes of an unsigned integer and what \<open>str::parse::<u64>\<close> reads.
\<close>

text \<open>Parsing also takes a leading plus and leading zeros.\<close>

definition digit_char :: "nat \<Rightarrow> char" where
  "digit_char d = char_of (48 + d)"

definition digit_value :: "char \<Rightarrow> nat" where
  "digit_value c = of_char c - 48"

fun decimal :: "nat \<Rightarrow> str" where
  "decimal n = (if n < 10 then [digit_char n] else decimal (n div 10) @ [digit_char (n mod 10)])"

declare decimal.simps [simp del]

definition parse_u64 :: "str \<Rightarrow> nat option" where
  "parse_u64 s =
    (let ds = (case s of c # cs \<Rightarrow> if c = CHR ''+'' \<and> cs \<noteq> [] then cs else s | [] \<Rightarrow> []);
         n = foldl (\<lambda>a c. a * 10 + digit_value c) 0 ds
     in if ds = [] \<or> \<not> list_all is_ascii_digit ds \<or> 2 ^ 64 \<le> n then None else Some n)"

lemma digit_char_of_value: "is_ascii_digit c \<Longrightarrow> digit_char (digit_value c) = c"
  by (simp add: digit_char_def digit_value_def is_ascii_digit_def)

lemma digit_value_of_char: "d < 10 \<Longrightarrow> digit_value (digit_char d) = d \<and> is_ascii_digit (digit_char d)"
  by (simp add: digit_value_def digit_char_def is_ascii_digit_def of_char_of)

lemma decimal_value:
  "foldl (\<lambda>a c. a * 10 + digit_value c) 0 (decimal n) = n \<and> list_all is_ascii_digit (decimal n) \<and> decimal n \<noteq> []"
proof (induction n rule: decimal.induct)
  case (1 n)
  then show ?case
    by (cases "n < 10") (auto simp: decimal.simps [of n] digit_value_of_char)
qed

lemma plus_no_digit: "\<not> is_ascii_digit (CHR ''+'')"
  by (simp add: is_ascii_digit_def)

lemma parse_u64_decimal: "n < 2 ^ 64 \<Longrightarrow> parse_u64 (decimal n) = Some n"
proof -
  assume n: "n < 2 ^ 64"
  obtain c cs where d: "decimal n = c # cs" using decimal_value [of n] by (cases "decimal n") auto
  have "c \<noteq> CHR ''+''" using decimal_value [of n] plus_no_digit by (auto simp: d)
  then have "(case decimal n of c # cs \<Rightarrow> if c = CHR ''+'' \<and> cs \<noteq> [] then cs else decimal n | [] \<Rightarrow> []) = decimal n"
    by (simp add: d)
  then show ?thesis using decimal_value [of n] n unfolding parse_u64_def Let_def by simp
qed

lemma decimal_inject [simp]: "decimal m = decimal n \<longleftrightarrow> m = n"
  by (metis decimal_value)

end
