(* ===== verification/RecordLimits.thy ===== *)
theory RecordLimits
  imports Decimal Types
begin

text \<open>
  The limits on indexed texts of \<open>src/ingest/execution.rs\<close>: what is embedded of a message, and how the
  content of a tool call is cut in the middle to the configured number of bytes. A text is its UTF-8
  bytes; offsets are \<open>usize\<close> of 64 bits. The cutting loop has no bound in the code, so that it does not
  return is a value of the model, \<open>None\<close>.
\<close>

section \<open>Character boundaries\<close>

text \<open>\<open>str::is_char_boundary\<close>\<close>

definition is_char_boundary :: "str \<Rightarrow> nat \<Rightarrow> bool" where
  "is_char_boundary s i = (i = 0 \<or> i = length s \<or> i < length s \<and> \<not> is_continuation (s ! i))"

fun boundary_down :: "str \<Rightarrow> nat \<Rightarrow> nat" where
  "boundary_down s 0 = 0"
| "boundary_down s (Suc n) = (if is_char_boundary s (Suc n) then Suc n else boundary_down s n)"

function boundary_up :: "str \<Rightarrow> nat \<Rightarrow> nat" where
  "boundary_up s n = (if n < length s \<and> \<not> is_char_boundary s n then boundary_up s (Suc n) else n)"
  by pat_completeness auto
termination by (relation "measure (\<lambda>(s, n). length s - n)") auto

declare boundary_up.simps [simp del]

definition char_boundary_at_or_before :: "str \<Rightarrow> nat \<Rightarrow> nat" where
  "char_boundary_at_or_before s position = boundary_down s (min position (length s))"

definition char_boundary_at_or_after :: "str \<Rightarrow> nat \<Rightarrow> nat" where
  "char_boundary_at_or_after s position = boundary_up s (min position (length s))"

lemma is_char_boundary_0 [simp]: "is_char_boundary s 0"
  by (simp add: is_char_boundary_def)

lemma is_char_boundary_length [simp]: "is_char_boundary s (length s)"
  by (simp add: is_char_boundary_def)

lemma boundary_down: "is_char_boundary s (boundary_down s n) \<and> boundary_down s n \<le> n"
  by (induction s n rule: boundary_down.induct) auto

lemma boundary_up: "n \<le> length s \<Longrightarrow> is_char_boundary s (boundary_up s n) \<and> n \<le> boundary_up s n \<and> boundary_up s n \<le> length s"
proof (induction s n rule: boundary_up.induct)
  case (1 s n)
  show ?case
  proof (cases "n < length s \<and> \<not> is_char_boundary s n")
    case True
    then have e: "boundary_up s n = boundary_up s (Suc n)" by (simp add: boundary_up.simps [of s n])
    have "Suc n \<le> length s" using True by simp
    with 1 True have "is_char_boundary s (boundary_up s (Suc n)) \<and> Suc n \<le> boundary_up s (Suc n)
        \<and> boundary_up s (Suc n) \<le> length s" by blast
    then show ?thesis by (simp add: e)
  next
    case False
    then show ?thesis using 1(2) by (auto simp: boundary_up.simps [of s n])
  qed
qed

lemma boundary_at_or_before:
  "is_char_boundary s (char_boundary_at_or_before s p)"
  "char_boundary_at_or_before s p \<le> p"
  "char_boundary_at_or_before s p \<le> length s"
  using boundary_down [of s "min p (length s)"] by (auto simp: char_boundary_at_or_before_def)

lemma boundary_at_or_after:
  "is_char_boundary s (char_boundary_at_or_after s p)"
  "min p (length s) \<le> char_boundary_at_or_after s p"
  "char_boundary_at_or_after s p \<le> length s"
  using boundary_up [of "min p (length s)" s] by (auto simp: char_boundary_at_or_after_def)

text \<open>The nearest boundaries around a position, from the boundaries that enclose it.\<close>

lemma boundary_down_eq:
  "is_char_boundary s b \<Longrightarrow> b \<le> n \<Longrightarrow> (\<And>i. b < i \<Longrightarrow> i \<le> n \<Longrightarrow> \<not> is_char_boundary s i) \<Longrightarrow> boundary_down s n = b"
proof (induction n)
  case (Suc n)
  show ?case
  proof (cases "b = Suc n")
    case False
    then have "\<not> is_char_boundary s (Suc n)" using Suc.prems by auto
    then show ?thesis using Suc False by auto
  qed (use Suc.prems in simp)
qed simp

lemma boundary_up_eq:
  "is_char_boundary s b \<Longrightarrow> n \<le> b \<Longrightarrow> b \<le> length s \<Longrightarrow> (\<And>i. n \<le> i \<Longrightarrow> i < b \<Longrightarrow> \<not> is_char_boundary s i) \<Longrightarrow>
    boundary_up s n = b"
proof (induction s n rule: boundary_up.induct)
  case (1 s n)
  show ?case
  proof (cases "n = b")
    case False
    then have n: "n < length s \<and> \<not> is_char_boundary s n" using 1(3-5) by auto
    have "boundary_up s (Suc n) = b" using 1(1) [OF n] 1(2-5) False by auto
    then show ?thesis using n by (simp add: boundary_up.simps [of s n])
  qed (use 1(2) in \<open>simp add: boundary_up.simps [of s b]\<close>)
qed

lemma boundary_up_le: "is_char_boundary s b \<Longrightarrow> n \<le> b \<Longrightarrow> b \<le> length s \<Longrightarrow> boundary_up s n \<le> b"
proof (induction s n rule: boundary_up.induct)
  case (1 s n)
  show ?case
  proof (cases "n < length s \<and> \<not> is_char_boundary s n")
    case True
    then have "boundary_up s (Suc n) \<le> b" using 1 by (cases "n = b") auto
    then show ?thesis using True by (simp add: boundary_up.simps [of s n])
  qed (use 1(3) in \<open>auto simp: boundary_up.simps [of s n]\<close>)
qed

lemma before_eq:
  assumes "is_char_boundary s b" "b \<le> p" "p \<le> length s"
    and "\<And>i. b < i \<Longrightarrow> i \<le> p \<Longrightarrow> \<not> is_char_boundary s i"
  shows "char_boundary_at_or_before s p = b"
  using boundary_down_eq [OF assms(1,2,4)] assms(3) by (simp add: char_boundary_at_or_before_def min_absorb1)

lemma after_eq:
  assumes "is_char_boundary s b" "p \<le> b" "b \<le> length s"
    and "\<And>i. p \<le> i \<Longrightarrow> i < b \<Longrightarrow> \<not> is_char_boundary s i"
  shows "char_boundary_at_or_after s p = b"
  using boundary_up_eq [OF assms] assms(2,3) by (simp add: char_boundary_at_or_after_def min_absorb1)

section \<open>Truncation\<close>

definition embed_max_chars :: nat where "embed_max_chars = 8192"
definition retained_head_percent :: nat where "retained_head_percent = 75"

definition truncate_for_embedding :: "str \<Rightarrow> str" where
  "truncate_for_embedding s =
    (if length s \<le> embed_max_chars then s
     else take (boundary_down s (min embed_max_chars (length s))) s)"

definition truncation_marker :: "nat \<Rightarrow> str" where
  "truncation_marker omitted =
    [CHR 0x0A, CHR 0x0A] @ ''[... '' @ decimal omitted @ '' bytes truncated ...]'' @ [CHR 0x0A, CHR 0x0A]"

definition usize_sat_mul :: "nat \<Rightarrow> nat \<Rightarrow> nat" where
  "usize_sat_mul a b = min (a * b) (2 ^ 64 - 1)"

text \<open>The two cuts that a marker of a given length leaves room for.\<close>

definition truncation_cuts :: "str \<Rightarrow> nat \<Rightarrow> nat \<Rightarrow> nat \<times> nat" where
  "truncation_cuts s max_bytes marker_bytes =
    (let retained = max_bytes - marker_bytes;
         head_target = usize_sat_mul retained retained_head_percent div 100;
         head_end = char_boundary_at_or_before s head_target;
         tail_target = retained - head_end;
         tail_start = char_boundary_at_or_after s (length s - tail_target)
     in (head_end, tail_start))"

partial_function (option) truncation_loop :: "str \<Rightarrow> nat \<Rightarrow> str \<Rightarrow> (nat \<times> nat \<times> str) option" where
  "truncation_loop s max_bytes marker =
    (let (head_end, tail_start) = truncation_cuts s max_bytes (length marker);
         updated = truncation_marker (tail_start - head_end)
     in if length updated = length marker then Some (head_end, tail_start, updated)
        else truncation_loop s max_bytes updated)"

definition truncate_for_index :: "str \<Rightarrow> nat \<Rightarrow> str option" where
  "truncate_for_index s max_bytes =
    (if length s \<le> max_bytes then Some s
     else case truncation_loop s max_bytes (truncation_marker (length s)) of
            None \<Rightarrow> None
          | Some (head_end, tail_start, marker) \<Rightarrow> Some (take head_end s @ marker @ drop tail_start s))"

text \<open>
  A record's limits: the text by its role, the tool input and output each by their own. The answer says
  which of the two became shorter.
\<close>

record tool_content_limits =
  tl_input_bytes :: nat
  tl_output_bytes :: nat

definition default_tool_content_limits :: tool_content_limits where
  "default_tool_content_limits = \<lparr>tl_input_bytes = 64 * 1024, tl_output_bytes = 256 * 1024\<rparr>"

definition text_limit :: "tool_content_limits \<Rightarrow> mrecord \<Rightarrow> nat option" where
  "text_limit limits r =
    (if rec_role r = ''tool_use'' then Some (tl_input_bytes limits)
     else if rec_role r = ''tool_result'' then Some (tl_output_bytes limits)
     else if rec_tool_output r \<noteq> None then Some (tl_output_bytes limits)
     else if rec_tool_input r \<noteq> None then Some (tl_input_bytes limits)
     else None)"

definition truncate_field :: "nat \<Rightarrow> str option \<Rightarrow> str option option" where
  "truncate_field max_bytes field =
    (case field of None \<Rightarrow> Some None | Some s \<Rightarrow> map_option Some (truncate_for_index s max_bytes))"

definition shortened :: "str option \<Rightarrow> str option \<Rightarrow> bool" where
  "shortened before after =
    is_some_and (\<lambda>(b, a). a < b) (opt_zip (map_option length before) (map_option length after))"

definition limit_record_tool_content :: "tool_content_limits \<Rightarrow> mrecord \<Rightarrow> (mrecord \<times> bool \<times> bool) option" where
  "limit_record_tool_content limits r =
    (case (case text_limit limits r of None \<Rightarrow> Some (rec_text r)
           | Some max_bytes \<Rightarrow> truncate_for_index (rec_text r) max_bytes) of
       None \<Rightarrow> None
     | Some s \<Rightarrow>
         (case truncate_field (tl_input_bytes limits) (rec_tool_input r) of
            None \<Rightarrow> None
          | Some input \<Rightarrow>
              (case truncate_field (tl_output_bytes limits) (rec_tool_output r) of
                 None \<Rightarrow> None
               | Some output \<Rightarrow>
                   Some (r\<lparr>rec_text := s, rec_tool_input := input, rec_tool_output := output\<rparr>,
                         shortened (rec_tool_input r) input, shortened (rec_tool_output r) output))))"

definition is_embedding_role :: "str \<Rightarrow> bool" where
  "is_embedding_role role \<longleftrightarrow> role = ''user'' \<or> role = ''assistant''"

text \<open>How the configuration sets the limits; an error names the key that is too small.\<close>

definition min_indexed_tool_content_bytes :: nat where "min_indexed_tool_content_bytes = 1024"

definition indexed_tool_content_limit :: "nat option \<Rightarrow> nat \<Rightarrow> str \<Rightarrow> str + nat" where
  "indexed_tool_content_limit configured dflt key =
    (let v = unwrap_or dflt configured
     in if v < min_indexed_tool_content_bytes
        then Inl (key @ '' must be at least '' @ decimal min_indexed_tool_content_bytes @ '' bytes'')
        else Inr v)"

definition indexed_tool_content_limits :: "nat option \<Rightarrow> nat option \<Rightarrow> str + tool_content_limits" where
  "indexed_tool_content_limits max_input max_output =
    (case indexed_tool_content_limit max_input (tl_input_bytes default_tool_content_limits)
        ''max_indexed_tool_input_bytes'' of
       Inl e \<Rightarrow> Inl e
     | Inr input \<Rightarrow>
         (case indexed_tool_content_limit max_output (tl_output_bytes default_tool_content_limits)
             ''max_indexed_tool_output_bytes'' of
            Inl e \<Rightarrow> Inl e
          | Inr output \<Rightarrow> Inr \<lparr>tl_input_bytes = input, tl_output_bytes = output\<rparr>))"

section \<open>What a cut keeps\<close>

lemma head_target_le: "usize_sat_mul n retained_head_percent div 100 \<le> n"
proof -
  have "usize_sat_mul n retained_head_percent \<le> n * 75" by (simp add: usize_sat_mul_def retained_head_percent_def)
  then have "usize_sat_mul n retained_head_percent div 100 \<le> n * 75 div 100" by (rule div_le_mono)
  then show ?thesis by linarith
qed

lemma truncation_cuts:
  assumes "truncation_cuts s m k = (h, t)"
  shows "is_char_boundary s h" "is_char_boundary s t" "t \<le> length s" "h + (length s - t) \<le> m - k"
    "m < length s \<Longrightarrow> h \<le> t"
proof -
  let ?r = "m - k"
  let ?p = "length s - (?r - h)"
  have h: "h = char_boundary_at_or_before s (usize_sat_mul ?r retained_head_percent div 100)"
    and t: "t = char_boundary_at_or_after s ?p"
    using assms by (auto simp: truncation_cuts_def Let_def)
  show "is_char_boundary s h" "is_char_boundary s t" "t \<le> length s"
    unfolding h t by (rule boundary_at_or_before boundary_at_or_after)+
  have hr: "h \<le> ?r" unfolding h using boundary_at_or_before(2) head_target_le le_trans by blast
  have pt: "?p \<le> t" unfolding t using boundary_at_or_after(2) [of ?p s] by simp
  show "h + (length s - t) \<le> ?r" using hr pt by linarith
  show "h \<le> t" if "m < length s" using hr pt that by linarith
qed

definition settled_cut :: "str \<Rightarrow> nat \<Rightarrow> nat \<times> nat \<times> str \<Rightarrow> bool" where
  "settled_cut s m y = (case y of (h, t, u) \<Rightarrow> u = truncation_marker (t - h) \<and> truncation_cuts s m (length u) = (h, t))"

lemma truncation_loop_result: "truncation_loop s m k = Some y \<Longrightarrow> settled_cut s m y"
proof (rule truncation_loop.raw_induct [of "\<lambda>s m k y. settled_cut s m y", rotated])
  fix loop s m k y
  assume again: "\<And>s m k y. loop s m k = Some y \<Longrightarrow> settled_cut s m y"
    and this_turn: "(let (h, t) = truncation_cuts s m (length k); u = truncation_marker (t - h)
      in if length u = length k then Some (h, t, u) else loop s m u) = Some y"
  obtain h t where c: "truncation_cuts s m (length k) = (h, t)" by fastforce
  show "settled_cut s m y"
  proof (cases "length (truncation_marker (t - h)) = length k")
    case True
    then show ?thesis using this_turn c by (auto simp: Let_def settled_cut_def)
  next
    case False
    then have "loop s m (truncation_marker (t - h)) = Some y" using this_turn c by (simp add: Let_def)
    then show ?thesis by (rule again)
  qed
qed

lemma truncation_loop_Some:
  "truncation_loop s m k = Some (h, t, u) \<Longrightarrow> u = truncation_marker (t - h) \<and> truncation_cuts s m (length u) = (h, t)"
  by (drule truncation_loop_result) (unfold settled_cut_def prod.case)

lemma truncation_marker_length [simp]: "length (truncation_marker n) = 30 + length (decimal n)"
  by (simp add: truncation_marker_def)

lemma decimal_length_le: "0 < k \<Longrightarrow> n < 10 ^ k \<Longrightarrow> length (decimal n) \<le> k"
proof (induction n arbitrary: k rule: decimal.induct)
  case (1 n)
  show ?case
  proof (cases "n < 10")
    case True
    then show ?thesis using 1(2) by (simp add: decimal.simps [of n])
  next
    case False
    obtain j where k: "k = Suc j" using 1(2) by (cases k) auto
    have j: "0 < j" using False 1(3) by (cases j) (auto simp: k)
    have "n div 10 < 10 ^ j" using 1(3) by (simp add: k less_mult_imp_div_less mult.commute)
    then have "length (decimal (n div 10)) \<le> j" using 1(1) False j by simp
    then show ?thesis using False by (simp add: decimal.simps [of n] k)
  qed
qed

lemma decimal_length_ge: "10 ^ k \<le> n \<Longrightarrow> Suc k \<le> length (decimal n)"
proof (induction n arbitrary: k rule: decimal.induct)
  case (1 n)
  show ?case
  proof (cases k)
    case 0
    then show ?thesis using decimal_value [of n] by (cases "decimal n") auto
  next
    case (Suc j)
    have n: "\<not> n < 10" using 1(2) one_le_power [of "10 :: nat" j] unfolding Suc power_Suc by linarith
    have "10 ^ j \<le> n div 10" using 1(2) by (simp add: Suc less_eq_div_iff_mult_less_eq mult.commute)
    then have "Suc j \<le> length (decimal (n div 10))" using 1(1) n by simp
    then show ?thesis using n by (simp add: decimal.simps [of n] Suc)
  qed
qed

lemma decimal_length_mono: "a \<le> b \<Longrightarrow> length (decimal a) \<le> length (decimal b)"
proof -
  assume ab: "a \<le> b"
  obtain j where j: "length (decimal a) = Suc j" using decimal_value [of a] by (cases "decimal a") auto
  have "10 ^ j \<le> a \<or> j = 0"
  proof (rule ccontr)
    assume "\<not> (10 ^ j \<le> a \<or> j = 0)"
    then have "length (decimal a) \<le> j" using decimal_length_le [of j a] by simp
    then show False using j by simp
  qed
  then show ?thesis
  proof
    assume "10 ^ j \<le> a"
    then show ?thesis using decimal_length_ge [of j b] ab j by simp
  next
    assume "j = 0"
    then show ?thesis using j decimal_value [of b] by (cases "decimal b") auto
  qed
qed

text \<open>
  A text cut for the index is the text itself when it fits, and otherwise a prefix and a suffix of it that
  end and begin at character boundaries, around the marker that counts exactly the bytes left out.
\<close>

definition cut_of :: "nat \<Rightarrow> str \<Rightarrow> str \<Rightarrow> bool" where
  "cut_of max_bytes s out \<longleftrightarrow> length out \<le> max_bytes
    \<and> (if length s \<le> max_bytes then out = s
       else \<exists>h t. h \<le> t \<and> t \<le> length s \<and> is_char_boundary s h \<and> is_char_boundary s t
         \<and> out = take h s @ truncation_marker (t - h) @ drop t s)"

lemma truncate_for_index_bounds:
  assumes "truncate_for_index s max_bytes = Some out" "1024 \<le> max_bytes" "length s < 2 ^ 64"
  shows "cut_of max_bytes s out"
proof (cases "length s \<le> max_bytes")
  case True
  then show ?thesis using assms by (simp add: truncate_for_index_def cut_of_def)
next
  case False
  then obtain h t u where l: "truncation_loop s max_bytes (truncation_marker (length s)) = Some (h, t, u)"
    and out: "out = take h s @ u @ drop t s"
    using assms(1) by (auto simp: truncate_for_index_def split: option.splits)
  note r = truncation_loop_Some [OF l]
  note c = truncation_cuts [OF conjunct2 [OF r]]
  have ht: "h \<le> t" using c(5) False by simp
  have "t - h < 10 ^ 20" using c(3) assms(3) by (simp add: less_imp_diff_less)
  then have "length u \<le> 50" using decimal_length_le [of 20 "t - h"] r by simp
  then have "length out \<le> max_bytes" using c(3,4) ht assms(2) unfolding out by simp
  then show ?thesis using False r c ht out unfolding cut_of_def by auto
qed

lemma ascii_boundary: "\<forall>c \<in> set s. \<not> is_continuation c \<Longrightarrow> i \<le> length s \<Longrightarrow> is_char_boundary s i"
  by (cases "i < length s") (auto simp: is_char_boundary_def)

lemma ascii_cuts:
  assumes "\<forall>c \<in> set s. \<not> is_continuation c" "m < length s" "truncation_cuts s m k = (h, t)"
  shows "t - h = length s - (m - k)"
proof -
  define r where "r = m - k"
  define target where "target = usize_sat_mul r retained_head_percent div 100"
  have tl: "target \<le> r" unfolding target_def by (rule head_target_le)
  have rs: "r \<le> length s" using assms(2) by (simp add: r_def)
  have b: "is_char_boundary s i" if "i \<le> length s" for i using ascii_boundary [OF assms(1) that] .
  have "char_boundary_at_or_before s target = target"
    by (rule before_eq) (use tl rs b in auto)
  moreover have "char_boundary_at_or_after s (length s - (r - target)) = length s - (r - target)"
    by (rule after_eq) (use b in auto)
  ultimately have "h = target" "t = length s - (r - target)"
    using assms(3) by (auto simp: truncation_cuts_def Let_def r_def target_def)
  then show ?thesis using tl rs by (simp add: r_def [symmetric])
qed

lemma ascii_loop_returns:
  assumes "\<forall>c \<in> set s. \<not> is_continuation c" "m < length s"
    and "30 + length (decimal (length s - (m - length k))) \<le> length k"
  shows "\<exists>y. truncation_loop s m k = Some y"
  using assms(3)
proof (induction "length k" arbitrary: k rule: less_induct)
  case less
  obtain h t where c: "truncation_cuts s m (length k) = (h, t)" by fastforce
  note om = ascii_cuts [OF assms(1,2) c]
  let ?u = "truncation_marker (t - h)"
  have le: "length ?u \<le> length k" using less.prems by (simp add: om)
  show ?case
  proof (cases "length ?u = length k")
    case True
    then show ?thesis using c by (simp add: truncation_loop.simps [of s m k] Let_def)
  next
    case False
    have "length s - (m - length ?u) \<le> t - h" using le by (simp add: om)
    then have "30 + length (decimal (length s - (m - length ?u))) \<le> length ?u"
      using decimal_length_mono by simp
    then have "\<exists>y. truncation_loop s m ?u = Some y" using less.hyps le False by simp
    then show ?thesis using False c by (simp add: truncation_loop.simps [of s m k] Let_def del: truncation_marker_length)
  qed
qed

text \<open>
  Cutting a text of single-byte characters always returns: each round of the loop leaves out no more
  than the round before, so the length of the marker settles.
\<close>

lemma truncate_for_index_ascii:
  assumes "\<forall>c \<in> set s. \<not> is_continuation c"
  shows "\<exists>out. truncate_for_index s max_bytes = Some out"
proof (cases "length s \<le> max_bytes")
  case True
  then show ?thesis by (simp add: truncate_for_index_def)
next
  case False
  have "length s - (max_bytes - length (truncation_marker (length s))) \<le> length s" by simp
  then have "30 + length (decimal (length s - (max_bytes - length (truncation_marker (length s)))))
      \<le> length (truncation_marker (length s))"
    using decimal_length_mono by simp
  then obtain y where "truncation_loop s max_bytes (truncation_marker (length s)) = Some y"
    using ascii_loop_returns [OF assms] False by fastforce
  then show ?thesis using False by (cases y) (simp add: truncate_for_index_def)
qed

section \<open>A text on which the loop does not return\<close>

text \<open>
  Four characters of more than one byte make the loop alternate between two markers. With the longer
  marker the head ends before the first of them and 99 bytes are left out, so the shorter marker would
  do; with that one the head takes the character in, the tail then starts after the other two, and 100
  bytes are left out, which needs the longer marker again. Everything else is the letter \<open>a\<close>.
\<close>

definition hanging_chars :: "nat \<Rightarrow> str list" where
  "hanging_chars max_bytes =
    (let retained = max_bytes - 33; head = 3 * retained div 4
     in replicate (head - 3) ''a'' @ [map char_of [0xF0 :: nat, 0x9F, 0x98, 0x80]] @ replicate 95 ''a''
        @ [map char_of [0xC3 :: nat, 0xA9], map char_of [0xE2 :: nat, 0x82, 0xAC]]
        @ replicate (retained - head - 2) ''a'')"

definition hanging_text :: "nat \<Rightarrow> str" where
  "hanging_text max_bytes = concat (hanging_chars max_bytes)"

lemma head_target_eq: "n \<le> 2 ^ 50 \<Longrightarrow> usize_sat_mul n retained_head_percent div 100 = 3 * n div 4"
proof -
  assume "n \<le> 2 ^ 50"
  then have "usize_sat_mul n retained_head_percent = 25 * (3 * n)"
    by (simp add: usize_sat_mul_def retained_head_percent_def)
  then show ?thesis using div_mult_mult1 [of 25 "3 * n" 4] by simp
qed

lemma hanging_text_blocks:
  "hanging_text m = replicate (3 * (m - 33) div 4 - 3) (CHR ''a'') @ map char_of [0xF0 :: nat, 0x9F, 0x98, 0x80]
    @ replicate 95 (CHR ''a'') @ map char_of [0xC3 :: nat, 0xA9, 0xE2, 0x82, 0xAC]
    @ replicate (m - 33 - 3 * (m - 33) div 4 - 2) (CHR ''a'')"
proof -
  have c: "concat (replicate n ''a'') = replicate n (CHR ''a'')" for n by (induction n) auto
  show ?thesis by (simp add: hanging_text_def hanging_chars_def Let_def c)
qed

lemma hanging_shape:
  assumes h: "h = 3 * (m - 33) div 4" and m: "1024 \<le> m"
  shows "length (hanging_text m) = m + 66"
    and "i \<le> m + 66 \<Longrightarrow> is_char_boundary (hanging_text m) i
      \<longleftrightarrow> i \<notin> {h - 2, h - 1, h, h + 97, h + 99, h + 100}"
proof -
  define B where "B = m - 33 - h - 2"
  obtain A where A: "h = A + 3" using h m by (intro that [of "h - 3"]) auto
  have B: "A + 104 + B = m + 66" using h m A by (simp add: B_def)
  have s: "hanging_text m = replicate A (CHR ''a'') @ map char_of [0xF0 :: nat, 0x9F, 0x98, 0x80]
      @ replicate 95 (CHR ''a'') @ map char_of [0xC3 :: nat, 0xA9, 0xE2, 0x82, 0xAC] @ replicate B (CHR ''a'')"
    unfolding hanging_text_blocks h [symmetric] B_def [symmetric] by (simp add: A)
  show len: "length (hanging_text m) = m + 66" using B by (simp add: s)
  define C :: nat where "C = 95"
  define E F :: str where "E = map char_of [0xF0 :: nat, 0x9F, 0x98, 0x80]"
    and "F = map char_of [0xC3 :: nat, 0xA9, 0xE2, 0x82, 0xAC]"
  have s': "hanging_text m = replicate A (CHR ''a'') @ E @ replicate C (CHR ''a'') @ F @ replicate B (CHR ''a'')"
    by (simp only: s C_def E_def F_def)
  have lengths: "length E = 4" "length F = 5" "C = 95" by (simp_all add: E_def F_def C_def)
  have "\<forall>j \<in> {0, 1, 2, 3}. is_continuation (E ! j) \<longleftrightarrow> j \<noteq> 0"
    "\<forall>j \<in> {0, 1, 2, 3, 4}. is_continuation (F ! j) \<longleftrightarrow> j \<noteq> 0 \<and> j \<noteq> 2"
    by (simp_all add: E_def F_def is_continuation_def)
  moreover have "j < 4 \<Longrightarrow> j \<in> {0, 1, 2, 3}" "j < 5 \<Longrightarrow> j \<in> {0, 1, 2, 3, 4}" for j :: nat by auto
  ultimately have cont: "\<not> is_continuation (CHR ''a'')"
    "j < 4 \<Longrightarrow> is_continuation (E ! j) \<longleftrightarrow> j \<noteq> 0" "j < 5 \<Longrightarrow> is_continuation (F ! j) \<longleftrightarrow> j \<noteq> 0 \<and> j \<noteq> 2" for j
    by (simp add: is_continuation_def, blast, blast)
  have "is_continuation (hanging_text m ! i) \<longleftrightarrow> i \<in> {A + 1, A + 2, A + 3, A + 100, A + 102, A + 103}" if "i < m + 66"
  proof -
    consider "i < A" | "i \<in> {A, A + 1, A + 2, A + 3}" | "A + 4 \<le> i" "i < A + 99"
      | "i \<in> {A + 99, A + 100, A + 101, A + 102, A + 103}" | "A + 104 \<le> i"
      by fastforce
    then show ?thesis
    proof cases
      case 1
      then show ?thesis by (simp add: s' nth_append cont)
    next
      case 2
      then obtain j where "i = A + j" "j < 4" by auto
      then show ?thesis by (auto simp: s' nth_append cont lengths)
    next
      case 3
      then show ?thesis by (simp add: s' nth_append cont lengths)
    next
      case 4
      then obtain j where "i = A + 99 + j" "j < 5" by force
      then show ?thesis by (auto simp: s' nth_append cont lengths)
    next
      case 5
      then have "i - A - 104 < B" using that B by linarith
      then show ?thesis using 5 by (simp add: s' nth_append cont lengths)
    qed
  qed
  note cont_iff = this
  have "{h - 2, h - 1, h, h + 97, h + 99, h + 100} = {A + 1, A + 2, A + 3, A + 100, A + 102, A + 103}"
    by (simp add: A add.commute)
  note positions = this
  show "is_char_boundary (hanging_text m) i \<longleftrightarrow> i \<notin> {h - 2, h - 1, h, h + 97, h + 99, h + 100}" if "i \<le> m + 66"
  proof (cases "i = m + 66")
    case True
    have "m + 66 \<notin> {A + 1, A + 2, A + 3, A + 100, A + 102, A + 103}" using B by auto
    then show ?thesis unfolding positions True using is_char_boundary_length [of "hanging_text m"] len by simp
  next
    case False
    then have "i < m + 66" using that by simp
    then show ?thesis unfolding positions is_char_boundary_def len using cont_iff by auto
  qed
qed

text \<open>The three rounds: with a marker of 33 bytes, of 32, and of the one the loop begins with.\<close>

lemma hanging_cuts:
  assumes m: "1024 \<le> m" "m \<le> 2 ^ 50" "m mod 4 \<noteq> 1" and h: "h = 3 * (m - 33) div 4"
  shows "truncation_cuts (hanging_text m) m 33 = (h - 3, h + 96)"
    and "truncation_cuts (hanging_text m) m 32 = (h + 1, h + 101)"
proof -
  note shape = hanging_shape [OF h m(1)]
  have h3: "743 \<le> h" "h + 2 \<le> m - 33" using m(1) h by auto
  have next_head: "3 * (m - 32) div 4 = h + 1"
  proof -
    obtain r where r: "m = r + 33" using m(1) by (intro that [of "m - 33"]) simp
    have "3 * Suc r div 4 = 3 * r div 4 + 1" using m(3) unfolding r by presburger
    then show ?thesis by (simp add: h r)
  qed
  have t33: "usize_sat_mul (m - 33) retained_head_percent div 100 = h"
    using head_target_eq [of "m - 33"] m(2) h by simp
  have t32: "usize_sat_mul (m - 32) retained_head_percent div 100 = h + 1"
    using head_target_eq [of "m - 32"] m(2) next_head by simp
  have b: "is_char_boundary (hanging_text m) i \<longleftrightarrow> i \<notin> {h - 2, h - 1, h, h + 97, h + 99, h + 100}" if "i \<le> m + 66" for i
    by (rule shape(2) [OF that])
  have "char_boundary_at_or_before (hanging_text m) h = h - 3"
    by (rule before_eq) (use h3 shape(1) b in auto)
  moreover have "char_boundary_at_or_after (hanging_text m) (h + 96) = h + 96"
    by (rule after_eq) (use h3 shape(1) b in auto)
  moreover have "length (hanging_text m) - (m - 33 - (h - 3)) = h + 96" using h3 m(1) shape(1) by simp
  ultimately show "truncation_cuts (hanging_text m) m 33 = (h - 3, h + 96)"
    by (simp add: truncation_cuts_def t33 Let_def)
  have "char_boundary_at_or_before (hanging_text m) (h + 1) = h + 1"
    by (rule before_eq) (use h3 shape(1) b in auto)
  moreover have "char_boundary_at_or_after (hanging_text m) (h + 99) = h + 101"
  proof (rule after_eq)
    fix i assume "h + 99 \<le> i" "i < h + 101"
    then have "i = h + 99 \<or> i = h + 100" by auto
    then show "\<not> is_char_boundary (hanging_text m) i" using b h3 by auto
  qed (use h3 shape(1) b in auto)
  moreover have "length (hanging_text m) - (m - 32 - (h + 1)) = h + 99" using h3 m(1) shape(1) by simp
  ultimately show "truncation_cuts (hanging_text m) m 32 = (h + 1, h + 101)"
    by (simp add: truncation_cuts_def t32 Let_def)
qed

lemma hanging_first_cut:
  assumes m: "1024 \<le> m" "m \<le> 2 ^ 50" and c: "truncation_cuts (hanging_text m) m (30 + length (decimal (m + 66))) = (h', t')"
  shows "100 \<le> t' - h'" "t' - h' < 1000"
proof -
  define h where "h = 3 * (m - 33) div 4"
  note shape = hanging_shape [OF h_def m(1)]
  let ?k = "30 + length (decimal (m + 66))"
  let ?p = "m + 66 - (m - ?k - h')"
  have d: "4 \<le> length (decimal (m + 66))" "length (decimal (m + 66)) \<le> 20"
    using decimal_length_ge [of 3 "m + 66"] decimal_length_le [of 20 "m + 66"] m by simp_all
  note cut = truncation_cuts [OF c]
  have "h' + (m + 66 - t') \<le> m - ?k" using cut(4) shape(1) by simp
  then show "100 \<le> t' - h'" using d m(1) cut(3) shape(1) by linarith
  have h': "h' \<le> m - ?k" using cut(4) by simp
  have t': "t' = boundary_up (hanging_text m) ?p"
    using c shape(1) by (auto simp: truncation_cuts_def Let_def char_boundary_at_or_after_def min_absorb1)
  have "\<exists>b \<ge> ?p. b \<le> ?p + 3 \<and> b \<le> m + 66 \<and> is_char_boundary (hanging_text m) b"
  proof (cases "?p + 3 < m + 66")
    case True
    have h3: "743 \<le> h" using m(1) by (simp add: h_def)
    have "\<exists>b \<ge> ?p. b \<le> ?p + 3 \<and> b \<notin> {h - 2, h - 1, h, h + 97, h + 99, h + 100}"
    proof -
      consider "?p \<in> {h - 2, h - 1, h}" | "?p = h + 97" | "?p \<in> {h + 99, h + 100}"
        | "?p \<notin> {h - 2, h - 1, h, h + 97, h + 99, h + 100}" by fastforce
      then show ?thesis
      proof cases
        case 1
        then show ?thesis using h3 by (intro exI [of _ "h + 1"]) auto
      next
        case 2
        then show ?thesis by (intro exI [of _ "h + 98"]) auto
      next
        case 3
        then show ?thesis by (intro exI [of _ "h + 101"]) auto
      next
        case 4
        then show ?thesis by (intro exI [of _ ?p]) auto
      qed
    qed
    then show ?thesis using shape(2) True by (meson le_trans less_imp_le)
  next
    case False
    then show ?thesis using shape(1) is_char_boundary_length [of "hanging_text m"]
      by (intro exI [of _ "m + 66"]) auto
  qed
  then obtain b where b: "?p \<le> b" "b \<le> ?p + 3" "b \<le> m + 66" "is_char_boundary (hanging_text m) b" by blast
  have "t' \<le> b" unfolding t' by (rule boundary_up_le) (use b shape(1) in auto)
  then show "t' - h' < 1000" using b h' d m(1) by linarith
qed

definition in_cycle :: "nat \<Rightarrow> str \<Rightarrow> nat \<Rightarrow> str \<Rightarrow> bool" where
  "in_cycle m s n k \<longleftrightarrow> s = hanging_text m \<and> n = m \<and> length k \<in> {32, 33, 30 + length (decimal (m + 66))}"

lemma hanging_loop:
  assumes m: "1024 \<le> m" "m \<le> 2 ^ 50" "m mod 4 \<noteq> 1"
  shows "truncation_loop s n k = Some y \<Longrightarrow> \<not> in_cycle m s n k"
proof (rule truncation_loop.raw_induct [of "\<lambda>s n k y. \<not> in_cycle m s n k", rotated])
  fix loop :: "str \<Rightarrow> nat \<Rightarrow> str \<Rightarrow> (nat \<times> nat \<times> str) option" and s n and k :: str and y
  assume again: "\<And>s n k y. loop s n k = Some y \<Longrightarrow> \<not> in_cycle m s n k"
    and this_turn: "(let (h, t) = truncation_cuts s n (length k); u = truncation_marker (t - h)
      in if length u = length k then Some (h, t, u) else loop s n u) = Some y"
  show "\<not> in_cycle m s n k"
  proof
    assume "in_cycle m s n k"
    then have at: "s = hanging_text m" "n = m" "length k \<in> {32, 33, 30 + length (decimal (m + 66))}"
      by (simp_all add: in_cycle_def)
    obtain h t where c: "truncation_cuts (hanging_text m) m (length k) = (h, t)" by fastforce
    note cuts = hanging_cuts [OF m refl]
    have two: "length (decimal 99) = 2" and three: "100 \<le> o' \<Longrightarrow> o' < 1000 \<Longrightarrow> length (decimal o') = 3" for o'
      using decimal_length_le [of 2 99] decimal_length_ge [of 1 99] decimal_length_le [of 3 o'] decimal_length_ge [of 2 o'] by simp_all
    have other: "length (truncation_marker (t - h)) \<in> {32, 33} \<and> length (truncation_marker (t - h)) \<noteq> length k"
    proof -
      have "4 \<le> length (decimal (m + 66))" using decimal_length_ge [of 3 "m + 66"] m(1) by simp
      moreover have "743 \<le> 3 * (m - 33) div 4" using m(1) by auto
      ultimately consider "length k = 33" "t - h = 99" | "length k = 32" "t - h = 100"
        | "34 \<le> length k" "100 \<le> t - h" "t - h < 1000"
        using at(3) c cuts hanging_first_cut [OF m(1,2), of h t] by (auto)
      then show ?thesis by cases (use two three in simp_all)
    qed
    have "loop s n (truncation_marker (t - h)) = Some y"
      using this_turn c at(1,2) other by (simp add: Let_def del: truncation_marker_length)
    then show False using again at(1,2) other unfolding in_cycle_def by blast
  qed
qed



section \<open>Records\<close>

lemma limit_record_fields:
  assumes "limit_record_tool_content limits r = Some (r', cut_input, cut_output)"
  shows "\<exists>s input output.
    (case text_limit limits r of None \<Rightarrow> Some (rec_text r) | Some n \<Rightarrow> truncate_for_index (rec_text r) n) = Some s
    \<and> truncate_field (tl_input_bytes limits) (rec_tool_input r) = Some input
    \<and> truncate_field (tl_output_bytes limits) (rec_tool_output r) = Some output
    \<and> r' = r\<lparr>rec_text := s, rec_tool_input := input, rec_tool_output := output\<rparr>
    \<and> cut_input = shortened (rec_tool_input r) input \<and> cut_output = shortened (rec_tool_output r) output"
  using assms unfolding limit_record_tool_content_def by (auto split: option.splits)

definition field_cut :: "nat \<Rightarrow> str option \<Rightarrow> str option \<Rightarrow> bool \<Rightarrow> bool" where
  "field_cut max_bytes before after flag \<longleftrightarrow>
    rel_option (cut_of max_bytes) before after
    \<and> flag = is_some_and (\<lambda>b. max_bytes < length b) before"

lemma truncate_field_cut:
  assumes "truncate_field n before = Some after" "1024 \<le> n" "is_none_or (\<lambda>b. length b < 2 ^ 64) before"
  shows "field_cut n before after (shortened before after)"
proof (cases before)
  case None
  then show ?thesis using assms(1) by (simp add: truncate_field_def field_cut_def shortened_def opt_zip_def)
next
  case (Some b)
  then obtain a where a: "after = Some a" "truncate_for_index b n = Some a"
    using assms(1) by (auto simp: truncate_field_def)
  have c: "cut_of n b a" using truncate_for_index_bounds [OF a(2) assms(2)] assms(3) by (simp add: Some)
  moreover have "length a < length b \<longleftrightarrow> n < length b" using c by (auto simp: cut_of_def split: if_splits)
  ultimately show ?thesis by (simp add: Some a field_cut_def shortened_def opt_zip_def)
qed

text \<open>
  C11: A record that the sender lets through keeps every field but its text, tool input and tool output;
  each of these that has a limit is the original, or a prefix and a suffix of it at character boundaries
  around the exact count of the bytes left out, and never longer than the limit; and the two flags that
  feed the diagnostics say which of input and output were over their limit.
\<close>

theorem limited_record:
  assumes "limit_record_tool_content limits r = Some (r', cut_input, cut_output)"
    and "indexed_tool_content_limits configured_input configured_output = Inr limits"
    and "length (rec_text r) < 2 ^ 64" "is_none_or (\<lambda>s. length s < 2 ^ 64) (rec_tool_input r)"
    and "is_none_or (\<lambda>s. length s < 2 ^ 64) (rec_tool_output r)"
  shows "r' = r\<lparr>rec_text := rec_text r', rec_tool_input := rec_tool_input r', rec_tool_output := rec_tool_output r'\<rparr>
    \<and> (case text_limit limits r of None \<Rightarrow> rec_text r' = rec_text r | Some n \<Rightarrow> cut_of n (rec_text r) (rec_text r'))
    \<and> field_cut (tl_input_bytes limits) (rec_tool_input r) (rec_tool_input r') cut_input
    \<and> field_cut (tl_output_bytes limits) (rec_tool_output r) (rec_tool_output r') cut_output"
proof -
  have l: "1024 \<le> tl_input_bytes limits" "1024 \<le> tl_output_bytes limits"
    using assms(2) by (auto simp: indexed_tool_content_limits_def indexed_tool_content_limit_def Let_def
        min_indexed_tool_content_bytes_def split: sum.splits if_splits)
  have tl: "1024 \<le> n" if "text_limit limits r = Some n" for n
    using that l by (auto simp: text_limit_def split: if_splits)
  obtain s inp outp where f:
    "(case text_limit limits r of None \<Rightarrow> Some (rec_text r) | Some n \<Rightarrow> truncate_for_index (rec_text r) n) = Some s"
    "truncate_field (tl_input_bytes limits) (rec_tool_input r) = Some inp"
    "truncate_field (tl_output_bytes limits) (rec_tool_output r) = Some outp"
    "r' = r\<lparr>rec_text := s, rec_tool_input := inp, rec_tool_output := outp\<rparr>"
    "cut_input = shortened (rec_tool_input r) inp" "cut_output = shortened (rec_tool_output r) outp"
    using limit_record_fields [OF assms(1)] by blast
  have "case text_limit limits r of None \<Rightarrow> s = rec_text r | Some n \<Rightarrow> cut_of n (rec_text r) s"
    using f(1) tl truncate_for_index_bounds assms(3) by (auto split: option.splits)
  then show ?thesis using truncate_field_cut [OF f(2) l(1) assms(4)] truncate_field_cut [OF f(3) l(2) assms(5)] f(4-6)
    by (auto split: option.splits)
qed

definition sample_tool_record :: mrecord where
  "sample_tool_record =
    \<lparr>rec_source = Pi, rec_doc_id = 1, rec_ts = 5, rec_project = ''p'', rec_session_id = ''s'', rec_turn_id = 0,
     rec_role = ''tool_result'', rec_text = ''ok'', rec_tool_name = Some ''shell'', rec_tool_input = None,
     rec_tool_output = Some ''ok'', rec_links = default_links, rec_source_path = ''/f''\<rparr>"

theorem limited_record_witness:
  "text_limit default_tool_content_limits sample_tool_record = Some (256 * 1024)
   \<and> field_cut (256 * 1024) (Some ''ok'') (Some ''ok'') False"
proof -
  have "limit_record_tool_content default_tool_content_limits sample_tool_record = Some (sample_tool_record, False, False)"
    by (simp add: limit_record_tool_content_def text_limit_def sample_tool_record_def default_tool_content_limits_def
        truncate_field_def truncate_for_index_def shortened_def opt_zip_def)
  moreover have "indexed_tool_content_limits None None = Inr default_tool_content_limits"
    by (simp add: indexed_tool_content_limits_def indexed_tool_content_limit_def Let_def
        min_indexed_tool_content_bytes_def default_tool_content_limits_def)
  ultimately show ?thesis
    using limited_record [of default_tool_content_limits sample_tool_record sample_tool_record False False None None]
    by (simp add: sample_tool_record_def default_tool_content_limits_def text_limit_def)
qed

end
