(* ===== verification/Json.thy ===== *)
theory Json
  imports Prelude "HOL-Library.Monad_Syntax"
begin

text \<open>
  JSON values as \<open>serde_json::Value\<close> has them, and the struct codecs that \<open>#[derive(Serialize,
  Deserialize)]\<close> describes: a field that is always written, one that is skipped when it is \<open>None\<close>, one
  that is required, one with a default and one of an option type, for which a missing member and
  \<open>null\<close> both read as \<open>None\<close>. Members the struct does not name are ignored. The order of members of an
  object is never looked at; no number in the documents modelled here is fractional.
\<close>

datatype json = JNull | JBool bool | JInt int | JStr str | JArr "json list" | JObj "(str \<times> json) list"

type_synonym members = "(str \<times> json) list"

declare map_of_append [simp del]

named_theorems json_simps \<open>lookups in encoded objects\<close>

section \<open>Objects\<close>

definition as_object :: "json \<Rightarrow> members option" where
  "as_object v = (case v of JObj m \<Rightarrow> Some m | _ \<Rightarrow> None)"

definition as_array :: "json \<Rightarrow> json list option" where
  "as_array v = (case v of JArr xs \<Rightarrow> Some xs | _ \<Rightarrow> None)"

text \<open>\<open>Value::get\<close> on a member name.\<close>

definition json_get :: "str \<Rightarrow> json \<Rightarrow> json option" where
  "json_get k v = (case v of JObj m \<Rightarrow> map_of m k | _ \<Rightarrow> None)"

lemma json_get_JObj [simp]: "json_get k (JObj m) = map_of m k"
  by (simp add: json_get_def)

text \<open>\<open>Map::insert\<close> and \<open>value[k] = v\<close> on an object.\<close>

definition member_insert :: "str \<Rightarrow> json \<Rightarrow> members \<Rightarrow> members" where
  "member_insert k v m = AList.update k v m"

definition member_extend :: "members \<Rightarrow> members \<Rightarrow> members" where
  "member_extend m extra = fold (\<lambda>(k, v). member_insert k v) extra m"

lemma map_of_member_insert [simp]: "map_of (member_insert k v m) = (map_of m)(k \<mapsto> v)"
  by (simp add: member_insert_def update_conv')

lemma keys_member_insert: "fst ` set (member_insert k v m) = insert k (fst ` set m)"
  by (simp add: member_insert_def dom_update)

lemma map_of_member_extend:
  "distinct (map fst extra) \<Longrightarrow> map_of (member_extend m extra) = map_of m ++ map_of extra"
proof (induction extra arbitrary: m)
  case (Cons x extra)
  obtain k v where x: "x = (k, v)" by (cases x)
  have "member_extend m (x # extra) = member_extend (member_insert k v m) extra"
    by (simp add: member_extend_def x)
  moreover have "k \<notin> dom (map_of extra)" using Cons.prems by (simp add: x dom_map_of_conv_image_fst)
  ultimately show ?case using Cons by (auto simp: x fun_eq_iff map_add_def domIff split: option.splits)
qed (simp add: member_extend_def)

section \<open>Writing fields\<close>

definition put_field :: "str \<Rightarrow> json \<Rightarrow> members" where
  "put_field k v = [(k, v)]"

definition put_some :: "str \<Rightarrow> ('a \<Rightarrow> json) \<Rightarrow> 'a option \<Rightarrow> members" where
  "put_some k enc x = (case x of None \<Rightarrow> [] | Some y \<Rightarrow> [(k, enc y)])"

definition put_option :: "('a \<Rightarrow> json) \<Rightarrow> 'a option \<Rightarrow> json" where
  "put_option enc x = (case x of None \<Rightarrow> JNull | Some y \<Rightarrow> enc y)"

lemma or_else_None [simp]: "or_else x None = x"
  by (cases x) simp_all

lemma map_of_put_field [json_simps]:
  "map_of (put_field k v @ m) j = (if j = k then Some v else map_of m j)"
  "map_of (put_field k v) j = (if j = k then Some v else None)"
  by (simp_all add: put_field_def)

lemma map_of_put_some [json_simps]:
  "map_of (put_some k enc x @ m) j =
    (if j = k then or_else (map_option enc x) (map_of m j) else map_of m j)"
  "map_of (put_some k enc x) j = (if j = k then map_option enc x else None)"
  by (auto simp: put_some_def split: option.splits)

section \<open>Reading fields\<close>

definition get_req :: "str \<Rightarrow> (json \<Rightarrow> 'a option) \<Rightarrow> members \<Rightarrow> 'a option" where
  "get_req k dec m = (case map_of m k of None \<Rightarrow> None | Some v \<Rightarrow> dec v)"

definition get_default :: "str \<Rightarrow> 'a \<Rightarrow> (json \<Rightarrow> 'a option) \<Rightarrow> members \<Rightarrow> 'a option" where
  "get_default k d dec m = (case map_of m k of None \<Rightarrow> Some d | Some v \<Rightarrow> dec v)"

definition get_nullable :: "(json \<Rightarrow> 'a option) \<Rightarrow> json \<Rightarrow> 'a option option" where
  "get_nullable dec v = (if v = JNull then Some None else map_option Some (dec v))"

definition get_option :: "str \<Rightarrow> (json \<Rightarrow> 'a option) \<Rightarrow> members \<Rightarrow> 'a option option" where
  "get_option k dec m = get_default k None (get_nullable dec) m"

text \<open>A reader that looks at the members named in \<open>K\<close> only.\<close>

definition reads_only :: "str set \<Rightarrow> (members \<Rightarrow> 'a option) \<Rightarrow> bool" where
  "reads_only K f = (\<forall>m m'. (\<forall>k \<in> K. map_of m k = map_of m' k) \<longrightarrow> f m = f m')"

lemma reads_onlyI: "(\<And>m m'. (\<And>k. k \<in> K \<Longrightarrow> map_of m k = map_of m' k) \<Longrightarrow> f m = f m') \<Longrightarrow> reads_only K f"
  unfolding reads_only_def by blast

lemma reads_onlyD: "reads_only K f \<Longrightarrow> (\<And>k. k \<in> K \<Longrightarrow> map_of m k = map_of m' k) \<Longrightarrow> f m = f m'"
  unfolding reads_only_def by blast

section \<open>Scalars\<close>

definition json_u64 :: "u64 \<Rightarrow> json" where "json_u64 w = JInt (int (unat w))"
definition json_u32 :: "u32 \<Rightarrow> json" where "json_u32 w = JInt (int (unat w))"

definition u64_json :: "json \<Rightarrow> u64 option" where
  "u64_json v = (case v of JInt i \<Rightarrow> if 0 \<le> i \<and> i < 2 ^ 64 then Some (word_of_int i) else None | _ \<Rightarrow> None)"

definition u32_json :: "json \<Rightarrow> u32 option" where
  "u32_json v = (case v of JInt i \<Rightarrow> if 0 \<le> i \<and> i < 2 ^ 32 then Some (word_of_int i) else None | _ \<Rightarrow> None)"

definition i64_json :: "json \<Rightarrow> int option" where
  "i64_json v = (case v of JInt i \<Rightarrow> if - (2 ^ 63) \<le> i \<and> i < 2 ^ 63 then Some i else None | _ \<Rightarrow> None)"

definition usize_json :: "json \<Rightarrow> nat option" where
  "usize_json v = (case v of JInt i \<Rightarrow> if 0 \<le> i \<and> i < 2 ^ 64 then Some (nat i) else None | _ \<Rightarrow> None)"

definition str_json :: "json \<Rightarrow> str option" where
  "str_json v = (case v of JStr s \<Rightarrow> Some s | _ \<Rightarrow> None)"

definition bool_json :: "json \<Rightarrow> bool option" where
  "bool_json v = (case v of JBool b \<Rightarrow> Some b | _ \<Rightarrow> None)"

definition those_json :: "(json \<Rightarrow> 'a option) \<Rightarrow> json \<Rightarrow> 'a list option" where
  "those_json dec v = (case v of JArr xs \<Rightarrow> those (map dec xs) | _ \<Rightarrow> None)"

text \<open>A map with string keys.\<close>

definition entries_json :: "(json \<Rightarrow> 'a option) \<Rightarrow> json \<Rightarrow> (str \<times> 'a) list option" where
  "entries_json dec v =
    (case v of JObj m \<Rightarrow> those (map (\<lambda>(k, x). map_option (Pair k) (dec x)) m) | _ \<Rightarrow> None)"

definition json_entries :: "('a \<Rightarrow> json) \<Rightarrow> (str \<times> 'a) list \<Rightarrow> json" where
  "json_entries enc xs = JObj (map (\<lambda>(k, x). (k, enc x)) xs)"

lemma u64_json_inv [json_simps]: "u64_json (json_u64 w) = Some w"
proof -
  have "uint w < 2 ^ 64" using uint_lt2p [of w] by simp
  then show ?thesis by (simp add: u64_json_def json_u64_def)
qed

lemma u32_json_inv [json_simps]: "u32_json (json_u32 w) = Some w"
proof -
  have "uint w < 2 ^ 32" using uint_lt2p [of w] by simp
  then show ?thesis by (simp add: u32_json_def json_u32_def)
qed

lemma i64_json_inv: "- (2 ^ 63) \<le> i \<Longrightarrow> i < 2 ^ 63 \<Longrightarrow> i64_json (JInt i) = Some i"
  by (simp add: i64_json_def)

lemma usize_json_inv: "n < 2 ^ 64 \<Longrightarrow> usize_json (JInt (int n)) = Some n"
  by (simp add: usize_json_def)

lemma str_json_inv [json_simps]: "str_json (JStr s) = Some s"
  by (simp add: str_json_def)

lemma bool_json_inv [json_simps]: "bool_json (JBool b) = Some b"
  by (simp add: bool_json_def)

lemma those_map_Some: "(\<And>x. x \<in> set xs \<Longrightarrow> f x = Some (g x)) \<Longrightarrow> those (map f xs) = Some (map g xs)"
  by (induction xs) auto

lemma those_json_inv:
  "(\<And>x. x \<in> set xs \<Longrightarrow> dec (enc x) = Some x) \<Longrightarrow> those_json dec (JArr (map enc xs)) = Some xs"
  using those_map_Some [of xs "dec \<circ> enc" id] by (simp add: those_json_def)

lemma entries_json_inv:
  "(\<And>k x. (k, x) \<in> set xs \<Longrightarrow> dec (enc x) = Some x) \<Longrightarrow> entries_json dec (json_entries enc xs) = Some xs"
  using those_map_Some [of xs "\<lambda>(k, x). map_option (Pair k) (dec (enc x))" id]
  by (fastforce simp: entries_json_def json_entries_def comp_def case_prod_unfold)

lemma scalars_not_null [json_simps]:
  "json_u64 w \<noteq> JNull" "json_u32 v \<noteq> JNull" "JStr s \<noteq> JNull" "JBool b \<noteq> JNull" "JInt i \<noteq> JNull"
  "JArr xs \<noteq> JNull" "JObj m \<noteq> JNull" "json_entries enc es \<noteq> JNull"
  by (simp_all add: json_u64_def json_u32_def json_entries_def)

text \<open>Reading back an optional field that was written or skipped.\<close>

lemma get_option_written:
  assumes "map_of m k = map_option enc x" "\<And>y. x = Some y \<Longrightarrow> dec (enc y) = Some y \<and> enc y \<noteq> JNull"
  shows "get_option k dec m = Some x"
  using assms by (cases x) (simp_all add: get_option_def get_default_def get_nullable_def)

lemma get_option_nullable:
  assumes "map_of m k = Some (put_option enc x)" "\<And>y. x = Some y \<Longrightarrow> dec (enc y) = Some y \<and> enc y \<noteq> JNull"
  shows "get_option k dec m = Some x"
  using assms by (cases x) (simp_all add: get_option_def get_default_def get_nullable_def put_option_def)

lemma get_req_written: "map_of m k = Some v \<Longrightarrow> get_req k dec m = dec v"
  by (simp add: get_req_def)

lemma get_default_written: "map_of m k = Some v \<Longrightarrow> get_default k d dec m = dec v"
  by (simp add: get_default_def)

end
