(* ===== verification/State.thy ===== *)
theory State
  imports Json
begin

text \<open>
  The ingest state of \<open>src/state.rs\<close>: its records, the JSON members each derive writes and reads, and
  the scan cache. Signed 64-bit fields are integers in range (the \<open>valid\<close> predicates), hash maps are
  association lists with distinct keys.
\<close>

section \<open>Records\<close>

record sqlite_wal_identity =
  sw_exists :: bool
  sw_size :: u64
  sw_modified_ns :: "int option"

record file_identity =
  fi_bob_database :: "str option"
  fi_sqlite_wal :: "sqlite_wal_identity option"
  fi_device :: "u64 option"
  fi_inode :: "u64 option"
  fi_prefix_sha256 :: "str option"
  fi_prefix_bytes :: u64
  fi_modified_ns :: "int option"
  fi_changed_ns :: "int option"

record pending_tool_call =
  pt_tool_name :: "str option"
  pt_tool_use_event_id :: "str option"
  pt_tool_use_doc_id :: "u64 option"
  pt_timestamp :: u64
  pt_argument_sha256 :: "str option"
  pt_argument_bytes :: "u64 option"
  pt_parent_event_id :: "str option"
  pt_session_id :: "str option"
  pt_source_tool_use_id :: "str option"
  pt_source_tool_assistant_uuid :: "str option"

record file_state =
  fl_size :: u64
  fl_mtime :: int
  fl_offset :: u64
  fl_turn_id :: u32
  fl_legacy_turn_id :: "u32 option"
  fl_parser_version :: u32
  fl_pending_tool_calls :: "(str \<times> pending_tool_call) list"
  fl_identity :: file_identity
  fl_claude_background :: "bool option"
  fl_codex_metadata_offsets :: "u64 list option"

record scan_cache =
  sc_last_scan_ts :: u64
  sc_file_count :: nat
  sc_total_bytes :: u64

record opencode_session_cursor =
  oc_max_seq :: int
  oc_max_time_updated :: int
  oc_row_count :: int
  oc_event_sequence :: "int option"

record opencode_database_state =
  od_parser_version :: u32
  od_event_rowid :: int
  od_event_id :: "str option"
  od_owned_session_ids :: "str list"
  od_session_cursors :: "(str \<times> opencode_session_cursor) list"

record ingest_state =
  is_next_doc_id :: u64
  is_files :: "(str \<times> file_state) list"
  is_opencode_databases :: "(str \<times> opencode_database_state) list"

record session_scope =
  ss_source_path :: str
  ss_session_id :: str

record pending_ingest =
  pi_next_doc_id :: u64
  pi_source_paths :: "str list"
  pi_vector_delete_paths :: "str list"
  pi_session_scopes :: "session_scope list"
  pi_vector_publication :: bool
  pi_embedding_publication :: "bool option"

definition identity_default :: file_identity where
  "identity_default = \<lparr>fi_bob_database = None, fi_sqlite_wal = None, fi_device = None, fi_inode = None,
     fi_prefix_sha256 = None, fi_prefix_bytes = 0, fi_modified_ns = None, fi_changed_ns = None\<rparr>"

definition wal_default :: sqlite_wal_identity where
  "wal_default = \<lparr>sw_exists = False, sw_size = 0, sw_modified_ns = None\<rparr>"

definition scan_cache_default :: scan_cache where
  "scan_cache_default = \<lparr>sc_last_scan_ts = 0, sc_file_count = 0, sc_total_bytes = 0\<rparr>"

definition ingest_state_default :: ingest_state where
  "ingest_state_default = \<lparr>is_next_doc_id = 1, is_files = [], is_opencode_databases = []\<rparr>"

text \<open>\<open>SqliteWalIdentity::read\<close>: the metadata of the log file is its length and its modification
  time in nanoseconds, when the platform has one after the epoch; a missing or empty log is the default.\<close>

definition wal_identity_read :: "(u64 \<times> nat option) option \<Rightarrow> sqlite_wal_identity" where
  "wal_identity_read metadata =
    (case metadata of
       None \<Rightarrow> wal_default
     | Some (len, modified) \<Rightarrow>
         if len = 0 then wal_default
         else \<lparr>sw_exists = True, sw_size = len,
                sw_modified_ns = map_option (\<lambda>ns. min (int ns) (2 ^ 63 - 1)) modified\<rparr>)"

section \<open>The scan cache\<close>

text \<open>The clock is the number of seconds since the epoch, 0 when it is before.\<close>

definition is_fresh :: "u64 \<Rightarrow> scan_cache \<Rightarrow> u64 \<Rightarrow> bool" where
  "is_fresh now cache ttl_seconds = (sat_sub now (sc_last_scan_ts cache) < ttl_seconds)"

definition cache_touch :: "u64 \<Rightarrow> scan_cache \<Rightarrow> scan_cache" where
  "cache_touch now cache = cache\<lparr>sc_last_scan_ts := now\<rparr>"

definition cache_update :: "u64 \<Rightarrow> nat \<Rightarrow> u64 \<Rightarrow> scan_cache \<Rightarrow> scan_cache" where
  "cache_update now file_count total_bytes cache =
    cache\<lparr>sc_last_scan_ts := now, sc_file_count := file_count, sc_total_bytes := total_bytes\<rparr>"

lemma is_fresh_iff:
  "is_fresh now cache ttl \<longleftrightarrow> unat now - unat (sc_last_scan_ts cache) < unat ttl"
  by (simp add: is_fresh_def word_less_nat_alt unat_sat_sub)

lemma touched_is_fresh: "0 < ttl \<Longrightarrow> is_fresh now (cache_touch now cache) ttl"
  by (simp add: is_fresh_iff cache_touch_def word_less_nat_alt)

section \<open>Members\<close>

definition wal_json :: "sqlite_wal_identity \<Rightarrow> json" where
  "wal_json w = JObj (put_field ''exists'' (JBool (sw_exists w)) @ put_field ''size'' (json_u64 (sw_size w))
     @ put_field ''modified_ns'' (put_option JInt (sw_modified_ns w)))"

definition wal_read :: "members \<Rightarrow> sqlite_wal_identity option" where
  "wal_read m = do {
     exists \<leftarrow> get_req ''exists'' bool_json m;
     size \<leftarrow> get_req ''size'' u64_json m;
     modified_ns \<leftarrow> get_option ''modified_ns'' i64_json m;
     Some \<lparr>sw_exists = exists, sw_size = size, sw_modified_ns = modified_ns\<rparr>}"

definition identity_members :: "file_identity \<Rightarrow> members" where
  "identity_members i =
     put_some ''bob_database'' JStr (fi_bob_database i)
     @ put_some ''sqlite_wal'' wal_json (fi_sqlite_wal i)
     @ put_some ''device'' json_u64 (fi_device i)
     @ put_some ''inode'' json_u64 (fi_inode i)
     @ put_some ''prefix_sha256'' JStr (fi_prefix_sha256 i)
     @ put_field ''prefix_bytes'' (json_u64 (fi_prefix_bytes i))
     @ put_some ''modified_ns'' JInt (fi_modified_ns i)
     @ put_some ''changed_ns'' JInt (fi_changed_ns i)"

definition identity_keys :: "str set" where
  "identity_keys = {''bob_database'', ''sqlite_wal'', ''device'', ''inode'', ''prefix_sha256'',
     ''prefix_bytes'', ''modified_ns'', ''changed_ns''}"

definition identity_read :: "members \<Rightarrow> file_identity option" where
  "identity_read m = do {
     bob \<leftarrow> get_option ''bob_database'' str_json m;
     wal \<leftarrow> get_option ''sqlite_wal'' (\<lambda>v. Option.bind (as_object v) wal_read) m;
     device \<leftarrow> get_option ''device'' u64_json m;
     inode \<leftarrow> get_option ''inode'' u64_json m;
     prefix \<leftarrow> get_option ''prefix_sha256'' str_json m;
     bytes \<leftarrow> get_default ''prefix_bytes'' 0 u64_json m;
     modified \<leftarrow> get_option ''modified_ns'' i64_json m;
     changed \<leftarrow> get_option ''changed_ns'' i64_json m;
     Some \<lparr>fi_bob_database = bob, fi_sqlite_wal = wal, fi_device = device, fi_inode = inode,
       fi_prefix_sha256 = prefix, fi_prefix_bytes = bytes, fi_modified_ns = modified,
       fi_changed_ns = changed\<rparr>}"

definition call_members :: "pending_tool_call \<Rightarrow> members" where
  "call_members c =
     put_some ''tool_name'' JStr (pt_tool_name c)
     @ put_some ''tool_use_event_id'' JStr (pt_tool_use_event_id c)
     @ put_some ''tool_use_doc_id'' json_u64 (pt_tool_use_doc_id c)
     @ put_field ''timestamp'' (json_u64 (pt_timestamp c))
     @ put_some ''argument_sha256'' JStr (pt_argument_sha256 c)
     @ put_some ''argument_bytes'' json_u64 (pt_argument_bytes c)
     @ put_some ''parent_event_id'' JStr (pt_parent_event_id c)
     @ put_some ''session_id'' JStr (pt_session_id c)
     @ put_some ''source_tool_use_id'' JStr (pt_source_tool_use_id c)
     @ put_some ''source_tool_assistant_uuid'' JStr (pt_source_tool_assistant_uuid c)"

definition call_keys :: "str set" where
  "call_keys = {''tool_name'', ''tool_use_event_id'', ''tool_use_doc_id'', ''timestamp'',
     ''argument_sha256'', ''argument_bytes'', ''parent_event_id'', ''session_id'',
     ''source_tool_use_id'', ''source_tool_assistant_uuid''}"

definition call_read :: "members \<Rightarrow> pending_tool_call option" where
  "call_read m = do {
     name \<leftarrow> get_option ''tool_name'' str_json m;
     event \<leftarrow> get_option ''tool_use_event_id'' str_json m;
     doc \<leftarrow> get_option ''tool_use_doc_id'' u64_json m;
     ts \<leftarrow> get_default ''timestamp'' 0 u64_json m;
     sha \<leftarrow> get_option ''argument_sha256'' str_json m;
     bytes \<leftarrow> get_option ''argument_bytes'' u64_json m;
     parent \<leftarrow> get_option ''parent_event_id'' str_json m;
     session \<leftarrow> get_option ''session_id'' str_json m;
     use \<leftarrow> get_option ''source_tool_use_id'' str_json m;
     uuid \<leftarrow> get_option ''source_tool_assistant_uuid'' str_json m;
     Some \<lparr>pt_tool_name = name, pt_tool_use_event_id = event, pt_tool_use_doc_id = doc,
       pt_timestamp = ts, pt_argument_sha256 = sha, pt_argument_bytes = bytes,
       pt_parent_event_id = parent, pt_session_id = session, pt_source_tool_use_id = use,
       pt_source_tool_assistant_uuid = uuid\<rparr>}"

definition file_members :: "file_state \<Rightarrow> members" where
  "file_members f =
     put_field ''size'' (json_u64 (fl_size f)) @ put_field ''mtime'' (JInt (fl_mtime f))
     @ put_field ''offset'' (json_u64 (fl_offset f)) @ put_field ''turn_id'' (json_u32 (fl_turn_id f))
     @ put_some ''legacy_turn_id'' json_u32 (fl_legacy_turn_id f)
     @ put_field ''parser_version'' (json_u32 (fl_parser_version f))
     @ put_field ''pending_tool_calls''
         (json_entries (\<lambda>c. JObj (call_members c)) (fl_pending_tool_calls f))
     @ put_field ''identity'' (JObj (identity_members (fl_identity f)))
     @ put_some ''claude_background'' JBool (fl_claude_background f)
     @ put_some ''codex_metadata_offsets'' (\<lambda>xs. JArr (map json_u64 xs)) (fl_codex_metadata_offsets f)"

definition file_keys_known :: "str set" where
  "file_keys_known = {''size'', ''mtime'', ''offset'', ''turn_id'', ''legacy_turn_id'', ''parser_version'',
     ''pending_tool_calls'', ''identity'', ''claude_background'', ''codex_metadata_offsets''}"

definition file_read :: "members \<Rightarrow> file_state option" where
  "file_read m = do {
     size \<leftarrow> get_req ''size'' u64_json m;
     mtime \<leftarrow> get_req ''mtime'' i64_json m;
     offset \<leftarrow> get_req ''offset'' u64_json m;
     turn \<leftarrow> get_req ''turn_id'' u32_json m;
     legacy \<leftarrow> get_option ''legacy_turn_id'' u32_json m;
     version \<leftarrow> get_default ''parser_version'' 0 u32_json m;
     calls \<leftarrow> get_default ''pending_tool_calls'' []
       (entries_json (\<lambda>v. Option.bind (as_object v) call_read)) m;
     identity \<leftarrow> get_default ''identity'' identity_default (\<lambda>v. Option.bind (as_object v) identity_read) m;
     background \<leftarrow> get_option ''claude_background'' bool_json m;
     offsets \<leftarrow> get_option ''codex_metadata_offsets'' (those_json u64_json) m;
     Some \<lparr>fl_size = size, fl_mtime = mtime, fl_offset = offset, fl_turn_id = turn,
       fl_legacy_turn_id = legacy, fl_parser_version = version, fl_pending_tool_calls = calls,
       fl_identity = identity, fl_claude_background = background,
       fl_codex_metadata_offsets = offsets\<rparr>}"

text \<open>The remaining structs; a database's session cursors are skipped when there are none.\<close>

definition cursor_members :: "opencode_session_cursor \<Rightarrow> members" where
  "cursor_members c =
     put_field ''max_seq'' (JInt (oc_max_seq c)) @ put_field ''max_time_updated'' (JInt (oc_max_time_updated c))
     @ put_field ''row_count'' (JInt (oc_row_count c))
     @ put_field ''event_sequence'' (put_option JInt (oc_event_sequence c))"

definition cursor_read :: "members \<Rightarrow> opencode_session_cursor option" where
  "cursor_read m = do {
     seq \<leftarrow> get_req ''max_seq'' i64_json m;
     time \<leftarrow> get_req ''max_time_updated'' i64_json m;
     count \<leftarrow> get_default ''row_count'' 0 i64_json m;
     event \<leftarrow> get_default ''event_sequence'' None (get_nullable i64_json) m;
     Some \<lparr>oc_max_seq = seq, oc_max_time_updated = time, oc_row_count = count,
       oc_event_sequence = event\<rparr>}"

definition database_members :: "opencode_database_state \<Rightarrow> members" where
  "database_members d =
     put_field ''parser_version'' (json_u32 (od_parser_version d))
     @ put_field ''event_rowid'' (JInt (od_event_rowid d))
     @ put_field ''event_id'' (put_option JStr (od_event_id d))
     @ put_field ''owned_session_ids'' (JArr (map JStr (od_owned_session_ids d)))
     @ (if od_session_cursors d = [] then []
        else put_field ''session_cursors''
          (json_entries (\<lambda>c. JObj (cursor_members c)) (od_session_cursors d)))"

definition database_keys :: "str set" where
  "database_keys = {''parser_version'', ''event_rowid'', ''event_id'', ''owned_session_ids'', ''session_cursors''}"

definition database_read :: "members \<Rightarrow> opencode_database_state option" where
  "database_read m = do {
     version \<leftarrow> get_req ''parser_version'' u32_json m;
     rowid \<leftarrow> get_req ''event_rowid'' i64_json m;
     event \<leftarrow> get_option ''event_id'' str_json m;
     owned \<leftarrow> get_req ''owned_session_ids'' (those_json str_json) m;
     cursors \<leftarrow> get_default ''session_cursors'' []
       (entries_json (\<lambda>v. Option.bind (as_object v) cursor_read)) m;
     Some \<lparr>od_parser_version = version, od_event_rowid = rowid, od_event_id = event,
       od_owned_session_ids = owned, od_session_cursors = cursors\<rparr>}"

definition scope_members :: "session_scope \<Rightarrow> members" where
  "scope_members s = put_field ''source_path'' (JStr (ss_source_path s))
     @ put_field ''session_id'' (JStr (ss_session_id s))"

definition scope_keys :: "str set" where
  "scope_keys = {''source_path'', ''session_id''}"

definition scope_read :: "members \<Rightarrow> session_scope option" where
  "scope_read m = do {
     path \<leftarrow> get_req ''source_path'' str_json m;
     session \<leftarrow> get_req ''session_id'' str_json m;
     Some \<lparr>ss_source_path = path, ss_session_id = session\<rparr>}"

definition pending_members :: "pending_ingest \<Rightarrow> members" where
  "pending_members p =
     put_field ''next_doc_id'' (json_u64 (pi_next_doc_id p))
     @ put_field ''source_paths'' (JArr (map JStr (pi_source_paths p)))
     @ put_field ''vector_delete_paths'' (JArr (map JStr (pi_vector_delete_paths p)))
     @ put_field ''session_scopes'' (JArr (map (\<lambda>s. JObj (scope_members s)) (pi_session_scopes p)))
     @ put_field ''vector_publication'' (JBool (pi_vector_publication p))
     @ put_some ''embedding_publication'' JBool (pi_embedding_publication p)"

definition pending_keys :: "str set" where
  "pending_keys = {''next_doc_id'', ''source_paths'', ''vector_delete_paths'', ''session_scopes'',
     ''vector_publication'', ''embedding_publication''}"

definition pending_read :: "members \<Rightarrow> pending_ingest option" where
  "pending_read m = do {
     next_id \<leftarrow> get_req ''next_doc_id'' u64_json m;
     paths \<leftarrow> get_req ''source_paths'' (those_json str_json) m;
     vectors \<leftarrow> get_default ''vector_delete_paths'' [] (those_json str_json) m;
     scopes \<leftarrow> get_default ''session_scopes'' []
       (those_json (\<lambda>v. Option.bind (as_object v) scope_read)) m;
     publication \<leftarrow> get_default ''vector_publication'' False bool_json m;
     embedding \<leftarrow> get_option ''embedding_publication'' bool_json m;
     Some \<lparr>pi_next_doc_id = next_id, pi_source_paths = paths, pi_vector_delete_paths = vectors,
       pi_session_scopes = scopes, pi_vector_publication = publication,
       pi_embedding_publication = embedding\<rparr>}"

definition cache_members :: "scan_cache \<Rightarrow> members" where
  "cache_members c =
     put_field ''last_scan_ts'' (json_u64 (sc_last_scan_ts c))
     @ put_field ''file_count'' (JInt (int (sc_file_count c)))
     @ put_field ''total_bytes'' (json_u64 (sc_total_bytes c))"

definition cache_read :: "members \<Rightarrow> scan_cache option" where
  "cache_read m = do {
     ts \<leftarrow> get_req ''last_scan_ts'' u64_json m;
     count \<leftarrow> get_req ''file_count'' usize_json m;
     bytes \<leftarrow> get_req ''total_bytes'' u64_json m;
     Some \<lparr>sc_last_scan_ts = ts, sc_file_count = count, sc_total_bytes = bytes\<rparr>}"

section \<open>Round trips\<close>

definition in_i64 :: "int \<Rightarrow> bool" where
  "in_i64 i = (- (2 ^ 63) \<le> i \<and> i < 2 ^ 63)"

definition valid_wal :: "sqlite_wal_identity \<Rightarrow> bool" where
  "valid_wal w = is_none_or in_i64 (sw_modified_ns w)"

definition valid_identity :: "file_identity \<Rightarrow> bool" where
  "valid_identity i = (is_none_or valid_wal (fi_sqlite_wal i) \<and> is_none_or in_i64 (fi_modified_ns i)
     \<and> is_none_or in_i64 (fi_changed_ns i))"

definition valid_file :: "file_state \<Rightarrow> bool" where
  "valid_file f = (in_i64 (fl_mtime f) \<and> valid_identity (fl_identity f)
     \<and> distinct (map fst (fl_pending_tool_calls f)))"

lemma i64_json_in [json_simps]: "in_i64 i \<Longrightarrow> i64_json (JInt i) = Some i"
  by (simp add: in_i64_def i64_json_inv)

lemma case_Some_map [json_simps]: "(case x of None \<Rightarrow> None | Some y \<Rightarrow> Some (f y)) = map_option f x"
  by (cases x) simp_all

lemma as_object_JObj [json_simps]: "as_object (JObj m) = Some m"
  by (simp add: as_object_def)

lemma as_object_Some: "as_object v = Some m \<longleftrightarrow> v = JObj m"
  by (cases v) (simp_all add: as_object_def)

lemma those_u64 [json_simps]: "those_json u64_json (JArr (map json_u64 xs)) = Some xs"
  by (rule those_json_inv) (simp add: json_simps)

lemma those_str [json_simps]: "those_json str_json (JArr (map JStr xs)) = Some xs"
  by (rule those_json_inv) (simp add: json_simps)

lemma wal_read_members: "valid_wal w \<Longrightarrow> Option.bind (as_object (wal_json w)) wal_read = Some w"
proof -
  assume v: "valid_wal w"
  let ?m = "put_field ''exists'' (JBool (sw_exists w)) @ put_field ''size'' (json_u64 (sw_size w))
     @ put_field ''modified_ns'' (put_option JInt (sw_modified_ns w))"
  have "get_option ''modified_ns'' i64_json ?m = Some (sw_modified_ns w)"
    by (rule get_option_nullable [where enc = JInt]) (use v in \<open>auto simp: json_simps valid_wal_def\<close>)
  then show ?thesis by (simp add: wal_json_def wal_read_def get_req_def json_simps)
qed

lemma wal_json_not_null [json_simps]: "wal_json w \<noteq> JNull"
  by (simp add: wal_json_def)

lemma identity_read_members:
  assumes "valid_identity i"
  shows "identity_read (identity_members i) = Some i"
proof -
  let ?m = "identity_members i"
  have "get_option ''bob_database'' str_json ?m = Some (fi_bob_database i)"
    by (rule get_option_written [where enc = JStr]) (simp_all add: identity_members_def json_simps)
  moreover have "get_option ''sqlite_wal'' (\<lambda>v. Option.bind (as_object v) wal_read) ?m = Some (fi_sqlite_wal i)"
    by (rule get_option_written [where enc = wal_json])
      (use assms wal_read_members in \<open>auto simp: valid_identity_def identity_members_def json_simps\<close>)
  moreover have "get_option ''device'' u64_json ?m = Some (fi_device i)"
    "get_option ''inode'' u64_json ?m = Some (fi_inode i)"
    by (rule get_option_written [where enc = json_u64]; simp add: identity_members_def json_simps)+
  moreover have "get_option ''prefix_sha256'' str_json ?m = Some (fi_prefix_sha256 i)"
    by (rule get_option_written [where enc = JStr]) (simp_all add: identity_members_def json_simps)
  moreover have "get_default ''prefix_bytes'' 0 u64_json ?m = Some (fi_prefix_bytes i)"
    by (simp add: get_default_def identity_members_def json_simps)
  moreover have "get_option ''modified_ns'' i64_json ?m = Some (fi_modified_ns i)"
    "get_option ''changed_ns'' i64_json ?m = Some (fi_changed_ns i)"
    using assms
    by (auto simp: valid_identity_def identity_members_def json_simps
        intro!: get_option_written [where enc = JInt])
  ultimately show ?thesis by (simp add: identity_read_def)
qed

lemma call_read_members: "call_read (call_members c) = Some c"
proof -
  let ?m = "call_members c"
  have "get_option ''tool_name'' str_json ?m = Some (pt_tool_name c)"
    "get_option ''tool_use_event_id'' str_json ?m = Some (pt_tool_use_event_id c)"
    "get_option ''argument_sha256'' str_json ?m = Some (pt_argument_sha256 c)"
    "get_option ''parent_event_id'' str_json ?m = Some (pt_parent_event_id c)"
    "get_option ''session_id'' str_json ?m = Some (pt_session_id c)"
    "get_option ''source_tool_use_id'' str_json ?m = Some (pt_source_tool_use_id c)"
    "get_option ''source_tool_assistant_uuid'' str_json ?m = Some (pt_source_tool_assistant_uuid c)"
    by (rule get_option_written [where enc = JStr]; simp add: call_members_def json_simps)+
  moreover have "get_option ''tool_use_doc_id'' u64_json ?m = Some (pt_tool_use_doc_id c)"
    "get_option ''argument_bytes'' u64_json ?m = Some (pt_argument_bytes c)"
    by (rule get_option_written [where enc = json_u64]; simp add: call_members_def json_simps)+
  moreover have "get_default ''timestamp'' 0 u64_json ?m = Some (pt_timestamp c)"
    by (simp add: get_default_def call_members_def json_simps)
  ultimately show ?thesis by (simp add: call_read_def)
qed

lemma file_read_members:
  assumes "valid_file f"
  shows "file_read (file_members f) = Some f"
proof -
  let ?m = "file_members f"
  have "get_req ''size'' u64_json ?m = Some (fl_size f)" "get_req ''offset'' u64_json ?m = Some (fl_offset f)"
    "get_req ''turn_id'' u32_json ?m = Some (fl_turn_id f)"
    "get_default ''parser_version'' 0 u32_json ?m = Some (fl_parser_version f)"
    by (simp_all add: get_req_def get_default_def file_members_def json_simps)
  moreover have "get_req ''mtime'' i64_json ?m = Some (fl_mtime f)"
    using assms by (simp add: get_req_def file_members_def valid_file_def json_simps)
  moreover have "get_option ''legacy_turn_id'' u32_json ?m = Some (fl_legacy_turn_id f)"
    by (rule get_option_written [where enc = json_u32]; simp add: file_members_def json_simps)
  moreover have "get_default ''pending_tool_calls'' []
      (entries_json (\<lambda>v. Option.bind (as_object v) call_read)) ?m = Some (fl_pending_tool_calls f)"
    by (simp add: get_default_def file_members_def json_simps entries_json_inv call_read_members)
  moreover have "get_default ''identity'' identity_default (\<lambda>v. Option.bind (as_object v) identity_read) ?m =
      Some (fl_identity f)"
    using assms by (simp add: get_default_def file_members_def json_simps valid_file_def identity_read_members)
  moreover have "get_option ''claude_background'' bool_json ?m = Some (fl_claude_background f)"
    by (rule get_option_written [where enc = JBool]; simp add: file_members_def json_simps)
  moreover have "get_option ''codex_metadata_offsets'' (those_json u64_json) ?m = Some (fl_codex_metadata_offsets f)"
    by (rule get_option_written [where enc = "\<lambda>xs. JArr (map json_u64 xs)"]; simp add: file_members_def json_simps)
  ultimately show ?thesis by (simp add: file_read_def)
qed

definition valid_cursor :: "opencode_session_cursor \<Rightarrow> bool" where
  "valid_cursor c = (in_i64 (oc_max_seq c) \<and> in_i64 (oc_max_time_updated c) \<and> in_i64 (oc_row_count c)
     \<and> is_none_or in_i64 (oc_event_sequence c))"

definition valid_database :: "opencode_database_state \<Rightarrow> bool" where
  "valid_database d = (in_i64 (od_event_rowid d) \<and> list_all (\<lambda>(k, c). valid_cursor c) (od_session_cursors d))"

lemma put_option_get [json_simps]:
  "(\<And>y. x = Some y \<Longrightarrow> dec (enc y) = Some y \<and> enc y \<noteq> JNull) \<Longrightarrow> get_nullable dec (put_option enc x) = Some x"
  by (cases x) (simp_all add: get_nullable_def put_option_def)

lemma cursor_read_members: "valid_cursor c \<Longrightarrow> cursor_read (cursor_members c) = Some c"
proof -
  assume v: "valid_cursor c"
  have "get_nullable i64_json (put_option JInt (oc_event_sequence c)) = Some (oc_event_sequence c)"
    using v by (intro put_option_get) (auto simp: valid_cursor_def json_simps)
  then show ?thesis
    using v by (simp add: valid_cursor_def cursor_read_def cursor_members_def get_req_def get_default_def json_simps)
qed

lemma database_read_members:
  assumes "valid_database d"
  shows "database_read (database_members d) = Some d"
proof -
  let ?m = "database_members d"
  have "get_req ''parser_version'' u32_json ?m = Some (od_parser_version d)"
    "get_req ''owned_session_ids'' (those_json str_json) ?m = Some (od_owned_session_ids d)"
    by (simp_all add: get_req_def database_members_def json_simps)
  moreover have "get_req ''event_rowid'' i64_json ?m = Some (od_event_rowid d)"
    using assms by (simp add: get_req_def database_members_def valid_database_def json_simps)
  moreover have "get_option ''event_id'' str_json ?m = Some (od_event_id d)"
    by (rule get_option_nullable [where enc = JStr]; simp add: database_members_def json_simps)
  moreover have "get_default ''session_cursors'' []
      (entries_json (\<lambda>v. Option.bind (as_object v) cursor_read)) ?m = Some (od_session_cursors d)"
  proof (cases "od_session_cursors d = []")
    case False
    have "entries_json (\<lambda>v. Option.bind (as_object v) cursor_read)
        (json_entries (\<lambda>c. JObj (cursor_members c)) (od_session_cursors d)) = Some (od_session_cursors d)"
      using assms by (intro entries_json_inv)
        (auto simp: valid_database_def list_all_iff json_simps intro!: cursor_read_members)
    then show ?thesis using False by (simp add: get_default_def database_members_def json_simps)
  qed (simp add: get_default_def database_members_def json_simps)
  ultimately show ?thesis by (simp add: database_read_def)
qed

lemma scope_read_members: "scope_read (scope_members s) = Some s"
  by (simp add: scope_read_def scope_members_def get_req_def json_simps)

lemma pending_read_members: "pending_read (pending_members p) = Some p"
proof -
  let ?m = "pending_members p"
  have "those_json (\<lambda>v. Option.bind (as_object v) scope_read)
      (JArr (map (\<lambda>s. JObj (scope_members s)) (pi_session_scopes p))) = Some (pi_session_scopes p)"
    by (rule those_json_inv) (simp add: json_simps scope_read_members)
  moreover have "get_option ''embedding_publication'' bool_json ?m = Some (pi_embedding_publication p)"
    by (rule get_option_written [where enc = JBool]; simp add: pending_members_def json_simps)
  ultimately show ?thesis
    by (simp add: pending_read_def get_req_def get_default_def json_simps)
      (simp add: pending_members_def json_simps)
qed

lemma cache_read_members: "sc_file_count c < 2 ^ 64 \<Longrightarrow> cache_read (cache_members c) = Some c"
  using usize_json_inv [of "sc_file_count c"]
  by (simp add: cache_read_def cache_members_def get_req_def json_simps)

section \<open>Readers see their own members only\<close>

lemmas getter_defs = get_req_def get_option_def get_default_def

lemma readers_local:
  "reads_only identity_keys identity_read" "reads_only call_keys call_read"
  "reads_only file_keys_known file_read" "reads_only database_keys database_read"
  "reads_only scope_keys scope_read" "reads_only pending_keys pending_read"
  by (rule reads_onlyI; simp add: getter_defs identity_read_def identity_keys_def call_read_def call_keys_def
      file_read_def file_keys_known_def database_read_def database_keys_def scope_read_def scope_keys_def
      pending_read_def pending_keys_def)+

lemma writers_local:
  "fst ` set (identity_members i) \<subseteq> identity_keys" "fst ` set (call_members c) \<subseteq> call_keys"
  "fst ` set (file_members f) \<subseteq> file_keys_known" "fst ` set (database_members d) \<subseteq> database_keys"
  "fst ` set (scope_members s) \<subseteq> scope_keys" "fst ` set (pending_members p) \<subseteq> pending_keys"
  by (auto simp: identity_members_def identity_keys_def call_members_def call_keys_def file_members_def
      file_keys_known_def database_members_def database_keys_def scope_members_def scope_keys_def
      pending_members_def pending_keys_def put_field_def put_some_def split: option.splits if_splits)

text \<open>
  C22: Everything the ingest state persists is read back exactly: encoding a file state, its
  identity, a pending tool call, an OpenCode database state, a pending ingest or the scan cache and
  decoding it returns the same value, skipped and defaulted members included.
\<close>

theorem state_roundtrip:
  assumes "valid_file f" "valid_database d" "sc_file_count c < 2 ^ 64"
  shows "file_read (file_members f) = Some f \<and> database_read (database_members d) = Some d
    \<and> pending_read (pending_members p) = Some p \<and> cache_read (cache_members c) = Some c"
  using assms by (simp add: file_read_members database_read_members pending_read_members cache_read_members)

definition sample_call :: pending_tool_call where
  "sample_call = \<lparr>pt_tool_name = Some ''Bash'', pt_tool_use_event_id = None, pt_tool_use_doc_id = Some 7,
     pt_timestamp = 1700, pt_argument_sha256 = None, pt_argument_bytes = Some 12,
     pt_parent_event_id = None, pt_session_id = Some ''s1'', pt_source_tool_use_id = None,
     pt_source_tool_assistant_uuid = None\<rparr>"

definition sample_file :: file_state where
  "sample_file = \<lparr>fl_size = 100, fl_mtime = 1700, fl_offset = 100, fl_turn_id = 3,
     fl_legacy_turn_id = Some 3, fl_parser_version = 2, fl_pending_tool_calls = [(''t1'', sample_call)],
     fl_identity = identity_default\<lparr>fi_inode := Some 42, fi_modified_ns := Some (-5)\<rparr>,
     fl_claude_background = Some True, fl_codex_metadata_offsets = Some [0, 64]\<rparr>"

definition sample_database :: opencode_database_state where
  "sample_database = \<lparr>od_parser_version = 1, od_event_rowid = 9, od_event_id = None,
     od_owned_session_ids = [''s1''], od_session_cursors =
       [(''s1'', \<lparr>oc_max_seq = 4, oc_max_time_updated = 1700, oc_row_count = 2, oc_event_sequence = Some 8\<rparr>)]\<rparr>"

lemma sample_valid: "valid_file sample_file" "valid_database sample_database"
  by (simp_all add: valid_file_def valid_identity_def in_i64_def sample_file_def identity_default_def
      valid_database_def valid_cursor_def sample_database_def)

lemma state_roundtrip_witness:
  "file_read (file_members sample_file) = Some sample_file
    \<and> database_read (database_members sample_database) = Some sample_database"
  using state_roundtrip [OF sample_valid, of scan_cache_default] by (simp add: scan_cache_default_def)

end
