(* ===== verification/CheckpointCodec.thy ===== *)
theory CheckpointCodec
  imports State
begin

text \<open>
  The documents of \<open>src/state/checkpoint/codec.rs\<close>: a payload is rewritten from the typed value and
  keeps every member of the previous document that the type does not know, at each level. The parser,
  the printer and the byte length of JSON text, and the type \<open>'t\<close> of the text itself, are arguments;
  an error is \<open>None\<close>.
\<close>

definition object_or :: "json \<Rightarrow> members" where
  "object_or v = (case v of JObj m \<Rightarrow> m | _ \<Rightarrow> [])"

text \<open>Equality of values does not look at the order of members.\<close>

function json_eq :: "json \<Rightarrow> json \<Rightarrow> bool" where
  "json_eq (JObj m) w = (case w of JObj n \<Rightarrow> length m = length n
     \<and> list_all (\<lambda>(k, x). case map_of n k of None \<Rightarrow> False | Some y \<Rightarrow> json_eq x y) m | _ \<Rightarrow> False)"
| "json_eq (JArr xs) w = (case w of JArr ys \<Rightarrow> length xs = length ys
     \<and> list_all (\<lambda>(x, y). json_eq x y) (zip xs ys) | _ \<Rightarrow> False)"
| "json_eq JNull w = (w = JNull)"
| "json_eq (JBool b) w = (w = JBool b)"
| "json_eq (JInt i) w = (w = JInt i)"
| "json_eq (JStr s) w = (w = JStr s)"
  by pat_completeness auto
termination
proof (relation "measure (\<lambda>(v, w). size v)", goal_cases)
  case 1
  show ?case by simp
next
  case (2 m w n z k x y)
  then have "size x < size (JObj m)"
    using size_list_estimation' [of "(k, x)" m "size x" "\<lambda>p. Suc (size (snd p))"] by (force simp: size_prod_simp)
  then show ?case by simp
next
  case (3 xs w ys z x y)
  then have "x \<in> set xs" by (auto dest: set_zip_leftD)
  then show ?case using size_list_estimation' [of x xs "size x" size] by simp
qed

section \<open>Extensions\<close>

text \<open>The members of an object that \<open>T\<close> does not name; it is an error when the object is not a \<open>T\<close>.\<close>

definition extensions :: "str set \<Rightarrow> (members \<Rightarrow> 'a option) \<Rightarrow> json \<Rightarrow> members option" where
  "extensions known dec v =
    (case as_object v of
       None \<Rightarrow> None
     | Some m \<Rightarrow> (case dec m of None \<Rightarrow> None | Some _ \<Rightarrow> Some (filter (\<lambda>(k, _). k \<notin> known) m)))"

definition preserve ::
    "str set \<Rightarrow> (members \<Rightarrow> 'a option) \<Rightarrow> ('a \<Rightarrow> members) \<Rightarrow> 'a \<Rightarrow> json option \<Rightarrow> members option" where
  "preserve known dec enc current previous =
    (case previous of
       None \<Rightarrow> Some (enc current)
     | Some v \<Rightarrow> map_option (member_extend (enc current)) (extensions known dec v))"

definition preserve_identity :: "file_identity \<Rightarrow> json option \<Rightarrow> members option" where
  "preserve_identity = preserve identity_keys identity_read identity_members"

definition preserve_call :: "pending_tool_call \<Rightarrow> json option \<Rightarrow> members option" where
  "preserve_call = preserve call_keys call_read call_members"

fun preserve_calls ::
    "(str \<times> pending_tool_call) list \<Rightarrow> json option \<Rightarrow> members \<Rightarrow> members option" where
  "preserve_calls [] old calls = Some calls"
| "preserve_calls ((call_id, call) # rest) old calls = do {
     value \<leftarrow> preserve_call call (Option.bind old (json_get call_id));
     preserve_calls rest old (member_insert call_id (JObj value) calls)}"

definition parse_previous :: "('t \<Rightarrow> json option) \<Rightarrow> 't option \<Rightarrow> json option option" where
  "parse_previous parse previous =
    (case previous of None \<Rightarrow> Some None | Some text \<Rightarrow> map_option Some (parse text))"

definition file_payload ::
    "('t \<Rightarrow> json option) \<Rightarrow> (json \<Rightarrow> 't) \<Rightarrow> file_state \<Rightarrow> 't option \<Rightarrow> 't option" where
  "file_payload parse render file previous = do {
     old \<leftarrow> parse_previous parse previous;
     value \<leftarrow> preserve file_keys_known file_read file_members file old;
     identity \<leftarrow> preserve_identity (fl_identity file) (Option.bind old (json_get ''identity''));
     calls \<leftarrow> preserve_calls (fl_pending_tool_calls file)
       (Option.bind old (json_get ''pending_tool_calls''))
       (object_or (the (map_of value ''pending_tool_calls'')));
     Some (render (JObj (member_insert ''pending_tool_calls'' (JObj calls)
       (member_insert ''identity'' (JObj identity) value))))}"

fun preserve_databases ::
    "(str \<times> opencode_database_state) list \<Rightarrow> json \<Rightarrow> members \<Rightarrow> members option" where
  "preserve_databases [] old value = Some value"
| "preserve_databases ((path, database) # rest) old value = do {
     m \<leftarrow> preserve database_keys database_read database_members database (json_get path old);
     preserve_databases rest old (member_insert path (JObj m) value)}"

definition database_payload ::
    "('t \<Rightarrow> json option) \<Rightarrow> (json \<Rightarrow> 't) \<Rightarrow> (str \<times> opencode_database_state) list \<Rightarrow> 't \<Rightarrow> 't option" where
  "database_payload parse render databases previous = do {
     old \<leftarrow> parse previous;
     value \<leftarrow> preserve_databases databases old [];
     Some (render (JObj value))}"

definition pending_document :: "('t \<Rightarrow> json option) \<Rightarrow> 't option \<Rightarrow> json option option" where
  "pending_document parse raw =
    (case raw of
       None \<Rightarrow> Some None
     | Some text \<Rightarrow> do {
         value \<leftarrow> parse text;
         m \<leftarrow> as_object value;
         _ \<leftarrow> pending_read m;
         Some (Some value)})"

definition max_json_bytes :: nat where
  "max_json_bytes = 80 * 1024 * 1024"

definition scan_cache_document :: "('t \<Rightarrow> nat) \<Rightarrow> ('t \<Rightarrow> json option) \<Rightarrow> 't option \<Rightarrow> json option" where
  "scan_cache_document bytes parse raw = do {
     text \<leftarrow> raw;
     value \<leftarrow> (if bytes text \<le> max_json_bytes then parse text else None);
     _ \<leftarrow> as_object value;
     Some value}"

definition read_scan_cache :: "('t \<Rightarrow> nat) \<Rightarrow> ('t \<Rightarrow> json option) \<Rightarrow> 't option \<Rightarrow> scan_cache" where
  "read_scan_cache bytes parse raw = unwrap_or scan_cache_default
     (do { value \<leftarrow> scan_cache_document bytes parse raw; m \<leftarrow> as_object value; cache_read m})"

text \<open>The scopes of the previous marker by identity; two different documents of one scope conflict.\<close>

fun collect_scopes :: "json list \<Rightarrow> (session_scope \<times> json) list \<Rightarrow> (session_scope \<times> json) list option" where
  "collect_scopes [] scopes = Some scopes"
| "collect_scopes (v # vs) scopes = do {
     m \<leftarrow> as_object v;
     identity \<leftarrow> scope_read m;
     case map_of scopes identity of
       Some previous \<Rightarrow>
         if json_eq previous v then collect_scopes vs (AList.update identity v scopes) else None
     | None \<Rightarrow> collect_scopes vs (AList.update identity v scopes)}"

definition pending_payload ::
    "('t \<Rightarrow> json option) \<Rightarrow> (json \<Rightarrow> 't) \<Rightarrow> pending_ingest \<Rightarrow> 't option \<Rightarrow> 't option" where
  "pending_payload parse render pending previous = do {
     old \<leftarrow> pending_document parse previous;
     value \<leftarrow> preserve pending_keys pending_read pending_members pending old;
     old_scopes \<leftarrow> collect_scopes
       (unwrap_or [] (Option.bind (Option.bind old (json_get ''session_scopes'')) as_array)) [];
     scopes \<leftarrow> those (map (\<lambda>s. map_option JObj (preserve scope_keys scope_read scope_members s
       (map_of old_scopes s))) (pi_session_scopes pending));
     Some (render (JObj (member_insert ''session_scopes'' (JArr scopes) value)))}"

definition scan_cache_payload ::
    "('t \<Rightarrow> nat) \<Rightarrow> ('t \<Rightarrow> json option) \<Rightarrow> (json \<Rightarrow> 't) \<Rightarrow> scan_cache \<Rightarrow> 't option \<Rightarrow> 't" where
  "scan_cache_payload bytes parse render cache previous =
    (let value = cache_members cache
     in render (JObj (case scan_cache_document bytes parse previous of
          Some (JObj old) \<Rightarrow> member_extend value (filter (\<lambda>(k, _). k \<notin> fst ` set value) old)
        | _ \<Rightarrow> value)))"

definition ingest_keys :: "str set" where
  "ingest_keys = {''next_doc_id'', ''files'', ''opencode_databases''}"

definition ingest_read :: "members \<Rightarrow> ingest_state option" where
  "ingest_read m = do {
     next_id \<leftarrow> get_req ''next_doc_id'' u64_json m;
     files \<leftarrow> get_req ''files'' (entries_json (\<lambda>v. Option.bind (as_object v) file_read)) m;
     databases \<leftarrow> get_default ''opencode_databases'' []
       (entries_json (\<lambda>v. Option.bind (as_object v) database_read)) m;
     Some \<lparr>is_next_doc_id = next_id, is_files = files, is_opencode_databases = databases\<rparr>}"

definition legacy_extras :: "(json \<Rightarrow> 't) \<Rightarrow> json \<Rightarrow> 't option" where
  "legacy_extras render v = map_option (\<lambda>m. render (JObj m)) (extensions ingest_keys ingest_read v)"

section \<open>What is preserved\<close>

text \<open>Parsed objects have distinct keys, at every depth.\<close>

function json_wf :: "json \<Rightarrow> bool" where
  "json_wf (JObj m) = (distinct (map fst m) \<and> list_all (\<lambda>(k, x). json_wf x) m)"
| "json_wf (JArr xs) = list_all json_wf xs"
| "json_wf JNull = True"
| "json_wf (JBool b) = True"
| "json_wf (JInt i) = True"
| "json_wf (JStr s) = True"
  by pat_completeness auto
termination
proof (relation "measure size", goal_cases)
  case 1
  show ?case by simp
next
  case (2 m z k x)
  then have "size x < size (JObj m)"
    using size_list_estimation' [of "(k, x)" m "size x" "\<lambda>p. Suc (size (snd p))"] by (force simp: size_prod_simp)
  then show ?case by simp
next
  case (3 xs x)
  then show ?case using size_list_estimation' [of x xs "size x" size] by simp
qed

lemma json_wf_get: "json_wf v \<Longrightarrow> json_get k v = Some w \<Longrightarrow> json_wf w"
  by (cases v) (auto simp: json_get_def list_all_iff dest!: map_of_SomeD)

lemma json_wf_get_option: "is_none_or json_wf old \<Longrightarrow> is_none_or json_wf (Option.bind old (json_get k))"
proof (cases old)
  case (Some v)
  assume "is_none_or json_wf old"
  then show ?thesis using json_wf_get [of v k] by (cases "json_get k v") (simp_all add: Some)
qed simp

lemma map_of_filter_keys: "map_of (filter (\<lambda>(k, _). P k) m) j = (if P j then map_of m j else None)"
  by (induction m) auto

lemma preserve_spec:
  assumes p: "preserve known dec enc current previous = Some m"
    and wr: "fst ` set (enc current) \<subseteq> known" and wf: "is_none_or json_wf previous"
  shows "map_of m k = (if k \<in> known then map_of (enc current) k else Option.bind previous (json_get k))"
proof (cases previous)
  case None
  then show ?thesis using p wr by (auto simp: preserve_def map_of_eq_None_iff)
next
  case (Some v)
  then obtain old x where old: "v = JObj old" "dec old = Some x"
    "m = member_extend (enc current) (filter (\<lambda>(k, _). k \<notin> known) old)"
    using p by (auto simp: preserve_def extensions_def as_object_def split: json.splits option.splits)
  have "distinct (map fst old)" using wf Some old by simp
  then have m: "map_of m = map_of (enc current) ++ map_of (filter (\<lambda>(k, _). k \<notin> known) old)"
    unfolding old(3) by (intro map_of_member_extend) (simp add: distinct_map_filter)
  show ?thesis
  proof (cases "k \<in> known")
    case True
    then show ?thesis by (simp add: m map_add_def map_of_filter_keys)
  next
    case False
    then have "map_of (enc current) k = None" using wr by (auto simp: map_of_eq_None_iff)
    then show ?thesis
      using False by (simp add: m map_add_def map_of_filter_keys Some old(1) json_get_def split: option.splits)
  qed
qed

lemma preserve_reads:
  assumes "preserve known dec enc current previous = Some m" "fst ` set (enc current) \<subseteq> known"
    "is_none_or json_wf previous" "reads_only known dec"
  shows "dec m = dec (enc current)"
  by (rule reads_onlyD [OF assms(4)]) (simp add: preserve_spec [OF assms(1-3)])

lemma preserve_total:
  "is_none_or (\<lambda>v. Option.bind (as_object v) dec \<noteq> None) previous \<Longrightarrow>
    \<exists>m. preserve known dec enc current previous = Some m"
  by (cases previous) (auto simp: preserve_def extensions_def bind_eq_Some_conv split: option.splits)

lemma preserve_calls_spec:
  assumes "preserve_calls calls old m = Some m'" "distinct (map fst calls)" "is_none_or json_wf old"
  shows "\<forall>k. case map_of calls k of
      None \<Rightarrow> map_of m' k = map_of m k
    | Some c \<Rightarrow> (\<exists>n. map_of m' k = Some (JObj n) \<and> call_read n = Some c
        \<and> (\<forall>j. j \<notin> call_keys \<longrightarrow> map_of n j = Option.bind (Option.bind old (json_get k)) (json_get j)))"
  using assms
proof (induction calls old m rule: preserve_calls.induct)
  case (2 cid call rest old calls)
  then obtain w where v: "preserve_call call (Option.bind old (json_get cid)) = Some w"
    "preserve_calls rest old (member_insert cid (JObj w) calls) = Some m'"
    by (auto simp: bind_eq_Some_conv)
  have wf: "is_none_or json_wf (Option.bind old (json_get cid))"
    using "2.prems"(3) by (rule json_wf_get_option)
  have w: "call_read w = Some call"
    "\<forall>j. j \<notin> call_keys \<longrightarrow> map_of w j = Option.bind (Option.bind old (json_get cid)) (json_get j)"
    using preserve_reads [OF v(1) [unfolded preserve_call_def] writers_local(2) wf readers_local(2)]
      preserve_spec [OF v(1) [unfolded preserve_call_def] writers_local(2) wf] call_read_members [of call]
    by simp_all
  have "distinct (map fst rest)" "map_of rest cid = None"
    using "2.prems"(2) by (simp_all add: map_of_eq_None_iff)
  note ih = "2.IH" [OF v this(1) "2.prems"(3)] and fresh = this(2)
  show ?case
  proof
    fix k
    show "case map_of ((cid, call) # rest) k of
        None \<Rightarrow> map_of m' k = map_of calls k
      | Some c \<Rightarrow> (\<exists>n. map_of m' k = Some (JObj n) \<and> call_read n = Some c
          \<and> (\<forall>j. j \<notin> call_keys \<longrightarrow> map_of n j = Option.bind (Option.bind old (json_get k)) (json_get j)))"
    proof (cases "k = cid")
      case True
      then have "map_of m' k = Some (JObj w)" using spec [OF ih, of k] fresh by simp
      then show ?thesis using w True by simp
    next
      case False
      then show ?thesis using spec [OF ih, of k] by (cases "map_of rest k") simp_all
    qed
  qed
qed simp

definition decodes :: "(members \<Rightarrow> 'a option) \<Rightarrow> json \<Rightarrow> bool" where
  "decodes dec v = (Option.bind (as_object v) dec \<noteq> None)"

lemma preserve_calls_total:
  assumes "\<And>k w. Option.bind old (json_get k) = Some w \<Longrightarrow> decodes call_read w"
  shows "\<exists>m'. preserve_calls calls old m = Some m'"
  using assms
proof (induction calls old m rule: preserve_calls.induct)
  case (2 cid call rest old calls)
  obtain w where "preserve_call call (Option.bind old (json_get cid)) = Some w"
    using preserve_total [of call_read "Option.bind old (json_get cid)" call_keys call_members call] "2.prems" [of cid]
    unfolding preserve_call_def decodes_def by (cases "Option.bind old (json_get cid)") auto
  then show ?case using 2 by simp
qed simp

lemma those_map_SomeD: "those (map f xs) = Some ys \<Longrightarrow> x \<in> set xs \<Longrightarrow> f x \<noteq> None"
  by (induction xs arbitrary: ys) (auto split: option.splits)

lemma file_read_parts:
  assumes "decodes file_read v"
  shows "json_get ''identity'' v = Some w \<Longrightarrow> decodes identity_read w"
    and "Option.bind (json_get ''pending_tool_calls'' v) (json_get k) = Some w \<Longrightarrow> decodes call_read w"
proof -
  obtain m where m: "v = JObj m" using assms by (auto simp: decodes_def as_object_def split: json.splits)
  obtain f where "file_read m = Some f" using assms by (auto simp: decodes_def as_object_def m)
  then obtain i cs where parts:
    "get_default ''identity'' identity_default (\<lambda>v. Option.bind (as_object v) identity_read) m = Some i"
    "get_default ''pending_tool_calls'' [] (entries_json (\<lambda>v. Option.bind (as_object v) call_read)) m = Some cs"
    by (auto simp: file_read_def bind_eq_Some_conv)
  show "json_get ''identity'' v = Some w \<Longrightarrow> decodes identity_read w"
    using parts(1) by (simp add: m json_get_def get_default_def decodes_def)
  assume "Option.bind (json_get ''pending_tool_calls'' v) (json_get k) = Some w"
  then obtain y where y: "map_of m ''pending_tool_calls'' = Some y" "json_get k y = Some w"
    by (auto simp: m json_get_def [of "''pending_tool_calls''"] bind_eq_Some_conv)
  then obtain cm where cm: "map_of m ''pending_tool_calls'' = Some (JObj cm)" "map_of cm k = Some w"
    by (cases y) (auto simp: json_get_def)
  then have "those (map (\<lambda>(k, x). map_option (Pair k) (Option.bind (as_object x) call_read)) cm) = Some cs"
    using parts(2) by (simp add: get_default_def entries_json_def)
  from those_map_SomeD [OF this map_of_SomeD [OF cm(2)]] show "decodes call_read w"
    by (simp add: decodes_def)
qed

text \<open>The rewritten payload as a document.\<close>

lemma file_payload_document:
  assumes old: "is_none_or (decodes file_read) old" "is_none_or json_wf old"
    and v: "valid_file file"
  shows "\<exists>value identity calls.
    preserve file_keys_known file_read file_members file old = Some value
    \<and> preserve_identity (fl_identity file) (Option.bind old (json_get ''identity'')) = Some identity
    \<and> preserve_calls (fl_pending_tool_calls file) (Option.bind old (json_get ''pending_tool_calls''))
        (object_or (the (map_of value ''pending_tool_calls''))) = Some calls
    \<and> identity_read identity = Some (fl_identity file)
    \<and> (\<forall>k. map_of identity k = (if k \<in> identity_keys then map_of (identity_members (fl_identity file)) k
         else Option.bind (Option.bind old (json_get ''identity'')) (json_get k)))
    \<and> (\<forall>k. map_of value k = (if k \<in> file_keys_known then map_of (file_members file) k
         else Option.bind old (json_get k)))"
proof -
  obtain val where val: "preserve file_keys_known file_read file_members file old = Some val"
    using preserve_total [of file_read old] old(1) unfolding decodes_def [abs_def] by blast
  have "is_none_or (decodes identity_read) (Option.bind old (json_get ''identity''))"
    using old(1) file_read_parts(1) by (cases old) (auto simp: is_none_or_def split: option.splits)
  then obtain ident where ident:
    "preserve_identity (fl_identity file) (Option.bind old (json_get ''identity'')) = Some ident"
    using preserve_total [of identity_read "Option.bind old (json_get ''identity'')"]
    unfolding decodes_def [abs_def] preserve_identity_def by blast
  note id = ident [unfolded preserve_identity_def]
  have "\<exists>calls. preserve_calls (fl_pending_tool_calls file) (Option.bind old (json_get ''pending_tool_calls''))
      (object_or (the (map_of val ''pending_tool_calls''))) = Some calls"
    by (rule preserve_calls_total) (use old(1) file_read_parts(2) in \<open>auto simp: bind_eq_Some_conv\<close>)
  moreover have "identity_read ident = Some (fl_identity file)"
    using preserve_reads [OF id writers_local(1) json_wf_get_option [OF old(2)] readers_local(1)] v
    by (simp add: valid_file_def identity_read_members)
  ultimately show ?thesis
    using val ident preserve_spec [OF id writers_local(1) json_wf_get_option [OF old(2)]]
      preserve_spec [OF val writers_local(3) old(2)] by blast
qed

lemma preserve_calls_keys:
  "preserve_calls calls old m = Some m' \<Longrightarrow> fst ` set calls \<subseteq> fst ` set m \<Longrightarrow> map fst m' = map fst m"
proof (induction calls old m rule: preserve_calls.induct)
  case (2 cid call rest old calls)
  then obtain w where "preserve_call call (Option.bind old (json_get cid)) = Some w"
    "preserve_calls rest old (member_insert cid (JObj w) calls) = Some m'"
    by (auto simp: bind_eq_Some_conv)
  moreover have "map fst (member_insert cid (JObj w) calls) = map fst calls"
    using "2.prems"(2) by (simp add: member_insert_def update_keys)
  ultimately show ?case
    using "2.IH" [of w] "2.prems"(2) by (metis (no_types, lifting) dual_order.trans list.set_map list.simps(15) set_subset_Cons image_mono)
qed simp

lemma entries_decode:
  assumes "map fst m = map fst cs" "distinct (map fst cs)"
    and "\<And>k c. map_of cs k = Some c \<Longrightarrow> \<exists>n. map_of m k = Some n \<and> dec n = Some c"
  shows "entries_json dec (JObj m) = Some cs"
proof -
  have "those (map (\<lambda>(k, x). map_option (Pair k) (dec x)) m) = Some cs"
    using assms
  proof (induction cs arbitrary: m)
    case (Cons kc cs)
    obtain k c where kc: "kc = (k, c)" by (cases kc)
    then obtain x m0 where m: "m = (k, x) # m0" "map fst m0 = map fst cs"
      using Cons.prems(1) by (cases m) auto
    have "dec x = Some c" using Cons.prems(3) [of k c] by (simp add: kc m)
    moreover have "those (map (\<lambda>(k, x). map_option (Pair k) (dec x)) m0) = Some cs"
    proof (rule Cons.IH [OF m(2)])
      show "distinct (map fst cs)" using Cons.prems(2) by simp
      fix j d assume j: "map_of cs j = Some d"
      then have "j \<in> fst ` set cs" by (metis domI dom_map_of_conv_image_fst)
      then have "j \<noteq> k" using Cons.prems(2) by (auto simp: kc)
      then show "\<exists>n. map_of m0 j = Some n \<and> dec n = Some d"
        using Cons.prems(3) [of j d] j by (simp add: kc m)
    qed
    ultimately show ?case by (simp add: kc m)
  qed simp
  then show ?thesis by (simp add: entries_json_def)
qed

section \<open>Rewritten documents are well-formed\<close>

definition wf_members :: "members \<Rightarrow> bool" where
  "wf_members m = (distinct (map fst m) \<and> (\<forall>x \<in> snd ` set m. json_wf x))"

lemma json_wf_members: "json_wf (JObj m) = wf_members m"
  by (auto simp: wf_members_def list_all_iff)

lemma values_update: "snd ` set (AList.update k v m) \<subseteq> insert v (snd ` set m)"
  by (induction m) auto

lemma wf_insert: "wf_members m \<Longrightarrow> json_wf v \<Longrightarrow> wf_members (member_insert k v m)"
  using values_update [of k v m] distinct_update [of m k v] unfolding wf_members_def member_insert_def by blast

lemma wf_extend: "wf_members m \<Longrightarrow> \<forall>x \<in> snd ` set extra. json_wf x \<Longrightarrow> wf_members (member_extend m extra)"
  by (induction extra arbitrary: m) (auto simp: member_extend_def wf_insert)

lemma wf_preserve:
  assumes "preserve known dec enc current previous = Some m" "wf_members (enc current)" "is_none_or json_wf previous"
  shows "wf_members m"
proof (cases previous)
  case None
  then show ?thesis using assms by (simp add: preserve_def)
next
  case (Some v)
  then obtain old where old: "v = JObj old" "m = member_extend (enc current) (filter (\<lambda>(k, _). k \<notin> known) old)"
    using assms(1) by (auto simp: preserve_def extensions_def as_object_Some split: option.splits)
  have "\<forall>x \<in> snd ` set (filter (\<lambda>(k, _). k \<notin> known) old). json_wf x"
    using assms(3) by (auto simp: Some old(1) list_all_iff)
  then show ?thesis unfolding old(2) by (rule wf_extend [OF assms(2)])
qed

lemma keys_put [json_simps]:
  "k \<in> fst ` set (put_some j e x) \<longleftrightarrow> k = j \<and> x \<noteq> None" "fst ` set (put_field j v) = {j}"
  by (auto simp: put_some_def put_field_def split: option.splits)

lemma wf_put [json_simps]:
  "wf_members (put_some j e x @ m) \<longleftrightarrow> wf_members m \<and> (x \<noteq> None \<longrightarrow> j \<notin> fst ` set m \<and> json_wf (e (the x)))"
  "wf_members (put_field j v @ m) \<longleftrightarrow> wf_members m \<and> j \<notin> fst ` set m \<and> json_wf v"
  "wf_members (put_some j e x) \<longleftrightarrow> (x \<noteq> None \<longrightarrow> json_wf (e (the x)))"
  "wf_members (put_field j v) \<longleftrightarrow> json_wf v"
  by (auto simp: wf_members_def put_some_def put_field_def split: option.splits)

lemma json_wf_scalars [json_simps]: "json_wf (json_u64 w)" "json_wf (json_u32 v)" "json_wf (wal_json i)"
  by (simp_all add: json_u64_def json_u32_def wal_json_def put_field_def put_option_def split: option.splits)

lemma wf_identity: "wf_members (identity_members i)"
  by (simp add: identity_members_def json_simps image_Un)

lemma wf_call: "wf_members (call_members c)"
  by (simp add: call_members_def json_simps image_Un)

lemma wf_file: "valid_file f \<Longrightarrow> wf_members (file_members f)"
  by (auto simp: file_members_def json_simps image_Un json_wf_members wf_identity json_entries_def wf_call
      valid_file_def list_all_iff wf_members_def [of "map _ _"] comp_def case_prod_unfold simp del: json_wf.simps(1))

lemma wf_preserve_calls:
  "preserve_calls calls old m = Some m' \<Longrightarrow> wf_members m \<Longrightarrow> is_none_or json_wf old \<Longrightarrow> wf_members m'"
proof (induction calls old m rule: preserve_calls.induct)
  case (2 cid call rest old calls)
  then obtain w where w: "preserve_call call (Option.bind old (json_get cid)) = Some w"
    "preserve_calls rest old (member_insert cid (JObj w) calls) = Some m'"
    by (auto simp: bind_eq_Some_conv)
  have "json_wf (JObj w)" unfolding json_wf_members
    using w(1) wf_call json_wf_get_option [OF "2.prems"(3)] unfolding preserve_call_def by (rule wf_preserve)
  then show ?case using "2.IH" [OF w wf_insert] "2.prems" by blast
qed simp

lemma file_payload_spec:
  assumes "parse_previous parse previous = Some old" "is_none_or json_wf old"
    and "is_none_or (decodes file_read) old" "valid_file file"
  shows "\<exists>m. file_payload parse render file previous = Some (render (JObj m))
    \<and> json_wf (JObj m) \<and> file_read m = Some file
    \<and> (\<forall>k. k \<in> file_keys_known \<or> map_of m k = Option.bind old (json_get k))
    \<and> (\<forall>k. k \<in> identity_keys \<or> Option.bind (map_of m ''identity'') (json_get k) =
         Option.bind (Option.bind old (json_get ''identity'')) (json_get k))
    \<and> (\<forall>c \<in> fst ` set (fl_pending_tool_calls file). \<forall>k. k \<in> call_keys
         \<or> Option.bind (Option.bind (map_of m ''pending_tool_calls'') (json_get c)) (json_get k) =
           Option.bind (Option.bind (Option.bind old (json_get ''pending_tool_calls'')) (json_get c)) (json_get k))"
proof -
  let ?old = "Option.bind old (json_get ''pending_tool_calls'')"
  obtain val ident calls where doc:
    "preserve file_keys_known file_read file_members file old = Some val"
    "preserve_identity (fl_identity file) (Option.bind old (json_get ''identity'')) = Some ident"
    "preserve_calls (fl_pending_tool_calls file) ?old
        (object_or (the (map_of val ''pending_tool_calls''))) = Some calls"
    "identity_read ident = Some (fl_identity file)"
    "\<And>k. map_of ident k = (if k \<in> identity_keys then map_of (identity_members (fl_identity file)) k
         else Option.bind (Option.bind old (json_get ''identity'')) (json_get k))"
    "\<And>k. map_of val k = (if k \<in> file_keys_known then map_of (file_members file) k
         else Option.bind old (json_get k))"
    using file_payload_document [OF assms(3,2,4)] by blast
  let ?m = "member_insert ''pending_tool_calls'' (JObj calls) (member_insert ''identity'' (JObj ident) val)"
  let ?cs = "fl_pending_tool_calls file"
  have known: "''pending_tool_calls'' \<in> file_keys_known" "''identity'' \<in> file_keys_known"
    by (simp_all add: file_keys_known_def)
  have base: "object_or (the (map_of val ''pending_tool_calls'')) = map (\<lambda>(k, c). (k, JObj (call_members c))) ?cs"
    by (simp add: doc(6) known file_members_def json_simps object_or_def json_entries_def)
  have dist: "distinct (map fst ?cs)" using assms(4) by (simp add: valid_file_def)
  note calls = preserve_calls_spec [OF doc(3) dist json_wf_get_option [OF assms(2)], rule_format]
  have call: "\<exists>n. map_of calls k = Some (JObj n) \<and> call_read n = Some c
      \<and> (\<forall>j. j \<notin> call_keys \<longrightarrow> map_of n j = Option.bind (Option.bind ?old (json_get k)) (json_get j))"
    if "map_of ?cs k = Some c" for k c using calls [of k] that by simp
  have keys: "map fst calls = map fst ?cs"
    using preserve_calls_keys [OF doc(3)] by (simp add: base case_prod_unfold comp_def image_image)
  have ent: "entries_json (\<lambda>v. Option.bind (as_object v) call_read) (JObj calls) = Some ?cs"
    by (rule entries_decode [OF keys dist]) (use call in \<open>fastforce simp: as_object_JObj\<close>)
  have read: "file_read ?m = file_read (member_insert ''pending_tool_calls''
      (json_entries (\<lambda>c. JObj (call_members c)) ?cs) (member_insert ''identity'' (JObj (identity_members (fl_identity file))) val))"
    using ent doc(4) entries_json_inv [of ?cs "\<lambda>v. Option.bind (as_object v) call_read" "\<lambda>c. JObj (call_members c)"]
      identity_read_members [of "fl_identity file"] assms(4)
    by (simp add: file_read_def getter_defs as_object_JObj call_read_members valid_file_def)
  also have "\<dots> = file_read (file_members file)"
    by (rule reads_onlyD [OF readers_local(3)]) (auto simp: doc(6) file_members_def json_simps)
  finally have "file_read ?m = Some file" using assms(4) by (simp add: file_read_members)
  moreover have "file_payload parse render file previous = Some (render (JObj ?m))"
    by (simp add: file_payload_def assms(1) doc(1-3))
  moreover have "\<forall>k. k \<in> file_keys_known \<or> map_of ?m k = Option.bind old (json_get k)"
    using known by (auto simp: doc(6))
  moreover have "\<forall>k. k \<in> identity_keys \<or> Option.bind (map_of ?m ''identity'') (json_get k) =
      Option.bind (Option.bind old (json_get ''identity'')) (json_get k)"
    by (simp add: json_get_def [of _ "JObj ident"] doc(5))
  moreover have "\<forall>c \<in> fst ` set ?cs. \<forall>k. k \<in> call_keys
      \<or> Option.bind (Option.bind (map_of ?m ''pending_tool_calls'') (json_get c)) (json_get k) =
        Option.bind (Option.bind ?old (json_get c)) (json_get k)"
  proof (intro ballI allI)
    fix c k assume "c \<in> fst ` set ?cs"
    then obtain x where "map_of ?cs c = Some x" by (metis map_of_eq_None_iff option.exhaust)
    from call [OF this] obtain n where n: "map_of calls c = Some (JObj n)"
      "\<forall>j. j \<notin> call_keys \<longrightarrow> map_of n j = Option.bind (Option.bind ?old (json_get c)) (json_get j)" by blast
    then show "k \<in> call_keys
      \<or> Option.bind (Option.bind (map_of ?m ''pending_tool_calls'') (json_get c)) (json_get k) =
        Option.bind (Option.bind ?old (json_get c)) (json_get k)"
      by (auto simp: json_get_def [of c "JObj calls"] json_get_def [of k "JObj n"])
  qed
  moreover have "json_wf (JObj ?m)"
  proof -
    have "wf_members val" using doc(1) wf_file [OF assms(4)] assms(2) by (rule wf_preserve)
    moreover have "wf_members ident"
      using doc(2) wf_identity json_wf_get_option [OF assms(2)] unfolding preserve_identity_def by (rule wf_preserve)
    moreover have "wf_members (map (\<lambda>(k, c). (k, JObj (call_members c))) ?cs)"
      using dist json_wf_members wf_call
      by (auto simp: wf_members_def [of "map _ _"] comp_def case_prod_unfold simp del: json_wf.simps(1))
    then have "wf_members calls"
      using doc(3) json_wf_get_option [OF assms(2)] by (auto simp: base intro: wf_preserve_calls)
    ultimately show ?thesis unfolding json_wf_members by (intro wf_insert) (simp_all add: json_wf_members del: json_wf.simps(1))
  qed
  ultimately show ?thesis by blast
qed

text \<open>
  C20: Rewriting a file's checkpoint never fails on a readable previous payload and loses nothing: the
  new document decodes to exactly the new state, and every member this version does not know, at
  the top, in the file identity and in each pending tool call that is kept, is carried over from the
  previous document.
\<close>

theorem file_payload_preserves:
  assumes "parse_previous parse previous = Some old" "is_none_or json_wf old"
    and "is_none_or (decodes file_read) old" "valid_file file"
  shows "\<exists>m. file_payload parse render file previous = Some (render (JObj m))
    \<and> file_read m = Some file
    \<and> (\<forall>k. k \<in> file_keys_known \<or> map_of m k = Option.bind old (json_get k))
    \<and> (\<forall>k. k \<in> identity_keys \<or> Option.bind (map_of m ''identity'') (json_get k) =
         Option.bind (Option.bind old (json_get ''identity'')) (json_get k))
    \<and> (\<forall>c \<in> fst ` set (fl_pending_tool_calls file). \<forall>k. k \<in> call_keys
         \<or> Option.bind (Option.bind (map_of m ''pending_tool_calls'') (json_get c)) (json_get k) =
           Option.bind (Option.bind (Option.bind old (json_get ''pending_tool_calls'')) (json_get c)) (json_get k))"
  using file_payload_spec [OF assms] by blast

definition sample_payload :: json where
  "sample_payload = JObj (file_members sample_file @ [(''future'', JInt 7)])"

lemma file_payload_preserves_witness:
  "\<exists>m. file_payload Some id sample_file (Some sample_payload) = Some (JObj m)
    \<and> file_read m = Some sample_file \<and> map_of m ''future'' = Some (JInt 7)"
proof -
  have "file_read (file_members sample_file @ [(''future'', JInt 7)]) = file_read (file_members sample_file)"
    by (rule reads_onlyD [OF readers_local(3)]) (auto simp: map_of_append map_add_def file_keys_known_def split: option.splits)
  then have "decodes file_read sample_payload"
    by (simp add: decodes_def sample_payload_def as_object_def file_read_members sample_valid)
  moreover have "json_wf sample_payload"
    by (simp add: sample_payload_def file_members_def sample_file_def put_field_def put_some_def
        json_u64_def json_u32_def json_entries_def sample_call_def call_members_def identity_members_def identity_default_def)
  ultimately obtain m where m: "file_payload Some id sample_file (Some sample_payload) = Some (id (JObj m))"
    "file_read m = Some sample_file" "\<forall>k. k \<in> file_keys_known \<or> map_of m k = Option.bind (Some sample_payload) (json_get k)"
    using file_payload_preserves [of Some "Some sample_payload" "Some sample_payload" sample_file id] sample_valid(1)
    by (auto simp: parse_previous_def)
  have "json_get ''future'' sample_payload = Some (JInt 7)"
    by (simp add: sample_payload_def json_get_def file_members_def json_simps)
  then show ?thesis using m(1,2) m(3) [THEN spec, of "''future''"] by (auto simp: file_keys_known_def)
qed

end
