(* ===== verification/Checkpoint.thy ===== *)
theory Checkpoint
  imports CheckpointCodec Decimal
begin

text \<open>
  The checkpoint store of \<open>src/state/checkpoint.rs\<close>: its SQLite tables and its legacy JSON document, the
  reader over either, and the writer's transactions. A transaction is a function of the tables; an
  error is \<open>None\<close> and leaves them as they were. Opening, locking and migrating the database files, and
  the sidecar files of the legacy format, belong to \<open>lifecycle.rs\<close>: their contents are arguments.
\<close>

section \<open>The next document id\<close>

definition parse_next_id :: "str \<Rightarrow> nat option" where
  "parse_next_id s =
    (case parse_u64 s of None \<Rightarrow> None | Some n \<Rightarrow> if decimal n = s then Some n else None)"

section \<open>Tables\<close>

datatype file_load_scope = Targeted | Bulk

record directory_stamp =
  ds_device :: u64
  ds_inode :: u64
  ds_mtime_secs :: int
  ds_mtime_nanos :: int
  ds_ctime_secs :: int
  ds_ctime_nanos :: int

record directory_stamp_update =
  du_fingerprint :: str
  du_upserts :: "(str \<times> directory_stamp) list"
  du_deletes :: "str list"

record journal_cursor =
  jc_device_uuid :: str
  jc_event_id :: u64

record journal_cursor_update =
  ju_fingerprint :: str
  ju_cursor :: journal_cursor

text \<open>The device, inode and event id columns hold the signed reading of their bits; casting back is
  exact, so they are kept as they are written.\<close>

record 't ckpt_tables =
  ct_files :: "(str \<times> 't) list"
  ct_next_doc_id :: str
  ct_databases :: 't
  ct_legacy_extras :: 't
  ct_pending :: "'t option"
  ct_scan_cache :: "'t option"
  ct_directories :: "(str \<times> str \<times> directory_stamp) list"
  ct_journal :: "(str \<times> journal_cursor) list"

datatype 't backend = Legacy json | Sqlite int "'t ckpt_tables"

record checkpoint_header =
  ch_next_doc_id :: nat
  ch_opencode_databases :: "(str \<times> opencode_database_state) list"
  ch_pending :: "pending_ingest option"
  ch_scan_cache :: scan_cache

datatype pending_change = Keep | Replace pending_ingest | Clear

record checkpoint_delta =
  cd_upserts :: "(str \<times> file_state) list"
  cd_deletes :: "str list"
  cd_clear_files :: bool
  cd_next_doc_id :: "u64 option"
  cd_opencode_databases :: "(str \<times> opencode_database_state) list option"
  cd_pending :: pending_change
  cd_scan_cache :: "scan_cache option"
  cd_directory_stamps :: "directory_stamp_update option"
  cd_journal_cursor :: "journal_cursor_update option"

definition delta_default :: checkpoint_delta where
  "delta_default = \<lparr>cd_upserts = [], cd_deletes = [], cd_clear_files = False, cd_next_doc_id = None,
     cd_opencode_databases = None, cd_pending = Keep, cd_scan_cache = None,
     cd_directory_stamps = None, cd_journal_cursor = None\<rparr>"

section \<open>Reading\<close>

text \<open>\<open>serde_json::from_str::<FileState>\<close> of a payload, and \<open>from_value\<close> of a member.\<close>

definition file_of_json :: "json \<Rightarrow> file_state option" where
  "file_of_json v = Option.bind (as_object v) file_read"

definition file_of_text :: "('t \<Rightarrow> json option) \<Rightarrow> 't \<Rightarrow> file_state option" where
  "file_of_text parse t = Option.bind (parse t) file_of_json"

definition databases_of :: "json \<Rightarrow> (str \<times> opencode_database_state) list option" where
  "databases_of v = entries_json (\<lambda>d. Option.bind (as_object d) database_read) v"

definition is_v2 :: "'t backend \<Rightarrow> bool" where
  "is_v2 b = (case b of Sqlite v _ \<Rightarrow> v = 2 | _ \<Rightarrow> False)"

definition legacy_file :: "json \<Rightarrow> str \<Rightarrow> json option" where
  "legacy_file v path = Option.bind (json_get ''files'' v) (json_get path)"

text \<open>A pending marker and a scan cache come from the metadata row of a version 2 store, from the
  sidecar files otherwise.\<close>

definition export_pending_json ::
    "('t \<Rightarrow> json option) \<Rightarrow> 't option \<Rightarrow> 't backend \<Rightarrow> json option option" where
  "export_pending_json parse sidecar b =
    pending_document parse (case b of Sqlite v t \<Rightarrow> if v = 2 then ct_pending t else sidecar | _ \<Rightarrow> sidecar)"

definition bounded :: "('t \<Rightarrow> nat) \<Rightarrow> 't option \<Rightarrow> 't option" where
  "bounded bytes x = (case x of None \<Rightarrow> None | Some t \<Rightarrow> if bytes t \<le> max_json_bytes then Some t else None)"

definition export_scan_cache_json ::
    "('t \<Rightarrow> nat) \<Rightarrow> ('t \<Rightarrow> json option) \<Rightarrow> 't option \<Rightarrow> 't backend \<Rightarrow> json option" where
  "export_scan_cache_json bytes parse sidecar b =
    scan_cache_document bytes parse
      (case b of Sqlite v t \<Rightarrow> if v = 2 then bounded bytes (ct_scan_cache t) else sidecar | _ \<Rightarrow> sidecar)"

definition reader_header ::
    "('t \<Rightarrow> nat) \<Rightarrow> ('t \<Rightarrow> json option) \<Rightarrow> 't option \<Rightarrow> 't option \<Rightarrow> 't backend \<Rightarrow> checkpoint_header option" where
  "reader_header bytes parse pending_sidecar cache_sidecar b =
    do {
      (next_id, databases) \<leftarrow>
        (case b of
           Legacy v \<Rightarrow> do {
             m \<leftarrow> as_object v;
             state \<leftarrow> ingest_read m;
             Some (unat (is_next_doc_id state), is_opencode_databases state)}
         | Sqlite _ t \<Rightarrow> do {
             next_id \<leftarrow> parse_next_id (ct_next_doc_id t);
             v \<leftarrow> parse (ct_databases t);
             databases \<leftarrow> databases_of v;
             Some (next_id, databases)});
      document \<leftarrow> export_pending_json parse pending_sidecar b;
      pending \<leftarrow> (case document of
         None \<Rightarrow> Some None
       | Some v \<Rightarrow> do { m \<leftarrow> as_object v; map_option Some (pending_read m) });
      Some \<lparr>ch_next_doc_id = next_id, ch_opencode_databases = databases, ch_pending = pending,
        ch_scan_cache = unwrap_or scan_cache_default
          (do { v \<leftarrow> export_scan_cache_json bytes parse cache_sidecar b; m \<leftarrow> as_object v; cache_read m})\<rparr>}"

text \<open>The legacy loop and the two ways of reading the table. \<open>result.insert\<close> keeps one entry per path.\<close>

fun load_points ::
    "(str \<Rightarrow> 'v option) \<Rightarrow> ('v \<Rightarrow> file_state option) \<Rightarrow> str list
     \<Rightarrow> (str \<times> file_state option) list \<Rightarrow> (str \<times> file_state option) list option" where
  "load_points look dec [] result = Some result"
| "load_points look dec (path # paths) result =
    (case look path of
       None \<Rightarrow> load_points look dec paths (AList.update path None result)
     | Some t \<Rightarrow> (case dec t of
         None \<Rightarrow> None
       | Some file \<Rightarrow> load_points look dec paths (AList.update path (Some file) result)))"

fun load_scan ::
    "('t \<Rightarrow> file_state option) \<Rightarrow> str list \<Rightarrow> (str \<times> 't) list
     \<Rightarrow> (str \<times> file_state option) list \<Rightarrow> (str \<times> file_state option) list option" where
  "load_scan dec wanted [] result = Some result"
| "load_scan dec wanted ((path, t) # rows) result =
    (if path \<notin> set wanted then load_scan dec wanted rows result
     else case dec t of
       None \<Rightarrow> None
     | Some file \<Rightarrow> load_scan dec wanted rows (AList.update path (Some file) result))"

definition or_insert_none ::
    "str \<Rightarrow> (str \<times> file_state option) list \<Rightarrow> (str \<times> file_state option) list" where
  "or_insert_none path result = (if path \<in> fst ` set result then result else result @ [(path, None)])"

definition load_files ::
    "('t \<Rightarrow> json option) \<Rightarrow> 't backend \<Rightarrow> str list \<Rightarrow> file_load_scope
     \<Rightarrow> (str \<times> file_state option) list option" where
  "load_files parse b paths scope =
    (case b of
       Legacy v \<Rightarrow> load_points (legacy_file v) file_of_json paths []
     | Sqlite _ t \<Rightarrow>
         if scope = Bulk
         then map_option (\<lambda>result. fold or_insert_none paths result)
                (load_scan (file_of_text parse) paths (ct_files t) [])
         else load_points (map_of (ct_files t)) (file_of_text parse) paths [])"

definition contains_file :: "'t backend \<Rightarrow> str \<Rightarrow> bool" where
  "contains_file b path =
    (case b of Legacy v \<Rightarrow> legacy_file v path \<noteq> None | Sqlite _ t \<Rightarrow> path \<in> fst ` set (ct_files t))"

definition file_keys :: "'t backend \<Rightarrow> str list option" where
  "file_keys b =
    (case b of
       Legacy v \<Rightarrow> map_option (map fst) (Option.bind (json_get ''files'' v) as_object)
     | Sqlite _ t \<Rightarrow> Some (map fst (ct_files t)))"

definition has_files_excluding :: "'t backend \<Rightarrow> str list \<Rightarrow> bool option" where
  "has_files_excluding b excluded = map_option (list_ex (\<lambda>path. path \<notin> set excluded)) (file_keys b)"

definition load_directory_stamps :: "'t backend \<Rightarrow> str \<Rightarrow> (str \<times> directory_stamp) list" where
  "load_directory_stamps b fingerprint =
    (case b of
       Legacy _ \<Rightarrow> []
     | Sqlite _ t \<Rightarrow> map (\<lambda>(path, _, stamp). (path, stamp))
         (filter (\<lambda>(_, fp, _). fp = fingerprint) (ct_directories t)))"

definition load_journal_cursor :: "'t backend \<Rightarrow> str \<Rightarrow> journal_cursor option" where
  "load_journal_cursor b fingerprint =
    (case b of Legacy _ \<Rightarrow> None | Sqlite _ t \<Rightarrow> map_of (ct_journal t) fingerprint)"

text \<open>\<open>hot_files_since\<close>; the generated column is the payload's \<open>mtime\<close> member.\<close>

definition payload_mtime :: "('t \<Rightarrow> json option) \<Rightarrow> 't \<Rightarrow> int option" where
  "payload_mtime parse t = do { v \<leftarrow> parse t; m \<leftarrow> json_get ''mtime'' v; i64_json m }"

definition hot_files_since ::
    "('t \<Rightarrow> json option) \<Rightarrow> 't backend \<Rightarrow> int \<Rightarrow> (str \<times> file_state) list option" where
  "hot_files_since parse b since =
    (case b of
       Legacy v \<Rightarrow> do {
         m \<leftarrow> as_object v;
         state \<leftarrow> ingest_read m;
         Some (filter (\<lambda>(_, file). since \<le> fl_mtime file) (is_files state))}
     | Sqlite _ t \<Rightarrow>
         those (map (\<lambda>(path, t). map_option (Pair path) (file_of_text parse t))
           (filter (\<lambda>(_, t). is_some_and (\<lambda>mtime. since \<le> mtime) (payload_mtime parse t)) (ct_files t))))"

text \<open>\<open>split\<close> is the database of a virtual Bob path.\<close>

definition sqlite_backed_paths ::
    "('t \<Rightarrow> json option) \<Rightarrow> (str \<Rightarrow> str option) \<Rightarrow> 't backend \<Rightarrow> str list option" where
  "sqlite_backed_paths parse split b =
    (case b of
       Legacy v \<Rightarrow> do {
         m \<leftarrow> as_object v;
         state \<leftarrow> ingest_read m;
         Some (List.map_filter (\<lambda>(path, file).
           if fi_sqlite_wal (fl_identity file) \<noteq> None then Some path
           else or_else (fi_bob_database (fl_identity file)) (split path)) (is_files state))}
     | Sqlite _ t \<Rightarrow>
         Some (map fst (filter (\<lambda>(_, t). is_some_and (\<lambda>w. w \<noteq> JNull) (do {
             v \<leftarrow> parse t; i \<leftarrow> json_get ''identity'' v; json_get ''sqlite_wal'' i}))
           (ct_files t))))"

definition export_json :: "('t \<Rightarrow> json option) \<Rightarrow> 't backend \<Rightarrow> json option" where
  "export_json parse b =
    (case b of
       Legacy v \<Rightarrow> Some v
     | Sqlite _ t \<Rightarrow> do {
         extras \<leftarrow> parse (ct_legacy_extras t);
         m \<leftarrow> as_object extras;
         next_id \<leftarrow> parse_next_id (ct_next_doc_id t);
         databases \<leftarrow> parse (ct_databases t);
         files \<leftarrow> those (map (\<lambda>(path, t). map_option (Pair path) (parse t)) (ct_files t));
         Some (JObj (member_insert ''files'' (JObj (member_extend [] files))
           (member_insert ''opencode_databases'' databases
             (member_insert ''next_doc_id'' (JInt (int next_id)) m))))})"

definition snapshot :: "('t \<Rightarrow> json option) \<Rightarrow> 't backend \<Rightarrow> ingest_state option" where
  "snapshot parse b = do { v \<leftarrow> export_json parse b; m \<leftarrow> as_object v; ingest_read m }"

section \<open>Writing\<close>

definition replace_pending ::
    "('t \<Rightarrow> json option) \<Rightarrow> (json \<Rightarrow> 't) \<Rightarrow> pending_change \<Rightarrow> 't ckpt_tables \<Rightarrow> 't ckpt_tables option" where
  "replace_pending parse render change t =
    (case change of
       Keep \<Rightarrow> Some t
     | Clear \<Rightarrow> Some (t\<lparr>ct_pending := None\<rparr>)
     | Replace pending \<Rightarrow>
         map_option (\<lambda>payload. t\<lparr>ct_pending := Some payload\<rparr>)
           (pending_payload parse render pending (ct_pending t)))"

definition commit_intent ::
    "('t \<Rightarrow> json option) \<Rightarrow> (json \<Rightarrow> 't) \<Rightarrow> pending_ingest \<Rightarrow> 't backend \<Rightarrow> 't backend option" where
  "commit_intent parse render pending b =
    (case b of
       Legacy _ \<Rightarrow> None
     | Sqlite v t \<Rightarrow> map_option (Sqlite v) (replace_pending parse render (Replace pending) t))"

fun upsert_rows ::
    "('t \<Rightarrow> json option) \<Rightarrow> (json \<Rightarrow> 't) \<Rightarrow> (str \<times> file_state) list \<Rightarrow> (str \<times> 't) list \<Rightarrow> (str \<times> 't) list option" where
  "upsert_rows parse render [] rows = Some rows"
| "upsert_rows parse render ((path, file) # ups) rows =
    (case file_payload parse render file (map_of rows path) of
       None \<Rightarrow> None
     | Some payload \<Rightarrow> upsert_rows parse render ups (AList.update path payload rows))"

definition write_directories ::
    "directory_stamp_update \<Rightarrow> (str \<times> str \<times> directory_stamp) list \<Rightarrow> (str \<times> str \<times> directory_stamp) list" where
  "write_directories stamps rows =
    fold (\<lambda>(path, stamp). AList.update path (du_fingerprint stamps, stamp)) (du_upserts stamps)
      (filter (\<lambda>(path, fp, _). fp = du_fingerprint stamps \<and> path \<notin> set (du_deletes stamps)) rows)"

definition delta_is_empty :: "checkpoint_delta \<Rightarrow> bool" where
  "delta_is_empty d =
    (cd_upserts d = [] \<and> cd_deletes d = [] \<and> \<not> cd_clear_files d \<and> cd_next_doc_id d = None
     \<and> cd_opencode_databases d = None \<and> cd_pending d = Keep \<and> cd_scan_cache d = None
     \<and> is_none_or (\<lambda>s. du_upserts s = [] \<and> du_deletes s = []) (cd_directory_stamps d)
     \<and> cd_journal_cursor d = None)"

definition write_files ::
    "('t \<Rightarrow> json option) \<Rightarrow> (json \<Rightarrow> 't) \<Rightarrow> checkpoint_delta \<Rightarrow> (str \<times> 't) list \<Rightarrow> (str \<times> 't) list option" where
  "write_files parse render d rows =
    upsert_rows parse render (cd_upserts d)
      (filter (\<lambda>(path, _). path \<notin> set (cd_deletes d)) (if cd_clear_files d then [] else rows))"

definition commit_delta ::
    "('t \<Rightarrow> nat) \<Rightarrow> ('t \<Rightarrow> json option) \<Rightarrow> (json \<Rightarrow> 't) \<Rightarrow> checkpoint_delta \<Rightarrow> 't backend
     \<Rightarrow> (bool \<times> 't backend) option" where
  "commit_delta bytes parse render d b =
    (if delta_is_empty d then Some (False, b)
     else case b of
       Legacy _ \<Rightarrow> None
     | Sqlite v t \<Rightarrow> do {
         files \<leftarrow> write_files parse render d (ct_files t);
         databases \<leftarrow> (case cd_opencode_databases d of
           None \<Rightarrow> Some (ct_databases t)
         | Some dbs \<Rightarrow> database_payload parse render dbs (ct_databases t));
         t' \<leftarrow> replace_pending parse render (cd_pending d)
           (t\<lparr>ct_files := files,
              ct_next_doc_id := (case cd_next_doc_id d of
                None \<Rightarrow> ct_next_doc_id t | Some n \<Rightarrow> decimal (unat n)),
              ct_databases := databases\<rparr>);
         Some (True, Sqlite v (t'\<lparr>
           ct_directories := (case cd_directory_stamps d of
             None \<Rightarrow> ct_directories t | Some stamps \<Rightarrow> write_directories stamps (ct_directories t)),
           ct_journal := (case cd_journal_cursor d of
             None \<Rightarrow> ct_journal t | Some j \<Rightarrow> [(ju_fingerprint j, ju_cursor j)]),
           ct_scan_cache := (case cd_scan_cache d of
             None \<Rightarrow> ct_scan_cache t
           | Some cache \<Rightarrow> Some (scan_cache_payload bytes parse render cache
               (bounded bytes (ct_scan_cache t))))\<rparr>))})"

definition replace_snapshot ::
    "('t \<Rightarrow> nat) \<Rightarrow> ('t \<Rightarrow> json option) \<Rightarrow> (json \<Rightarrow> 't) \<Rightarrow> ingest_state \<Rightarrow> 't backend \<Rightarrow> 't backend option" where
  "replace_snapshot bytes parse render state b = do {
     keys \<leftarrow> file_keys b;
     (_, b') \<leftarrow> commit_delta bytes parse render (delta_default\<lparr>
       cd_upserts := is_files state,
       cd_deletes := filter (\<lambda>path. path \<notin> fst ` set (is_files state)) keys,
       cd_next_doc_id := Some (is_next_doc_id state),
       cd_opencode_databases := Some (is_opencode_databases state)\<rparr>) b;
     Some b'}"

definition active_artifacts :: "str list" where
  "active_artifacts = [''checkpoints.sqlite'', ''checkpoints.sqlite-wal'', ''checkpoints.sqlite-shm'',
     ''checkpoints.sqlite-journal'', ''ingest.json'', ''ingest.pending.json'', ''scan_cache.json'']"

definition json_artifacts :: "str list" where
  "json_artifacts = [''ingest.json'', ''ingest.pending.json'', ''scan_cache.json'']"

definition is_checkpoint_artifact_name :: "str \<Rightarrow> bool" where
  "is_checkpoint_artifact_name name =
    (name \<in> set active_artifacts \<or> name = ''.checkpoints.lock''
     \<or> list_ex (\<lambda>artifact. is_some_and (\<lambda>digest. length digest = 64 \<and> list_all is_ascii_hexdigit digest)
         (Option.bind (strip_prefix name (take (length artifact - 5) artifact @ ''.legacy-''))
           (\<lambda>suffix. strip_suffix suffix ''.json''))) json_artifacts)"

section \<open>Ids\<close>

lemma parse_next_id_decimal: "parse_next_id s = Some n \<longleftrightarrow> s = decimal n \<and> n < 2 ^ 64"
proof
  assume "parse_next_id s = Some n"
  then have "parse_u64 s = Some n" "decimal n = s"
    by (auto simp: parse_next_id_def split: option.splits if_splits)
  then show "s = decimal n \<and> n < 2 ^ 64"
    by (auto simp: parse_u64_def Let_def split: if_splits)
next
  assume "s = decimal n \<and> n < 2 ^ 64"
  then show "parse_next_id s = Some n" by (simp add: parse_next_id_def parse_u64_decimal)
qed

text \<open>
  The stored document id is canonical: a text is accepted exactly when it is the decimal form of
  a 64-bit number, and then it denotes that number, so no sign, leading zero or overflow is read.
\<close>

theorem parse_next_id_canonical:
  "parse_next_id s = Some n \<longleftrightarrow> s = decimal n \<and> n < 2 ^ 64"
  by (rule parse_next_id_decimal)

end
