(* ===== verification/Directories.thy ===== *)
theory Directories
  imports Checkpoint
begin

text \<open>
  The stamped directory walk of \<open>src/ingest/directories.rs\<close>: a full discovery skips \<open>read_dir\<close> for
  every directory whose stamp is the one the last refresh persisted, and rebuilds its entries from the
  stamped directories and the tracked files. The file system is a parameter that may change between
  any two calls: the \<open>n\<close>th call of a run is answered by the \<open>n\<close>th view. Paths are normalised.
\<close>

section \<open>Paths\<close>

definition path_parent :: "str \<Rightarrow> str option" where
  "path_parent s =
    (if s = '''' \<or> s = ''/'' then None
     else let d = rev (dropWhile (\<lambda>c. c \<noteq> CHR ''/'') (rev s))
          in Some (if d = '''' \<or> d = ''/'' then d else butlast d))"

definition path_join :: "str \<Rightarrow> str \<Rightarrow> str" where
  "path_join d name = (if d = [] \<or> last d = CHR ''/'' then d @ name else d @ ''/'' @ name)"

text \<open>\<open>Path::starts_with\<close>\<close>

definition path_under :: "str \<Rightarrow> str \<Rightarrow> bool" where
  "path_under p root =
    (p = root \<or> starts_with p (if root = [] \<or> last root = CHR ''/'' then root else root @ ''/''))"

text \<open>The order of paths compares components.\<close>

fun path_components :: "str \<Rightarrow> str list" where
  "path_components [] = [[]]"
| "path_components (c # s) =
    (if c = CHR ''/'' then [] # path_components s
     else case path_components s of [] \<Rightarrow> [[c]] | x # xs \<Rightarrow> (c # x) # xs)"

definition dir_part :: "str \<Rightarrow> str" where
  "dir_part s = rev (dropWhile (\<lambda>c. c \<noteq> CHR ''/'') (rev s))"

definition name_part :: "str \<Rightarrow> str" where
  "name_part s = rev (takeWhile (\<lambda>c. c \<noteq> CHR ''/'') (rev s))"

lemma path_split: "s = dir_part s @ name_part s"
proof -
  have "rev (rev s) = dir_part s @ name_part s"
    unfolding dir_part_def name_part_def rev_append [symmetric] takeWhile_dropWhile_id by simp
  then show ?thesis by simp
qed

lemma dir_part_last: "dir_part s \<noteq> [] \<Longrightarrow> last (dir_part s) = CHR ''/''"
  using hd_dropWhile [of "\<lambda>c. c \<noteq> CHR ''/''" "rev s"] by (auto simp: dir_part_def last_rev)

lemma dir_part_append [simp]: "CHR ''/'' \<notin> set n \<Longrightarrow> dir_part (d @ n) = dir_part d"
  unfolding dir_part_def rev_append by (subst dropWhile_append2) auto

lemma dir_part_slash [simp]: "dir_part (d @ [CHR ''/'']) = d @ ''/''"
  by (simp add: dir_part_def)

lemma path_parent_alt:
  "path_parent s = (if s = '''' \<or> s = ''/'' then None
     else Some (if dir_part s = '''' \<or> dir_part s = ''/'' then dir_part s else butlast (dir_part s)))"
  unfolding path_parent_def dir_part_def Let_def ..

lemma path_parent_form:
  assumes "path_parent c = Some d"
  shows "\<exists>n. c = path_join d n"
proof (cases "dir_part c = [] \<or> dir_part c = ''/''")
  case True
  then have "d = dir_part c" using assms by (auto simp: path_parent_alt split: if_splits)
  then have "c = path_join d (name_part c)" using path_split [of c] True by (auto simp: path_join_def)
  then show ?thesis ..
next
  case False
  then have d: "d = butlast (dir_part c)" using assms by (auto simp: path_parent_alt split: if_splits)
  have x: "dir_part c = d @ ''/''" using False dir_part_last d by (metis append_butlast_last_id)
  have "d \<noteq> []" using x False by auto
  moreover have "c = d @ ''/'' @ name_part c" using path_split [of c] x by simp
  ultimately have "c = path_join d (if last d = CHR ''/'' then ''/'' @ name_part c else name_part c)"
    unfolding path_join_def by simp
  then show ?thesis ..
qed

lemma path_parent_shorter:
  assumes "path_parent p = Some q"
  shows "length q < length p"
proof -
  have p: "length p = length (dir_part p) + length (name_part p)"
    using arg_cong [OF path_split [of p], of length] by simp
  have ne: "p \<noteq> []" "p \<noteq> ''/''" using assms by (auto simp: path_parent_alt split: if_splits)
  show ?thesis
  proof (cases "dir_part p = [] \<or> dir_part p = ''/''")
    case True
    then have q: "q = dir_part p" using assms ne by (simp add: path_parent_alt)
    have "name_part p \<noteq> []" using path_split [of p] True ne by auto
    then show ?thesis unfolding p q by simp
  next
    case False
    then have "q = butlast (dir_part p)" "dir_part p \<noteq> []" using assms ne by (simp_all add: path_parent_alt)
    then show ?thesis unfolding p by (cases "dir_part p") auto
  qed
qed

text \<open>Names and directories as a file system hands them out.\<close>

definition name_ok :: "str \<Rightarrow> bool" where
  "name_ok n = (n \<noteq> [] \<and> CHR ''/'' \<notin> set n)"

definition normal_path :: "str \<Rightarrow> bool" where
  "normal_path p = (p = ''/'' \<or> (p \<noteq> [] \<and> last p \<noteq> CHR ''/''))"

lemma path_parent_join:
  assumes "normal_path d" "name_ok n"
  shows "path_parent (path_join d n) = Some d"
proof (cases "d = ''/''")
  case True
  then show ?thesis using assms(2) dir_part_append [of n "''/''"]
    by (auto simp: path_join_def path_parent_alt name_ok_def dir_part_def)
next
  case False
  then have d: "d \<noteq> []" "last d \<noteq> CHR ''/''" using assms(1) by (auto simp: normal_path_def)
  have "path_join d n = (d @ ''/'') @ n" using d by (simp add: path_join_def)
  moreover have "dir_part ((d @ ''/'') @ n) = d @ ''/''"
    using assms(2) dir_part_append [of n "d @ ''/''"] by (simp add: name_ok_def)
  ultimately show ?thesis using d by (auto simp: path_parent_alt append_eq_Cons_conv)
qed

lemma normal_path_join: "name_ok n \<Longrightarrow> normal_path (path_join d n)"
proof -
  assume n: "name_ok n"
  then have "last n \<noteq> CHR ''/''" unfolding name_ok_def by (metis last_in_set)
  then show ?thesis using n by (auto simp: normal_path_def path_join_def name_ok_def)
qed

lemma path_under_refl [simp]: "path_under p p"
  by (simp add: path_under_def)

lemma path_under_join: "path_under p r \<Longrightarrow> path_under (path_join p n) r"
  by (auto simp: path_under_def path_join_def starts_with_iff)

lemma path_under_child: "path_parent c = Some d \<Longrightarrow> path_under d r \<Longrightarrow> path_under c r"
  using path_parent_form path_under_join by blast

lemma path_under_parent:
  assumes "path_under (path_join d n) r" "path_join d n \<noteq> r" "name_ok n" "normal_path d" "normal_path r"
  shows "path_under d r"
proof -
  let ?root = "if r = [] \<or> last r = CHR ''/'' then r else r @ ''/''"
  have n: "CHR ''/'' \<notin> set n" using assms(3) by (simp add: name_ok_def)
  obtain x where x: "path_join d n = ?root @ x"
    using assms(1,2) by (auto simp: path_under_def starts_with_iff)
  have root: "?root = ''/'' \<or> ?root = r @ ''/'' \<and> r \<noteq> []" using assms(5) by (auto simp: normal_path_def)
  have dir_root: "dir_part ?root = ?root" using root by (auto simp: dir_part_def)
  have "dir_part (path_join d n) = (if d = ''/'' then d else d @ ''/'')"
  proof (cases "d = ''/''")
    case True
    then show ?thesis using n dir_part_append [of n "''/''"] by (simp add: path_join_def dir_part_def)
  next
    case False
    then have "path_join d n = (d @ ''/'') @ n" using assms(4) by (simp add: path_join_def normal_path_def)
    then show ?thesis using n False dir_part_append [of n "d @ ''/''"] by simp
  qed
  moreover have "\<exists>y. dir_part (?root @ x) = ?root @ y"
  proof (cases "CHR ''/'' \<in> set x")
    case True
    then have "dir_part (?root @ x) = ?root @ dir_part x"
      unfolding dir_part_def rev_append by (subst dropWhile_append1) auto
    then show ?thesis by blast
  next
    case False
    then have "dir_part (?root @ x) = ?root @ []" unfolding dir_part_append [OF False] dir_root by simp
    then show ?thesis by blast
  qed
  ultimately obtain y where y: "(if d = ''/'' then d else d @ ''/'') = ?root @ y" using x by metis
  show ?thesis
  proof (cases "d = ''/''")
    case True
    then show ?thesis using y root by (auto simp: path_under_def append_eq_Cons_conv starts_with_iff)
  next
    case False
    then have dd: "d @ ''/'' = ?root @ y" using y by simp
    show ?thesis
    proof (cases "y = []")
      case True
      then have "d = r \<or> ?root = ''/'' \<and> d = []" using dd root by auto
      then show ?thesis using assms(4) by (auto simp: normal_path_def)
    next
      case y: False
      then have "d = ?root @ butlast y" using dd by (metis butlast_append butlast_snoc)
      then show ?thesis unfolding path_under_def starts_with_iff by blast
    qed
  qed
qed

section \<open>File system\<close>

datatype file_kind = KindDir | KindFile | KindOther

text \<open>
  One view answers one call: \<open>fs::metadata\<close> follows symlinks, \<open>fs::symlink_metadata\<close> does not, and a
  directory read yields an entry, an entry without a type, or an error for each name.
\<close>

record fs_view =
  fv_metadata :: "str \<Rightarrow> (file_kind \<times> directory_stamp) option"
  fv_symlink :: "str \<Rightarrow> (file_kind \<times> directory_stamp) option"
  fv_read :: "str \<Rightarrow> (str \<times> file_kind option) option list option"

type_synonym world = "nat \<Rightarrow> fs_view"

section \<open>The walk\<close>

type_synonym stamps = "(str \<times> directory_stamp) list"

record stamped_walk =
  sw_previous :: stamps
  sw_children :: "(str \<times> str list) list"
  sw_known :: "(str \<times> str list) list"
  sw_next :: stamps
  sw_roots :: "str list"
  sw_reused :: nat
  sw_enumerated :: nat

definition entry_push :: "str \<Rightarrow> (str \<times> str list) list \<Rightarrow> (str \<times> str list) list" where
  "entry_push p m =
    (case path_parent p of
       None \<Rightarrow> m
     | Some parent \<Rightarrow> AList.update parent (unwrap_or [] (map_of m parent) @ [p]) m)"

definition by_parent :: "str list \<Rightarrow> (str \<times> str list) list" where
  "by_parent ps = fold entry_push ps []"

definition walk_new :: "stamps \<Rightarrow> str list \<Rightarrow> stamped_walk" where
  "walk_new previous known =
    \<lparr>sw_previous = previous, sw_children = by_parent (map fst previous), sw_known = by_parent known,
     sw_next = [], sw_roots = [], sw_reused = 0, sw_enumerated = 0\<rparr>"

function forget_ancestors :: "stamps \<Rightarrow> str \<Rightarrow> stamps \<Rightarrow> stamps" where
  "forget_ancestors previous directory next_stamps =
    (case path_parent directory of
       None \<Rightarrow> next_stamps
     | Some path \<Rightarrow>
         if map_of next_stamps path = None \<and> map_of previous path = None
         then AList.delete path next_stamps
         else forget_ancestors previous path (AList.delete path next_stamps))"
  by auto
termination
  by (relation "measure (\<lambda>(_, d, _). length d)") (auto dest: path_parent_shorter)

declare forget_ancestors.simps [simp del]

text \<open>A directory waits with the metadata it was reached by, which only a root has. The head of the
  list is the top of the stack.\<close>

type_synonym pending = "(str \<times> (file_kind \<times> directory_stamp) option) list"

fun read_entries ::
    "str \<Rightarrow> (str \<times> file_kind option) option list \<Rightarrow> bool \<times> str list \<times> pending \<Rightarrow> bool \<times> str list \<times> pending" where
  "read_entries d [] acc = acc"
| "read_entries d (None # es) (complete, files, pending) = read_entries d es (False, files, pending)"
| "read_entries d (Some (name, None) # es) (complete, files, pending) = read_entries d es (False, files, pending)"
| "read_entries d (Some (name, Some kind) # es) (complete, files, pending) =
    read_entries d es
      (case kind of
         KindDir \<Rightarrow> (complete, files, (path_join d name, None) # pending)
       | KindFile \<Rightarrow> (complete, files @ [path_join d name], pending)
       | KindOther \<Rightarrow> (complete, files, pending))"

definition forget :: "str \<Rightarrow> stamped_walk \<Rightarrow> stamped_walk" where
  "forget directory k = k\<lparr>sw_next := forget_ancestors (sw_previous k) directory (sw_next k)\<rparr>"

definition reuse ::
    "str \<Rightarrow> directory_stamp \<Rightarrow> stamped_walk \<Rightarrow> str list \<Rightarrow> pending \<Rightarrow> stamped_walk \<times> str list \<times> pending" where
  "reuse directory stamp k files pending =
    (k\<lparr>sw_reused := sw_reused k + 1, sw_next := AList.update directory stamp (sw_next k)\<rparr>,
     files @ unwrap_or [] (map_of (sw_known k) directory),
     rev (map (\<lambda>child. (child, None)) (unwrap_or [] (map_of (sw_children k) directory))) @ pending)"

definition enumerate ::
    "fs_view \<Rightarrow> str \<Rightarrow> directory_stamp \<Rightarrow> stamped_walk \<Rightarrow> str list \<Rightarrow> pending
     \<Rightarrow> stamped_walk \<times> str list \<times> pending" where
  "enumerate view directory stamp k0 files pending =
    (let k = k0\<lparr>sw_enumerated := sw_enumerated k0 + 1\<rparr>
     in case fv_read view directory of
          None \<Rightarrow> (forget directory k, files, pending)
        | Some entries \<Rightarrow>
            let (complete, files', pending') = read_entries directory entries (True, files, pending)
            in (if complete then k\<lparr>sw_next := AList.update directory stamp (sw_next k)\<rparr> else forget directory k,
                files', pending'))"

text \<open>One turn of the loop: the popped directory, the views from its first call on, and the calls made.\<close>

definition visit ::
    "world \<Rightarrow> nat \<Rightarrow> str \<Rightarrow> (file_kind \<times> directory_stamp) option \<Rightarrow> stamped_walk \<Rightarrow> str list \<Rightarrow> pending
     \<Rightarrow> nat \<times> stamped_walk \<times> str list \<times> pending" where
  "visit w now directory metadata k files pending =
    (let (metadata', now') = (case metadata of
       Some m \<Rightarrow> (Some m, now)
     | None \<Rightarrow> (fv_symlink (w now) directory, Suc now))
     in case metadata' of
          None \<Rightarrow> (now', forget directory k, files, pending)
        | Some (kind, stamp) \<Rightarrow>
            if kind \<noteq> KindDir then (now', k, files, pending)
            else if map_of (sw_previous k) directory = Some stamp
            then (now', reuse directory stamp k files pending)
            else (Suc now', enumerate (w now') directory stamp k files pending))"

fun walk_loop ::
    "world \<Rightarrow> nat \<Rightarrow> nat \<Rightarrow> stamped_walk \<Rightarrow> str list \<Rightarrow> pending \<Rightarrow> (nat \<times> stamped_walk \<times> str list) option" where
  "walk_loop w fuel now k files [] = Some (now, k, files)"
| "walk_loop w 0 now k files (_ # _) = None"
| "walk_loop w (Suc fuel) now k files ((directory, metadata) # pending) =
    (let (now', k', files', pending') = visit w now directory metadata k files pending
     in walk_loop w fuel now' k' files' pending')"

text \<open>The files below a root.\<close>

definition walk_files ::
    "world \<Rightarrow> nat \<Rightarrow> str \<Rightarrow> nat \<Rightarrow> stamped_walk \<Rightarrow> (nat \<times> stamped_walk \<times> str list) option" where
  "walk_files w fuel root now k =
    (case fv_metadata (w now) root of
       None \<Rightarrow> Some (Suc now, k, [])
     | Some (kind, stamp) \<Rightarrow>
         (case kind of
            KindFile \<Rightarrow> Some (Suc now, k, [root])
          | KindOther \<Rightarrow> Some (Suc now, k, [])
          | KindDir \<Rightarrow> walk_loop w fuel (Suc now) (k\<lparr>sw_roots := sw_roots k @ [root]\<rparr>) []
              [(root, Some (kind, stamp))]))"

text \<open>The sources walk their roots one after the other; other calls may come in between.\<close>

fun walk_all ::
    "world \<Rightarrow> nat \<Rightarrow> (nat \<times> str) list \<Rightarrow> nat \<Rightarrow> stamped_walk \<Rightarrow> (nat \<times> stamped_walk \<times> (str \<times> str list) list) option" where
  "walk_all w fuel [] now k = Some (now, k, [])"
| "walk_all w fuel ((pause, root) # rest) now k =
    (case walk_files w fuel root (now + pause) k of
       None \<Rightarrow> None
     | Some (now', k', files) \<Rightarrow>
         map_option (\<lambda>(now'', k'', found). (now'', k'', (root, files) # found)) (walk_all w fuel rest now' k'))"

definition under_roots :: "stamped_walk \<Rightarrow> str \<Rightarrow> bool" where
  "under_roots k path = list_ex (path_under path) (sw_roots k)"

definition walk_finish :: "str \<Rightarrow> stamped_walk \<Rightarrow> directory_stamp_update" where
  "walk_finish fingerprint k =
    \<lparr>du_fingerprint = fingerprint,
     du_upserts = sort_key (path_components \<circ> fst)
       (filter (\<lambda>(d, stamp). map_of (sw_previous k) d \<noteq> Some stamp) (sw_next k)),
     du_deletes = sort_key path_components
       (filter (\<lambda>d. under_roots k d \<and> d \<notin> fst ` set (sw_next k)) (map fst (sw_previous k)))\<rparr>"

section \<open>What each operation does\<close>

lemma by_parent_eq: "unwrap_or [] (map_of (by_parent ps) d) = filter (\<lambda>p. path_parent p = Some d) ps"
  by (induction ps rule: rev_induct)
    (auto simp: by_parent_def entry_push_def update_conv' split: option.splits)

lemma map_of_update [simp]: "map_of (AList.update k v m) d = (if d = k then Some v else map_of m d)"
  by (simp add: update_conv')

lemma map_of_delete [simp]: "map_of (AList.delete k m) d = (if d = k then None else map_of m d)"
  by (simp add: delete_conv')

lemma forget_ancestors_sub:
  "map_of (forget_ancestors previous d m) p = Some s \<Longrightarrow> map_of m p = Some s"
  by (induction previous d m rule: forget_ancestors.induct)
    (subst (asm) (2) forget_ancestors.simps, auto split: option.splits if_splits)

lemma forget_ancestors_parent:
  assumes "path_parent d = Some q"
  shows "map_of (forget_ancestors previous d m) q = None"
  using assms forget_ancestors_sub [of previous q "AList.delete q m" q]
  by (subst forget_ancestors.simps) (cases "map_of (forget_ancestors previous q (AList.delete q m)) q", auto)

text \<open>A stamp is only forgotten together with its parent's.\<close>

lemma forget_ancestors_chain:
  "map_of m p \<noteq> None \<Longrightarrow> map_of (forget_ancestors previous d m) p = None \<Longrightarrow> path_parent p = Some q
    \<Longrightarrow> map_of (forget_ancestors previous d m) q = None"
proof (induction previous d m rule: forget_ancestors.induct)
  case (1 previous d m)
  show ?case
  proof (cases "path_parent d")
    case None
    then show ?thesis using 1 by (simp add: forget_ancestors.simps)
  next
    case (Some path)
    show ?thesis
    proof (cases "map_of m path = None \<and> map_of previous path = None")
      case True
      then show ?thesis using 1 Some by (auto simp: forget_ancestors.simps split: if_splits)
    next
      case False
      let ?m = "AList.delete path m"
      have eq: "forget_ancestors previous d m = forget_ancestors previous path ?m"
        using Some False by (subst forget_ancestors.simps) auto
      show ?thesis
      proof (cases "p = path")
        case True
        then show ?thesis using forget_ancestors_parent 1(4) unfolding eq by blast
      next
        case p: False
        then show ?thesis using 1(1) [OF Some False] 1(2-4) unfolding eq by simp
      qed
    qed
  qed
qed

definition listed :: "(str \<times> file_kind option) option list \<Rightarrow> (str \<times> file_kind) set" where
  "listed es = {(n, k). Some (n, Some k) \<in> set es}"

definition whole :: "(str \<times> file_kind option) option list \<Rightarrow> bool" where
  "whole es = (\<forall>e \<in> set es. \<exists>n k. e = Some (n, Some k))"

lemma listed_simps [simp]: "listed [] = {}" "listed (None # es) = listed es"
  "listed (Some (n, None) # es) = listed es" "listed (Some (n, Some k) # es) = insert (n, k) (listed es)"
  by (auto simp: listed_def)

lemma whole_simps [simp]: "whole []" "\<not> whole (None # es)" "\<not> whole (Some (n, None) # es)"
  "whole (Some (n, Some k) # es) = whole es"
  by (auto simp: whole_def)

lemma read_entries_result:
  "read_entries d es (c, files, pending) = (c', files', pending') \<Longrightarrow>
    c' = (c \<and> whole es)
    \<and> set files' = set files \<union> {path_join d n |n. (n, KindFile) \<in> listed es}
    \<and> set pending' = set pending \<union> {(path_join d n, None) |n. (n, KindDir) \<in> listed es}"
  by (induction d es "(c, files, pending)" arbitrary: c files pending rule: read_entries.induct)
    (auto split: file_kind.splits)

end
