(* ===== verification/Transcripts.thy ===== *)
theory Transcripts
  imports Types Decimal Directories
begin

text \<open>
  What the transcript parsers share: parsed JSON values with their accessors, paths, the helpers of
  \<open>src/sources/common.rs\<close>, and the state, output and diagnostics of a parse (\<open>src/sources/mod.rs\<close>).

  JSON text is parsed by a crate, so its parser is an argument, as are the printer, SHA-256, the reading of
  RFC 3339 dates and the shared counter of document ids: the \<open>n\<close>th draw of a source's parses gets
  \<open>so_doc_id n\<close>, whatever other threads draw in between. The type \<open>'f\<close> of fractional numbers is never
  looked into. A transcript is the bytes of its mapped file. A record is sent over a channel whose
  receiver is there; otherwise the whole ingest fails.
\<close>

section \<open>JSON values\<close>

datatype 'f jval =
  VNull | VBool bool | VInt int | VFloat 'f | VStr str | VArr "'f jval list" | VObj "(str \<times> 'f jval) list"

definition jv_str :: "'f jval \<Rightarrow> str option" where
  "jv_str v = (case v of VStr s \<Rightarrow> Some s | _ \<Rightarrow> None)"

definition jv_bool :: "'f jval \<Rightarrow> bool option" where
  "jv_bool v = (case v of VBool b \<Rightarrow> Some b | _ \<Rightarrow> None)"

definition jv_u64 :: "'f jval \<Rightarrow> u64 option" where
  "jv_u64 v = (case v of VInt i \<Rightarrow> if 0 \<le> i \<and> i < 2 ^ 64 then Some (word_of_int i) else None | _ \<Rightarrow> None)"

definition jv_i64 :: "'f jval \<Rightarrow> int option" where
  "jv_i64 v = (case v of VInt i \<Rightarrow> if - (2 ^ 63) \<le> i \<and> i < 2 ^ 63 then Some i else None | _ \<Rightarrow> None)"

definition jv_array :: "'f jval \<Rightarrow> 'f jval list option" where
  "jv_array v = (case v of VArr xs \<Rightarrow> Some xs | _ \<Rightarrow> None)"

definition jv_object :: "'f jval \<Rightarrow> (str \<times> 'f jval) list option" where
  "jv_object v = (case v of VObj m \<Rightarrow> Some m | _ \<Rightarrow> None)"

definition jv_get :: "str \<Rightarrow> 'f jval \<Rightarrow> 'f jval option" where
  "jv_get k v = (case v of VObj m \<Rightarrow> map_of m k | _ \<Rightarrow> None)"

text \<open>\<open>get(k).and_then(as_str)\<close>, and the same with \<open>unwrap_or("")\<close>\<close>

definition jv_get_str :: "str \<Rightarrow> 'f jval \<Rightarrow> str option" where
  "jv_get_str k v = Option.bind (jv_get k v) jv_str"

definition jv_text :: "str \<Rightarrow> 'f jval \<Rightarrow> str" where
  "jv_text k v = unwrap_or '''' (jv_get_str k v)"

section \<open>Services\<close>

record 'f source_ops =
  so_parse :: "str \<Rightarrow> 'f jval option"
  so_render :: "'f jval \<Rightarrow> str"
  so_sha256 :: "str \<Rightarrow> str"
  so_rfc3339_millis :: "str \<Rightarrow> int option"
  so_doc_id :: "nat \<Rightarrow> u64"

section \<open>Paths\<close>

text \<open>\<open>Path::file_name\<close> on any string, \<open>Path::file_stem\<close> of a file name, and \<open>components\<close>.\<close>

definition os_file_name :: "str \<Rightarrow> str option" where
  "os_file_name s =
    (case rev (filter (\<lambda>c. c \<noteq> [] \<and> c \<noteq> ''.'') (path_components s)) of
       [] \<Rightarrow> None
     | n # _ \<Rightarrow> if n = ''..'' then None else Some n)"

definition os_file_stem :: "str \<Rightarrow> str" where
  "os_file_stem name =
    (let before = dropWhile (\<lambda>c. c \<noteq> CHR ''.'') (rev name)
     in if length before \<le> 1 then name else rev (tl before))"

definition split_join :: "str \<Rightarrow> str list \<Rightarrow> str" where
  "split_join sep parts = (case parts of [] \<Rightarrow> [] | p # ps \<Rightarrow> p @ concat (map (\<lambda>x. sep @ x) ps))"

definition newline :: char where "newline = CHR 0x0A"

text \<open>\<open>str::split\<close> on a byte, and the first non-empty item of \<open>rsplit\<close>\<close>

fun split_char :: "char \<Rightarrow> str \<Rightarrow> str list" where
  "split_char c [] = [[]]"
| "split_char c (x # s) =
    (if x = c then [] # split_char c s
     else case split_char c s of [] \<Rightarrow> [[x]] | y # ys \<Rightarrow> (x # y) # ys)"

definition last_nonempty_piece :: "char \<Rightarrow> str \<Rightarrow> str option" where
  "last_nonempty_piece c s = (case rev (filter (\<lambda>p. p \<noteq> '''') (split_char c s)) of [] \<Rightarrow> None | p # _ \<Rightarrow> Some p)"

text \<open>\<open>to_string\<close> of a signed integer\<close>

definition int_decimal :: "int \<Rightarrow> str" where
  "int_decimal i = (if i < 0 then ''-'' @ decimal (nat (- i)) else decimal (nat i))"

text \<open>\<open>replace('\', "/")\<close>\<close>

definition normalize_slashes :: "str \<Rightarrow> str" where
  "normalize_slashes s = map (\<lambda>c. if c = CHR 0x5C then CHR ''/'' else c) s"

text \<open>The first UUID in a file's stem: \<open>session_id_from_path\<close> of \<open>src/sources/codex.rs\<close>.\<close>

definition is_lower_hex :: "char \<Rightarrow> bool" where
  "is_lower_hex c = (is_ascii_digit c \<or> c \<in> set ''abcdef'')"

definition uuid_at :: "str \<Rightarrow> bool" where
  "uuid_at s = (36 \<le> length s \<and>
    list_all (\<lambda>i. if i \<in> {8, 13, 18, 23} then s ! i = CHR ''-'' else is_lower_hex (s ! i)) [0..<36])"

fun find_uuid :: "str \<Rightarrow> str option" where
  "find_uuid [] = None"
| "find_uuid (c # s) = (if uuid_at (c # s) then Some (take 36 (c # s)) else find_uuid s)"

definition uuid_from_path :: "str \<Rightarrow> str option" where
  "uuid_from_path path = Option.bind (os_file_name path) (\<lambda>name. find_uuid (os_file_stem name))"

section \<open>Common helpers\<close>

definition parse_iso_millis :: "'f source_ops \<Rightarrow> str \<Rightarrow> u64 option" where
  "parse_iso_millis ops s = map_option (\<lambda>t. word_of_int (max t 0)) (so_rfc3339_millis ops s)"

definition project_from_path :: "str \<Rightarrow> str" where
  "project_from_path path = unwrap_or path (os_file_name path)"

definition source_pending_call ::
  "'f source_ops \<Rightarrow> str option \<Rightarrow> str option \<Rightarrow> u64 \<Rightarrow> u64 \<Rightarrow> str option \<Rightarrow> record_links \<Rightarrow> str \<Rightarrow> pending_tool_call"
where
  "source_pending_call ops tool_name event_id doc_id timestamp arguments links session_id =
    \<lparr>pt_tool_name = tool_name, pt_tool_use_event_id = event_id, pt_tool_use_doc_id = Some doc_id,
     pt_timestamp = timestamp, pt_argument_sha256 = map_option (so_sha256 ops) arguments,
     pt_argument_bytes = map_option (\<lambda>a. word_of_nat (length a)) arguments,
     pt_parent_event_id = lk_parent_event_id links, pt_session_id = Some session_id,
     pt_source_tool_use_id = lk_source_tool_use_id links,
     pt_source_tool_assistant_uuid = lk_source_tool_assistant_uuid links\<rparr>"

definition tool_result_text :: "'f jval \<Rightarrow> str option" where
  "tool_result_text block =
    (case jv_object block of None \<Rightarrow> None
     | Some _ \<Rightarrow>
         (case jv_get ''content'' block of None \<Rightarrow> None
          | Some content \<Rightarrow>
              (case jv_str content of Some s \<Rightarrow> Some s
               | None \<Rightarrow>
                   (case jv_array content of None \<Rightarrow> None
                    | Some items \<Rightarrow>
                        (let parts = List.map_filter (jv_get_str ''text'') items
                         in if parts = [] then None else Some (split_join [newline] parts))))))"

section \<open>Diagnostics\<close>

record parse_diagnostics =
  pd_malformed_json_lines :: u64
  pd_non_object_json_lines :: u64
  pd_unknown_top_level_types :: "str \<Rightarrow> u64 option"
  pd_unknown_semantic_types :: "str \<Rightarrow> u64 option"
  pd_orphan_tool_results :: u64
  pd_duplicate_tool_calls :: u64
  pd_encrypted_reasoning_dropped :: u64
  pd_truncated_tool_inputs :: u64
  pd_truncated_tool_outputs :: u64
  pd_unreadable_sources :: "str list"

text \<open>A parser counts as it goes; what it counts on a line is the list of these.\<close>

datatype diagnostic =
  MalformedLine | NonObjectLine | UnknownTopLevel str | UnknownSemantic str | OrphanResult | DuplicateCall
  | EncryptedDropped

definition default_diagnostics :: parse_diagnostics where
  "default_diagnostics =
    \<lparr>pd_malformed_json_lines = 0, pd_non_object_json_lines = 0, pd_unknown_top_level_types = Map.empty,
     pd_unknown_semantic_types = Map.empty, pd_orphan_tool_results = 0, pd_duplicate_tool_calls = 0,
     pd_encrypted_reasoning_dropped = 0, pd_truncated_tool_inputs = 0, pd_truncated_tool_outputs = 0,
     pd_unreadable_sources = []\<rparr>"

definition count_entry :: "str \<Rightarrow> u64 \<Rightarrow> (str \<Rightarrow> u64 option) \<Rightarrow> (str \<Rightarrow> u64 option)" where
  "count_entry k n m = m(k \<mapsto> unwrap_or 0 (m k) + n)"

definition increment_unknown_top_level :: "str \<Rightarrow> parse_diagnostics \<Rightarrow> parse_diagnostics" where
  "increment_unknown_top_level v d =
    (if v = '''' then d
     else d\<lparr>pd_unknown_top_level_types := count_entry v 1 (pd_unknown_top_level_types d)\<rparr>)"

definition increment_unknown_semantic :: "str \<Rightarrow> parse_diagnostics \<Rightarrow> parse_diagnostics" where
  "increment_unknown_semantic v d =
    (if v = '''' then d
     else d\<lparr>pd_unknown_semantic_types := count_entry v 1 (pd_unknown_semantic_types d)\<rparr>)"

fun diagnose :: "diagnostic \<Rightarrow> parse_diagnostics \<Rightarrow> parse_diagnostics" where
  "diagnose MalformedLine d = d\<lparr>pd_malformed_json_lines := pd_malformed_json_lines d + 1\<rparr>"
| "diagnose NonObjectLine d = d\<lparr>pd_non_object_json_lines := pd_non_object_json_lines d + 1\<rparr>"
| "diagnose (UnknownTopLevel v) d = increment_unknown_top_level v d"
| "diagnose (UnknownSemantic v) d = increment_unknown_semantic v d"
| "diagnose OrphanResult d = d\<lparr>pd_orphan_tool_results := pd_orphan_tool_results d + 1\<rparr>"
| "diagnose DuplicateCall d = d\<lparr>pd_duplicate_tool_calls := pd_duplicate_tool_calls d + 1\<rparr>"
| "diagnose EncryptedDropped d =
     d\<lparr>pd_encrypted_reasoning_dropped := pd_encrypted_reasoning_dropped d + 1\<rparr>"

section \<open>Parses\<close>

record index_parse_state =
  ip_offset :: nat
  ip_turn_id :: u32
  ip_legacy_turn_id :: "u32 option"
  ip_pending :: "str \<Rightarrow> pending_tool_call option"

record index_parse_output =
  io_offset :: nat
  io_turn_id :: u32
  io_legacy_turn_id :: "u32 option"
  io_pending :: "str \<Rightarrow> pending_tool_call option"
  io_session_id :: "str option"
  io_diagnostics :: parse_diagnostics
  io_session_cwd :: "str option"

definition default_parse_state :: index_parse_state where
  "default_parse_state = \<lparr>ip_offset = 0, ip_turn_id = 0, ip_legacy_turn_id = None, ip_pending = Map.empty\<rparr>"

text \<open>
  What is outside a parse and it changes: the records sent so far and the number of document ids drawn.
  To these a run of the line loop adds its ordinal and its pending calls, and what it knows of the session.
\<close>

record sink =
  sk_sent :: "mrecord list"
  sk_drawn :: nat

record parse_progress = sink +
  pg_turn_id :: u32
  pg_pending :: "str \<Rightarrow> pending_tool_call option"

record session_run = parse_progress +
  sr_session_id :: str
  sr_project :: str
  sr_timestamp :: u64

definition empty_sink :: sink where
  "empty_sink = \<lparr>sk_sent = [], sk_drawn = 0\<rparr>"

text \<open>The id the next record gets, and the record itself: its id is drawn, it is sent, the ordinal moves on.\<close>

definition next_doc :: "'f source_ops \<Rightarrow> 'a sink_scheme \<Rightarrow> u64" where
  "next_doc ops s = so_doc_id ops (sk_drawn s)"

definition send_record :: "mrecord \<Rightarrow> 'a parse_progress_scheme \<Rightarrow> 'a parse_progress_scheme" where
  "send_record r s = s\<lparr>sk_sent := sk_sent s @ [r], sk_drawn := Suc (sk_drawn s), pg_turn_id := pg_turn_id s + 1\<rparr>"

definition insert_call :: "str \<Rightarrow> pending_tool_call \<Rightarrow> 'a parse_progress_scheme \<Rightarrow> 'a parse_progress_scheme" where
  "insert_call k call s = s\<lparr>pg_pending := (pg_pending s)(k \<mapsto> call)\<rparr>"

definition remove_call :: "str \<Rightarrow> 'a parse_progress_scheme \<Rightarrow> 'a parse_progress_scheme" where
  "remove_call k s = s\<lparr>pg_pending := (pg_pending s)(k := None)\<rparr>"

text \<open>
  The state the next parse gets is what the checkpoint kept of this one's output.
\<close>

definition resume_state :: "index_parse_output \<Rightarrow> index_parse_state" where
  "resume_state out = \<lparr>ip_offset = io_offset out, ip_turn_id = io_turn_id out,
     ip_legacy_turn_id = io_legacy_turn_id out, ip_pending = io_pending out\<rparr>"

text \<open>Folding a handler that counts over the elements of an array.\<close>

definition each_counting :: "('v \<Rightarrow> 's \<Rightarrow> 's \<times> 'd list) \<Rightarrow> 'v list \<Rightarrow> 's \<Rightarrow> 's \<times> 'd list" where
  "each_counting f xs s = foldl (\<lambda>(s, ds) x. case f x s of (s', d) \<Rightarrow> (s', ds @ d)) (s, []) xs"

lemma each_counting_keeps: "(\<And>x s. g (fst (f x s)) = g s) \<Longrightarrow> g (fst (each_counting f xs s)) = g s"
proof -
  assume keeps: "\<And>x s. g (fst (f x s)) = g s"
  have "g (fst (foldl (\<lambda>(s, ds) x. case f x s of (s', d) \<Rightarrow> (s', ds @ d)) (s, ds) xs)) = g s" for ds
  proof (induction xs arbitrary: s ds)
    case (Cons x xs)
    then show ?case using keeps [of x s] by (auto split: prod.splits)
  qed simp
  then show ?thesis by (simp add: each_counting_def)
qed

lemma each_counting_inv: "(\<And>x s. p s \<Longrightarrow> p (fst (f x s))) \<Longrightarrow> p s \<Longrightarrow> p (fst (each_counting f xs s))"
proof -
  assume keeps: "\<And>x s. p s \<Longrightarrow> p (fst (f x s))" and s: "p s"
  have "p s \<Longrightarrow> p (fst (foldl (\<lambda>(s, ds) x. case f x s of (s', d) \<Rightarrow> (s', ds @ d)) (s, ds) xs))" for ds
  proof (induction xs arbitrary: s ds)
    case (Cons x xs)
    then show ?case using keeps [OF Cons.prems, of x] by (auto split: prod.splits)
  qed simp
  then show ?thesis using s by (simp add: each_counting_def)
qed

lemma fold_keeps: "(\<And>x s. g (f x s) = g s) \<Longrightarrow> g (fold f xs s) = g s"
  by (induction xs arbitrary: s) simp_all

text \<open>What a run knows of its session; sending and the pending calls leave it alone.\<close>

definition run_ctx :: "session_run \<Rightarrow> str \<times> str \<times> u64" where
  "run_ctx s = (sr_session_id s, sr_project s, sr_timestamp s)"

lemma run_ctx_kept [simp]:
  "run_ctx (send_record r s) = run_ctx s" "run_ctx (insert_call k c s) = run_ctx s"
  "run_ctx (remove_call k s) = run_ctx s"
  by (simp_all add: run_ctx_def send_record_def insert_call_def remove_call_def)

definition progress_of :: "index_parse_state \<Rightarrow> sink \<Rightarrow> parse_progress" where
  "progress_of st k = \<lparr>sk_sent = sk_sent k, sk_drawn = sk_drawn k, pg_turn_id = ip_turn_id st, pg_pending = ip_pending st\<rparr>"

text \<open>A transcript that is parsed again after every append: the parses of its successive versions.\<close>

type_synonym parser = "str \<Rightarrow> index_parse_state \<Rightarrow> sink \<Rightarrow> index_parse_output \<times> sink"

fun parse_versions :: "parser \<Rightarrow> str list \<Rightarrow> index_parse_state \<Rightarrow> sink \<Rightarrow> index_parse_state \<times> sink" where
  "parse_versions p [] st k = (st, k)"
| "parse_versions p (f # fs) st k = (let (out, k') = p f st k in parse_versions p fs (resume_state out) k')"

lemma parse_versions_append:
  "parse_versions p (fs @ gs) st k = (let (st', k') = parse_versions p fs st k in parse_versions p gs st' k')"
  by (induction fs arbitrary: st k) (auto split: prod.splits)

end
