(* ===== verification/Jsonl.thy ===== *)
theory Jsonl
  imports Transcripts "HOL-Library.Sublist"
begin

text \<open>
  Reading a growing JSONL transcript: where a parse resumes (\<open>src/sources/jsonl.rs\<close>) and the loop over its
  lines, which every line parser of \<open>src/sources\<close> has. An unterminated last line that is not JSON yet is
  left for the next parse; one that is JSON is taken at once. The interface \<open>line_parser\<close> states what a
  parser recovers when it resumes, and inside it parsing each version of a growing file is proved to
  send what one parse of the whole file sends.
\<close>

section \<open>Resuming\<close>

definition resume_offset :: "(str \<Rightarrow> bool) \<Rightarrow> str \<Rightarrow> nat \<Rightarrow> nat" where
  "resume_offset valid_json bytes offset =
    (let offset = min offset (length bytes)
     in if offset = 0 \<or> bytes ! (offset - 1) = newline then offset
        else let line_start = length (dropWhile (\<lambda>c. c \<noteq> newline) (rev (take offset bytes)))
             in if valid_json (drop line_start (take offset bytes)) then offset else line_start)"

section \<open>The line loop\<close>

text \<open>\<open>memchr\<close> of the newline in what follows \<open>start\<close>\<close>

definition line_at :: "str \<Rightarrow> nat \<Rightarrow> str" where
  "line_at bytes start = takeWhile (\<lambda>c. c \<noteq> newline) (drop start bytes)"

lemma line_at_length: "length (line_at bytes start) \<le> length bytes - start"
  unfolding line_at_def using length_takeWhile_le [of _ "drop start bytes"] by simp

lemma line_at_Nil: "start < length bytes \<Longrightarrow> line_at bytes start = [] \<Longrightarrow> bytes ! start = newline"
  by (cases "drop start bytes") (auto simp: line_at_def hd_drop_conv_nth [symmetric] split: if_splits)

text \<open>
  \<open>step\<close> handles a parsed line, \<open>bad\<close> is what is counted for a complete line that is not JSON. The answer
  has the offset reached, the state and what was counted.
\<close>

function jsonl_loop ::
  "(str \<Rightarrow> 'v option) \<Rightarrow> ('v \<Rightarrow> 's \<Rightarrow> 's \<times> 'd list) \<Rightarrow> 'd list \<Rightarrow> str \<Rightarrow> nat \<Rightarrow> 's \<Rightarrow> nat \<times> 's \<times> 'd list"
where
  "jsonl_loop parse step bad bytes start s =
    (if start < length bytes then
       let line = line_at bytes start;
           complete = length line < length bytes - start;
           start' = start + length line + (if complete then 1 else 0)
       in if line = [] then jsonl_loop parse step bad bytes start' s
          else case parse line of
                 None \<Rightarrow>
                   if complete
                   then (case jsonl_loop parse step bad bytes start' s of (o', s', ds) \<Rightarrow> (o', s', bad @ ds))
                   else (start, s, [])
               | Some v \<Rightarrow>
                   (case step v s of (s1, d1) \<Rightarrow>
                      case jsonl_loop parse step bad bytes start' s1 of (o', s', ds) \<Rightarrow> (o', s', d1 @ ds))
     else (start, s, []))"
  by pat_completeness auto

termination
  by (relation "measure (\<lambda>(parse, step, bad, bytes, start, s). length bytes - start)") (auto simp: Let_def)

declare jsonl_loop.simps [simp del]

section \<open>Lines of a prefix\<close>

text \<open>An offset at which a line begins.\<close>

definition line_start :: "str \<Rightarrow> nat \<Rightarrow> bool" where
  "line_start bytes i = (i = 0 \<or> i \<le> length bytes \<and> bytes ! (i - 1) = newline)"

lemma takeWhile_take: "takeWhile p (take n xs) = take n (takeWhile p xs)"
  by (induction xs arbitrary: n) (auto simp: take_Cons split: nat.split)

lemma line_at_take: "line_at (take n bytes) i = take (n - i) (line_at bytes i)"
  by (simp add: line_at_def drop_take takeWhile_take)

lemma line_at_nth:
  assumes "i + j < length bytes" "j < length (line_at bytes i)"
  shows "bytes ! (i + j) \<noteq> newline"
proof -
  have "line_at bytes i ! j = drop i bytes ! j" using assms(2) unfolding line_at_def by (rule takeWhile_nth)
  moreover have "line_at bytes i ! j \<noteq> newline"
    using nth_mem [OF assms(2)] set_takeWhileD unfolding line_at_def by fast
  ultimately show ?thesis using assms(1) by simp
qed

lemma line_at_inner: "i \<le> j \<Longrightarrow> j < i + length (line_at bytes i) \<Longrightarrow> bytes ! j \<noteq> newline"
proof -
  assume ij: "i \<le> j" "j < i + length (line_at bytes i)"
  have "j < length bytes" using ij line_at_length [of bytes i] by linarith
  then show ?thesis using line_at_nth [of i "j - i" bytes] ij by simp
qed

lemma line_at_end: "i + length (line_at bytes i) < length bytes \<Longrightarrow> bytes ! (i + length (line_at bytes i)) = newline"
proof -
  assume l: "i + length (line_at bytes i) < length bytes"
  then have "length (takeWhile (\<lambda>c. c \<noteq> newline) (drop i bytes)) < length (drop i bytes)"
    by (simp add: line_at_def)
  then have "drop i bytes ! length (takeWhile (\<lambda>c. c \<noteq> newline) (drop i bytes)) = newline"
    using nth_length_takeWhile by blast
  then show ?thesis using l by (simp add: line_at_def)
qed

lemma line_at_drop: "m \<le> length (line_at bytes i) \<Longrightarrow> line_at bytes (i + m) = drop m (line_at bytes i)"
proof -
  have "m \<le> length (takeWhile p xs) \<Longrightarrow> takeWhile p (drop m xs) = drop m (takeWhile p xs)" for p and xs :: str
    by (induction xs arbitrary: m) (auto simp: drop_Cons split: nat.splits if_splits)
  moreover have "drop (i + m) bytes = drop m (drop i bytes)" by (simp add: add.commute)
  ultimately show "m \<le> length (line_at bytes i) \<Longrightarrow> line_at bytes (i + m) = drop m (line_at bytes i)"
    unfolding line_at_def by metis
qed

lemma line_start_next: "i + length (line_at bytes i) < length bytes \<Longrightarrow> line_start bytes (Suc (i + length (line_at bytes i)))"
  using line_at_end by (simp add: line_start_def)

lemma line_start_unique:
  "line_start bytes i \<Longrightarrow> line_start bytes j \<Longrightarrow> i < o' \<Longrightarrow> j < o' \<Longrightarrow> o' \<le> i + length (line_at bytes i) \<Longrightarrow>
    o' \<le> j + length (line_at bytes j) \<Longrightarrow> i = j"
proof (rule ccontr)
  have no: False if "line_start bytes b" "a < b" "b < o'" "o' \<le> a + length (line_at bytes a)" for a b
    using line_at_inner [of a "b - 1" bytes] that by (auto simp: line_start_def)
  assume "line_start bytes i" "line_start bytes j" "i < o'" "j < o'" "o' \<le> i + length (line_at bytes i)"
    "o' \<le> j + length (line_at bytes j)" "i \<noteq> j"
  then show False using no [of j i] no [of i j] by (cases "i < j") auto
qed

section \<open>Where a parse may resume\<close>

text \<open>
  What is relied on of the writer and the JSON parser: when a beginning of a line is JSON already, the line
  so far is the same JSON at every later moment, and what was added to it alone is none. Objects written
  on one line, with blanks after them at most, are such lines; lines that are not JSON may be anything
  that does not begin with JSON.
\<close>

definition self_framed :: "(str \<Rightarrow> 'v option) \<Rightarrow> str \<Rightarrow> bool" where
  "self_framed parse l \<longleftrightarrow>
    (\<forall>m n v. 0 < n \<longrightarrow> m + n \<le> length l \<longrightarrow> parse (take m l) = Some v \<longrightarrow>
      parse (take (m + n) l) = Some v \<and> parse (take n (drop m l)) = None)"

definition framed :: "(str \<Rightarrow> 'v option) \<Rightarrow> str \<Rightarrow> bool" where
  "framed parse bytes \<longleftrightarrow> (\<forall>i \<le> length bytes. line_start bytes i \<longrightarrow> self_framed parse (line_at bytes i))"

lemma letters_framed:
  assumes "\<And>l. parse l \<noteq> None \<Longrightarrow> length l = 1" "\<forall>i \<le> length bytes. line_start bytes i \<longrightarrow> length (line_at bytes i) \<le> 1"
  shows "framed parse bytes"
  using assms unfolding framed_def self_framed_def by fastforce

text \<open>An offset a parse stops at: the beginning of a line, or the end of a beginning of a line that is JSON.\<close>

definition settled_in_line :: "(str \<Rightarrow> 'v option) \<Rightarrow> str \<Rightarrow> nat \<Rightarrow> nat \<Rightarrow> bool" where
  "settled_in_line parse bytes i n \<longleftrightarrow> i < n \<and> line_start bytes i \<and> n - i \<le> length (line_at bytes i)
    \<and> parse (take (n - i) (line_at bytes i)) \<noteq> None"

definition resumable :: "(str \<Rightarrow> 'v option) \<Rightarrow> str \<Rightarrow> nat \<Rightarrow> bool" where
  "resumable parse bytes n \<longleftrightarrow> n \<le> length bytes \<and> (line_start bytes n \<or> (\<exists>i. settled_in_line parse bytes i n))"

lemma resumable_0 [simp]: "resumable parse bytes 0"
  by (simp add: resumable_def line_start_def)

lemma self_framed_take: "self_framed parse l \<Longrightarrow> self_framed parse (take k l)"
  unfolding self_framed_def by (auto simp: min_def drop_take split: if_splits)

lemma line_start_take: "line_start (take n bytes) i \<longleftrightarrow> line_start bytes i \<and> (i = 0 \<or> i \<le> n)"
  by (cases "i \<le> n"; cases i) (auto simp: line_start_def)

lemma framed_take: "framed parse bytes \<Longrightarrow> framed parse (take n bytes)"
  unfolding framed_def using self_framed_take by (auto simp: line_start_take line_at_take)

lemma resumable_take: "resumable parse (take k bytes) n \<longleftrightarrow> resumable parse bytes n \<and> n \<le> k"
proof (cases "n \<le> k")
  case True
  have "settled_in_line parse (take k bytes) i n \<longleftrightarrow> settled_in_line parse bytes i n" for i
    using True unfolding settled_in_line_def
    by (auto simp: line_start_take line_at_take min_def)
  then show ?thesis using True by (auto simp: resumable_def line_start_take)
qed (auto simp: resumable_def)

lemma resume_offset_resumable:
  assumes "resumable parse bytes n"
  shows "resume_offset (\<lambda>l. parse l \<noteq> None) bytes n = n"
proof (cases "n = 0 \<or> bytes ! (n - 1) = newline")
  case True
  then show ?thesis using assms by (auto simp: resume_offset_def resumable_def Let_def min_def)
next
  case False
  then obtain i where i: "i < n" "line_start bytes i" "n - i \<le> length (line_at bytes i)"
      "parse (take (n - i) (line_at bytes i)) \<noteq> None" and n: "n \<le> length bytes"
    using assms by (auto simp: resumable_def line_start_def settled_in_line_def)
  have tail: "drop i (take n bytes) = take (n - i) (line_at bytes i)"
  proof -
    have "take (n - i) (line_at bytes i) = take (n - i) (drop i bytes)"
      unfolding line_at_def using i(3) by (metis line_at_def takeWhile_eq_take take_take min_absorb1)
    then show ?thesis by (simp add: drop_take)
  qed
  have "take n bytes = take i bytes @ take (n - i) (line_at bytes i)"
    using i(1) tail by (metis append_take_drop_id less_imp_le min.absorb1 take_take)
  then have r: "rev (take n bytes) = rev (take (n - i) (line_at bytes i)) @ rev (take i bytes)" by simp
  have inner: "\<forall>c \<in> set (rev (take (n - i) (line_at bytes i))). c \<noteq> newline"
    using set_take_subset set_takeWhileD unfolding line_at_def by (fastforce dest: in_set_takeD)
  have "dropWhile (\<lambda>c. c \<noteq> newline) (rev (take i bytes)) = rev (take i bytes)"
  proof (cases i)
    case (Suc j)
    then have "take i bytes = take j bytes @ [newline]"
      using i(1,2) n by (auto simp: line_start_def take_Suc_conv_app_nth)
    then show ?thesis by simp
  qed simp
  then have "dropWhile (\<lambda>c. c \<noteq> newline) (rev (take n bytes)) = rev (take i bytes)"
    unfolding r using dropWhile_append2 [of "rev (take (n - i) (line_at bytes i))" "\<lambda>c. c \<noteq> newline"] inner by simp
  then have "length (dropWhile (\<lambda>c. c \<noteq> newline) (rev (take n bytes))) = i" using i(1) n by simp
  then show ?thesis using False n i(4) tail by (simp add: resume_offset_def Let_def min_def)
qed

text \<open>A property of every row that is or was JSON.\<close>

definition all_rows :: "(str \<Rightarrow> 'v option) \<Rightarrow> ('v \<Rightarrow> bool) \<Rightarrow> str \<Rightarrow> bool" where
  "all_rows parse p bytes \<longleftrightarrow>
    (\<forall>i \<le> length bytes. line_start bytes i \<longrightarrow> (\<forall>m \<le> length (line_at bytes i). \<forall>v. parse (take m (line_at bytes i)) = Some v \<longrightarrow> p v))"

lemma all_rows_take: "all_rows parse p bytes \<Longrightarrow> all_rows parse p (take n bytes)"
proof (unfold all_rows_def, intro allI impI)
  fix i m v
  assume rows: "\<forall>i \<le> length bytes. line_start bytes i \<longrightarrow>
      (\<forall>m \<le> length (line_at bytes i). \<forall>v. parse (take m (line_at bytes i)) = Some v \<longrightarrow> p v)"
    and i: "i \<le> length (take n bytes)" "line_start (take n bytes) i" "m \<le> length (line_at (take n bytes) i)"
    and v: "parse (take m (line_at (take n bytes) i)) = Some v"
  have "take m (line_at (take n bytes) i) = take m (line_at bytes i)" using i(3) by (simp add: line_at_take)
  then show "p v" using rows [rule_format, of i m v] i v by (simp add: line_start_take line_at_take)
qed

lemma all_rowsD: "all_rows parse p bytes \<Longrightarrow> line_start bytes i \<Longrightarrow> i \<le> length bytes \<Longrightarrow> parse (line_at bytes i) = Some v \<Longrightarrow> p v"
  unfolding all_rows_def by (metis order_refl take_all)

section \<open>Parsing in two parts\<close>

definition loop_state ::
  "(str \<Rightarrow> 'v option) \<Rightarrow> ('v \<Rightarrow> 's \<Rightarrow> 's \<times> 'd list) \<Rightarrow> 'd list \<Rightarrow> str \<Rightarrow> nat \<Rightarrow> 's \<Rightarrow> 's"
where
  "loop_state parse step bad bytes start s = fst (snd (jsonl_loop parse step bad bytes start s))"

lemma jsonl_loop_end: "length bytes \<le> start \<Longrightarrow> jsonl_loop parse step bad bytes start s = (start, s, [])"
  by (simp add: jsonl_loop.simps)

lemma loop_state_end: "length bytes \<le> start \<Longrightarrow> loop_state parse step bad bytes start s = s"
  by (simp add: loop_state_def jsonl_loop.simps)

text \<open>One turn: a blank line, a line that is no JSON, one that is.\<close>

lemma loop_state_blank:
  "start < length bytes \<Longrightarrow> line_at bytes start = [] \<Longrightarrow>
    loop_state parse step bad bytes start s = loop_state parse step bad bytes (Suc start) s"
  by (simp add: loop_state_def jsonl_loop.simps [of _ _ _ _ start])

lemma loop_state_bad:
  "start < length bytes \<Longrightarrow> line_at bytes start \<noteq> [] \<Longrightarrow> parse (line_at bytes start) = None \<Longrightarrow>
    loop_state parse step bad bytes start s =
      (if start + length (line_at bytes start) < length bytes
       then loop_state parse step bad bytes (Suc (start + length (line_at bytes start))) s else s)"
  by (auto simp: loop_state_def jsonl_loop.simps [of _ _ _ _ start] Let_def split: prod.splits)

lemma loop_state_good:
  "start < length bytes \<Longrightarrow> line_at bytes start \<noteq> [] \<Longrightarrow> parse (line_at bytes start) = Some v \<Longrightarrow>
    loop_state parse step bad bytes start s =
      (if start + length (line_at bytes start) < length bytes
       then loop_state parse step bad bytes (Suc (start + length (line_at bytes start))) (fst (step v s))
       else fst (step v s))"
  using loop_state_end [of bytes "start + length (line_at bytes start)" parse step bad "fst (step v s)"]
  by (auto simp: loop_state_def jsonl_loop.simps [of _ _ _ _ start] Let_def split: prod.splits)

lemmas loop_state_turns = loop_state_end loop_state_blank loop_state_bad loop_state_good

lemma loop_state_inv:
  assumes step: "\<And>v s. p s \<Longrightarrow> p (fst (step v s))"
  shows "p s \<Longrightarrow> p (loop_state parse step bad bytes i s)"
proof (induction "length bytes - i" arbitrary: i s rule: less_induct)
  case less
  show ?case
  proof (cases "i < length bytes")
    case i: True
    show ?thesis
    proof (cases "line_at bytes i = []")
      case True
      then show ?thesis using less i by (simp add: loop_state_blank)
    next
      case l: False
      then show ?thesis using less i step [OF less.prems]
        by (cases "parse (line_at bytes i)") (simp_all add: loop_state_bad loop_state_good)
    qed
  qed (use less in \<open>simp add: loop_state_end\<close>)
qed

text \<open>Every turn reads a byte, so that what grows by one at most on a row is bounded by the bytes read.\<close>

lemma loop_state_bound:
  fixes m :: "'s \<Rightarrow> nat"
  assumes step: "\<And>l v s. parse l = Some v \<Longrightarrow> m (fst (step v s)) \<le> Suc (m s)"
  shows "m (loop_state parse step bad bytes i s) \<le> m s + (length bytes - i)"
proof (induction "length bytes - i" arbitrary: i s rule: less_induct)
  case less
  have ih: "m (loop_state parse step bad bytes j s') \<le> m s' + (length bytes - j)" if "i < j" "i < length bytes" for j s'
    by (rule less) (use that in simp)
  show ?case
  proof (cases "i < length bytes")
    case i: True
    let ?e = "Suc (i + length (line_at bytes i))"
    show ?thesis
    proof (cases "line_at bytes i = []")
      case True
      then show ?thesis unfolding loop_state_blank [OF i True] using ih [of "Suc i" s] i by linarith
    next
      case l: False
      show ?thesis
      proof (cases "parse (line_at bytes i)")
        case None
        then show ?thesis unfolding loop_state_bad [of i bytes parse, OF i l None] using ih [of ?e s] i by (split if_split, intro conjI impI) linarith+
      next
        case (Some v)
        then show ?thesis unfolding loop_state_good [of i bytes parse, OF i l Some]
          using ih [of ?e "fst (step v s)"] i step [OF Some, of s] by (split if_split, intro conjI impI) linarith+
      qed
    qed
  qed (simp add: loop_state_end)
qed

text \<open>A line that ends before an offset is the same line of the bytes before that offset.\<close>

lemma line_before:
  assumes "i + length (line_at bytes i) < n" "n \<le> length bytes"
  shows "line_at (take n bytes) i = line_at bytes i" "i + length (line_at (take n bytes) i) < length (take n bytes)"
  using assms by (simp_all add: line_at_take)

lemma loop_state_split:
  assumes framed: "framed parse bytes" and n: "resumable parse bytes n"
  shows "line_start bytes i \<Longrightarrow> i \<le> n \<Longrightarrow>
    loop_state parse step bad bytes i s
      = loop_state parse step bad bytes n (loop_state parse step bad (take n bytes) i s)"
proof (induction "n - i" arbitrary: i s rule: less_induct)
  case less
  have len: "n \<le> length bytes" using n by (simp add: resumable_def)
  show ?case
  proof (cases "i = n")
    case True
    then show ?thesis by (simp add: loop_state_end len)
  next
    case False
    then have i: "i < n" "i < length bytes" "i < length (take n bytes)" using less.prems len by simp_all
    let ?l = "line_at bytes i" and ?e = "i + length (line_at bytes i)"
    show ?thesis
    proof (cases "?e < n")
      case True
      have e: "?e < length bytes" using True len by simp
      have ih: "loop_state parse step bad bytes (Suc ?e) s'
          = loop_state parse step bad bytes n (loop_state parse step bad (take n bytes) (Suc ?e) s')" for s'
        by (rule less.hyps) (use True line_start_next [OF e] in auto)
      show ?thesis
      proof (cases "?l = []")
        case blank: True
        then show ?thesis using ih [of s] i line_before(1) [OF True len] by (simp add: loop_state_blank)
      next
        case l: False
        show ?thesis
        proof (cases "parse ?l")
          case None
          then show ?thesis using ih [of s] i l e line_before [OF True len] True
            by (simp add: loop_state_bad [of i bytes] loop_state_bad [of i "take n bytes"])
        next
          case (Some v)
          then show ?thesis using ih [of "fst (step v s)"] i l e line_before [OF True len] True
            by (simp add: loop_state_good [of i bytes] loop_state_good [of i "take n bytes"])
        qed
      qed
    next
      case False
      then have ne: "n \<le> ?e" by simp
      have "\<not> line_start bytes n" using line_at_inner [of i "n - 1" bytes] i(1) ne by (auto simp: line_start_def)
      then obtain j where "settled_in_line parse bytes j n" using n by (auto simp: resumable_def)
      moreover have "j = i"
        using \<open>settled_in_line parse bytes j n\<close> less.prems(1) i(1) ne
          line_start_unique [of bytes j i n] by (auto simp: settled_in_line_def)
      ultimately obtain v where v: "parse (take (n - i) ?l) = Some v" by (auto simp: settled_in_line_def)
      let ?s = "fst (step v s)"
      have l: "?l \<noteq> []" using i(1) ne by auto
      have first: "loop_state parse step bad (take n bytes) i s = ?s"
        using i l v ne len by (subst loop_state_good [where v = v]) (auto simp: line_at_take min_def)
      have rest: "line_at bytes n = drop (n - i) ?l" using line_at_drop [of "n - i" bytes i] i(1) ne by simp
      show ?thesis
      proof (cases "n = ?e")
        case True
        then have whole: "parse ?l = Some v" using v i(1) by simp
        show ?thesis
        proof (cases "?e < length bytes")
          case e: True
          have "line_at bytes n = []" using rest True by simp
          then show ?thesis using loop_state_good [of i bytes parse v step bad s] i(2) l whole e first True
            by (simp add: loop_state_blank)
        next
          case e: False
          then show ?thesis using loop_state_good [of i bytes parse v step bad s] i(2) l whole first True
            by (simp add: loop_state_end)
        qed
      next
        case False
        have "self_framed parse ?l" using framed less.prems(1) i(2) by (simp add: framed_def)
        then have "0 < ?e - n \<longrightarrow> (n - i) + (?e - n) \<le> length ?l \<longrightarrow> parse (take (n - i) ?l) = Some v \<longrightarrow>
            parse (take (n - i + (?e - n)) ?l) = Some v \<and> parse (take (?e - n) (drop (n - i) ?l)) = None"
          unfolding self_framed_def by blast
        then have f: "parse ?l = Some v" "parse (drop (n - i) ?l) = None"
          using v ne False i(1) by simp_all
        have r: "line_at bytes n \<noteq> []" "parse (line_at bytes n) = None" "n + length (line_at bytes n) = ?e" "n < length bytes"
          using f(2) ne False i(1) line_at_length [of bytes i] by (simp_all add: rest)
        show ?thesis
          using loop_state_good [of i bytes parse v step bad s] i(2) l f(1) loop_state_bad [of n bytes parse step bad ?s] r first
          by simp
      qed
    qed
  qed
qed

text \<open>Where a parse stops, the next may resume, and what it has done is what the bytes before say.\<close>

lemma jsonl_loop_stops:
  assumes framed: "framed parse bytes"
  shows "resumable parse bytes i \<Longrightarrow> jsonl_loop parse step bad bytes i s = (n, s', ds) \<Longrightarrow>
    resumable parse bytes n \<and> i \<le> n \<and> loop_state parse step bad (take n bytes) i s = s'"
proof (induction "length bytes - i" arbitrary: i s n s' ds rule: less_induct)
  case less
  have li: "i \<le> length bytes" using less.prems(1) by (simp add: resumable_def)
  let ?l = "line_at bytes i" and ?e = "i + length (line_at bytes i)"
  show ?case
  proof (cases "i < length bytes")
    case False
    then show ?thesis using less.prems li by (auto simp: jsonl_loop_end loop_state_end)
  next
    case i: True
    note turn = less.prems(2) [unfolded jsonl_loop.simps [of parse step bad bytes i s] Let_def]
    have ih: "resumable parse bytes n' \<and> Suc ?e \<le> n' \<and> loop_state parse step bad (take n' bytes) (Suc ?e) s1 = s''"
      if "?e < length bytes" "jsonl_loop parse step bad bytes (Suc ?e) s1 = (n', s'', ds')" for s1 n' s'' ds'
      using less.hyps [OF _ _ that(2)] line_start_next [OF that(1)] that(1) by (simp add: resumable_def)
    have cut: "line_at (take n bytes) i = ?l" "i < length (take n bytes)" "?e < length (take n bytes)"
      if "Suc ?e \<le> n" "n \<le> length bytes"
      using that line_before [of i bytes n] by simp_all
    show ?thesis
    proof (cases "?l = []")
      case blank: True
      then have "jsonl_loop parse step bad bytes (Suc ?e) s = (n, s', ds)" using turn i by simp
      then have r: "resumable parse bytes n \<and> Suc ?e \<le> n \<and> loop_state parse step bad (take n bytes) (Suc ?e) s = s'"
        using ih blank i by simp
      moreover have "n \<le> length bytes" using r by (simp add: resumable_def)
      ultimately show ?thesis using cut blank by (simp add: loop_state_blank)
    next
      case l: False
      show ?thesis
      proof (cases "?e < length bytes")
        case e: True
        have complete: "length ?l < length bytes - i" using e by linarith
        obtain s1 ds' where next_turn: "jsonl_loop parse step bad bytes (Suc ?e) s1 = (n, s', ds')"
          and s1: "s1 = (case parse ?l of None \<Rightarrow> s | Some v \<Rightarrow> fst (step v s))"
          using turn i complete l by (cases "parse ?l") (auto split: prod.splits)
        have r: "resumable parse bytes n \<and> Suc ?e \<le> n \<and> loop_state parse step bad (take n bytes) (Suc ?e) s1 = s'"
          using ih [OF e next_turn] .
        moreover have "n \<le> length bytes" using r by (simp add: resumable_def)
        ultimately show ?thesis using cut l s1
          loop_state_bad [of i "take n bytes" parse step bad s] loop_state_good [of i "take n bytes" parse _ step bad s]
          by (cases "parse ?l") auto
      next
        case e: False
        then have eq: "?e = length bytes" using line_at_length [of bytes i] i by linarith
        have complete: "\<not> length ?l < length bytes - i" using eq i by linarith
        show ?thesis
        proof (cases "parse ?l")
          case None
          then have "n = i" "s' = s" using turn i l complete by auto
          then show ?thesis using less.prems(1) i by (simp add: loop_state_end)
        next
          case (Some v)
          then have n: "n = length bytes" "s' = fst (step v s)"
            using turn i l complete eq by (auto simp: jsonl_loop_end split: prod.splits)
          have "line_start bytes i"
          proof (rule ccontr)
            assume "\<not> line_start bytes i"
            then obtain j where j: "settled_in_line parse bytes j i" using less.prems(1) by (auto simp: resumable_def)
            then obtain w where w: "parse (take (i - j) (line_at bytes j)) = Some w" by (auto simp: settled_in_line_def)
            have rest: "?l = drop (i - j) (line_at bytes j)"
              using line_at_drop [of "i - j" bytes j] j by (simp add: settled_in_line_def)
            have "self_framed parse (line_at bytes j)" using framed j i by (simp add: framed_def settled_in_line_def)
            then have "0 < length ?l \<longrightarrow> i - j + length ?l \<le> length (line_at bytes j) \<longrightarrow>
                parse (take (i - j) (line_at bytes j)) = Some w \<longrightarrow> parse (take (length ?l) (drop (i - j) (line_at bytes j))) = None"
              unfolding self_framed_def by blast
            moreover have "i - j + length ?l \<le> length (line_at bytes j)"
              using j unfolding rest settled_in_line_def by (auto simp: less_imp_le)
            ultimately show False using w l Some rest by simp
          qed
          then have "settled_in_line parse bytes i n"
            using Some n i eq by (auto simp: settled_in_line_def)
          then show ?thesis using n i Some l e loop_state_good [of i bytes parse v step bad s]
            by (auto simp: resumable_def)
        qed
      qed
    qed
  qed
qed

section \<open>Parsers of growing transcripts\<close>

text \<open>
  What a line parser provides: it enters the loop from what was kept of the parse before, and leaves what
  the next one needs. \<open>fresh\<close> is how it enters a transcript for the first time. On transcripts that are
  \<open>ok\<close>, entering at an offset where a parse may stop restores the state that parse had there.
\<close>

locale line_parser =
  fixes parse :: "str \<Rightarrow> 'v option"
    and step :: "'v \<Rightarrow> 'z parse_progress_scheme \<Rightarrow> 'z parse_progress_scheme \<times> 'd list"
    and bad :: "'d list"
    and enter :: "str \<Rightarrow> nat \<Rightarrow> parse_progress \<Rightarrow> 'z parse_progress_scheme"
    and run :: parser
    and ok :: "str \<Rightarrow> bool"
    and begin_sink :: sink
    and fresh :: "'z parse_progress_scheme"
  assumes run_loop: "run bytes st k = (out, k') \<Longrightarrow>
      jsonl_loop parse step bad bytes (resume_offset (\<lambda>l. parse l \<noteq> None) bytes (ip_offset st))
        (enter bytes (resume_offset (\<lambda>l. parse l \<noteq> None) bytes (ip_offset st)) (progress_of st k)) = (n, s, ds) \<Longrightarrow>
      io_offset out = n \<and> io_turn_id out = pg_turn_id s \<and> io_pending out = pg_pending s \<and> k' = sink.truncate s"
    and enter_fresh: "ok bytes \<Longrightarrow> enter bytes 0 (progress_of default_parse_state begin_sink) = fresh"
    and enter_resumed: "ok bytes \<Longrightarrow> framed parse bytes \<Longrightarrow> resumable parse bytes n \<Longrightarrow>
      s = loop_state parse step bad (take n bytes) 0 fresh \<Longrightarrow> enter bytes n (parse_progress.truncate s) = s"
    and ok_prefix: "ok bytes \<Longrightarrow> ok (take n bytes)"
begin

text \<open>The state after a parse is the one a single parse of all its bytes has, and of the bytes it took.\<close>

definition caught_up :: "str \<Rightarrow> index_parse_state \<Rightarrow> sink \<Rightarrow> bool" where
  "caught_up bytes st k \<longleftrightarrow> (\<exists>s. resumable parse bytes (ip_offset st)
    \<and> s = loop_state parse step bad bytes 0 fresh \<and> s = loop_state parse step bad (take (ip_offset st) bytes) 0 fresh
    \<and> progress_of st k = parse_progress.truncate s)"

lemma progress_truncate:
  "progress_of (resume_state out) (sink.truncate s) = parse_progress.truncate s \<longleftrightarrow>
    io_turn_id out = pg_turn_id s \<and> io_pending out = pg_pending s"
  by (auto simp: progress_of_def resume_state_def parse_progress.truncate_def sink.truncate_def)

lemma run_from:
  assumes ok: "ok bytes" "framed parse bytes" and n: "resumable parse bytes (ip_offset st)"
    and start: "s = loop_state parse step bad (take (ip_offset st) bytes) 0 fresh"
    and enter: "enter bytes (ip_offset st) (progress_of st k) = s"
    and run: "run bytes st k = (out, k')"
  shows "caught_up bytes (resume_state out) k'"
proof -
  let ?n = "ip_offset st"
  obtain n' s' ds where loop: "jsonl_loop parse step bad bytes ?n s = (n', s', ds)" using prod_cases3 by blast
  have out: "io_offset out = n' \<and> io_turn_id out = pg_turn_id s' \<and> io_pending out = pg_pending s' \<and> k' = sink.truncate s'"
    using run_loop [OF run, of n' s' ds, unfolded resume_offset_resumable [OF n] enter, OF loop] .
  note stop = jsonl_loop_stops [OF ok(2) n loop]
  have whole: "loop_state parse step bad bytes 0 fresh = s'"
    using loop_state_split [OF ok(2) n, of 0 step bad fresh] loop start
    by (simp add: line_start_def loop_state_def)
  have n': "resumable parse (take n' bytes) ?n" "take ?n (take n' bytes) = take ?n bytes"
    using n stop by (simp_all add: resumable_take min_def)
  have "loop_state parse step bad (take n' bytes) 0 fresh = s'"
    using loop_state_split [OF framed_take [OF ok(2)] n'(1), of 0 step bad fresh] stop start n'(2)
    by (simp add: line_start_def)
  then show ?thesis unfolding caught_up_def
    using out stop whole progress_truncate [of out s'] by (intro exI [of _ s']) (simp add: resume_state_def)
qed

lemma first_run:
  assumes "ok bytes" "framed parse bytes" "run bytes default_parse_state begin_sink = (out, k')"
  shows "caught_up bytes (resume_state out) k'"
  by (rule run_from [OF assms(1,2) _ _ _ assms(3), of fresh])
    (simp_all add: default_parse_state_def loop_state_end enter_fresh [OF assms(1), unfolded default_parse_state_def])

lemma next_run:
  assumes "prefix before bytes" "caught_up before st k" "ok bytes" "framed parse bytes" "run bytes st k = (out, k')"
  shows "caught_up bytes (resume_state out) k'"
proof -
  have before: "before = take (length before) bytes" using assms(1) by (auto simp: prefix_def)
  obtain s where s: "resumable parse before (ip_offset st)"
    "s = loop_state parse step bad (take (ip_offset st) before) 0 fresh" "progress_of st k = parse_progress.truncate s"
    using assms(2) unfolding caught_up_def by blast
  have n: "resumable parse bytes (ip_offset st)" "ip_offset st \<le> length before"
    using s(1) resumable_take [of parse "length before" bytes] before by auto
  have "take (ip_offset st) before = take (ip_offset st) bytes" using n(2) before by (metis min.absorb1 take_take)
  then have start: "s = loop_state parse step bad (take (ip_offset st) bytes) 0 fresh" using s(2) by simp
  show ?thesis
    by (rule run_from [OF assms(3,4) n(1) start _ assms(5)]) (use enter_resumed [OF assms(3,4) n(1) start] s(3) in simp)
qed

lemma versions_caught_up:
  assumes "fs \<noteq> []" "sorted_wrt prefix fs" "ok (last fs)" "framed parse (last fs)"
    and "parse_versions run fs default_parse_state begin_sink = (st, k)"
  shows "caught_up (last fs) st k"
  using assms
proof (induction fs arbitrary: st k rule: rev_induct)
  case (snoc bytes fs)
  obtain st1 k1 where before: "parse_versions run fs default_parse_state begin_sink = (st1, k1)" by fastforce
  obtain out k' where run: "run bytes st1 k1 = (out, k')" by fastforce
  have st: "st = resume_state out" "k = k'" using snoc.prems(5) run before by (simp_all add: parse_versions_append)
  show ?case
  proof (cases "fs = []")
    case True
    then show ?thesis using first_run snoc.prems(3,4) before run st by simp
  next
    case False
    then have p: "prefix (last fs) bytes" using snoc.prems(2) by (simp add: sorted_wrt_append)
    then have f: "take (length (last fs)) bytes = last fs" by (auto simp: prefix_def)
    have "ok (last fs)" "framed parse (last fs)"
      using ok_prefix [of bytes "length (last fs)"] framed_take [of parse bytes "length (last fs)"] snoc.prems(3,4) f
      by simp_all
    then have "caught_up (last fs) st1 k1"
      using snoc.IH [OF False _ _ _ before] snoc.prems(2) by (simp add: sorted_wrt_append)
    then show ?thesis using next_run [OF p _ _ _ run] snoc.prems(3,4) st by simp
  qed
qed simp

lemma caught_up_unique:
  "caught_up bytes st k \<Longrightarrow> caught_up bytes st' k' \<Longrightarrow> progress_of st k = progress_of st' k'"
  unfolding caught_up_def by auto

theorem versions_agree:
  assumes "fs \<noteq> []" "sorted_wrt prefix fs" "ok (last fs)" "framed parse (last fs)"
    and "parse_versions run fs default_parse_state begin_sink = (st, k)"
    and "run (last fs) default_parse_state begin_sink = (out, k')"
  shows "k = k' \<and> ip_turn_id st = io_turn_id out \<and> ip_pending st = io_pending out"
proof -
  have "progress_of st k = progress_of (resume_state out) k'"
    using caught_up_unique [OF versions_caught_up [OF assms(1-5)] first_run [OF assms(3,4,6)]] .
  then show ?thesis by (simp add: progress_of_def resume_state_def)
qed

end

end
