(* ===== verification/MuseParser.thy ===== *)
theory MuseParser
  imports Jsonl
begin

text \<open>
  The Muse parser, \<open>src/sources/muse.rs\<close>. A resumed parse recovers the session id, the project and the base
  time from all rows before its offset (\<open>recover_muse_header\<close>); so parsing each version of a growing
  transcript sends exactly what one parse of the last version sends, unless a metadata row has an empty
  \<open>workspace_root\<close> beside a \<open>cwd\<close>: that is the one case in which the recovery and the parse disagree.
\<close>

section \<open>The parser\<close>

definition muse_session_id_from_path :: "str \<Rightarrow> str" where
  "muse_session_id_from_path path =
    unwrap_or ''unknown'' (Option.bind (path_parent path) os_file_name)"

definition muse_timestamp_millis :: "'f source_ops \<Rightarrow> 'f jval \<Rightarrow> u64" where
  "muse_timestamp_millis ops v =
    unwrap_or 0
      (or_else
        (map_option (\<lambda>n. if 1000000000000000 < n then n div 1000
                         else if n < 10000000000 then sat_mul n 1000 else n) (jv_u64 v))
        (or_else
          (case jv_i64 v of Some i \<Rightarrow> if 0 \<le> i then Some (word_of_int i div 1000) else None | None \<Rightarrow> None)
          (Option.bind (jv_str v) (parse_iso_millis ops))))"

text \<open>The three things a row may say of the session, shared by the recovery and the parse.\<close>

definition muse_stream_id :: "'f jval \<Rightarrow> str \<Rightarrow> str" where
  "muse_stream_id v current =
    (case Option.bind (jv_get ''stream'' v) (jv_get_str ''id'') of
       Some sid \<Rightarrow> if sid \<noteq> '''' then sid else current
     | None \<Rightarrow> current)"

definition muse_recorded_at :: "'f source_ops \<Rightarrow> 'f jval \<Rightarrow> u64" where
  "muse_recorded_at ops v = (case jv_get ''recorded_at'' v of None \<Rightarrow> 0 | Some t \<Rightarrow> muse_timestamp_millis ops t)"

definition muse_base_time :: "'f source_ops \<Rightarrow> 'f jval \<Rightarrow> u64 \<Rightarrow> u64" where
  "muse_base_time ops v current =
    (if 0 < muse_recorded_at ops v \<and> current = 0 then muse_recorded_at ops v else current)"

definition is_muse_header :: "'f jval \<Rightarrow> bool" where
  "is_muse_header payload \<longleftrightarrow> jv_text ''kind'' payload = ''metadata'' \<or> jv_text ''kind'' payload = ''route_facts''"

text \<open>\<open>recover_muse_header\<close>: an empty root is passed over for the working directory.\<close>

definition recover_project :: "'f jval \<Rightarrow> str \<Rightarrow> str" where
  "recover_project v current =
    (case jv_get ''payload'' v of None \<Rightarrow> current
     | Some payload \<Rightarrow>
         if \<not> is_muse_header payload then current
         else case jv_get ''record'' payload of None \<Rightarrow> current
              | Some r \<Rightarrow>
                  (let root = jv_get_str ''workspace_root'' r; cwd = jv_get_str ''cwd'' r
                   in if is_some_and (\<lambda>x. x \<noteq> '''') root then project_from_path (the root)
                      else if is_some_and (\<lambda>x. x \<noteq> '''') cwd then project_from_path (the cwd)
                      else current))"

definition recover_muse_header :: "'f source_ops \<Rightarrow> 'f jval \<Rightarrow> str \<times> str \<times> u64 \<Rightarrow> str \<times> str \<times> u64" where
  "recover_muse_header ops v ctx =
    (case ctx of (session_id, project, default_timestamp) \<Rightarrow>
      (muse_stream_id v session_id, recover_project v project, muse_base_time ops v default_timestamp))"

text \<open>The scan of the rows before the offset: every line that is JSON, the last one terminated or not.\<close>

function recover_prefix ::
  "'f source_ops \<Rightarrow> str \<Rightarrow> nat \<Rightarrow> str \<times> str \<times> u64 \<Rightarrow> str \<times> str \<times> u64"
where
  "recover_prefix ops bytes scan ctx =
    (if scan < length bytes then
       let line = line_at bytes scan;
           scan' = scan + length line + (if length line < length bytes - scan then 1 else 0)
       in if line = [] then recover_prefix ops bytes scan' ctx
          else case so_parse ops line of
                 None \<Rightarrow> recover_prefix ops bytes scan' ctx
               | Some v \<Rightarrow> recover_prefix ops bytes scan' (recover_muse_header ops v ctx)
     else ctx)"
  by pat_completeness auto
termination
  by (relation "measure (\<lambda>(ops, bytes, scan, ctx). length bytes - scan)") (auto simp: Let_def)

declare recover_prefix.simps [simp del]

text \<open>What a parse knows from the path: the path as text, whether it is a subagent's, and of which session.\<close>

record muse_source =
  mu_path :: str
  mu_include_reasoning :: bool
  mu_is_subagent :: bool
  mu_parent_session :: "str option"

definition muse_source_of :: "str \<Rightarrow> bool \<Rightarrow> muse_source" where
  "muse_source_of path include_reasoning =
    (let is_subagent = list_ex (\<lambda>c. starts_with c ''subagent'') (path_components (normalize_slashes path));
         parent_dir = Option.bind (Option.bind (path_parent path) path_parent) path_parent
     in \<lparr>mu_path = path, mu_include_reasoning = include_reasoning, mu_is_subagent = is_subagent,
         mu_parent_session = (if is_subagent then Option.bind parent_dir os_file_name else None)\<rparr>)"

definition muse_links :: "muse_source \<Rightarrow> record_links" where
  "muse_links src =
    (let kind = if mu_is_subagent src then ''subagent'' else ''main''
     in default_links\<lparr>lk_parent_session_id := mu_parent_session src, lk_conversation_kind := Some kind,
          lk_thread_source := (if kind \<noteq> ''main'' then Some kind else None)\<rparr>)"

text \<open>A record of the current session; the fields every branch fills alike.\<close>

definition muse_record ::
  "'f source_ops \<Rightarrow> muse_source \<Rightarrow> u64 \<Rightarrow> session_run \<Rightarrow> str \<Rightarrow> str \<Rightarrow> str option \<Rightarrow> str option \<Rightarrow> str option \<Rightarrow>
    record_links \<Rightarrow> mrecord"
where
  "muse_record ops src ts s role txt tool_name tool_input tool_output links =
    \<lparr>rec_source = Muse, rec_doc_id = next_doc ops s, rec_ts = ts, rec_project = sr_project s,
     rec_session_id = sr_session_id s, rec_turn_id = pg_turn_id s, rec_role = role, rec_text = txt,
     rec_tool_name = tool_name, rec_tool_input = tool_input, rec_tool_output = tool_output,
     rec_links = links, rec_source_path = mu_path src\<rparr>"

definition muse_started :: "'f source_ops \<Rightarrow> muse_source \<Rightarrow> u64 \<Rightarrow> 'f jval \<Rightarrow> session_run \<Rightarrow> session_run" where
  "muse_started ops src ts event s =
    (case jv_get_str ''prompt'' event of None \<Rightarrow> s
     | Some prompt \<Rightarrow>
         if trim prompt = '''' then s
         else send_record (muse_record ops src ts s ''user'' (trim prompt) None None None (muse_links src)) s)"

definition muse_assistant :: "'f source_ops \<Rightarrow> muse_source \<Rightarrow> u64 \<Rightarrow> 'f jval \<Rightarrow> session_run \<Rightarrow> session_run" where
  "muse_assistant ops src ts event s =
    (case jv_get_str ''text'' event of None \<Rightarrow> s
     | Some txt \<Rightarrow>
         if trim txt = '''' then s
         else send_record
           (muse_record ops src ts s ''assistant'' (trim txt) None None None
             (case jv_get_str ''message_id'' event of None \<Rightarrow> muse_links src
              | Some call_ref \<Rightarrow> (muse_links src)\<lparr>lk_event_id := Some call_ref\<rparr>)) s)"

definition muse_tool_call ::
  "'f source_ops \<Rightarrow> muse_source \<Rightarrow> u64 \<Rightarrow> str option \<Rightarrow> 'f jval \<Rightarrow> session_run \<Rightarrow> session_run \<times> diagnostic list"
where
  "muse_tool_call ops src ts msg_id call s =
    (let tool_name = jv_get_str ''name'' call;
         call_id = Option.bind (or_else (jv_get ''call_id'' call) (jv_get ''id'' call)) jv_str;
         tool_input = map_option (\<lambda>v. case jv_str v of Some x \<Rightarrow> x | None \<Rightarrow> so_render ops v) (jv_get ''args'' call);
         links = (case call_id of None \<Rightarrow> muse_links src
                  | Some call_ref \<Rightarrow> (muse_links src)\<lparr>lk_event_id := Some call_ref, lk_parent_event_id := msg_id\<rparr>);
         doc_id = next_doc ops s;
         r = muse_record ops src ts s ''tool_use'' (unwrap_or '''' tool_input) tool_name tool_input None links
     in case call_id of
          None \<Rightarrow> (send_record r s, [])
        | Some call_ref \<Rightarrow>
            (send_record r (insert_call call_ref
               (source_pending_call ops tool_name (Some call_ref) doc_id ts tool_input links (sr_session_id s)) s),
             if pg_pending s call_ref \<noteq> None then [DuplicateCall] else []))"

definition muse_tool_result ::
  "'f source_ops \<Rightarrow> muse_source \<Rightarrow> u64 \<Rightarrow> 'f jval \<Rightarrow> session_run \<Rightarrow> session_run"
where
  "muse_tool_result ops src ts res s =
    (let call_id = jv_text ''tool_call_id'' res;
         tool_name = (if call_id \<noteq> '''' then Option.bind (pg_pending s call_id) pt_tool_name else None);
         s1 = (if call_id \<noteq> '''' then remove_call call_id s else s);
         out = unwrap_or '''' (Option.bind (or_else (jv_get ''text'' res) (jv_get ''output'' res)) jv_str);
         links = (if call_id \<noteq> '''' then (muse_links src)\<lparr>lk_parent_tool_use_id := Some call_id\<rparr> else muse_links src)
     in if trim out = '''' then s1
        else send_record (muse_record ops src ts s1 ''tool_result'' out tool_name None (Some out) links) s1)"

definition muse_reasoning :: "'f source_ops \<Rightarrow> muse_source \<Rightarrow> u64 \<Rightarrow> 'f jval \<Rightarrow> session_run \<Rightarrow> session_run" where
  "muse_reasoning ops src ts event s =
    (if \<not> mu_include_reasoning src then s
     else case Option.bind (or_else (jv_get ''text'' event) (jv_get ''reasoning'' event)) jv_str of
            None \<Rightarrow> s
          | Some txt \<Rightarrow>
              if trim txt = '''' then s
              else send_record
                (muse_record ops src ts s ''reasoning'' (trim txt) None None None
                  (case jv_get_str ''message_id'' event of None \<Rightarrow> muse_links src
                   | Some call_ref \<Rightarrow> (muse_links src)\<lparr>lk_event_id := Some (call_ref @ '':reasoning'')\<rparr>)) s)"

definition muse_event ::
  "'f source_ops \<Rightarrow> muse_source \<Rightarrow> u64 \<Rightarrow> 'f jval \<Rightarrow> session_run \<Rightarrow> session_run \<times> diagnostic list"
where
  "muse_event ops src ts event s =
    (let kind = jv_text ''kind'' event
     in if kind = ''started'' then (muse_started ops src ts event s, [])
        else if kind = ''assistant_message_committed'' then (muse_assistant ops src ts event s, [])
        else if kind = ''assistant_tool_calls_committed'' then
          (case Option.bind (jv_get ''tool_calls'' event) jv_array of None \<Rightarrow> (s, [])
           | Some calls \<Rightarrow> each_counting (muse_tool_call ops src ts (jv_get_str ''message_id'' event)) calls s)
        else if kind = ''tool_result_batch_committed'' then
          (case Option.bind (jv_get ''results'' event) jv_array of None \<Rightarrow> (s, [])
           | Some results \<Rightarrow> (fold (muse_tool_result ops src ts) results s, []))
        else if kind = ''reasoning_committed'' then (muse_reasoning ops src ts event s, [])
        else (s, []))"

text \<open>The project a metadata row gives: here an empty root hides the working directory.\<close>

definition muse_header_project :: "'f jval \<Rightarrow> str \<Rightarrow> str" where
  "muse_header_project payload current =
    (case jv_get ''record'' payload of None \<Rightarrow> current
     | Some r \<Rightarrow>
         (case jv_get_str ''workspace_root'' r of
            Some root \<Rightarrow> if root \<noteq> '''' then project_from_path root else current
          | None \<Rightarrow>
              (case jv_get_str ''cwd'' r of
                 Some cwd \<Rightarrow> if cwd \<noteq> '''' then project_from_path cwd else current
               | None \<Rightarrow> current)))"

definition muse_line ::
  "'f source_ops \<Rightarrow> muse_source \<Rightarrow> 'f jval \<Rightarrow> session_run \<Rightarrow> session_run \<times> diagnostic list"
where
  "muse_line ops src v s =
    (let recorded_at = muse_recorded_at ops v;
         s1 = s\<lparr>sr_session_id := muse_stream_id v (sr_session_id s),
                sr_timestamp := muse_base_time ops v (sr_timestamp s)\<rparr>
     in case jv_get ''payload'' v of
          None \<Rightarrow> (s1, [])
        | Some payload \<Rightarrow>
            if is_muse_header payload
            then (s1\<lparr>sr_project := muse_header_project payload (sr_project s1)\<rparr>, [])
            else case jv_get ''event'' payload of
                   None \<Rightarrow> (s1, [])
                 | Some event \<Rightarrow>
                     muse_event ops src (if 0 < recorded_at then recorded_at else sr_timestamp s1) event s1)"

definition muse_enter ::
  "'f source_ops \<Rightarrow> str \<Rightarrow> str \<Rightarrow> nat \<Rightarrow> parse_progress \<Rightarrow> session_run"
where
  "muse_enter ops path bytes start p =
    (let ctx = (muse_session_id_from_path path, source_label Muse, 0);
         (session_id, project, base) =
           if 0 < start \<and> bytes \<noteq> [] then recover_prefix ops (take (min start (length bytes)) bytes) 0 ctx else ctx
     in parse_progress.extend p \<lparr>sr_session_id = session_id, sr_project = project, sr_timestamp = base\<rparr>)"

definition muse_parse_index_records :: "'f source_ops \<Rightarrow> str \<Rightarrow> bool \<Rightarrow> parser" where
  "muse_parse_index_records ops path include_reasoning bytes st k =
    (let start = resume_offset (\<lambda>l. so_parse ops l \<noteq> None) bytes (ip_offset st)
     in case jsonl_loop (so_parse ops) (muse_line ops (muse_source_of path include_reasoning)) [MalformedLine]
          bytes start (muse_enter ops path bytes start (progress_of st k)) of
          (n, s, ds) \<Rightarrow>
            (\<lparr>io_offset = n, io_turn_id = pg_turn_id s, io_legacy_turn_id = None, io_pending = pg_pending s,
              io_session_id = Some (sr_session_id s), io_diagnostics = fold diagnose ds default_diagnostics,
              io_session_cwd = None\<rparr>,
             sink.truncate s))"

section \<open>Resuming\<close>

lemma muse_handlers_keep_ctx:
  "run_ctx (muse_started ops src ts event s) = run_ctx s"
  "run_ctx (muse_assistant ops src ts event s) = run_ctx s"
  "run_ctx (fst (muse_tool_call ops src ts msg_id call s)) = run_ctx s"
  "run_ctx (muse_tool_result ops src ts res s) = run_ctx s"
  "run_ctx (muse_reasoning ops src ts event s) = run_ctx s"
  by (simp_all add: muse_started_def muse_assistant_def muse_tool_call_def muse_tool_result_def
      muse_reasoning_def Let_def split: option.splits)

lemma muse_event_keeps_ctx: "run_ctx (fst (muse_event ops src ts event s)) = run_ctx s"
  by (simp add: muse_event_def Let_def muse_handlers_keep_ctx each_counting_keeps fold_keeps split: option.splits)

text \<open>The rows on which the recovery and the parse agree.\<close>

definition muse_row_consistent :: "'f jval \<Rightarrow> bool" where
  "muse_row_consistent v \<longleftrightarrow>
    (case Option.bind (jv_get ''payload'' v) (\<lambda>p. if is_muse_header p then jv_get ''record'' p else None) of
       None \<Rightarrow> True
     | Some r \<Rightarrow> jv_get_str ''workspace_root'' r = Some '''' \<longrightarrow> \<not> is_some_and (\<lambda>x. x \<noteq> '''') (jv_get_str ''cwd'' r))"

lemma muse_line_fields:
  "run_ctx (fst (muse_line ops src v s)) =
    (muse_stream_id v (sr_session_id s),
     (case jv_get ''payload'' v of None \<Rightarrow> sr_project s
      | Some payload \<Rightarrow> if is_muse_header payload then muse_header_project payload (sr_project s) else sr_project s),
     muse_base_time ops v (sr_timestamp s))"
proof (cases "jv_get ''payload'' v")
  case None
  then show ?thesis by (simp add: muse_line_def run_ctx_def Let_def)
next
  case (Some payload)
  then show ?thesis
    by (cases "jv_get ''event'' payload") (simp_all add: muse_line_def Let_def muse_event_keeps_ctx, simp_all add: run_ctx_def)
qed

lemma recover_project_consistent:
  "muse_row_consistent v \<Longrightarrow> recover_project v current =
    (case jv_get ''payload'' v of None \<Rightarrow> current
     | Some payload \<Rightarrow> if is_muse_header payload then muse_header_project payload current else current)"
proof (cases "jv_get ''payload'' v")
  case (Some payload)
  assume c: "muse_row_consistent v"
  show ?thesis
  proof (cases "is_muse_header payload")
    case header: True
    show ?thesis
    proof (cases "jv_get ''record'' payload")
      case r: (Some r)
      show ?thesis using c Some header r
        by (cases "jv_get_str ''workspace_root'' r"; cases "jv_get_str ''cwd'' r")
          (auto simp: recover_project_def muse_header_project_def muse_row_consistent_def Let_def)
    qed (use Some header in \<open>simp add: recover_project_def muse_header_project_def\<close>)
  qed (use Some in \<open>simp add: recover_project_def\<close>)
qed (simp add: recover_project_def)

lemma muse_line_ctx:
  "muse_row_consistent v \<Longrightarrow> run_ctx (fst (muse_line ops src v s)) = recover_muse_header ops v (run_ctx s)"
  unfolding muse_line_fields by (simp add: recover_muse_header_def run_ctx_def recover_project_consistent)

lemma recover_prefix_end: "length bytes \<le> i \<Longrightarrow> recover_prefix ops bytes i ctx = ctx"
  by (simp add: recover_prefix.simps)

lemma muse_loop_ctx:
  assumes rows: "all_rows (so_parse ops) muse_row_consistent bytes"
  shows "line_start bytes i \<Longrightarrow>
    run_ctx (loop_state (so_parse ops) (muse_line ops src) bad bytes i s) = recover_prefix ops bytes i (run_ctx s)"
proof (induction "length bytes - i" arbitrary: i s rule: less_induct)
  case less
  show ?case
  proof (cases "i < length bytes")
    case False
    then show ?thesis by (simp add: loop_state_end recover_prefix_end)
  next
    case i: True
    let ?l = "line_at bytes i" and ?e = "i + length (line_at bytes i)"
    have ih: "run_ctx (loop_state (so_parse ops) (muse_line ops src) bad bytes (Suc ?e) s') = recover_prefix ops bytes (Suc ?e) (run_ctx s')"
      if "?e < length bytes" for s'
      using less.hyps [OF _ line_start_next [OF that]] that by simp
    have complete: "?e < length bytes \<longleftrightarrow> length ?l < length bytes - i" by linarith
    have at_end: "\<not> ?e < length bytes \<Longrightarrow> recover_prefix ops bytes ?e ctx = ctx" for ctx by (simp add: recover_prefix_end)
    note turn = recover_prefix.simps [of ops bytes i "run_ctx s"]
    show ?thesis
    proof (cases "?l = []")
      case True
      then show ?thesis using i ih [of s] turn by (simp add: loop_state_blank)
    next
      case l: False
      show ?thesis
      proof (cases "so_parse ops ?l")
        case None
        then show ?thesis using i l ih [of s] turn complete at_end by (auto simp: loop_state_bad Let_def)
      next
        case (Some v)
        have "run_ctx (fst (muse_line ops src v s)) = recover_muse_header ops v (run_ctx s)"
          using muse_line_ctx all_rowsD [OF rows less.prems _ Some] i by simp
        then show ?thesis using i l Some ih [of "fst (muse_line ops src v s)"] turn complete at_end
          by (auto simp: loop_state_good Let_def)
      qed
    qed
  qed
qed

definition muse_fresh :: "str \<Rightarrow> sink \<Rightarrow> session_run" where
  "muse_fresh path k = parse_progress.extend (progress_of default_parse_state k)
     \<lparr>sr_session_id = muse_session_id_from_path path, sr_project = source_label Muse, sr_timestamp = 0\<rparr>"

lemma muse_enter_resumed:
  assumes "all_rows (so_parse ops) muse_row_consistent bytes" "resumable (so_parse ops) bytes n"
    and s: "s = loop_state (so_parse ops) (muse_line ops src) [MalformedLine] (take n bytes) 0 (muse_fresh path k)"
  shows "muse_enter ops path bytes n (parse_progress.truncate s) = s"
proof -
  have "run_ctx s = recover_prefix ops (take n bytes) 0 (muse_session_id_from_path path, source_label Muse, 0)"
    using muse_loop_ctx [OF all_rows_take [OF assms(1)], of n 0 src "[MalformedLine]" "muse_fresh path k"] s
    by (simp add: line_start_def run_ctx_def muse_fresh_def parse_progress.defs)
  moreover have "n \<le> length bytes" using assms(2) by (simp add: resumable_def)
  ultimately show ?thesis
    by (cases "0 < n \<and> bytes \<noteq> []")
      (auto simp: muse_enter_def Let_def min_def run_ctx_def parse_progress.defs recover_prefix_end split: prod.splits)
qed

interpretation muse: line_parser "so_parse ops" "muse_line ops (muse_source_of path include_reasoning)" "[MalformedLine]"
  "muse_enter ops path" "muse_parse_index_records ops path include_reasoning"
  "all_rows (so_parse ops) muse_row_consistent" k "muse_fresh path k"
  for ops path include_reasoning k
proof
  show "muse_enter ops path bytes 0 (progress_of default_parse_state k) = muse_fresh path k" for bytes
    by (simp add: muse_enter_def muse_fresh_def Let_def)
qed (auto simp: muse_parse_index_records_def Let_def all_rows_take muse_enter_resumed split: prod.splits)


section \<open>Concrete transcripts\<close>

text \<open>
  A JSON parser that knows three rows, written by one letter each: metadata with a root, metadata with an
  empty root and a working directory, and a prompt.
\<close>

definition sample_rows :: "str \<Rightarrow> unit jval option" where
  "sample_rows l =
    (if l = ''m'' then
       Some (VObj [(''payload'', VObj [(''kind'', VStr ''metadata''),
         (''record'', VObj [(''workspace_root'', VStr ''/w/root'')])])])
     else if l = ''e'' then
       Some (VObj [(''payload'', VObj [(''kind'', VStr ''metadata''),
         (''record'', VObj [(''workspace_root'', VStr ''''), (''cwd'', VStr ''/w/cwd'')])])])
     else if l = ''p'' then
       Some (VObj [(''payload'', VObj [(''event'', VObj [(''kind'', VStr ''started''), (''prompt'', VStr ''hi'')])])])
     else None)"

definition sample_ops :: "unit source_ops" where
  "sample_ops = \<lparr>so_parse = sample_rows, so_render = (\<lambda>_. ''''), so_sha256 = (\<lambda>s. s),
     so_rfc3339_millis = (\<lambda>_. None), so_doc_id = (\<lambda>n. word_of_nat (n + 1))\<rparr>"

lemma sample_rows_letter: "sample_rows l \<noteq> None \<Longrightarrow> length l = 1"
  by (auto simp: sample_rows_def split: if_splits)

lemma sample_consistent: "sample_rows l = Some v \<Longrightarrow> l \<noteq> ''e'' \<Longrightarrow> muse_row_consistent v"
  unfolding sample_rows_def
  by (auto simp: muse_row_consistent_def is_muse_header_def jv_get_def jv_get_str_def jv_text_def jv_str_def split: if_splits)


lemma muse_empty_root_appended:
  "map rec_project (sk_sent (snd (parse_versions (muse_parse_index_records sample_ops ''/s/x/session.jsonl'' False)
      [''e'' @ [newline], ''e'' @ [newline] @ ''p''] default_parse_state empty_sink))) = [''cwd'']"
  by code_simp

lemma muse_empty_root_whole:
  "map rec_project (sk_sent (snd (muse_parse_index_records sample_ops ''/s/x/session.jsonl'' False
      (''e'' @ [newline] @ ''p'') default_parse_state empty_sink))) = [''muse'']"
  by code_simp

text \<open>
  When the metadata row of a Muse transcript has an empty \<open>workspace_root\<close> and a \<open>cwd\<close>, the records of an
  appended prompt are filed under the directory's name when the transcript was parsed before the prompt
  came, and under \<open>muse\<close> when it is parsed at once.
\<close>

theorem muse_empty_root_diverges:
  "map rec_project (sk_sent (snd (parse_versions (muse_parse_index_records sample_ops ''/s/x/session.jsonl'' False)
      [''e'' @ [newline], ''e'' @ [newline] @ ''p''] default_parse_state empty_sink))) = [''cwd'']
   \<and> map rec_project (sk_sent (snd (muse_parse_index_records sample_ops ''/s/x/session.jsonl'' False
      (''e'' @ [newline] @ ''p'') default_parse_state empty_sink))) = [''muse'']"
  using muse_empty_root_appended muse_empty_root_whole by (rule conjI)

end
