(* ===== verification/PiParser.thy ===== *)
theory PiParser
  imports Jsonl
begin

text \<open>
  The parser of Pi transcripts, \<open>src/sources/pi.rs\<close>, which the OMP and OpenClaw parsers use too. A resumed
  parse takes the session header from the first line of the transcript. Parsing each version of a growing
  transcript therefore agrees with parsing it once when no later row is a session header; a later one is
  honoured by a parse that meets it and forgotten by every parse that resumes behind it.
\<close>

section \<open>Helpers\<close>

definition pi_session_id_from_path :: "str \<Rightarrow> str" where
  "pi_session_id_from_path path = unwrap_or path (uuid_from_path path)"

definition pi_project_from_path :: "str \<Rightarrow> str" where
  "pi_project_from_path path =
    (let named = map_option (\<lambda>name.
           let key = (if starts_with name ''--'' \<and> ends_with name ''--'' \<and> 4 < length name
                      then take (length name - 2) (drop 1 name) else name)
           in unwrap_or key (last_nonempty_piece (CHR ''-'') (trim_matches {CHR ''-''} key)))
         (Option.bind (path_parent path) os_file_name)
     in case named of Some name \<Rightarrow> if name \<noteq> '''' then name else source_label Pi | None \<Rightarrow> source_label Pi)"

definition pi_timestamp_millis :: "'f source_ops \<Rightarrow> 'f jval \<Rightarrow> u64" where
  "pi_timestamp_millis ops v =
    unwrap_or 0
      (or_else (map_option (\<lambda>n. if n < 10000000000 then sat_mul n 1000 else n) (jv_u64 v))
        (or_else (case jv_i64 v of Some i \<Rightarrow> if 0 \<le> i then Some (word_of_int i) else None | None \<Rightarrow> None)
          (Option.bind (jv_str v) (parse_iso_millis ops))))"

definition apply_session_identity :: "str option \<Rightarrow> str option \<Rightarrow> str \<times> str \<Rightarrow> str \<times> str" where
  "apply_session_identity session cwd ctx =
    (case ctx of (session_id, project) \<Rightarrow>
      (case session of Some x \<Rightarrow> if x \<noteq> '''' then x else session_id | None \<Rightarrow> session_id,
       case cwd of Some x \<Rightarrow> if x \<noteq> '''' then project_from_path x else project | None \<Rightarrow> project))"

definition pi_session_header :: "'f jval \<Rightarrow> str \<times> str \<Rightarrow> str \<times> str" where
  "pi_session_header obj = apply_session_identity (jv_get_str ''id'' obj) (jv_get_str ''cwd'' obj)"

definition pi_base_links :: "'f jval \<Rightarrow> str \<Rightarrow> record_links" where
  "pi_base_links obj kind =
    default_links\<lparr>lk_event_id := jv_get_str ''id'' obj, lk_parent_event_id := jv_get_str ''parentId'' obj,
      lk_logical_parent_event_id := jv_get_str ''fromId'' obj,
      lk_thread_source := (if kind \<noteq> ''main'' then Some kind else None), lk_conversation_kind := Some kind\<rparr>"

definition pi_content_item :: "'f jval \<Rightarrow> str option" where
  "pi_content_item item =
    (case jv_str item of Some s \<Rightarrow> Some s
     | None \<Rightarrow>
         if jv_object item = None \<or> jv_get ''encrypted_content'' item \<noteq> None then None
         else let kind = jv_text ''type'' item
              in if kind = ''text'' then jv_get_str ''text'' item
                 else if kind \<in> {''thinking'', ''redacted_thinking'', ''encrypted_reasoning'', ''toolCall''} then None
                 else or_else (jv_get_str ''text'' item) (jv_get_str ''content'' item))"

definition pi_content_text :: "'f source_ops \<Rightarrow> 'f jval option \<Rightarrow> str" where
  "pi_content_text ops content =
    (case content of None \<Rightarrow> ''''
     | Some v \<Rightarrow>
         (case jv_str v of Some s \<Rightarrow> s
          | None \<Rightarrow>
              (case jv_array v of Some items \<Rightarrow> split_join [newline] (List.map_filter pi_content_item items)
               | None \<Rightarrow> so_render ops v)))"

definition pi_summary_message_text :: "'f source_ops \<Rightarrow> 'f jval \<Rightarrow> str \<Rightarrow> str" where
  "pi_summary_message_text ops message role =
    (let summary = (if role = ''branchSummary'' \<or> role = ''compactionSummary'' then jv_get_str ''summary'' message else None)
     in trim (case summary of Some s \<Rightarrow> s | None \<Rightarrow> pi_content_text ops (jv_get ''content'' message)))"

definition pi_bash_text :: "str \<Rightarrow> str \<Rightarrow> int option \<Rightarrow> str" where
  "pi_bash_text command out exit_code =
    split_join [newline]
      ((if command \<noteq> '''' then [''$ '' @ command] else []) @ (if out \<noteq> '''' then [out] else [])
       @ (case exit_code of Some code \<Rightarrow> [''exit code: '' @ int_decimal code] | None \<Rightarrow> []))"

section \<open>Rows\<close>

record pi_source =
  ps_path :: str
  ps_source :: source_kind
  ps_include_reasoning :: bool

definition pi_record ::
  "'f source_ops \<Rightarrow> pi_source \<Rightarrow> u64 \<Rightarrow> session_run \<Rightarrow> str \<Rightarrow> str \<Rightarrow> str option \<Rightarrow> str option \<Rightarrow> str option \<Rightarrow>
    record_links \<Rightarrow> mrecord"
where
  "pi_record ops src ts s role txt tool_name tool_input tool_output links =
    \<lparr>rec_source = ps_source src, rec_doc_id = next_doc ops s, rec_ts = ts, rec_project = sr_project s,
     rec_session_id = sr_session_id s, rec_turn_id = pg_turn_id s, rec_role = role, rec_text = txt,
     rec_tool_name = tool_name, rec_tool_input = tool_input, rec_tool_output = tool_output,
     rec_links = links, rec_source_path = ps_path src\<rparr>"

text \<open>One block of an assistant message.\<close>

definition pi_thinking ::
  "'f source_ops \<Rightarrow> pi_source \<Rightarrow> u64 \<Rightarrow> record_links \<Rightarrow> 'f jval \<Rightarrow> session_run \<Rightarrow> session_run \<times> diagnostic list"
where
  "pi_thinking ops src ts links block s =
    (let thinking = (case jv_get_str ''thinking'' block of Some x \<Rightarrow> if trim x \<noteq> '''' then Some (trim x) else None | None \<Rightarrow> None)
     in case thinking of
          Some x \<Rightarrow>
            (if ps_include_reasoning src
             then send_record (pi_record ops src ts s ''reasoning'' x None None None
                    (links\<lparr>lk_event_id := map_option (\<lambda>e. e @ '':reasoning'') (lk_event_id links)\<rparr>)) s
             else s, [])
        | None \<Rightarrow>
            (s, if jv_get ''encrypted_content'' block \<noteq> None \<or> jv_get ''data'' block \<noteq> None \<or> jv_get ''signature'' block \<noteq> None
                then [EncryptedDropped] else []))"

definition pi_tool_call ::
  "'f source_ops \<Rightarrow> pi_source \<Rightarrow> u64 \<Rightarrow> record_links \<Rightarrow> 'f jval \<Rightarrow> session_run \<Rightarrow> session_run \<times> diagnostic list"
where
  "pi_tool_call ops src ts base block s =
    (let tool_name = jv_get_str ''name'' block;
         tool_input = map_option (so_render ops) (jv_get ''arguments'' block);
         call_id = jv_get_str ''id'' block;
         links = (case call_id of None \<Rightarrow> base
                  | Some c \<Rightarrow> base\<lparr>lk_event_id := Some c, lk_parent_event_id := lk_event_id base\<rparr>);
         doc_id = next_doc ops s;
         r = pi_record ops src ts s ''tool_use'' (unwrap_or '''' tool_input) tool_name tool_input None links
     in case call_id of
          None \<Rightarrow> (send_record r s, [])
        | Some c \<Rightarrow>
            (send_record r (insert_call c
               (source_pending_call ops tool_name (Some c) doc_id ts tool_input links (sr_session_id s)) s),
             if pg_pending s c \<noteq> None then [DuplicateCall] else []))"

definition pi_block ::
  "'f source_ops \<Rightarrow> pi_source \<Rightarrow> u64 \<Rightarrow> record_links \<Rightarrow> 'f jval \<Rightarrow> session_run \<Rightarrow> session_run \<times> diagnostic list"
where
  "pi_block ops src ts base block s =
    (if jv_object block = None then (s, [])
     else let kind = jv_text ''type'' block
          in if kind = ''thinking'' then pi_thinking ops src ts base block s
             else if kind = ''redacted_thinking'' \<or> kind = ''encrypted_reasoning'' then (s, [EncryptedDropped])
             else if kind \<noteq> ''toolCall''
             then (s, if kind = ''text'' \<or> kind = ''image'' then [] else [UnknownSemantic kind])
             else pi_tool_call ops src ts base block s)"

definition pi_prose ::
  "'f source_ops \<Rightarrow> pi_source \<Rightarrow> u64 \<Rightarrow> record_links \<Rightarrow> str \<Rightarrow> 'f jval \<Rightarrow> session_run \<Rightarrow> session_run \<times> diagnostic list"
where
  "pi_prose ops src ts base role message s =
    (let content = jv_get ''content'' message;
         (s1, ds) = (case (if role = ''assistant'' then Option.bind content jv_array else None) of
                       None \<Rightarrow> (s, []) | Some blocks \<Rightarrow> each_counting (pi_block ops src ts base) blocks s);
         txt = trim (pi_content_text ops content)
     in (if txt = '''' then s1 else send_record (pi_record ops src ts s1 role txt None None None base) s1, ds))"

definition pi_tool_result ::
  "'f source_ops \<Rightarrow> pi_source \<Rightarrow> u64 \<Rightarrow> record_links \<Rightarrow> 'f jval \<Rightarrow> session_run \<Rightarrow> session_run \<times> diagnostic list"
where
  "pi_tool_result ops src ts base message s =
    (let call_id = jv_text ''toolCallId'' message;
         known = (if call_id \<noteq> '''' then pg_pending s call_id else None);
         tool_name = or_else (jv_get_str ''toolName'' message) (Option.bind known pt_tool_name);
         s1 = (if call_id \<noteq> '''' then remove_call call_id s else s);
         ds = (if call_id \<noteq> '''' \<and> pg_pending s call_id = None then [OrphanResult] else []);
         plain = pi_content_text ops (jv_get ''content'' message);
         out = (if unwrap_or False (Option.bind (jv_get ''isError'' message) jv_bool)
                   \<and> \<not> starts_with (to_ascii_lowercase plain) ''error'' then ''Error: '' @ plain else plain);
         links = (if call_id \<noteq> '''' then base\<lparr>lk_parent_tool_use_id := Some call_id\<rparr> else base)
     in (if trim out = '''' then s1
         else send_record (pi_record ops src ts s1 ''tool_result'' out tool_name None (Some out) links) s1, ds))"

definition pi_bash_execution ::
  "'f source_ops \<Rightarrow> pi_source \<Rightarrow> u64 \<Rightarrow> record_links \<Rightarrow> 'f jval \<Rightarrow> session_run \<Rightarrow> session_run"
where
  "pi_bash_execution ops src ts base message s =
    (if unwrap_or False (Option.bind (jv_get ''excludeFromContext'' message) jv_bool) then s
     else let command = jv_text ''command'' message;
              out = jv_text ''output'' message;
              txt = pi_bash_text command out (Option.bind (jv_get ''exitCode'' message) jv_i64)
          in if trim txt = '''' then s
             else send_record (pi_record ops src ts s ''tool_result'' txt (Some ''Bash'')
               (if command = '''' then None else Some command) (if out = '''' then None else Some out) base) s)"

definition pi_summary ::
  "'f source_ops \<Rightarrow> pi_source \<Rightarrow> u64 \<Rightarrow> record_links \<Rightarrow> str \<Rightarrow> 'f jval \<Rightarrow> session_run \<Rightarrow> session_run"
where
  "pi_summary ops src ts base role message s =
    (let txt = pi_summary_message_text ops message role
     in if txt = '''' then s
        else send_record (pi_record ops src ts s ''assistant'' (role @ '': '' @ txt) None None None base) s)"

definition pi_message ::
  "'f source_ops \<Rightarrow> pi_source \<Rightarrow> u64 \<Rightarrow> record_links \<Rightarrow> 'f jval \<Rightarrow> session_run \<Rightarrow> session_run \<times> diagnostic list"
where
  "pi_message ops src ts base message s =
    (let role = jv_text ''role'' message;
         base = (if role = ''branchSummary''
                 then base\<lparr>lk_thread_source := Some ''branch'', lk_conversation_kind := Some ''branch''\<rparr>
                 else if role = ''compactionSummary''
                 then base\<lparr>lk_thread_source := Some ''compaction'', lk_conversation_kind := Some ''compaction''\<rparr>
                 else base)
     in if role = ''user'' \<or> role = ''assistant'' then pi_prose ops src ts base role message s
        else if role = ''toolResult'' \<or> role = ''tool'' then pi_tool_result ops src ts base message s
        else if role = ''bashExecution'' then (pi_bash_execution ops src ts base message s, [])
        else if role = ''custom'' \<or> role = ''branchSummary'' \<or> role = ''compactionSummary''
        then (pi_summary ops src ts base role message s, [])
        else (s, [UnknownSemantic role]))"

text \<open>One row. A message without a time of its own has its message's, and then the session's.\<close>

definition pi_entry_time :: "'f source_ops \<Rightarrow> 'f jval \<Rightarrow> u64" where
  "pi_entry_time ops v = (case jv_get ''timestamp'' v of None \<Rightarrow> 0 | Some t \<Rightarrow> pi_timestamp_millis ops t)"

definition pi_header_row :: "'f source_ops \<Rightarrow> 'f jval \<Rightarrow> session_run \<Rightarrow> session_run" where
  "pi_header_row ops v s =
    (case pi_session_header v (sr_session_id s, sr_project s) of (session_id, project) \<Rightarrow>
      s\<lparr>sr_session_id := session_id, sr_project := project,
        sr_timestamp := (if 0 < pi_entry_time ops v then pi_entry_time ops v else sr_timestamp s)\<rparr>)"

definition pi_line ::
  "'f source_ops \<Rightarrow> pi_source \<Rightarrow> 'f jval \<Rightarrow> session_run \<Rightarrow> session_run \<times> diagnostic list"
where
  "pi_line ops src v s =
    (if jv_object v = None then (s, [NonObjectLine])
     else
       let kind = jv_text ''type'' v;
           entry_time = pi_entry_time ops v;
           conversation = (if kind = ''branch_summary'' then ''branch''
                           else if kind = ''compaction'' then ''compaction'' else ''main'');
           base = pi_base_links v conversation;
           ts = (if 0 < entry_time then entry_time else sr_timestamp s)
       in if kind = ''session'' then (pi_header_row ops v s, [])
          else if kind = ''compaction'' \<or> kind = ''branch_summary'' then
            (let summary = trim (jv_text ''summary'' v)
             in (if summary = '''' then s
                 else send_record (pi_record ops src ts s ''assistant'' (kind @ '': '' @ summary) None None None base) s, []))
          else if kind = ''custom_message'' then
            (let txt = trim (pi_content_text ops (jv_get ''content'' v));
                 custom = jv_text ''customType'' v;
                 pre = (if custom = '''' then ''custom_message'' else ''custom_message('' @ custom @ '')'')
             in (if txt = '''' then s
                 else send_record (pi_record ops src ts s ''assistant'' (pre @ '': '' @ txt) None None None base) s, []))
          else if kind \<noteq> ''message'' then
            (s, if kind \<in> {''model_change'', ''thinking_level_change'', ''session_info'', ''label'', ''custom''} then []
                else [UnknownTopLevel kind])
          else
            (case Option.bind (jv_get ''message'' v) (\<lambda>m. map_option (\<lambda>_. m) (jv_object m)) of
               None \<Rightarrow> (s, [])
             | Some message \<Rightarrow>
                 (let own = pi_entry_time ops message;
                      ts = (if entry_time = 0 then if 0 < own then own else sr_timestamp s else entry_time)
                  in pi_message ops src ts base message s)))"

section \<open>Parses\<close>

definition pi_enter :: "'f source_ops \<Rightarrow> str \<Rightarrow> str \<Rightarrow> nat \<Rightarrow> parse_progress \<Rightarrow> session_run" where
  "pi_enter ops path bytes start p =
    (let s = parse_progress.extend p
           \<lparr>sr_session_id = pi_session_id_from_path path, sr_project = pi_project_from_path path, sr_timestamp = 0\<rparr>
     in if 0 < start \<and> bytes \<noteq> [] then
          let line = line_at bytes 0
          in if line = [] then s
             else case so_parse ops line of
                    None \<Rightarrow> s
                  | Some v \<Rightarrow> if jv_object v \<noteq> None \<and> jv_get_str ''type'' v = Some ''session'' then pi_header_row ops v s else s
        else s)"

definition pi_parse_index_records_for :: "'f source_ops \<Rightarrow> str \<Rightarrow> source_kind \<Rightarrow> bool \<Rightarrow> parser" where
  "pi_parse_index_records_for ops path source include_reasoning bytes st k =
    (let start = resume_offset (\<lambda>l. so_parse ops l \<noteq> None) bytes (ip_offset st);
         src = \<lparr>ps_path = path, ps_source = source, ps_include_reasoning = include_reasoning\<rparr>
     in case jsonl_loop (so_parse ops) (pi_line ops src) [MalformedLine] bytes start
          (pi_enter ops path bytes start (progress_of st k)) of
          (n, s, ds) \<Rightarrow>
            (\<lparr>io_offset = n, io_turn_id = pg_turn_id s, io_legacy_turn_id = None, io_pending = pg_pending s,
              io_session_id = Some (sr_session_id s), io_diagnostics = fold diagnose ds default_diagnostics,
              io_session_cwd = None\<rparr>,
             sink.truncate s))"

definition pi_parse_index_records :: "'f source_ops \<Rightarrow> str \<Rightarrow> bool \<Rightarrow> parser" where
  "pi_parse_index_records ops path = pi_parse_index_records_for ops path Pi"

definition omp_parse_index_records :: "'f source_ops \<Rightarrow> str \<Rightarrow> bool \<Rightarrow> parser" where
  "omp_parse_index_records ops path = pi_parse_index_records_for ops path Omp"

definition openclaw_parse_index_records :: "'f source_ops \<Rightarrow> str \<Rightarrow> bool \<Rightarrow> parser" where
  "openclaw_parse_index_records ops path = pi_parse_index_records_for ops path OpenClaw"

section \<open>Resuming\<close>

lemma pi_handlers_keep_ctx:
  "run_ctx (fst (pi_thinking ops src ts links block s)) = run_ctx s"
  "run_ctx (fst (pi_tool_call ops src ts links block s)) = run_ctx s"
  "run_ctx (fst (pi_tool_result ops src ts links message s)) = run_ctx s"
  "run_ctx (pi_bash_execution ops src ts links message s) = run_ctx s"
  "run_ctx (pi_summary ops src ts links role message s) = run_ctx s"
  by (simp_all add: pi_thinking_def pi_tool_call_def pi_tool_result_def pi_bash_execution_def pi_summary_def Let_def
      split: option.splits)

lemma pi_block_keeps_ctx: "run_ctx (fst (pi_block ops src ts links block s)) = run_ctx s"
  by (simp add: pi_block_def Let_def pi_handlers_keep_ctx)

lemma pi_prose_keeps_ctx: "run_ctx (fst (pi_prose ops src ts links role message s)) = run_ctx s"
  using each_counting_keeps [of run_ctx "pi_block ops src ts links", OF pi_block_keeps_ctx]
  by (auto simp: pi_prose_def Let_def split: prod.splits option.splits)
    (metis fst_conv)+

lemma pi_message_keeps_ctx: "run_ctx (fst (pi_message ops src ts links message s)) = run_ctx s"
  by (simp add: pi_message_def Let_def pi_handlers_keep_ctx pi_prose_keeps_ctx)

definition is_pi_header :: "'f jval \<Rightarrow> bool" where
  "is_pi_header v \<longleftrightarrow> jv_object v \<noteq> None \<and> jv_get_str ''type'' v = Some ''session''"

lemma jv_text_Some: "x \<noteq> '''' \<Longrightarrow> jv_text k v = x \<longleftrightarrow> jv_get_str k v = Some x"
  by (auto simp: jv_text_def unwrap_or_def split: option.splits)

lemma pi_line_ctx:
  "run_ctx (fst (pi_line ops src v s)) = (if is_pi_header v then run_ctx (pi_header_row ops v s) else run_ctx s)"
proof (cases "is_pi_header v")
  case True
  then show ?thesis by (auto simp: is_pi_header_def pi_line_def Let_def jv_text_Some)
next
  case False
  then have "jv_object v = None \<or> jv_text ''type'' v \<noteq> ''session''"
    by (simp add: is_pi_header_def jv_text_Some)
  then show ?thesis using False
    by (auto simp: pi_line_def Let_def pi_message_keeps_ctx split: option.splits)
qed

text \<open>Header rows stand in the first line, if anywhere.\<close>

definition pi_header_first :: "(str \<Rightarrow> 'f jval option) \<Rightarrow> str \<Rightarrow> bool" where
  "pi_header_first parse bytes \<longleftrightarrow>
    (\<forall>i \<le> length bytes. 0 < i \<longrightarrow> line_start bytes i \<longrightarrow>
      (\<forall>m \<le> length (line_at bytes i). \<forall>v. parse (take m (line_at bytes i)) = Some v \<longrightarrow> \<not> is_pi_header v))"

lemma pi_header_first_take: "pi_header_first parse bytes \<Longrightarrow> pi_header_first parse (take n bytes)"
proof (unfold pi_header_first_def, intro allI impI)
  fix i m v
  assume rows: "\<forall>i \<le> length bytes. 0 < i \<longrightarrow> line_start bytes i \<longrightarrow>
      (\<forall>m \<le> length (line_at bytes i). \<forall>v. parse (take m (line_at bytes i)) = Some v \<longrightarrow> \<not> is_pi_header v)"
    and i: "i \<le> length (take n bytes)" "0 < i" "line_start (take n bytes) i" "m \<le> length (line_at (take n bytes) i)"
    and v: "parse (take m (line_at (take n bytes) i)) = Some v"
  have "take m (line_at (take n bytes) i) = take m (line_at bytes i)" using i(4) by (simp add: line_at_take)
  then show "\<not> is_pi_header v" using rows [rule_format, of i m v] i v by (simp add: line_start_take line_at_take)
qed

lemma pi_rest_keeps_ctx:
  assumes rows: "pi_header_first (so_parse ops) bytes"
  shows "0 < i \<Longrightarrow> line_start bytes i \<Longrightarrow>
    run_ctx (loop_state (so_parse ops) (pi_line ops src) bad bytes i s) = run_ctx s"
proof (induction "length bytes - i" arbitrary: i s rule: less_induct)
  case less
  show ?case
  proof (cases "i < length bytes")
    case False
    then show ?thesis by (simp add: loop_state_end)
  next
    case i: True
    let ?l = "line_at bytes i" and ?e = "i + length (line_at bytes i)"
    have ih: "run_ctx (loop_state (so_parse ops) (pi_line ops src) bad bytes (Suc ?e) s') = run_ctx s'"
      if "?e < length bytes" for s'
      using less.hyps [OF _ _ line_start_next [OF that]] that by simp
    show ?thesis
    proof (cases "?l = []")
      case True
      then show ?thesis using i ih [of s] by (simp add: loop_state_blank)
    next
      case l: False
      show ?thesis
      proof (cases "so_parse ops ?l")
        case None
        then show ?thesis using i l ih [of s] by (simp add: loop_state_bad)
      next
        case (Some v)
        have "\<not> is_pi_header v"
          using rows [unfolded pi_header_first_def, rule_format, of i "length ?l" v] i less.prems Some by simp
        then have "run_ctx (fst (pi_line ops src v s)) = run_ctx s" by (simp add: pi_line_ctx)
        then show ?thesis using i l Some ih [of "fst (pi_line ops src v s)"] by (simp add: loop_state_good)
      qed
    qed
  qed
qed

definition pi_fresh :: "str \<Rightarrow> sink \<Rightarrow> session_run" where
  "pi_fresh path k = parse_progress.extend (progress_of default_parse_state k)
     \<lparr>sr_session_id = pi_session_id_from_path path, sr_project = pi_project_from_path path, sr_timestamp = 0\<rparr>"

text \<open>The first line of what a parse has taken is JSON exactly when the whole first line is.\<close>

lemma first_line_taken:
  assumes "framed parse bytes" "resumable parse bytes n" "0 < n"
  shows "parse (line_at (take n bytes) 0) = parse (line_at bytes 0)" "line_at (take n bytes) 0 = [] \<longleftrightarrow> line_at bytes 0 = []"
proof -
  let ?l = "line_at bytes 0"
  show "line_at (take n bytes) 0 = [] \<longleftrightarrow> ?l = []" using assms(3) by (simp add: line_at_take)
  show "parse (line_at (take n bytes) 0) = parse ?l"
  proof (cases "length ?l \<le> n")
    case True
    then show ?thesis by (simp add: line_at_take)
  next
    case False
    have "\<not> line_start bytes n" using line_at_inner [of 0 "n - 1" bytes] False assms(3) by (auto simp: line_start_def)
    then obtain i where i: "settled_in_line parse bytes i n" using assms(2) by (auto simp: resumable_def)
    have "i = 0"
      by (rule line_start_unique [of bytes i 0 n]) (use i False assms(3) in \<open>auto simp: settled_in_line_def line_start_def\<close>)
    then obtain v where v: "parse (take n ?l) = Some v" using i by (auto simp: settled_in_line_def)
    have "self_framed parse ?l" using assms(1) [unfolded framed_def, rule_format, of 0] by (simp add: line_start_def)
    then have "0 < length ?l - n \<longrightarrow> n + (length ?l - n) \<le> length ?l \<longrightarrow> parse (take n ?l) = Some v \<longrightarrow>
        parse (take (n + (length ?l - n)) ?l) = Some v" unfolding self_framed_def by blast
    then show ?thesis using v False by (simp add: line_at_take)
  qed
qed

lemma pi_header_row_ctx: "run_ctx s = run_ctx s' \<Longrightarrow> run_ctx (pi_header_row ops v s) = run_ctx (pi_header_row ops v s')"
  by (simp add: pi_header_row_def run_ctx_def split: prod.splits)

lemma run_ctx_eqI: "parse_progress.truncate s = parse_progress.truncate s' \<Longrightarrow> run_ctx s = run_ctx s' \<Longrightarrow> s = s'" for s s' :: session_run
  by (cases s; cases s') (simp add: run_ctx_def parse_progress.defs)

lemma pi_enter_resumed:
  assumes rows: "pi_header_first (so_parse ops) bytes" "framed (so_parse ops) bytes" "resumable (so_parse ops) bytes n"
    and s: "s = loop_state (so_parse ops) (pi_line ops src) [MalformedLine] (take n bytes) 0 (pi_fresh path k)"
  shows "pi_enter ops path bytes n (parse_progress.truncate s) = s"
proof -
  let ?p = "parse_progress.truncate s" and ?g = "take n bytes" and ?l = "line_at bytes 0"
  let ?base = "parse_progress.extend ?p
    \<lparr>sr_session_id = pi_session_id_from_path path, sr_project = pi_project_from_path path, sr_timestamp = 0\<rparr>"
  have fresh: "run_ctx ?base = run_ctx (pi_fresh path k)" by (simp add: pi_fresh_def run_ctx_def parse_progress.defs)
  have keep: "parse_progress.truncate (pi_header_row ops v s') = parse_progress.truncate s'" for v s'
    by (simp add: pi_header_row_def parse_progress.defs split: prod.splits)
  have p: "parse_progress.truncate ?base = ?p" by (simp add: parse_progress.defs)
  have enter: "pi_enter ops path bytes n ?p =
      (if 0 < n \<and> bytes \<noteq> [] \<and> ?l \<noteq> [] \<and> (\<exists>v. so_parse ops ?l = Some v \<and> is_pi_header v)
       then pi_header_row ops (the (so_parse ops ?l)) ?base else ?base)"
    by (auto simp: pi_enter_def Let_def is_pi_header_def split: option.splits)
  have "run_ctx s = run_ctx (pi_enter ops path bytes n ?p)"
  proof (cases "0 < n \<and> bytes \<noteq> []")
    case False
    then have "length ?g \<le> 0" by auto
    then have "s = pi_fresh path k" unfolding s by (rule loop_state_end)
    moreover have "pi_enter ops path bytes n ?p = ?base" using False unfolding enter by auto
    ultimately show ?thesis using fresh by simp
  next
    case n: True
    have g: "0 < length ?g" using n by simp
    note first = first_line_taken [OF rows(2,3)]
    have rest: "run_ctx (loop_state (so_parse ops) (pi_line ops src) [MalformedLine] ?g (Suc (length (line_at ?g 0))) s') = run_ctx s'"
      if "length (line_at ?g 0) < length ?g" for s'
      using pi_rest_keeps_ctx [OF pi_header_first_take [OF rows(1)], of "Suc (length (line_at ?g 0))" n src "[MalformedLine]" s']
        line_start_next [of 0 ?g] that by simp
    show ?thesis
    proof (cases "?l = []")
      case True
      then show ?thesis using s g n first(2) rest [of "pi_fresh path k"] fresh unfolding enter
        by (simp add: loop_state_blank)
    next
      case l: False
      show ?thesis
      proof (cases "so_parse ops ?l")
        case None
        then show ?thesis using s g n l first rest [of "pi_fresh path k"] fresh unfolding enter
          by (simp add: loop_state_bad)
      next
        case (Some v)
        have "run_ctx s = run_ctx (fst (pi_line ops src v (pi_fresh path k)))"
          using s g n l first rest [of "fst (pi_line ops src v (pi_fresh path k))"] Some by (simp add: loop_state_good)
        also have "\<dots> = run_ctx (if is_pi_header v then pi_header_row ops v ?base else ?base)"
          by (cases "is_pi_header v") (simp_all only: pi_line_ctx if_True if_False fresh pi_header_row_ctx [OF fresh])
        finally show ?thesis using n l Some unfolding enter by simp
      qed
    qed
  qed
  then show ?thesis
    by (intro run_ctx_eqI) (simp_all add: enter keep p)
qed

interpretation pi: line_parser "so_parse ops" "pi_line ops \<lparr>ps_path = path, ps_source = source, ps_include_reasoning = reasoning\<rparr>"
  "[MalformedLine]" "pi_enter ops path" "pi_parse_index_records_for ops path source reasoning"
  "pi_header_first (so_parse ops)" k "pi_fresh path k"
  for ops path source reasoning k
proof
  show "pi_enter ops path bytes 0 (progress_of default_parse_state k) = pi_fresh path k" for bytes
    by (simp add: pi_enter_def pi_fresh_def Let_def)
qed (auto simp: pi_parse_index_records_for_def Let_def pi_header_first_take pi_enter_resumed split: prod.splits)


section \<open>Concrete transcripts\<close>

text \<open>A JSON parser that knows two session headers, a prompt and a tool call, written by one letter each.\<close>

definition pi_sample_rows :: "str \<Rightarrow> unit jval option" where
  "pi_sample_rows l =
    (if l = ''h'' then Some (VObj [(''type'', VStr ''session''), (''id'', VStr ''S1'')])
     else if l = ''k'' then Some (VObj [(''type'', VStr ''session''), (''id'', VStr ''S2'')])
     else if l = ''u'' then
       Some (VObj [(''type'', VStr ''message''),
         (''message'', VObj [(''role'', VStr ''user''), (''content'', VStr ''hi'')])])
     else None)"

definition pi_sample_ops :: "unit source_ops" where
  "pi_sample_ops = \<lparr>so_parse = pi_sample_rows, so_render = (\<lambda>_. ''''), so_sha256 = (\<lambda>s. s),
     so_rfc3339_millis = (\<lambda>_. None), so_doc_id = (\<lambda>n. word_of_nat (n + 1))\<rparr>"

lemma pi_sample_letter: "pi_sample_rows l \<noteq> None \<Longrightarrow> length l = 1"
  by (auto simp: pi_sample_rows_def split: if_splits)

lemma pi_sample_header: "pi_sample_rows l = Some v \<Longrightarrow> l = ''u'' \<Longrightarrow> \<not> is_pi_header v"
  by (auto simp: pi_sample_rows_def is_pi_header_def jv_get_str_def jv_get_def jv_str_def)


lemma pi_late_header_appended:
  "map rec_session_id (sk_sent (snd (parse_versions (pi_parse_index_records_for pi_sample_ops ''/s/t.jsonl'' Pi False)
      [''u'' @ [newline] @ ''k'' @ [newline], ''u'' @ [newline] @ ''k'' @ [newline] @ ''u'']
      default_parse_state empty_sink))) = [''/s/t.jsonl'', ''/s/t.jsonl'']"
  by code_simp

lemma pi_late_header_whole:
  "map rec_session_id (sk_sent (snd (pi_parse_index_records_for pi_sample_ops ''/s/t.jsonl'' Pi False
      (''u'' @ [newline] @ ''k'' @ [newline] @ ''u'') default_parse_state empty_sink))) = [''/s/t.jsonl'', ''S2'']"
  by code_simp

text \<open>
  A session header below the first line is honoured by a parse that meets it and forgotten by one that
  resumes behind it: the same prompt is filed under the header's session when the transcript is parsed
  at once, and under the session of the path when it is appended after a parse.
\<close>

theorem pi_late_header_forgotten:
  "map rec_session_id (sk_sent (snd (parse_versions (pi_parse_index_records_for pi_sample_ops ''/s/t.jsonl'' Pi False)
      [''u'' @ [newline] @ ''k'' @ [newline], ''u'' @ [newline] @ ''k'' @ [newline] @ ''u'']
      default_parse_state empty_sink))) = [''/s/t.jsonl'', ''/s/t.jsonl'']
   \<and> map rec_session_id (sk_sent (snd (pi_parse_index_records_for pi_sample_ops ''/s/t.jsonl'' Pi False
      (''u'' @ [newline] @ ''k'' @ [newline] @ ''u'') default_parse_state empty_sink))) = [''/s/t.jsonl'', ''S2'']"
  using pi_late_header_appended pi_late_header_whole by (rule conjI)

end
