(* ===== verification/CursorParser.thy ===== *)
theory CursorParser
  imports Jsonl
begin

text \<open>
  The parser of Cursor transcripts, \<open>src/sources/cursor.rs\<close>. It needs nothing of the rows before its offset:
  the session and the project come from the path, the time from the file's modification time, and the
  first ordinal of a subagent's transcript from a hash of its name. So parsing each version of a growing
  transcript agrees with parsing it once, up to the modification time each parse is given.
\<close>

section \<open>Names\<close>

definition cursor_file_stem :: "str \<Rightarrow> str option" where
  "cursor_file_stem path = map_option os_file_stem (os_file_name path)"

definition transcript_id :: "str \<Rightarrow> str" where
  "transcript_id path =
    (case cursor_file_stem path of Some stem \<Rightarrow> if stem \<noteq> '''' then stem else ''unknown'' | None \<Rightarrow> ''unknown'')"

text \<open>The component after \<open>agent-transcripts\<close>, without its extension.\<close>

fun agent_session :: "str list \<Rightarrow> str option" where
  "agent_session (c # d # cs) =
    (if c = ''agent-transcripts'' \<and> d \<noteq> ''..'' \<and> os_file_stem d \<noteq> '''' then Some (os_file_stem d)
     else agent_session (d # cs))"
| "agent_session _ = None"

definition cursor_session_id_from_path :: "str \<Rightarrow> str" where
  "cursor_session_id_from_path path =
    (case agent_session (filter (\<lambda>c. c \<noteq> '''') (path_components path)) of
       Some session \<Rightarrow> session
     | None \<Rightarrow> unwrap_or (transcript_id path) (uuid_from_path path))"

text \<open>The first component below the directory of projects, which is an argument.\<close>

definition cursor_project_from_path :: "str \<Rightarrow> str \<Rightarrow> str" where
  "cursor_project_from_path projects_root path =
    (if \<not> path_under path projects_root then source_label Cursor
     else case filter (\<lambda>c. c \<noteq> '''') (path_components (drop (length projects_root) path)) of
            [] \<Rightarrow> source_label Cursor
          | folder # _ \<Rightarrow>
              if folder = ''empty-window'' then folder
              else unwrap_or folder (last_nonempty_piece (CHR ''-'') (trim_matches {CHR ''-''} folder)))"

definition subagent_turn_base_constant :: u32 where "subagent_turn_base_constant = 1000000000"
definition subagent_turn_stride :: u32 where "subagent_turn_stride = 50000"
definition subagent_turn_buckets :: u32 where "subagent_turn_buckets = 65536"

definition stable_turn_bucket :: "str \<Rightarrow> u32" where
  "stable_turn_bucket s =
    fold (\<lambda>c h. xor h (word_of_nat (of_char c)) * 16777619) s 2166136261 mod subagent_turn_buckets"

definition is_subagent_transcript :: "str \<Rightarrow> bool" where
  "is_subagent_transcript path = list_ex (\<lambda>c. c = ''subagents'') (path_components path)"

definition u32_sat_mul :: "u32 \<Rightarrow> u32 \<Rightarrow> u32" where
  "u32_sat_mul a b = (if unat a * unat b < 2 ^ 32 then a * b else - 1)"

definition subagent_turn_base :: "str \<Rightarrow> u32 option" where
  "subagent_turn_base path =
    (if \<not> is_subagent_transcript path then None
     else case cursor_file_stem path of
            Some stem \<Rightarrow>
              if stem \<noteq> '''' then Some (subagent_turn_base_constant + u32_sat_mul (stable_turn_bucket stem) subagent_turn_stride)
              else None
          | None \<Rightarrow> None)"

definition initial_turn_id :: "str \<Rightarrow> u32 \<Rightarrow> u32" where
  "initial_turn_id path cached = (if cached \<noteq> 0 then cached else unwrap_or cached (subagent_turn_base path))"

section \<open>Rows\<close>

definition cursor_flag :: "'f jval \<Rightarrow> bool" where
  "cursor_flag v =
    (case jv_bool v of Some b \<Rightarrow> b
     | None \<Rightarrow>
         (case jv_str v of Some s \<Rightarrow> eq_ignore_ascii_case s ''subagent'' \<or> eq_ignore_ascii_case s ''true''
          | None \<Rightarrow> jv_object v \<noteq> None))"

definition is_subagent_event :: "'f jval \<Rightarrow> 'f jval option \<Rightarrow> bool" where
  "is_subagent_event obj message =
    list_ex (\<lambda>key. is_some_and cursor_flag (jv_get key obj)
        \<or> is_some_and (\<lambda>m. is_some_and cursor_flag (jv_get key m)) message)
      [''is_subagent'', ''isSubagent'', ''subagent'', ''is_subagent_turn'', ''isSubagentTurn'', ''subagentId'',
       ''subagent_id'']"

definition record_links_with_subagent :: "str \<Rightarrow> str \<Rightarrow> u32 \<Rightarrow> bool \<Rightarrow> record_links" where
  "record_links_with_subagent path session_id turn_id subagent_event =
    (let is_subagent = is_subagent_transcript path \<or> subagent_event
     in default_links\<lparr>lk_event_id := Some (transcript_id path @ '':'' @ decimal (unat turn_id)),
          lk_parent_session_id := (if is_subagent then Some session_id else None),
          lk_thread_source := (if is_subagent then Some ''subagent'' else None),
          lk_conversation_kind := Some (if is_subagent then ''subagent'' else ''main'')\<rparr>)"

record cursor_source =
  cu_path :: str
  cu_session_id :: str
  cu_project :: str
  cu_timestamp :: u64

definition cursor_record ::
  "'f source_ops \<Rightarrow> cursor_source \<Rightarrow> parse_progress \<Rightarrow> str \<Rightarrow> str \<Rightarrow> str option \<Rightarrow> str option \<Rightarrow> str option \<Rightarrow>
    record_links \<Rightarrow> mrecord"
where
  "cursor_record ops src s role txt tool_name tool_input tool_output links =
    \<lparr>rec_source = Cursor, rec_doc_id = next_doc ops s, rec_ts = cu_timestamp src, rec_project = cu_project src,
     rec_session_id = cu_session_id src, rec_turn_id = pg_turn_id s, rec_role = role, rec_text = txt,
     rec_tool_name = tool_name, rec_tool_input = tool_input, rec_tool_output = tool_output,
     rec_links = links, rec_source_path = cu_path src\<rparr>"

definition cursor_links :: "cursor_source \<Rightarrow> parse_progress \<Rightarrow> bool \<Rightarrow> record_links" where
  "cursor_links src s flag = record_links_with_subagent (cu_path src) (cu_session_id src) (pg_turn_id s) flag"

text \<open>The first of some keys that has a string.\<close>

definition first_str :: "str list \<Rightarrow> 'f jval \<Rightarrow> str option" where
  "first_str ks v = (case List.map_filter (\<lambda>k. jv_get_str k v) ks of [] \<Rightarrow> None | x # _ \<Rightarrow> Some x)"

definition cursor_tool_use ::
  "'f source_ops \<Rightarrow> cursor_source \<Rightarrow> bool \<Rightarrow> 'f jval \<Rightarrow> parse_progress \<Rightarrow> parse_progress"
where
  "cursor_tool_use ops src flag block s =
    (let tool_name = jv_get_str ''name'' block;
         tool_input = map_option (so_render ops) (jv_get ''input'' block);
         tool_id = first_str [''id'', ''tool_use_id'', ''toolCallId''] block;
         links = (cursor_links src s flag)\<lparr>lk_event_id := tool_id\<rparr>;
         doc_id = next_doc ops s;
         r = cursor_record ops src s ''tool_use'' (unwrap_or '''' tool_input) tool_name tool_input None links
     in send_record r
          (case tool_id of None \<Rightarrow> s
           | Some t \<Rightarrow> insert_call t
               (source_pending_call ops tool_name (Some t) doc_id (cu_timestamp src) tool_input links (cu_session_id src)) s))"

definition cursor_tool_result ::
  "'f source_ops \<Rightarrow> cursor_source \<Rightarrow> bool \<Rightarrow> 'f jval \<Rightarrow> parse_progress \<Rightarrow> parse_progress"
where
  "cursor_tool_result ops src flag block s =
    (let tool_output = map_option (so_render ops) (jv_get ''content'' block);
         own = unwrap_or '''' (tool_result_text block);
         txt = (if own = '''' then unwrap_or '''' tool_output else own)
     in if txt = '''' then s
        else
          let tool_use_id = first_str [''tool_use_id'', ''toolCallId''] block;
              pending = Option.bind tool_use_id (pg_pending s);
              s1 = (case tool_use_id of None \<Rightarrow> s | Some t \<Rightarrow> remove_call t s);
              tool_name = or_else (jv_get_str ''name'' block) (Option.bind pending pt_tool_name);
              links = (case tool_use_id of None \<Rightarrow> cursor_links src s1 flag
                       | Some t \<Rightarrow> (cursor_links src s1 flag)\<lparr>lk_parent_event_id := Some t, lk_parent_tool_use_id := Some t\<rparr>)
          in send_record (cursor_record ops src s1 ''tool_result'' txt tool_name None tool_output links) s1)"

text \<open>A block of a message adds to its prose, or is a tool record of its own.\<close>

definition cursor_block ::
  "'f source_ops \<Rightarrow> cursor_source \<Rightarrow> bool \<Rightarrow> 'f jval \<Rightarrow> parse_progress \<Rightarrow> parse_progress \<times> str list"
where
  "cursor_block ops src flag block s =
    (if jv_object block = None then (s, [])
     else let kind = jv_text ''type'' block
          in if kind = ''text'' then (s, case jv_get_str ''text'' block of None \<Rightarrow> [] | Some x \<Rightarrow> [x])
             else if kind = ''tool_use'' then (cursor_tool_use ops src flag block s, [])
             else if kind = ''tool_result'' then (cursor_tool_result ops src flag block s, [])
             else (s, []))"

definition cursor_line ::
  "'f source_ops \<Rightarrow> cursor_source \<Rightarrow> 'f jval \<Rightarrow> parse_progress \<Rightarrow> parse_progress \<times> diagnostic list"
where
  "cursor_line ops src v s =
    (if jv_object v = None then (s, [])
     else
       let role = jv_text ''role'' v
       in if role \<noteq> ''user'' \<and> role \<noteq> ''assistant'' then (s, [])
          else
            (case Option.bind (jv_get ''message'' v) (\<lambda>m. map_option (\<lambda>_. m) (jv_object m)) of
               None \<Rightarrow> (s, [])
             | Some message \<Rightarrow>
                 (let flag = is_subagent_event v (Some message);
                      (s1, parts) =
                        (case jv_get ''content'' message of None \<Rightarrow> (s, [])
                         | Some content \<Rightarrow>
                             (case jv_str content of Some x \<Rightarrow> (s, [x])
                              | None \<Rightarrow>
                                  (case jv_array content of None \<Rightarrow> (s, [])
                                   | Some blocks \<Rightarrow> each_counting (cursor_block ops src flag) blocks s)));
                      txt = trim (split_join [newline] parts)
                  in (if txt = '''' then s1
                      else send_record (cursor_record ops src s1 role txt None None None (cursor_links src s1 flag)) s1, []))))"

definition cursor_source_of :: "str \<Rightarrow> str \<Rightarrow> int \<Rightarrow> cursor_source" where
  "cursor_source_of projects_root path mtime =
    \<lparr>cu_path = path, cu_session_id = cursor_session_id_from_path path,
     cu_project = cursor_project_from_path projects_root path, cu_timestamp = word_of_int (max mtime 0) * 1000\<rparr>"

definition cursor_enter :: "str \<Rightarrow> str \<Rightarrow> nat \<Rightarrow> parse_progress \<Rightarrow> parse_progress" where
  "cursor_enter path bytes start p = p\<lparr>pg_turn_id := initial_turn_id path (pg_turn_id p)\<rparr>"

definition cursor_parse_index_records :: "'f source_ops \<Rightarrow> str \<Rightarrow> str \<Rightarrow> int \<Rightarrow> parser" where
  "cursor_parse_index_records ops projects_root path mtime bytes st k =
    (let start = resume_offset (\<lambda>l. so_parse ops l \<noteq> None) bytes (ip_offset st);
         src = cursor_source_of projects_root path mtime
     in case jsonl_loop (so_parse ops) (cursor_line ops src) [] bytes start
          (cursor_enter path bytes start (progress_of st k)) of
          (n, s, ds) \<Rightarrow>
            (\<lparr>io_offset = n, io_turn_id = pg_turn_id s, io_legacy_turn_id = None, io_pending = pg_pending s,
              io_session_id = Some (cu_session_id src), io_diagnostics = default_diagnostics, io_session_cwd = None\<rparr>,
             sink.truncate s))"

section \<open>Resuming\<close>

text \<open>Ordinals count the records from the first one, and wrap at 32 bits.\<close>

definition turn_counts :: "u32 \<Rightarrow> nat \<Rightarrow> parse_progress \<Rightarrow> bool" where
  "turn_counts t n s \<longleftrightarrow> n \<le> sk_drawn s \<and> pg_turn_id s = t + word_of_nat (sk_drawn s - n)"

lemma turn_counts_kept [simp]:
  "turn_counts t n s \<Longrightarrow> turn_counts t n (send_record r s)"
  "turn_counts t n (insert_call k c s) \<longleftrightarrow> turn_counts t n s"
  "turn_counts t n (remove_call k s) \<longleftrightarrow> turn_counts t n s"
  by (simp_all add: turn_counts_def send_record_def insert_call_def remove_call_def Suc_diff_le add_ac)

lemma cursor_block_turns: "turn_counts t n s \<Longrightarrow> turn_counts t n (fst (cursor_block ops src flag block s))"
  by (auto simp: cursor_block_def cursor_tool_use_def cursor_tool_result_def Let_def split: option.splits)

lemma cursor_blocks_turns: "turn_counts t n s \<Longrightarrow> turn_counts t n (fst (each_counting (cursor_block ops src flag) blocks s))"
  by (rule each_counting_inv) (rule cursor_block_turns)

lemma cursor_line_turns:
  assumes "turn_counts t n s"
  shows "turn_counts t n (fst (cursor_line ops src v s))"
proof -
  have blocks: "turn_counts t n s1" if "each_counting (cursor_block ops src flag) blocks s = (s1, parts)" for flag blocks s1 parts
    using cursor_blocks_turns [OF assms, of ops src flag blocks] that by simp
  show ?thesis
    using assms by (auto simp: cursor_line_def Let_def intro!: turn_counts_kept(1) intro: blocks split: option.splits prod.splits)
qed

definition cursor_fresh :: "str \<Rightarrow> sink \<Rightarrow> parse_progress" where
  "cursor_fresh path k = cursor_enter path '''' 0 (progress_of default_parse_state k)"

text \<open>The ordinals of a subagent's transcript stay above its base: there are not so many records that they wrap.\<close>

definition cursor_ordinals_fit :: "'f source_ops \<Rightarrow> cursor_source \<Rightarrow> sink \<Rightarrow> str \<Rightarrow> bool" where
  "cursor_ordinals_fit ops src k bytes \<longleftrightarrow>
    (\<forall>n \<le> length bytes. unat (initial_turn_id (cu_path src) 0)
      + (sk_drawn (loop_state (so_parse ops) (cursor_line ops src) [] (take n bytes) 0 (cursor_fresh (cu_path src) k)) - sk_drawn k)
      < 2 ^ 32)"

lemma cursor_ordinals_fit_take: "cursor_ordinals_fit ops src k bytes \<Longrightarrow> cursor_ordinals_fit ops src k (take n bytes)"
  unfolding cursor_ordinals_fit_def by (auto simp: min_def)

lemma initial_turn_id_idem: "initial_turn_id path (initial_turn_id path t) = initial_turn_id path t"
  by (auto simp: initial_turn_id_def unwrap_or_def split: option.splits)

lemma cursor_enter_resumed:
  assumes fit: "cursor_ordinals_fit ops src k bytes" and n: "n \<le> length bytes"
    and s: "s = loop_state (so_parse ops) (cursor_line ops src) [] (take n bytes) 0 (cursor_fresh (cu_path src) k)"
  shows "cursor_enter (cu_path src) bytes n (parse_progress.truncate s) = s"
proof -
  let ?t = "initial_turn_id (cu_path src) 0"
  have "turn_counts ?t (sk_drawn k) (cursor_fresh (cu_path src) k)"
    by (simp add: turn_counts_def cursor_fresh_def cursor_enter_def progress_of_def default_parse_state_def)
  moreover have "turn_counts ?t (sk_drawn k) (fst (cursor_line ops src v s1))" if "turn_counts ?t (sk_drawn k) s1" for v s1
    using that by (rule cursor_line_turns)
  ultimately have c: "turn_counts ?t (sk_drawn k) s"
    unfolding s using loop_state_inv [of "turn_counts ?t (sk_drawn k)" "cursor_line ops src"] by blast
  have "initial_turn_id (cu_path src) (pg_turn_id s) = pg_turn_id s"
  proof (cases "?t = 0")
    case True
    then have "subagent_turn_base (cu_path src) = None \<or> subagent_turn_base (cu_path src) = Some 0"
      by (auto simp: initial_turn_id_def unwrap_or_def split: option.splits)
    then show ?thesis by (auto simp: initial_turn_id_def)
  next
    case False
    have "unat ?t + (sk_drawn s - sk_drawn k) < 2 ^ 32"
      using fit n unfolding cursor_ordinals_fit_def s by blast
    moreover obtain d where d: "d = sk_drawn s - sk_drawn k" "pg_turn_id s = ?t + word_of_nat d"
      using c by (simp add: turn_counts_def)
    ultimately have "unat (pg_turn_id s) = unat ?t + d" by (simp add: unat_word_ariths unat_of_nat)
    moreover have "0 < unat ?t" using False by (simp add: unat_gt_0)
    ultimately have "pg_turn_id s \<noteq> 0" by auto
    then show ?thesis by (simp add: initial_turn_id_def)
  qed
  then show ?thesis by (cases s) (simp add: cursor_enter_def parse_progress.defs)
qed

interpretation cursor: line_parser "so_parse ops" "cursor_line ops (cursor_source_of root path mtime)" "[]"
  "cursor_enter path" "cursor_parse_index_records ops root path mtime"
  "cursor_ordinals_fit ops (cursor_source_of root path mtime) k" k "cursor_fresh path k"
  for ops root path mtime k
proof
  fix bytes n s
  assume "cursor_ordinals_fit ops (cursor_source_of root path mtime) k bytes" "resumable (so_parse ops) bytes n"
    "s = loop_state (so_parse ops) (cursor_line ops (cursor_source_of root path mtime)) [] (take n bytes) 0 (cursor_fresh path k)"
  then show "cursor_enter path bytes n (parse_progress.truncate s) = s"
    using cursor_enter_resumed [of ops "cursor_source_of root path mtime" k bytes n s]
    by (simp add: cursor_source_of_def resumable_def)
qed (auto simp: cursor_parse_index_records_def Let_def cursor_ordinals_fit_take cursor_fresh_def cursor_enter_def split: prod.splits)


definition cursor_sample_rows :: "str \<Rightarrow> unit jval option" where
  "cursor_sample_rows l =
    (if l = ''u'' then
       Some (VObj [(''role'', VStr ''user''), (''message'', VObj [(''content'', VStr ''hi'')])])
     else None)"

definition cursor_sample_ops :: "unit source_ops" where
  "cursor_sample_ops = \<lparr>so_parse = cursor_sample_rows, so_render = (\<lambda>_. ''''), so_sha256 = (\<lambda>s. s),
     so_rfc3339_millis = (\<lambda>_. None), so_doc_id = (\<lambda>n. word_of_nat (n + 1))\<rparr>"

lemma cursor_sample_letter: "cursor_sample_rows l \<noteq> None \<Longrightarrow> length l = 1"
  by (auto simp: cursor_sample_rows_def split: if_splits)

lemma cursor_sample_line:
  "cursor_sample_rows l = Some v \<Longrightarrow> sk_drawn (fst (cursor_line cursor_sample_ops src v s)) \<le> Suc (sk_drawn s)"
  by (auto simp: cursor_sample_rows_def cursor_line_def jv_object_def jv_text_def jv_get_str_def jv_get_def jv_str_def
      send_record_def Let_def split: if_splits)


text \<open>
  The base of a subagent's ordinals is below \<open>4276750001\<close>, so that eighteen million records fit.
\<close>

lemma subagent_turn_base_bounds:
  assumes "subagent_turn_base path = Some b"
  shows "1000000000 \<le> unat b" "unat b \<le> 4276750000"
proof -
  obtain stem where b: "b = subagent_turn_base_constant + u32_sat_mul (stable_turn_bucket stem) subagent_turn_stride"
    using assms by (auto simp: subagent_turn_base_def split: if_splits option.splits)
  have "unat (stable_turn_bucket stem) < 65536"
    unfolding stable_turn_bucket_def subagent_turn_buckets_def unat_mod_distrib by simp
  then have m: "unat (stable_turn_bucket stem) \<le> 65535" by simp
  have p: "unat (stable_turn_bucket stem * 50000) = unat (stable_turn_bucket stem) * 50000"
    using m by (simp add: unat_word_ariths)
  have sm: "u32_sat_mul (stable_turn_bucket stem) subagent_turn_stride = stable_turn_bucket stem * 50000"
    using m by (simp add: u32_sat_mul_def subagent_turn_stride_def)
  have "unat b = 1000000000 + unat (stable_turn_bucket stem) * 50000"
    unfolding b sm subagent_turn_base_constant_def using m p by (simp add: unat_word_ariths)
  then show "1000000000 \<le> unat b" "unat b \<le> 4276750000" using m by simp_all
qed

end
