(* ===== verification/UsageTypes.thy ===== *)
theory UsageTypes
  imports Types
begin

text \<open>
  The vocabulary of \<open>src/usage.rs\<close>: token buckets, the usage event over its two text
  representations, queries and reports. \<open>'f\<close> is the type of \<open>f64\<close>; no law is assumed of it.
\<close>

datatype project_grouping = Flat | Repository

datatype cost_mode = CSource | CAuto | CReprice

record usage_query =
  uq_source :: "source_filter option"
  uq_project :: "str option"
  uq_project_grouping :: project_grouping
  uq_session_keys :: "(str \<times> str) set option"
  uq_since_ms :: "u64 option"
  uq_until_ms :: "u64 option"
  uq_cost_mode :: cost_mode
  uq_include_events :: bool
  uq_include_reviews :: bool
  uq_cache_path :: "str option"
  uq_memo_ttl_ms :: u64

record token_buckets =
  tb_raw_input :: u64
  tb_uncached_input :: u64
  tb_cache_read :: u64
  tb_cache_write :: u64
  tb_cache_write_1h :: u64
  tb_output :: u64
  tb_reasoning :: u64

definition additive_total :: "token_buckets \<Rightarrow> u64" where
  "additive_total t =
    sat_add (sat_add (sat_add (tb_uncached_input t) (tb_cache_read t)) (tb_cache_write t)) (tb_output t)"

definition tokens_total :: "token_buckets \<Rightarrow> u64" where
  "tokens_total t = additive_total t"

definition codex_tokens :: "u64 \<Rightarrow> u64 \<Rightarrow> u64 \<Rightarrow> u64 \<Rightarrow> token_buckets" where
  "codex_tokens input cached output reasoning =
    (let cache_read = min cached input
     in \<lparr>tb_raw_input = input, tb_uncached_input = sat_sub input cache_read,
         tb_cache_read = cache_read, tb_cache_write = 0, tb_cache_write_1h = 0,
         tb_output = output, tb_reasoning = reasoning\<rparr>)"

definition disjoint_tokens :: "u64 \<Rightarrow> u64 \<Rightarrow> u64 \<Rightarrow> u64 \<Rightarrow> token_buckets" where
  "disjoint_tokens input cache_read cache_write output =
     \<lparr>tb_raw_input = input, tb_uncached_input = input, tb_cache_read = cache_read,
      tb_cache_write = cache_write, tb_cache_write_1h = 0, tb_output = output, tb_reasoning = 0\<rparr>"

text \<open>\<open>UsageEventData<S, P>\<close>: \<open>'s\<close> and \<open>'p\<close> are the text and path representations.\<close>

record ('s, 'p, 'f) usage_event =
  ue_source :: str
  ue_source_path :: 'p
  ue_source_record_id :: "'s option"
  ue_session_id :: "'s option"
  ue_request_id :: "'s option"
  ue_message_id :: "'s option"
  ue_timestamp_ms :: u64
  ue_project :: "'s option"
  ue_provider :: "'s option"
  ue_model :: "'s option"
  ue_tokens :: token_buckets
  ue_source_cost_usd :: "'f option"
  ue_cost_authoritative :: bool
  ue_dedupe_confidence :: str
  ue_conservative_undercount :: bool
  ue_cache_chain_excluded :: bool
  ue_sidechain :: bool
  ue_permission_review :: bool
  ue_source_order :: u64

type_synonym 'f event = "(str, str, 'f) usage_event"

record activity_point =
  ap_source :: str
  ap_timestamp_ms :: u64
  ap_total_tokens :: u64

definition event_activity_point :: "('s, 'p, 'f) usage_event \<Rightarrow> activity_point" where
  "event_activity_point e = \<lparr>ap_source = ue_source e, ap_timestamp_ms = ue_timestamp_ms e,
     ap_total_tokens = tokens_total (ue_tokens e)\<rparr>"

text \<open>
  The global sort key: timestamp, path, source order, compared lexicographically as Rust compares
  tuples.
\<close>

type_synonym sort_key = "u64 \<times> str \<times> u64"

definition event_sort_key :: "('s, str, 'f) usage_event \<Rightarrow> sort_key" where
  "event_sort_key e = (ue_timestamp_ms e, ue_source_path e, ue_source_order e)"

lemma unat_additive_total: "unat (additive_total t) =
  min (unat (tb_uncached_input t) + unat (tb_cache_read t) + unat (tb_cache_write t)
       + unat (tb_output t)) (2 ^ 64 - 1)"
  by (simp add: additive_total_def unat_sat_add)

lemma codex_tokens_partition:
  "sat_add (tb_uncached_input (codex_tokens i c out r)) (tb_cache_read (codex_tokens i c out r)) = i"
proof -
  have "unat (min c i) \<le> unat i" by (simp add: min_def word_le_nat_alt)
  then show ?thesis
    using unat_u64_lt [of i]
    by (simp add: codex_tokens_def Let_def word_unat_eq_iff unat_sat_add unat_sat_sub)
qed

text \<open>Concrete events for the instances below.\<close>

definition sample_event :: "str \<Rightarrow> str \<Rightarrow> u64 \<Rightarrow> u64 \<Rightarrow> int event" where
  "sample_event src path ts ord =
    \<lparr>ue_source = src, ue_source_path = path, ue_source_record_id = None, ue_session_id = Some ''s1'',
     ue_request_id = None, ue_message_id = None, ue_timestamp_ms = ts, ue_project = Some ''/p/memex'',
     ue_provider = Some ''anthropic'', ue_model = Some ''opus'',
     ue_tokens = disjoint_tokens 100 20 30 10,
     ue_source_cost_usd = None, ue_cost_authoritative = False, ue_dedupe_confidence = ''exact'',
     ue_conservative_undercount = False, ue_cache_chain_excluded = False, ue_sidechain = False,
     ue_permission_review = False, ue_source_order = ord\<rparr>"

lemma sample_event_simps [simp]:
  "ue_timestamp_ms (sample_event src path ts ord) = ts"
  "ue_source (sample_event src path ts ord) = src"
  "ue_source_path (sample_event src path ts ord) = path"
  "ue_source_order (sample_event src path ts ord) = ord"
  "event_sort_key (sample_event src path ts ord) = (ts, path, ord)"
  by (simp_all add: sample_event_def event_sort_key_def)

end
