(* ===== verification/UsageCompact.thy ===== *)
theory UsageCompact
  imports UsageTypes
begin

text \<open>
  The compact event storage of \<open>src/usage/compact.rs\<close>. Every text of an event becomes a dictionary id,
  a position counted from one; the dictionary is packed into one string and its end offsets. The
  iteration order of the hash map is the argument \<open>iter\<close>, any permutation of the entries.
\<close>

type_synonym string_id = nat
type_synonym dictionary = "(str \<times> string_id) list"

record 'f compact =
  ca_events :: "(string_id, string_id, 'f) usage_event list"
  ca_text :: str
  ca_ends :: "nat list"

definition compact_default :: "'f compact" where
  "compact_default = \<lparr>ca_events = [], ca_text = [], ca_ends = []\<rparr>"

definition intern :: "dictionary \<Rightarrow> str \<Rightarrow> string_id \<times> dictionary" where
  "intern d t =
    (let nxt = length d + 1
     in case map_of d t of Some i \<Rightarrow> (i, d) | None \<Rightarrow> (nxt, d @ [(t, nxt)]))"

definition intern_text :: "dictionary \<Rightarrow> str \<Rightarrow> string_id \<times> dictionary" where
  "intern_text d t = (case map_of d t of Some i \<Rightarrow> (i, d) | None \<Rightarrow> intern d t)"

text \<open>\<open>Option::map\<close> with a closure that mutates what it captured: the state is threaded.\<close>

definition opt_map_st :: "('s \<Rightarrow> 'st \<Rightarrow> 't \<times> 'st) \<Rightarrow> 's option \<Rightarrow> 'st \<Rightarrow> 't option \<times> 'st" where
  "opt_map_st g v st =
    (case v of None \<Rightarrow> (None, st) | Some x \<Rightarrow> (let (y, st') = g x st in (Some y, st')))"

definition map_text ::
    "'q \<Rightarrow> ('s \<Rightarrow> 'st \<Rightarrow> 't \<times> 'st) \<Rightarrow> ('s, 'p, 'f) usage_event \<Rightarrow> 'st
     \<Rightarrow> ('t, 'q, 'f) usage_event \<times> 'st" where
  "map_text path g e st0 =
    (let (record_id, st1) = opt_map_st g (ue_source_record_id e) st0;
         (session, st2) = opt_map_st g (ue_session_id e) st1;
         (request, st3) = opt_map_st g (ue_request_id e) st2;
         (message, st4) = opt_map_st g (ue_message_id e) st3;
         (project, st5) = opt_map_st g (ue_project e) st4;
         (provider, st6) = opt_map_st g (ue_provider e) st5;
         (model, st7) = opt_map_st g (ue_model e) st6
     in (\<lparr>ue_source = ue_source e, ue_source_path = path, ue_source_record_id = record_id,
          ue_session_id = session, ue_request_id = request, ue_message_id = message,
          ue_timestamp_ms = ue_timestamp_ms e, ue_project = project, ue_provider = provider,
          ue_model = model, ue_tokens = ue_tokens e, ue_source_cost_usd = ue_source_cost_usd e,
          ue_cost_authoritative = ue_cost_authoritative e,
          ue_dedupe_confidence = ue_dedupe_confidence e,
          ue_conservative_undercount = ue_conservative_undercount e,
          ue_cache_chain_excluded = ue_cache_chain_excluded e,
          ue_sidechain = ue_sidechain e, ue_permission_review = ue_permission_review e,
          ue_source_order = ue_source_order e\<rparr>, st7))"

fun place_texts :: "dictionary \<Rightarrow> str list \<Rightarrow> str list" where
  "place_texts [] acc = acc"
| "place_texts ((t, i) # d) acc = place_texts d (acc[i - 1 := t])"

fun push_texts :: "str list \<Rightarrow> str \<Rightarrow> nat list \<Rightarrow> str \<times> nat list" where
  "push_texts [] txt ends = (txt, ends)"
| "push_texts (v # vs) txt ends =
    (let txt' = txt @ v in push_texts vs txt' (ends @ [length txt']))"

definition pack_dictionary :: "dictionary \<Rightarrow> 'f compact \<Rightarrow> 'f compact" where
  "pack_dictionary d a =
    (let ordered = place_texts d (replicate (length d) []);
         (txt, ends) = push_texts ordered (ca_text a) (ca_ends a)
     in a\<lparr>ca_text := txt, ca_ends := ends\<rparr>)"

fun compact_push :: "'f event list \<Rightarrow> (string_id, string_id, 'f) usage_event list \<Rightarrow> dictionary
    \<Rightarrow> (string_id, string_id, 'f) usage_event list \<times> dictionary" where
  "compact_push [] acc d = (acc, d)"
| "compact_push (e # es) acc d =
    (let (path, d1) =
           (case map_of d (ue_source_path e) of Some i \<Rightarrow> (i, d) | None \<Rightarrow> intern d (ue_source_path e));
         (e', d2) = map_text path (\<lambda>t d. intern d t) e d1
     in compact_push es (acc @ [e']) d2)"

definition compact_new ::
    "(dictionary \<Rightarrow> dictionary) \<Rightarrow> 'f event list \<Rightarrow> 'f compact option \<Rightarrow> 'f compact" where
  "compact_new iter es previous =
    (let a0 = unwrap_or compact_default previous;
         a1 = a0\<lparr>ca_events := [], ca_text := [], ca_ends := []\<rparr>;
         (rows, d) = compact_push es [] []
     in pack_dictionary (iter d) (a1\<lparr>ca_events := rows\<rparr>))"

definition compact_text :: "'f compact \<Rightarrow> string_id \<Rightarrow> str" where
  "compact_text a i =
    (let index = i - 1;
         start = (if index = 0 then 0 else ca_ends a ! (index - 1))
     in take (ca_ends a ! index - start) (drop start (ca_text a)))"

definition compact_view :: "'f compact \<Rightarrow> nat \<Rightarrow> 'f event" where
  "compact_view a index =
    (let e = ca_events a ! index
     in fst (map_text (compact_text a (ue_source_path e)) (\<lambda>i u. (compact_text a i, u)) e ()))"

text \<open>The public assembly over the compact one.\<close>

definition asm_len :: "'f compact \<Rightarrow> nat" where
  "asm_len a = length (ca_events a)"

definition asm_timestamp_ms :: "'f compact \<Rightarrow> nat \<Rightarrow> u64" where
  "asm_timestamp_ms a index = ue_timestamp_ms (ca_events a ! index)"

definition asm_sort_key :: "'f compact \<Rightarrow> nat \<Rightarrow> sort_key" where
  "asm_sort_key a index =
    (let e = ca_events a ! index
     in (ue_timestamp_ms e, compact_text a (ue_source_path e), ue_source_order e))"

function lower_bound_loop :: "'f compact \<Rightarrow> u64 \<Rightarrow> nat \<Rightarrow> nat \<Rightarrow> nat" where
  "lower_bound_loop a since lo hi =
    (if lo < hi then
       let mid = lo + (hi - lo) div 2
       in if asm_timestamp_ms a mid < since then lower_bound_loop a since (mid + 1) hi
          else lower_bound_loop a since lo mid
     else lo)"
  by pat_completeness auto
termination
  by (relation "measure (\<lambda>(a, since, lo, hi). hi - lo)") auto

definition asm_lower_bound :: "'f compact \<Rightarrow> u64 \<Rightarrow> nat" where
  "asm_lower_bound a since = lower_bound_loop a since 0 (asm_len a)"

definition asm_upper_bound :: "'f compact \<Rightarrow> u64 \<Rightarrow> nat \<Rightarrow> nat" where
  "asm_upper_bound a til start = lower_bound_loop a til start (asm_len a)"

record filter_fields =
  ff_source :: str
  ff_permission_review :: bool
  ff_project :: "str option"
  ff_session_id :: "str option"

definition asm_filter_fields :: "'f compact \<Rightarrow> nat \<Rightarrow> filter_fields" where
  "asm_filter_fields a index =
    (let e = ca_events a ! index
     in \<lparr>ff_source = ue_source e, ff_permission_review = ue_permission_review e,
         ff_project = map_option (compact_text a) (ue_project e),
         ff_session_id = map_option (compact_text a) (ue_session_id e)\<rparr>)"

definition asm_activity_point :: "'f compact \<Rightarrow> nat \<Rightarrow> activity_point" where
  "asm_activity_point a index = event_activity_point (ca_events a ! index)"

text \<open>
  \<open>details\<close> shares one path allocation per id; the paths found so far are the threaded map, and
  the value of a shared path is the value of the view's path when it was first met.
\<close>

fun details_loop :: "'f compact \<Rightarrow> nat list \<Rightarrow> (string_id \<times> str) list \<Rightarrow> 'f event list" where
  "details_loop a [] paths = []"
| "details_loop a (index # rest) paths =
    (let e = compact_view a index;
         key = ue_source_path (ca_events a ! index);
         (path, paths') =
           (case map_of paths key of
              Some p \<Rightarrow> (p, paths)
            | None \<Rightarrow> (ue_source_path e, (key, ue_source_path e) # paths))
     in fst (map_text path (\<lambda>t u. (t, u)) e ()) # details_loop a rest paths')"

definition asm_details :: "'f compact \<Rightarrow> nat list \<Rightarrow> 'f event list" where
  "asm_details a indices = details_loop a indices []"

record 'f assembly_builder =
  ab_assembly :: "'f compact"
  ab_dictionary :: dictionary

definition builder_default :: "'f assembly_builder" where
  "builder_default = \<lparr>ab_assembly = compact_default, ab_dictionary = []\<rparr>"

definition builder_push :: "'f event \<Rightarrow> 'f assembly_builder \<Rightarrow> 'f assembly_builder" where
  "builder_push e b =
    (let (path, d1) = intern_text (ab_dictionary b) (ue_source_path e);
         (e', d2) = map_text path (\<lambda>t d. intern_text d t) e d1
     in \<lparr>ab_assembly = (ab_assembly b)\<lparr>ca_events := ca_events (ab_assembly b) @ [e']\<rparr>,
         ab_dictionary = d2\<rparr>)"

definition builder_finish :: "(dictionary \<Rightarrow> dictionary) \<Rightarrow> 'f assembly_builder \<Rightarrow> 'f compact" where
  "builder_finish iter b = pack_dictionary (iter (ab_dictionary b)) (ab_assembly b)"

section \<open>The dictionary\<close>

declare lower_bound_loop.simps [simp del]

definition dict_wf :: "dictionary \<Rightarrow> bool" where
  "dict_wf d = (distinct (map fst d) \<and> map snd d = [1..<Suc (length d)])"

text \<open>\<open>stands d i t\<close>: the id \<open>i\<close> is in range and denotes \<open>t\<close>.\<close>

definition stands :: "dictionary \<Rightarrow> string_id \<Rightarrow> str \<Rightarrow> bool" where
  "stands d i t = (0 < i \<and> i \<le> length d \<and> fst (d ! (i - 1)) = t)"

lemma dict_wf_Nil [simp]: "dict_wf []"
  by (simp add: dict_wf_def)

lemma dict_wf_snd: "dict_wf d \<Longrightarrow> k < length d \<Longrightarrow> snd (d ! k) = Suc k"
proof -
  assume wf: "dict_wf d" and k: "k < length d"
  have "map snd d ! k = [1..<Suc (length d)] ! k" using wf by (simp only: dict_wf_def)
  then show ?thesis using k by (simp del: upt_Suc)
qed

lemma stands_append: "stands d i t \<Longrightarrow> stands (d @ ds) i t"
  by (auto simp: stands_def nth_append)

lemma dict_lookup_stands:
  assumes "dict_wf d" "map_of d t = Some i"
  shows "stands d i t"
proof -
  obtain k where k: "k < length d" "d ! k = (t, i)"
    using map_of_SomeD [OF assms(2)] by (auto simp: in_set_conv_nth)
  moreover have "i = Suc k" using dict_wf_snd [OF assms(1) k(1)] k(2) by simp
  ultimately show ?thesis by (simp add: stands_def)
qed

lemma dict_wf_snoc:
  assumes "dict_wf d" "map_of d t = None"
  shows "dict_wf (d @ [(t, length d + 1)])"
proof -
  have "t \<notin> fst ` set d" using assms(2) by (simp add: map_of_eq_None_iff)
  then show ?thesis using assms(1) by (auto simp: dict_wf_def)
qed

lemma intern_correct:
  assumes "dict_wf d"
  obtains i ds where "intern d t = (i, d @ ds)" "dict_wf (d @ ds)" "stands (d @ ds) i t"
proof (cases "map_of d t")
  case None
  then have "intern d t = (length d + 1, d @ [(t, length d + 1)])"
    by (simp add: intern_def)
  moreover have "stands (d @ [(t, length d + 1)]) (length d + 1) t"
    by (simp add: stands_def)
  ultimately show ?thesis using that dict_wf_snoc [OF assms None] by blast
next
  case (Some i)
  then show ?thesis
    using that [of i "[]"] assms dict_lookup_stands [OF assms Some] by (simp add: intern_def)
qed

lemma intern_text_eq [simp]: "intern_text d t = intern d t"
  by (simp add: intern_text_def intern_def split: option.splits)

lemma path_lookup_eq [simp]:
  "(case map_of d t of None \<Rightarrow> intern d t | Some i \<Rightarrow> (i, d)) = intern d t"
  by (simp add: intern_def split: option.splits)

lemma opt_intern_correct:
  assumes "dict_wf d"
  obtains v' ds where "opt_map_st (\<lambda>t d. intern d t) v d = (v', d @ ds)" "dict_wf (d @ ds)"
    "rel_option (stands (d @ ds)) v' v"
proof (cases v)
  case None
  then show ?thesis using that [of None "[]"] assms by (simp add: opt_map_st_def)
next
  case (Some t)
  obtain i ds where "intern d t = (i, d @ ds)" "dict_wf (d @ ds)" "stands (d @ ds) i t"
    using intern_correct [OF assms] by blast
  then show ?thesis using that [of "Some i" ds] Some by (simp add: opt_map_st_def)
qed

lemma rel_stands_append: "rel_option (stands d) v' v \<Longrightarrow> rel_option (stands (d @ ds)) v' v"
  by (cases v'; cases v) (auto intro: stands_append)

section \<open>Events over ids\<close>

text \<open>The fields of an event that are not text are the same in both representations.\<close>

definition same_facts :: "('s, 'p, 'f) usage_event \<Rightarrow> ('t, 'q, 'f) usage_event \<Rightarrow> bool" where
  "same_facts a b =
    (ue_source a = ue_source b \<and> ue_timestamp_ms a = ue_timestamp_ms b
     \<and> ue_tokens a = ue_tokens b \<and> ue_source_cost_usd a = ue_source_cost_usd b
     \<and> ue_cost_authoritative a = ue_cost_authoritative b
     \<and> ue_dedupe_confidence a = ue_dedupe_confidence b
     \<and> ue_conservative_undercount a = ue_conservative_undercount b
     \<and> ue_cache_chain_excluded a = ue_cache_chain_excluded b
     \<and> ue_sidechain a = ue_sidechain b \<and> ue_permission_review a = ue_permission_review b
     \<and> ue_source_order a = ue_source_order b)"

definition event_stands ::
    "dictionary \<Rightarrow> (string_id, string_id, 'f) usage_event \<Rightarrow> 'f event \<Rightarrow> bool" where
  "event_stands d e' e =
    (same_facts e' e \<and> stands d (ue_source_path e') (ue_source_path e)
     \<and> rel_option (stands d) (ue_source_record_id e') (ue_source_record_id e)
     \<and> rel_option (stands d) (ue_session_id e') (ue_session_id e)
     \<and> rel_option (stands d) (ue_request_id e') (ue_request_id e)
     \<and> rel_option (stands d) (ue_message_id e') (ue_message_id e)
     \<and> rel_option (stands d) (ue_project e') (ue_project e)
     \<and> rel_option (stands d) (ue_provider e') (ue_provider e)
     \<and> rel_option (stands d) (ue_model e') (ue_model e))"

lemma event_stands_append: "event_stands d e' e \<Longrightarrow> event_stands (d @ ds) e' e"
  by (simp add: event_stands_def rel_stands_append stands_append)

lemma opt_map_st_unit [simp]:
  "opt_map_st (\<lambda>x u. (g x, u)) v st = (map_option g v, st)"
  by (simp add: opt_map_st_def split: option.splits)

lemma map_text_intern:
  assumes wf: "dict_wf d" and path: "stands d path (ue_source_path e)"
  obtains e' ds where "map_text path (\<lambda>t d. intern d t) e d = (e', d @ ds)" "dict_wf (d @ ds)"
    "event_stands (d @ ds) e' e"
proof -
  let ?g = "\<lambda>t d. intern d t"
  obtain v1 d1 where 1: "opt_map_st ?g (ue_source_record_id e) d = (v1, d @ d1)"
    "dict_wf (d @ d1)" "rel_option (stands (d @ d1)) v1 (ue_source_record_id e)"
    using opt_intern_correct [OF wf] by blast
  obtain v2 d2 where 2: "opt_map_st ?g (ue_session_id e) (d @ d1) = (v2, (d @ d1) @ d2)"
    "dict_wf ((d @ d1) @ d2)" "rel_option (stands ((d @ d1) @ d2)) v2 (ue_session_id e)"
    using opt_intern_correct [OF 1(2)] by blast
  obtain v3 d3 where 3: "opt_map_st ?g (ue_request_id e) ((d @ d1) @ d2) = (v3, ((d @ d1) @ d2) @ d3)"
    "dict_wf (((d @ d1) @ d2) @ d3)" "rel_option (stands (((d @ d1) @ d2) @ d3)) v3 (ue_request_id e)"
    using opt_intern_correct [OF 2(2)] by blast
  let ?e3 = "((d @ d1) @ d2) @ d3"
  obtain v4 d4 where 4: "opt_map_st ?g (ue_message_id e) ?e3 = (v4, ?e3 @ d4)"
    "dict_wf (?e3 @ d4)" "rel_option (stands (?e3 @ d4)) v4 (ue_message_id e)"
    using opt_intern_correct [OF 3(2)] by blast
  obtain v5 d5 where 5: "opt_map_st ?g (ue_project e) (?e3 @ d4) = (v5, (?e3 @ d4) @ d5)"
    "dict_wf ((?e3 @ d4) @ d5)" "rel_option (stands ((?e3 @ d4) @ d5)) v5 (ue_project e)"
    using opt_intern_correct [OF 4(2)] by blast
  let ?e5 = "(?e3 @ d4) @ d5"
  obtain v6 d6 where 6: "opt_map_st ?g (ue_provider e) ?e5 = (v6, ?e5 @ d6)"
    "dict_wf (?e5 @ d6)" "rel_option (stands (?e5 @ d6)) v6 (ue_provider e)"
    using opt_intern_correct [OF 5(2)] by blast
  obtain v7 d7 where 7: "opt_map_st ?g (ue_model e) (?e5 @ d6) = (v7, (?e5 @ d6) @ d7)"
    "dict_wf ((?e5 @ d6) @ d7)" "rel_option (stands ((?e5 @ d6) @ d7)) v7 (ue_model e)"
    using opt_intern_correct [OF 6(2)] by blast
  let ?ds = "d1 @ d2 @ d3 @ d4 @ d5 @ d6 @ d7"
  have rel: "rel_option (stands (d @ ?ds)) v1 (ue_source_record_id e)"
      "rel_option (stands (d @ ?ds)) v2 (ue_session_id e)"
      "rel_option (stands (d @ ?ds)) v3 (ue_request_id e)"
      "rel_option (stands (d @ ?ds)) v4 (ue_message_id e)"
      "rel_option (stands (d @ ?ds)) v5 (ue_project e)"
      "rel_option (stands (d @ ?ds)) v6 (ue_provider e)"
      "rel_option (stands (d @ ?ds)) v7 (ue_model e)"
    using rel_stands_append [OF 1(3), of "d2 @ d3 @ d4 @ d5 @ d6 @ d7"]
      rel_stands_append [OF 2(3), of "d3 @ d4 @ d5 @ d6 @ d7"]
      rel_stands_append [OF 3(3), of "d4 @ d5 @ d6 @ d7"]
      rel_stands_append [OF 4(3), of "d5 @ d6 @ d7"] rel_stands_append [OF 5(3), of "d6 @ d7"]
      rel_stands_append [OF 6(3), of d7] 7(3)
    by simp_all
  have "event_stands (d @ ?ds) (fst (map_text path ?g e d)) e"
    using rel stands_append [OF path, of ?ds] 1(1) 2(1) 3(1) 4(1) 5(1) 6(1) 7(1)
    by (simp add: event_stands_def same_facts_def map_text_def)
  moreover have "map_text path ?g e d = (fst (map_text path ?g e d), d @ ?ds)"
    using 1(1) 2(1) 3(1) 4(1) 5(1) 6(1) 7(1) by (simp add: map_text_def)
  ultimately show ?thesis using that 7(2) by simp
qed

lemma compact_push_correct:
  assumes "dict_wf d" "list_all2 (event_stands d) acc seen"
  obtains rows ds where "compact_push es acc d = (rows, d @ ds)" "dict_wf (d @ ds)"
    "list_all2 (event_stands (d @ ds)) rows (seen @ es)"
  using assms
proof (induction es arbitrary: acc d seen thesis)
  case Nil
  then show ?case by (metis append_Nil2 compact_push.simps(1))
next
  case (Cons e es)
  obtain p d1 where 1: "intern d (ue_source_path e) = (p, d @ d1)" "dict_wf (d @ d1)"
      "stands (d @ d1) p (ue_source_path e)"
    using intern_correct [OF Cons.prems(2)] by blast
  obtain e' d2 where 2: "map_text p (\<lambda>t d. intern d t) e (d @ d1) = (e', (d @ d1) @ d2)"
      "dict_wf ((d @ d1) @ d2)" "event_stands ((d @ d1) @ d2) e' e"
    using map_text_intern [OF 1(2,3)] by blast
  have "list_all2 (event_stands ((d @ d1) @ d2)) acc seen"
    using Cons.prems(3) by (rule list_all2_mono) (simp add: event_stands_append)
  then have "list_all2 (event_stands ((d @ d1) @ d2)) (acc @ [e']) (seen @ [e])"
    using 2(3) by (simp add: list_all2_appendI)
  from Cons.IH [OF _ 2(2) this] obtain rows ds where
    "compact_push es (acc @ [e']) ((d @ d1) @ d2) = (rows, ((d @ d1) @ d2) @ ds)"
    "dict_wf (((d @ d1) @ d2) @ ds)"
    "list_all2 (event_stands (((d @ d1) @ d2) @ ds)) rows ((seen @ [e]) @ es)" by blast
  then show ?case using Cons.prems(1) [of rows "d1 @ d2 @ ds"] 1(1) 2(1) by simp
qed

section \<open>The packed dictionary\<close>

lemma fold_update_length [simp]:
  "length (place_texts d acc) = length acc"
  by (induction d acc rule: place_texts.induct) auto

lemma fold_update_other:
  "(\<forall>(t, i) \<in> set d. i - 1 \<noteq> k) \<Longrightarrow> place_texts d acc ! k = acc ! k"
  by (induction d acc rule: place_texts.induct) auto

lemma fold_update_nth:
  assumes "distinct (map snd d)" "\<forall>(t, i) \<in> set d. 0 < i" "(t, i) \<in> set d" "i - 1 < length acc"
  shows "place_texts d acc ! (i - 1) = t"
  using assms
proof (induction d arbitrary: acc)
  case (Cons x d)
  show ?case
  proof (cases "x = (t, i)")
    case True
    have "\<forall>(t', j) \<in> set d. j - 1 \<noteq> i - 1"
      using Cons.prems(1,2) True by force
    then show ?thesis using Cons.prems(4) True by (simp add: fold_update_other)
  next
    case False
    then show ?thesis using Cons by auto
  qed
qed simp

lemma dict_wf_ids: "dict_wf d \<Longrightarrow> distinct (map snd d) \<and> (\<forall>(t, i) \<in> set d. 0 < i)"
proof -
  assume wf: "dict_wf d"
  have "distinct (map snd d)" using wf unfolding dict_wf_def by (metis distinct_upt)
  moreover have "0 < i" if "(t, i) \<in> set d" for t i
  proof -
    have "i \<in> set (map snd d)" using that by force
    then show ?thesis using wf unfolding dict_wf_def by (metis atLeastLessThan_iff less_one
        linorder_not_less set_upt zero_less_iff_neq_zero)
  qed
  ultimately show ?thesis by blast
qed

lemma ordered_eq:
  assumes wf: "dict_wf d" and perm: "mset d' = mset d"
  shows "place_texts d' (replicate (length d') []) = map fst d"
proof (rule nth_equalityI)
  have len: "length d' = length d" using perm by (metis size_mset)
  show "length (place_texts d' (replicate (length d') [])) =
      length (map fst d)" by (simp add: len)
  fix k assume "k < length (place_texts d' (replicate (length d') []))"
  then have k: "k < length d" by (simp add: len)
  have set: "set d' = set d" using perm by (metis set_mset_mset)
  have "mset (map snd d') = mset (map snd d)" using perm by simp
  then have dist: "distinct (map snd d')"
    using dict_wf_ids [OF wf] by (metis mset_eq_imp_distinct_iff)
  have "(fst (d ! k), Suc k) \<in> set d'"
    using dict_wf_snd [OF wf k] nth_mem [OF k] set by (metis prod.collapse)
  from fold_update_nth [OF dist _ this, of "replicate (length d') []"]
  show "place_texts d' (replicate (length d') []) ! k = map fst d ! k"
    using dict_wf_ids [OF wf] k len set by simp
qed

lemma push_texts_eq:
  "push_texts vs s en =
    (s @ concat vs, en @ map (\<lambda>k. length s + length (concat (take (Suc k) vs))) [0..<length vs])"
proof (induction vs arbitrary: s en)
  case (Cons v vs)
  have "[0..<Suc (length vs)] = 0 # map Suc [0..<length vs]" 
    by (simp add: map_Suc_upt upt_conv_Cons del: upt_Suc)
  then show ?case by (simp add: Cons comp_def add.assoc del: upt_Suc)
qed simp

lemma concat_slice:
  assumes "k < length vs"
  shows "take (length (concat (take (Suc k) vs)) - length (concat (take k vs)))
      (drop (length (concat (take k vs))) (concat vs)) = vs ! k"
proof -
  have "concat vs = concat (take k vs) @ vs ! k @ concat (drop (Suc k) vs)"
    using id_take_nth_drop [OF assms] by (metis concat.simps(2) concat_append)
  then show ?thesis using assms by (simp add: take_Suc_conv_app_nth)
qed

lemma compact_text_pack:
  assumes wf: "dict_wf d" and perm: "mset d' = mset d" and st: "stands d i t"
  shows "compact_text (pack_dictionary d' (a\<lparr>ca_text := [], ca_ends := []\<rparr>)) i = t"
proof -
  let ?vs = "map fst d"
  have i: "0 < i" "i - 1 < length ?vs" "?vs ! (i - 1) = t"
    using st by (auto simp: stands_def)
  let ?a = "pack_dictionary d' (a\<lparr>ca_text := [], ca_ends := []\<rparr>)"
  have a: "ca_text ?a = concat ?vs"
      "ca_ends ?a = map (\<lambda>k. length (concat (take (Suc k) ?vs))) [0..<length ?vs]"
    by (simp_all add: pack_dictionary_def ordered_eq [OF wf perm] push_texts_eq Let_def)
  have start: "(if i - 1 = 0 then 0 else ca_ends ?a ! (i - 1 - 1)) = length (concat (take (i - 1) ?vs))"
    using i(2) by (auto simp: a(2) Suc_diff_Suc)
  show ?thesis
    unfolding compact_text_def Let_def start
    using concat_slice [OF i(2)] i by (simp add: a)
qed

lemma pack_events [simp]: "ca_events (pack_dictionary d a) = ca_events a"
  by (simp add: pack_dictionary_def case_prod_beta Let_def)

definition texts_stand ::
    "'f compact \<Rightarrow> (string_id, string_id, 'f) usage_event \<Rightarrow> 'f event \<Rightarrow> bool" where
  "texts_stand a e' e =
    (same_facts e' e \<and> compact_text a (ue_source_path e') = ue_source_path e
     \<and> map_option (compact_text a) (ue_source_record_id e') = ue_source_record_id e
     \<and> map_option (compact_text a) (ue_session_id e') = ue_session_id e
     \<and> map_option (compact_text a) (ue_request_id e') = ue_request_id e
     \<and> map_option (compact_text a) (ue_message_id e') = ue_message_id e
     \<and> map_option (compact_text a) (ue_project e') = ue_project e
     \<and> map_option (compact_text a) (ue_provider e') = ue_provider e
     \<and> map_option (compact_text a) (ue_model e') = ue_model e)"

lemma texts_stand_pack:
  assumes "dict_wf d" "mset d' = mset d" "event_stands d e' e"
  shows "texts_stand (pack_dictionary d' (a\<lparr>ca_text := [], ca_ends := []\<rparr>)) e' e"
proof -
  let ?t = "compact_text (pack_dictionary d' (a\<lparr>ca_text := [], ca_ends := []\<rparr>))"
  have opt: "rel_option (stands d) x y \<Longrightarrow> map_option ?t x = y" for x y
    by (cases x; cases y) (auto intro: compact_text_pack [OF assms(1,2)])
  show ?thesis
    using assms(3) compact_text_pack [OF assms(1,2)]
    by (auto simp: event_stands_def texts_stand_def intro!: opt)
qed

lemma texts_stand_view:
  "texts_stand a (ca_events a ! k) e \<Longrightarrow> compact_view a k = e"
  by (simp add: texts_stand_def same_facts_def compact_view_def map_text_def)

text \<open>The representation predicate the readers of an assembly use.\<close>

definition compact_of :: "'f compact \<Rightarrow> 'f event list \<Rightarrow> bool" where
  "compact_of a es = list_all2 (texts_stand a) (ca_events a) es"

lemma compact_of_len: "compact_of a es \<Longrightarrow> asm_len a = length es"
  by (simp add: compact_of_def asm_len_def list_all2_lengthD)

lemma compact_of_nth: "compact_of a es \<Longrightarrow> k < length es \<Longrightarrow> texts_stand a (ca_events a ! k) (es ! k)"
  by (simp add: compact_of_def list_all2_conv_all_nth)

lemma compact_of_view: "compact_of a es \<Longrightarrow> k < length es \<Longrightarrow> compact_view a k = es ! k"
  by (simp add: compact_of_nth texts_stand_view)

lemma compact_of_timestamp:
  "compact_of a es \<Longrightarrow> k < length es \<Longrightarrow> asm_timestamp_ms a k = ue_timestamp_ms (es ! k)"
  using compact_of_nth [of a es k] by (simp add: texts_stand_def same_facts_def asm_timestamp_ms_def)

lemma compact_of_sort_key:
  "compact_of a es \<Longrightarrow> k < length es \<Longrightarrow> asm_sort_key a k = event_sort_key (es ! k)"
  using compact_of_nth [of a es k]
  by (simp add: texts_stand_def same_facts_def asm_sort_key_def event_sort_key_def Let_def)

lemma compact_of_filter_fields:
  "compact_of a es \<Longrightarrow> k < length es \<Longrightarrow> asm_filter_fields a k =
    \<lparr>ff_source = ue_source (es ! k), ff_permission_review = ue_permission_review (es ! k),
     ff_project = ue_project (es ! k), ff_session_id = ue_session_id (es ! k)\<rparr>"
  using compact_of_nth [of a es k]
  by (simp add: texts_stand_def same_facts_def asm_filter_fields_def Let_def)

lemma compact_of_activity:
  "compact_of a es \<Longrightarrow> k < length es \<Longrightarrow> asm_activity_point a k = event_activity_point (es ! k)"
  using compact_of_nth [of a es k]
  by (simp add: texts_stand_def same_facts_def asm_activity_point_def event_activity_point_def)

lemmas compact_of_simps = compact_of_len compact_of_view compact_of_timestamp compact_of_sort_key
  compact_of_filter_fields compact_of_activity

lemma compact_of_new:
  assumes perm: "\<And>d. mset (iter d) = mset d"
  shows "compact_of (compact_new iter es previous) es"
proof -
  obtain rows ds where push: "compact_push es [] [] = (rows, ds)" "dict_wf ds"
      "list_all2 (event_stands ds) rows es"
    using compact_push_correct [of "[]" "[]" "[]" es] by auto
  define a where "a = (unwrap_or compact_default previous)\<lparr>ca_events := rows\<rparr>"
  have new: "compact_new iter es previous =
      pack_dictionary (iter ds) (a\<lparr>ca_text := [], ca_ends := []\<rparr>)"
    unfolding compact_new_def Let_def push(1) a_def
    by (cases "unwrap_or compact_default previous") simp
  have "ca_events (compact_new iter es previous) = rows" by (simp add: new a_def)
  then show ?thesis
    unfolding compact_of_def
    using list_all2_mono [OF push(3), of "texts_stand (compact_new iter es previous)"]
      texts_stand_pack [OF push(2) perm, of _ _ a] by (simp add: new a_def)
qed

text \<open>The builder pushes the same rows.\<close>

lemma builder_push_eq:
  "fold builder_push es b =
    (let (rows, d) = compact_push es (ca_events (ab_assembly b)) (ab_dictionary b)
     in \<lparr>ab_assembly = (ab_assembly b)\<lparr>ca_events := rows\<rparr>, ab_dictionary = d\<rparr>)"
  by (induction es arbitrary: b) (auto simp: builder_push_def case_prod_beta Let_def)

lemma builder_eq_new:
  "builder_finish iter (fold builder_push es builder_default) = compact_new iter es None"
  by (simp add: builder_finish_def builder_push_eq builder_default_def compact_new_def
      compact_default_def case_prod_beta Let_def)

section \<open>Details and bounds\<close>

lemma details_loop_correct:
  assumes "compact_of a es" "\<forall>k \<in> set ks. k < length es"
    "\<forall>i p. map_of paths i = Some p \<longrightarrow> p = compact_text a i"
  shows "details_loop a ks paths = map ((!) es) ks"
  using assms(2,3)
proof (induction ks arbitrary: paths)
  case (Cons k ks)
  let ?key = "ue_source_path (ca_events a ! k)"
  have k: "texts_stand a (ca_events a ! k) (es ! k)"
    using compact_of_nth [OF assms(1)] Cons.prems(1) by simp
  then have path: "compact_text a ?key = ue_source_path (es ! k)"
    and view: "compact_view a k = es ! k"
    by (simp_all add: texts_stand_def texts_stand_view)
  have same: "fst (map_text (ue_source_path e) (\<lambda>t u. (t, u)) e ()) = e" for e :: "'a event"
    using opt_map_st_unit [of "\<lambda>t. t"] by (simp add: map_text_def option.map_ident)
  show ?case
  proof (cases "map_of paths ?key")
    case None
    then have "\<forall>i p. map_of ((?key, ue_source_path (es ! k)) # paths) i = Some p
        \<longrightarrow> p = compact_text a i"
      using Cons.prems(2) path by auto
    with Cons None show ?thesis by (simp add: view same)
  next
    case (Some p)
    then have "p = ue_source_path (es ! k)" using Cons.prems(2) path by auto
    with Cons Some show ?thesis by (simp add: view same)
  qed
qed simp

lemma compact_of_details:
  "compact_of a es \<Longrightarrow> \<forall>k \<in> set ks. k < length es \<Longrightarrow> asm_details a ks = map ((!) es) ks"
  by (simp add: asm_details_def details_loop_correct)

lemma lower_bound_loop_spec:
  assumes "sorted (map (asm_timestamp_ms a) [0..<n])" "lo \<le> hi" "hi \<le> n"
    "\<forall>k < lo. k \<ge> low \<longrightarrow> asm_timestamp_ms a k < s" "\<forall>k < n. hi \<le> k \<longrightarrow> s \<le> asm_timestamp_ms a k"
  shows "lo \<le> lower_bound_loop a s lo hi \<and> lower_bound_loop a s lo hi \<le> hi
    \<and> (\<forall>k < lower_bound_loop a s lo hi. k \<ge> low \<longrightarrow> asm_timestamp_ms a k < s)
    \<and> (\<forall>k < n. lower_bound_loop a s lo hi \<le> k \<longrightarrow> s \<le> asm_timestamp_ms a k)"
  using assms
proof (induction a s lo hi rule: lower_bound_loop.induct)
  case (1 a s lo hi)
  show ?case
  proof (cases "lo < hi")
    case False
    then have "lower_bound_loop a s lo hi = lo" by (subst lower_bound_loop.simps) simp
    then show ?thesis using False 1(4-) by simp
  next
    case True
    define mid where "mid = lo + (hi - lo) div 2"
    have mid: "lo \<le> mid" "mid < hi" using True by (auto simp: mid_def)
    have mono: "asm_timestamp_ms a i \<le> asm_timestamp_ms a j" if "i \<le> j" "j < n" for i j
      using sorted_nth_mono [OF 1(3), of i j] that by simp
    show ?thesis
    proof (cases "asm_timestamp_ms a mid < s")
      case below: True
      have eq: "lower_bound_loop a s lo hi = lower_bound_loop a s (mid + 1) hi"
        using True below by (subst lower_bound_loop.simps) (simp add: mid_def Let_def)
      have pre: "\<forall>k < mid + 1. k \<ge> low \<longrightarrow> asm_timestamp_ms a k < s"
      proof (intro allI impI)
        fix k assume "k < mid + 1"
        then have "asm_timestamp_ms a k \<le> asm_timestamp_ms a mid"
          using mono [of k mid] mid 1(5) by simp
        then show "asm_timestamp_ms a k < s" using below by (rule le_less_trans)
      qed
      have ih: "mid + 1 \<le> lower_bound_loop a s (mid + 1) hi \<and> lower_bound_loop a s (mid + 1) hi \<le> hi
          \<and> (\<forall>k < lower_bound_loop a s (mid + 1) hi. k \<ge> low \<longrightarrow> asm_timestamp_ms a k < s)
          \<and> (\<forall>k < n. lower_bound_loop a s (mid + 1) hi \<le> k \<longrightarrow> s \<le> asm_timestamp_ms a k)"
        by (rule 1(1) [OF True mid_def below 1(3) _ 1(5) pre 1(7)]) (use mid in simp)
      then show ?thesis unfolding eq using mid by simp
    next
      case above: False
      have eq: "lower_bound_loop a s lo hi = lower_bound_loop a s lo mid"
        using True above by (subst lower_bound_loop.simps) (simp add: mid_def Let_def)
      have post: "\<forall>k < n. mid \<le> k \<longrightarrow> s \<le> asm_timestamp_ms a k"
        using mono [of mid] above by (auto simp: not_less intro: order_trans)
      have ih: "lo \<le> lower_bound_loop a s lo mid \<and> lower_bound_loop a s lo mid \<le> mid
          \<and> (\<forall>k < lower_bound_loop a s lo mid. k \<ge> low \<longrightarrow> asm_timestamp_ms a k < s)
          \<and> (\<forall>k < n. lower_bound_loop a s lo mid \<le> k \<longrightarrow> s \<le> asm_timestamp_ms a k)"
        by (rule 1(2) [OF True mid_def above 1(3) mid(1) _ 1(6) post]) (use mid 1(5) in simp)
      then show ?thesis unfolding eq using mid by simp
    qed
  qed
qed

lemma partition_point_unique:
  assumes "r \<le> length xs" "\<forall>k < r. p (xs ! k)" "\<forall>k < length xs. r \<le> k \<longrightarrow> \<not> p (xs ! k)"
  shows "partition_point p xs = r"
proof -
  have "takeWhile p xs = take r xs"
    by (rule takeWhile_eq_take_P_nth) (use assms in auto)
  then show ?thesis using assms(1) by (simp add: partition_point_def)
qed

lemma compact_of_sorted:
  assumes "compact_of a es" "sorted (map ue_timestamp_ms es)"
  shows "sorted (map (asm_timestamp_ms a) [0..<length es])"
proof -
  have "map (asm_timestamp_ms a) [0..<length es] = map ue_timestamp_ms es"
    by (rule nth_equalityI) (simp_all add: compact_of_timestamp [OF assms(1)])
  then show ?thesis using assms(2) by simp
qed

lemma compact_of_lower_bound:
  assumes "compact_of a es" "sorted (map ue_timestamp_ms es)"
  shows "asm_lower_bound a s = partition_point (\<lambda>e. ue_timestamp_ms e < s) es"
proof -
  have "0 \<le> lower_bound_loop a s 0 (length es) \<and> lower_bound_loop a s 0 (length es) \<le> length es
    \<and> (\<forall>k < lower_bound_loop a s 0 (length es). k \<ge> 0 \<longrightarrow> asm_timestamp_ms a k < s)
    \<and> (\<forall>k < length es. lower_bound_loop a s 0 (length es) \<le> k \<longrightarrow> s \<le> asm_timestamp_ms a k)"
    by (rule lower_bound_loop_spec [OF compact_of_sorted [OF assms]]) auto
  then have "partition_point (\<lambda>e. ue_timestamp_ms e < s) es = lower_bound_loop a s 0 (length es)"
    using compact_of_timestamp [OF assms(1)]
    by (intro partition_point_unique) (auto simp: not_less)
  then show ?thesis by (simp add: asm_lower_bound_def compact_of_len [OF assms(1)])
qed

lemma compact_of_upper_bound:
  assumes "compact_of a es" "sorted (map ue_timestamp_ms es)" "start \<le> length es"
  shows "asm_upper_bound a u start = start + partition_point (\<lambda>e. ue_timestamp_ms e < u) (drop start es)"
proof -
  let ?r = "lower_bound_loop a u start (length es)"
  have r: "start \<le> ?r \<and> ?r \<le> length es
    \<and> (\<forall>k < ?r. k \<ge> start \<longrightarrow> asm_timestamp_ms a k < u)
    \<and> (\<forall>k < length es. ?r \<le> k \<longrightarrow> u \<le> asm_timestamp_ms a k)"
    by (rule lower_bound_loop_spec [OF compact_of_sorted [OF assms(1,2)]]) (use assms(3) in auto)
  have "partition_point (\<lambda>e. ue_timestamp_ms e < u) (drop start es) = ?r - start"
    using r assms(3) compact_of_timestamp [OF assms(1)]
    by (intro partition_point_unique) (auto simp: not_less)
  then show ?thesis using r by (simp add: asm_upper_bound_def compact_of_len [OF assms(1)])
qed

section \<open>What the storage promises\<close>

text \<open>
  C9: Compaction loses nothing: whatever order the dictionary's hash map is iterated in, and whatever
  buffers are reused, the assembly has one row per event, its view and its details give back the
  events exactly, and the builder that pushes borrowed rows one by one makes the same assembly.
\<close>

theorem compact_new_roundtrip:
  assumes "\<And>d. mset (iter d) = mset d"
  shows "asm_len (compact_new iter es previous) = length es
    \<and> map (compact_view (compact_new iter es previous)) [0..<length es] = es
    \<and> asm_details (compact_new iter es previous) [0..<length es] = es
    \<and> builder_finish iter (fold builder_push es builder_default) = compact_new iter es None"
proof -
  let ?a = "compact_new iter es previous"
  have a: "compact_of ?a es" by (rule compact_of_new [OF assms])
  have "map (compact_view ?a) [0..<length es] = es"
    by (rule nth_equalityI) (simp_all add: compact_of_view [OF a])
  moreover have "asm_details ?a [0..<length es] = map ((!) es) [0..<length es]"
    by (rule compact_of_details [OF a]) simp
  ultimately show ?thesis by (simp add: compact_of_len [OF a] builder_eq_new map_nth)
qed

text \<open>
  On timestamp-sorted events, the two binary searches of an assembly delimit exactly the events
  of the half-open window, for every pair of bounds.
\<close>

theorem compact_window:
  assumes "\<And>d. mset (iter d) = mset d" "sorted (map ue_timestamp_ms es)"
  shows "let a = compact_new iter es previous; lo = asm_lower_bound a since; hi = asm_upper_bound a til lo
    in map (compact_view a) [lo..<hi] =
       filter (\<lambda>e. since \<le> ue_timestamp_ms e \<and> ue_timestamp_ms e < til) es"
proof -
  let ?a = "compact_new iter es previous"
  have a: "compact_of ?a es" by (rule compact_of_new [OF assms(1)])
  define lo where "lo = asm_lower_bound ?a since"
  have lo: "lo = partition_point (\<lambda>e. ue_timestamp_ms e < since) es"
    unfolding lo_def by (rule compact_of_lower_bound [OF a assms(2)])
  then have lo_le: "lo \<le> length es" by (simp add: partition_point_le)
  define k where "k = partition_point (\<lambda>e. ue_timestamp_ms e < til) (drop lo es)"
  have hi: "asm_upper_bound ?a til lo = lo + k"
    unfolding k_def by (rule compact_of_upper_bound [OF a assms(2) lo_le])
  have k_le: "lo + k \<le> length es"
    using partition_point_le [of "\<lambda>e. ue_timestamp_ms e < til" "drop lo es"] lo_le by (simp add: k_def)
  have "map (compact_view ?a) [lo..<lo + k] = take k (drop lo es)"
    by (rule nth_equalityI) (use k_le in \<open>auto simp: compact_of_view [OF a]\<close>)
  also have "\<dots> = takeWhile (\<lambda>e. ue_timestamp_ms e < til) (drop lo es)"
    by (simp add: k_def take_partition_point)
  also have "\<dots> = filter (\<lambda>e. ue_timestamp_ms e < til) (drop lo es)"
    using assms(2) by (intro takeWhile_filter_sorted) (simp add: drop_map [symmetric])
  also have "drop lo es = filter (\<lambda>e. since \<le> ue_timestamp_ms e) es"
    unfolding lo drop_partition_point by (rule dropWhile_filter_sorted [OF assms(2)])
  finally show ?thesis by (simp add: hi lo_def [symmetric] Let_def conj_commute)
qed

lemma compact_new_roundtrip_witness:
  "asm_details (compact_new rev [sample_event ''claude'' ''a'' 1 0, sample_event ''codex'' ''b'' 2 0] None)
     [0..<2] = [sample_event ''claude'' ''a'' 1 0, sample_event ''codex'' ''b'' 2 0]"
  using compact_new_roundtrip [of rev "[sample_event ''claude'' ''a'' 1 0, sample_event ''codex'' ''b'' 2 0]"
      None]
  by (simp add: numeral_2_eq_2)

lemma compact_window_witness:
  "let a = compact_new rev [sample_event ''claude'' ''a'' 1 0, sample_event ''codex'' ''b'' 2 0] None;
     lo = asm_lower_bound a 2; hi = asm_upper_bound a 9 lo
   in map (compact_view a) [lo..<hi] = [sample_event ''codex'' ''b'' 2 0]"
  using compact_window [of rev "[sample_event ''claude'' ''a'' 1 0, sample_event ''codex'' ''b'' 2 0]"
      None 2 9]
  by (simp add: word_le_nat_alt word_less_nat_alt)

end
