(* ===== verification/UsageMerge.thy ===== *)
theory UsageMerge
  imports UsageCompact
begin

text \<open>
  The k-way merge of \<open>src/usage/merge.rs\<close>. The loop over the heads is the code's, with its linear
  minimum scan and its \<open>swap_remove\<close>; the positions it emits keep the \<open>u32\<close> casts. The locale
  \<open>keyed_runs\<close> states what a run promises to the merge, and the merge is proved once inside it to be
  the stable sort of the concatenated runs.
\<close>

record merged_pos =
  mp_part :: u32
  mp_index :: u32

definition to_merged_pos :: "nat \<times> nat \<Rightarrow> merged_pos" where
  "to_merged_pos h = \<lparr>mp_part = of_nat (fst h), mp_index = of_nat (snd h)\<rparr>"

definition pos_pair :: "merged_pos \<Rightarrow> nat \<times> nat" where
  "pos_pair p = (unat (mp_part p), unat (mp_index p))"

definition swap_remove :: "'a list \<Rightarrow> nat \<Rightarrow> 'a list" where
  "swap_remove xs i = butlast (xs[i := last xs])"

text \<open>One comparison of the linear scan for the minimum.\<close>

definition better_head ::
    "(nat \<Rightarrow> nat \<Rightarrow> 'k :: linorder) \<Rightarrow> (nat \<times> nat) list \<Rightarrow> nat \<Rightarrow> nat \<Rightarrow> nat" where
  "better_head key heads candidate best =
    (let (part, index) = heads ! candidate; (best_part, best_index) = heads ! best
     in if (key part index, part, index) < (key best_part best_index, best_part, best_index)
        then candidate else best)"

definition best_head :: "(nat \<Rightarrow> nat \<Rightarrow> 'k :: linorder) \<Rightarrow> (nat \<times> nat) list \<Rightarrow> nat" where
  "best_head key heads = fold (better_head key heads) [1..<length heads] 0"

function merge_loop ::
    "(nat \<Rightarrow> nat) \<Rightarrow> (nat \<Rightarrow> nat \<Rightarrow> 'k :: linorder) \<Rightarrow> (nat \<times> nat) list \<Rightarrow> (nat \<times> nat) list" where
  "merge_loop len key heads =
    (if heads = [] then []
     else let best = best_head key heads; (part, index) = heads ! best
          in (part, index) #
             merge_loop len key
               (if index + 1 < len part then heads[best := (part, index + 1)]
                else swap_remove heads best))"
  by pat_completeness auto

definition head_weight :: "(nat \<Rightarrow> nat) \<Rightarrow> nat \<times> nat \<Rightarrow> nat" where
  "head_weight len h = Suc (len (fst h) - snd h)"

definition head_key :: "(nat \<Rightarrow> nat \<Rightarrow> 'k) \<Rightarrow> nat \<times> nat \<Rightarrow> 'k \<times> nat \<times> nat" where
  "head_key key h = (key (fst h) (snd h), fst h, snd h)"

lemma head_key_inj: "head_key key h = head_key key g \<longleftrightarrow> h = g"
  by (auto simp: head_key_def prod_eq_iff)

lemma better_head_eq:
  "better_head key heads c b =
    (if head_key key (heads ! c) < head_key key (heads ! b) then c else b)"
  by (simp only: better_head_def case_prod_beta Let_def head_key_def)

lemma best_scan:
  "fold (better_head key heads) [1..<Suc n] 0 < Suc n
   \<and> (\<forall>c < Suc n. head_key key (heads ! fold (better_head key heads) [1..<Suc n] 0)
        \<le> head_key key (heads ! c))"
proof (induction n)
  case (Suc n)
  define b where "b = fold (better_head key heads) [1..<Suc n] 0"
  have eq: "fold (better_head key heads) [1..<Suc (Suc n)] 0 = better_head key heads (Suc n) b"
    by (simp add: b_def)
  have b: "b < Suc n" "\<And>c. c < Suc n \<Longrightarrow> head_key key (heads ! b) \<le> head_key key (heads ! c)"
    using Suc by (simp_all only: b_def [symmetric])
  show ?case
  proof (cases "head_key key (heads ! Suc n) < head_key key (heads ! b)")
    case True
    then have "head_key key (heads ! Suc n) \<le> head_key key (heads ! c)" if "c < Suc (Suc n)" for c
      using that b(2) [of c] by (cases "c = Suc n") (auto intro: less_imp_le less_le_trans)
    moreover have "better_head key heads (Suc n) b = Suc n" using True by (simp add: better_head_eq)
    ultimately show ?thesis unfolding eq by simp
  next
    case False
    then have "head_key key (heads ! b) \<le> head_key key (heads ! c)" if "c < Suc (Suc n)" for c
      using that b(2) [of c] by (cases "c = Suc n") auto
    moreover have "better_head key heads (Suc n) b = b" using False by (simp add: better_head_eq)
    ultimately show ?thesis unfolding eq using b(1) by simp
  qed
qed simp

lemma best_head_spec:
  assumes "heads \<noteq> []"
  shows "best_head key heads < length heads
    \<and> (\<forall>c < length heads. head_key key (heads ! best_head key heads) \<le> head_key key (heads ! c))"
  using best_scan [of key heads "length heads - 1"] assms by (simp add: best_head_def)

lemma mset_swap_remove:
  assumes "i < length xs"
  shows "add_mset (xs ! i) (mset (swap_remove xs i)) = mset xs"
proof -
  have ne: "xs[i := last xs] \<noteq> []" using assms by auto
  have "last (xs[i := last xs]) = last xs"
    using assms by (subst last_list_update) auto
  then have "mset (xs[i := last xs]) = add_mset (last xs) (mset (swap_remove xs i))"
    using append_butlast_last_id [OF ne] unfolding swap_remove_def
    by (metis add_mset_add_single mset_append mset_single_iff_right mset.simps(1) mset.simps(2))
  moreover have "mset (xs[i := last xs]) = add_mset (last xs) (mset xs - {#xs ! i#})"
    using assms by (simp add: mset_update)
  ultimately have "mset (swap_remove xs i) = mset xs - {#xs ! i#}" by simp
  then show ?thesis using assms by (simp only: insert_DiffM nth_mem_mset)
qed

lemma mset_list_update_add:
  "i < length xs \<Longrightarrow> add_mset (xs ! i) (mset (xs[i := y])) = add_mset y (mset xs)"
  by (simp add: mset_update nth_mem_mset)

text \<open>The heads after one turn.\<close>

definition next_heads :: "(nat \<Rightarrow> nat) \<Rightarrow> (nat \<times> nat) list \<Rightarrow> nat \<Rightarrow> (nat \<times> nat) list" where
  "next_heads len heads best =
    (let (part, index) = heads ! best
     in if index + 1 < len part then heads[best := (part, index + 1)] else swap_remove heads best)"

lemma next_heads_mset:
  assumes "best < length heads" "heads ! best = (p, i)"
  shows "\<exists>M. mset heads = add_mset (p, i) M \<and>
    mset (next_heads len heads best) = (if i + 1 < len p then add_mset (p, i + 1) M else M)"
proof -
  obtain M where M: "mset heads = add_mset (p, i) M"
    using assms by (metis mset_add nth_mem_mset)
  show ?thesis
  proof (cases "i + 1 < len p")
    case True
    have "add_mset (p, i) (mset (heads[best := (p, i + 1)])) = add_mset (p, i + 1) (add_mset (p, i) M)"
      using mset_list_update_add [OF assms(1), of "(p, i + 1)"] by (simp only: M assms(2))
    then have "mset (heads[best := (p, i + 1)]) = add_mset (p, i + 1) M"
      by (simp add: add_mset_commute)
    with M True assms(2) show ?thesis by (simp add: next_heads_def)
  next
    case False
    have "add_mset (p, i) (mset (swap_remove heads best)) = add_mset (p, i) M"
      using mset_swap_remove [OF assms(1)] by (simp only: M assms(2))
    then have "mset (swap_remove heads best) = M" by simp
    with M False assms(2) show ?thesis by (simp add: next_heads_def)
  qed
qed

definition heads_weight :: "(nat \<Rightarrow> nat) \<Rightarrow> (nat \<times> nat) list \<Rightarrow> nat" where
  "heads_weight len heads = sum_mset (image_mset (head_weight len) (mset heads))"

lemma next_heads_weight:
  assumes "heads \<noteq> []"
  shows "heads_weight len (next_heads len heads (best_head key heads)) < heads_weight len heads"
proof -
  let ?b = "best_head key heads"
  obtain p i where h: "heads ! ?b = (p, i)" by (cases "heads ! ?b")
  have "?b < length heads" using best_head_spec [OF assms] by blast
  from next_heads_mset [OF this h, of len] obtain M where
    "mset heads = add_mset (p, i) M"
    "mset (next_heads len heads ?b) = (if i + 1 < len p then add_mset (p, i + 1) M else M)" by blast
  then show ?thesis by (auto simp: heads_weight_def head_weight_def)
qed

termination merge_loop
proof (relation "measure (\<lambda>(len, key, heads). heads_weight len heads)", goal_cases)
  case (2 len key heads best x part index)
  then show ?case
    using next_heads_weight [of heads len key] by (auto simp: next_heads_def split: prod.splits if_splits)
qed simp

declare merge_loop.simps [simp del]

lemma merge_loop_Nil [simp]: "merge_loop len key [] = []"
  by (simp add: merge_loop.simps)

lemma merge_loop_step:
  "heads \<noteq> [] \<Longrightarrow> merge_loop len key heads =
    heads ! best_head key heads # merge_loop len key (next_heads len heads (best_head key heads))"
  by (subst merge_loop.simps) (simp add: next_heads_def case_prod_beta Let_def)

section \<open>What the merge returns\<close>

definition remaining :: "(nat \<Rightarrow> nat) \<Rightarrow> nat \<times> nat \<Rightarrow> (nat \<times> nat) list" where
  "remaining len h = map (Pair (fst h)) [snd h..<len (fst h)]"

definition runs_sorted :: "(nat \<Rightarrow> nat) \<Rightarrow> (nat \<Rightarrow> nat \<Rightarrow> 'k :: linorder) \<Rightarrow> nat set \<Rightarrow> bool" where
  "runs_sorted len key ps = (\<forall>p \<in> ps. \<forall>i j. i \<le> j \<and> j < len p \<longrightarrow> key p i \<le> key p j)"

definition heads_ok :: "(nat \<Rightarrow> nat) \<Rightarrow> (nat \<times> nat) list \<Rightarrow> bool" where
  "heads_ok len heads = (\<forall>(p, i) \<in> set heads. i < len p)"

definition rest_positions :: "(nat \<Rightarrow> nat) \<Rightarrow> (nat \<times> nat) list \<Rightarrow> (nat \<times> nat) multiset" where
  "rest_positions len heads = sum_mset (image_mset (\<lambda>h. mset (remaining len h)) (mset heads))"

lemma remaining_Cons: "i < len p \<Longrightarrow> remaining len (p, i) = (p, i) # remaining len (p, Suc i)"
  by (simp add: remaining_def upt_conv_Cons)

lemma set_rest: "x \<in># rest_positions len heads \<longleftrightarrow> (\<exists>h \<in> set heads. x \<in> set (remaining len h))"
  by (auto simp: rest_positions_def in_Union_mset_iff)

lemma next_heads_rest:
  assumes "heads \<noteq> []" "heads_ok len heads"
  shows "rest_positions len heads = add_mset (heads ! best_head key heads)
      (rest_positions len (next_heads len heads (best_head key heads)))"
    and "heads_ok len (next_heads len heads (best_head key heads))"
    and "fst ` set (next_heads len heads (best_head key heads)) \<subseteq> fst ` set heads"
proof -
  let ?b = "best_head key heads"
  obtain p i where h: "heads ! ?b = (p, i)" by (cases "heads ! ?b")
  have b: "?b < length heads" using best_head_spec [OF assms(1)] by blast
  obtain M where M: "mset heads = add_mset (p, i) M"
    "mset (next_heads len heads ?b) = (if i + 1 < len p then add_mset (p, i + 1) M else M)"
    using next_heads_mset [OF b h, of len] by blast
  have "(p, i) \<in> set heads" using b h by (metis nth_mem)
  then have i: "i < len p" using assms(2) by (auto simp: heads_ok_def)
  have "remaining len (p, Suc i) = []" if "\<not> i + 1 < len p"
    using that by (simp add: remaining_def)
  then show "rest_positions len heads = add_mset (heads ! ?b) (rest_positions len (next_heads len heads ?b))"
    using M by (simp add: rest_positions_def h remaining_Cons [of i len p, OF i])
  have set: "set heads = insert (p, i) (set_mset M)"
    "set (next_heads len heads ?b) \<subseteq> (if i + 1 < len p then insert (p, i + 1) (set_mset M) else set_mset M)"
    using arg_cong [OF M(1), of set_mset] arg_cong [OF M(2), of set_mset] by simp_all
  show "heads_ok len (next_heads len heads ?b)"
    using set assms(2) by (auto simp: heads_ok_def split: if_splits)
  show "fst ` set (next_heads len heads ?b) \<subseteq> fst ` set heads"
  proof
    fix x assume "x \<in> fst ` set (next_heads len heads ?b)"
    then obtain g where g: "g \<in> set (next_heads len heads ?b)" "x = fst g" by blast
    then have "g = (p, i + 1) \<or> g \<in># M" using set(2) by (auto split: if_splits)
    then show "x \<in> fst ` set heads" unfolding set(1) g(2) by (elim disjE) simp_all
  qed
qed

lemma best_head_le_rest:
  assumes "heads \<noteq> []" "runs_sorted len key (fst ` set heads)" "x \<in># rest_positions len heads"
  shows "head_key key (heads ! best_head key heads) \<le> head_key key x"
proof -
  obtain p i j where x: "(p, i) \<in> set heads" "x = (p, j)" "i \<le> j" "j < len p"
    using assms(3) by (auto simp: set_rest remaining_def)
  then have "key p i \<le> key p j"
    using assms(2) by (force simp: runs_sorted_def)
  then have "head_key key (p, i) \<le> head_key key x"
    using x by (auto simp: head_key_def less_eq_prod_def)
  moreover have "head_key key (heads ! best_head key heads) \<le> head_key key (p, i)"
    using best_head_spec [OF assms(1)] x(1) by (metis in_set_conv_nth)
  ultimately show ?thesis by (rule order_trans [rotated])
qed

lemma runs_sorted_subset: "runs_sorted len key A \<Longrightarrow> B \<subseteq> A \<Longrightarrow> runs_sorted len key B"
  by (auto simp: runs_sorted_def)

lemma merge_loop_correct:
  assumes "heads_ok len heads" "runs_sorted len key (fst ` set heads)"
  shows "mset (merge_loop len key heads) = rest_positions len heads
    \<and> sorted (map (head_key key) (merge_loop len key heads))"
  using assms
proof (induction "heads_weight len heads" arbitrary: heads rule: less_induct)
  case less
  show ?case
  proof (cases "heads = []")
    case True
    then show ?thesis by (simp add: rest_positions_def)
  next
    case False
    let ?b = "best_head key heads" and ?n = "next_heads len heads (best_head key heads)"
    note nh = next_heads_rest [OF False less.prems(1), of key]
    have "runs_sorted len key (fst ` set ?n)"
      by (rule runs_sorted_subset [OF less.prems(2) nh(3)])
    from less.hyps [OF next_heads_weight [OF False] nh(2) this]
    have ih: "mset (merge_loop len key ?n) = rest_positions len ?n"
      "sorted (map (head_key key) (merge_loop len key ?n))" by simp_all
    have "head_key key (heads ! ?b) \<le> head_key key x" if "x \<in> set (merge_loop len key ?n)" for x
    proof -
      have "x \<in># rest_positions len ?n" using that ih(1) by (metis set_mset_mset)
      then have "x \<in># rest_positions len heads" by (simp add: nh(1))
      then show ?thesis by (rule best_head_le_rest [OF False less.prems(2)])
    qed
    then show ?thesis using ih by (simp add: merge_loop_step [OF False] nh(1))
  qed
qed

section \<open>Stable sorting of positions\<close>

lemma insort_key_map: "insort_key f (g x) (map g xs) = map g (insort_key (\<lambda>x. f (g x)) x xs)"
  by (induction xs) auto

lemma sort_key_map: "sort_key f (map g xs) = map g (sort_key (\<lambda>x. f (g x)) xs)"
  by (induction xs) (simp_all add: insort_key_map)

lemma insort_key_stable:
  fixes x :: "'a :: linorder" and f :: "'a \<Rightarrow> 'k :: linorder"
  assumes "sorted (map (\<lambda>y. (f y, y)) ys)" "\<forall>y \<in> set ys. x \<le> y"
  shows "sorted (map (\<lambda>y. (f y, y)) (insort_key f x ys))"
  using assms
proof (induction ys)
  case (Cons y ys)
  then show ?case
    by (auto simp: set_insort_key less_eq_prod_def not_le intro: less_imp_le order_trans)
qed simp

lemma sort_key_stable:
  fixes f :: "'a :: linorder \<Rightarrow> 'k :: linorder"
  assumes "sorted xs"
  shows "sorted (map (\<lambda>y. (f y, y)) (sort_key f xs))"
  using assms by (induction xs) (simp_all add: insort_key_stable)

definition positions :: "(nat \<Rightarrow> nat) \<Rightarrow> nat \<Rightarrow> (nat \<times> nat) list" where
  "positions len n = concat (map (\<lambda>p. map (Pair p) [0..<len p]) [0..<n])"

lemma positions_Suc: "positions len (Suc n) = positions len n @ map (Pair n) [0..<len n]"
  by (simp add: positions_def)

lemma set_positions: "set (positions len n) = {(p, i). p < n \<and> i < len p}"
  by (auto simp: positions_def)

lemma sorted_positions: "sorted (positions len n)"
proof (induction n)
  case (Suc n)
  have "sorted (map (Pair n) [0..<len n])"
    by (simp add: sorted_iff_nth_mono less_eq_prod_def)
  moreover have "\<forall>x \<in> set (positions len n). \<forall>y \<in> set (map (Pair n) [0..<len n]). x \<le> y"
    by (auto simp: set_positions less_eq_prod_def)
  ultimately show ?case using Suc by (simp only: positions_Suc sorted_append)
qed (simp add: positions_def)

lemma positions_part:
  "filter (\<lambda>h. fst h = k) (positions len n) = (if k < n then map (Pair k) [0..<len k] else [])"
proof (induction n)
  case (Suc n)
  have "filter (\<lambda>h. fst h = k) (map (Pair n) [0..<len n]) = (if k = n then map (Pair n) [0..<len n] else [])"
    by (simp add: filter_map comp_def)
  then show ?case using Suc by (auto simp: positions_Suc)
qed (simp add: positions_def)

lemma positions_concat:
  "map (\<lambda>h. ess ! fst h ! snd h) (positions (\<lambda>p. length (ess ! p)) (length ess)) = concat ess"
proof -
  have "map (\<lambda>h. ess ! fst h ! snd h) (positions (\<lambda>p. length (ess ! p)) n) = concat (take n ess)"
    if "n \<le> length ess" for n
    using that
  proof (induction n)
    case (Suc n)
    then show ?case
      by (simp add: positions_Suc take_Suc_conv_app_nth comp_def map_nth)
  qed (simp add: positions_def)
  then show ?thesis by simp
qed

section \<open>The merge of partitions\<close>

definition initial_heads :: "('r \<Rightarrow> nat) \<Rightarrow> 'r list \<Rightarrow> (nat \<times> nat) list" where
  "initial_heads run_len runs =
    map (\<lambda>(part, _). (part, 0)) (filter (\<lambda>(_, run). 0 < run_len run) (enumerate 0 runs))"

definition merge_order ::
    "('r \<Rightarrow> nat) \<Rightarrow> ('r \<Rightarrow> nat \<Rightarrow> 'k :: linorder) \<Rightarrow> 'r list \<Rightarrow> merged_pos list" where
  "merge_order run_len run_key runs =
    map to_merged_pos
      (merge_loop (\<lambda>p. run_len (runs ! p)) (\<lambda>p i. run_key (runs ! p) i) (initial_heads run_len runs))"

definition build_merged_order :: "'f compact list \<Rightarrow> merged_pos list" where
  "build_merged_order parts = merge_order asm_len asm_sort_key parts"

definition merge_runs :: "('t \<Rightarrow> sort_key) \<Rightarrow> 't list list \<Rightarrow> merged_pos list" where
  "merge_runs key runs = merge_order length (\<lambda>run i. key (run ! i)) runs"

lemma set_initial_heads: "set (initial_heads run_len runs) =
    {(p, 0) | p. p < length runs \<and> 0 < run_len (runs ! p)}"
  by (auto simp: initial_heads_def in_set_enumerate_eq image_iff)

lemma rest_concat: "rest_positions len heads = mset (concat (map (remaining len) heads))"
  by (induction heads) (simp_all add: rest_positions_def)

lemma concat_map_filter:
  "(\<And>x. \<not> P x \<Longrightarrow> g x = []) \<Longrightarrow> concat (map g (filter P xs)) = concat (map g xs)"
  by (induction xs) auto

lemma rest_initial_heads:
  "rest_positions (\<lambda>p. run_len (runs ! p)) (initial_heads run_len runs) =
    mset (positions (\<lambda>p. run_len (runs ! p)) (length runs))"
proof -
  let ?len = "\<lambda>p. run_len (runs ! p)"
  have enum: "enumerate 0 runs = map (\<lambda>p. (p, runs ! p)) [0..<length runs]"
    by (rule nth_equalityI) (simp_all add: nth_enumerate_eq)
  have heads: "initial_heads run_len runs =
      map (\<lambda>p. (p, 0)) (filter (\<lambda>p. 0 < ?len p) [0..<length runs])"
    by (simp add: initial_heads_def enum filter_map comp_def)
  have "concat (map (remaining ?len) (initial_heads run_len runs)) =
      concat (map (\<lambda>p. remaining ?len (p, 0)) [0..<length runs])"
    unfolding heads map_map comp_def by (rule concat_map_filter) (simp add: remaining_def)
  then show ?thesis
    by (simp add: rest_concat positions_def remaining_def)
qed

section \<open>The interface of a run, and the merge proved over it\<close>

text \<open>
  What the merge asks of a run: its length and its keys are those of the rows it stands for.
\<close>

locale keyed_runs =
  fixes run_len :: "'r \<Rightarrow> nat"
    and run_key :: "'r \<Rightarrow> nat \<Rightarrow> 'k :: linorder"
    and rows :: "'r \<Rightarrow> 'e list \<Rightarrow> bool"
    and row_key :: "'e \<Rightarrow> 'k"
  assumes rows_len: "rows r es \<Longrightarrow> run_len r = length es"
    and rows_key: "rows r es \<Longrightarrow> i < length es \<Longrightarrow> run_key r i = row_key (es ! i)"
begin

definition fits :: "'r list \<Rightarrow> 'e list list \<Rightarrow> bool" where
  "fits rs ess = (list_all2 rows rs ess \<and> length ess \<le> 2 ^ 32
     \<and> (\<forall>es \<in> set ess. sorted (map row_key es) \<and> length es \<le> 2 ^ 32))"

lemma fits_nth: "fits rs ess \<Longrightarrow> p < length ess \<Longrightarrow> rows (rs ! p) (ess ! p)"
  by (simp add: fits_def list_all2_nthD2)

lemma fits_length: "fits rs ess \<Longrightarrow> length rs = length ess"
  unfolding fits_def by (blast dest: list_all2_lengthD)

lemma positions_cong:
  assumes "fits rs ess"
  shows "positions (\<lambda>p. run_len (rs ! p)) (length rs) =
    positions (\<lambda>p. length (ess ! p)) (length ess)"
proof -
  have "run_len (rs ! p) = length (ess ! p)" if "p < length ess" for p
    using rows_len [OF fits_nth [OF assms that]] .
  then show ?thesis
    unfolding positions_def fits_length [OF assms]
    by (intro arg_cong [where f = concat] map_cong) auto
qed

lemma merged_pairs:
  assumes fit: "fits rs ess"
  shows "merge_loop (\<lambda>p. run_len (rs ! p)) (\<lambda>p i. run_key (rs ! p) i) (initial_heads run_len rs) =
    sort_key (\<lambda>h. row_key (ess ! fst h ! snd h)) (positions (\<lambda>p. length (ess ! p)) (length ess))"
    (is "?m = ?s")
proof -
  let ?len = "\<lambda>p. run_len (rs ! p)" and ?key = "\<lambda>p i. run_key (rs ! p) i"
  let ?ps = "positions (\<lambda>p. length (ess ! p)) (length ess)"
  have key: "?key p i = row_key (ess ! p ! i)" if "(p, i) \<in> set ?ps" for p i
    using that rows_key [OF fits_nth [OF fit]] by (auto simp: set_positions)
  have "heads_ok ?len (initial_heads run_len rs)"
    by (auto simp: heads_ok_def set_initial_heads)
  moreover have "runs_sorted ?len ?key (fst ` set (initial_heads run_len rs))"
    unfolding runs_sorted_def
  proof (intro ballI allI impI, elim conjE)
    fix p i j assume p: "p \<in> fst ` set (initial_heads run_len rs)" and ij: "i \<le> j" "j < ?len p"
    have p': "p < length ess"
      using p fits_length [OF fit] by (auto simp: set_initial_heads)
    have len: "?len p = length (ess ! p)" using rows_len [OF fits_nth [OF fit p']] .
    have "sorted (map row_key (ess ! p))" using fit p' by (simp add: fits_def)
    then have "row_key (ess ! p ! i) \<le> row_key (ess ! p ! j)"
      using sorted_nth_mono [of "map row_key (ess ! p)" i j] ij len by simp
    then show "?key p i \<le> ?key p j"
      using rows_key [OF fits_nth [OF fit p']] ij len by simp
  qed
  ultimately have m: "mset ?m = mset ?ps" "sorted (map (head_key ?key) ?m)"
    using merge_loop_correct [of ?len "initial_heads run_len rs" ?key]
    by (simp_all add: rest_initial_heads positions_cong [OF fit])
  let ?hk = "\<lambda>h. (row_key (ess ! fst h ! snd h), h)"
  have "map (head_key ?key) ?m = map ?hk ?m"
  proof (rule map_cong [OF refl])
    fix h assume "h \<in> set ?m"
    then have "h \<in> set ?ps" using m(1) by (metis set_mset_mset)
    then show "head_key ?key h = ?hk h" using key [of "fst h" "snd h"] by (simp add: head_key_def)
  qed
  with m(2) have "sorted (map ?hk ?m)" by (simp only:)
  moreover have "sorted (map ?hk ?s)"
    using sort_key_stable [OF sorted_positions, of "\<lambda>h. row_key (ess ! fst h ! snd h)"]
    by simp
  then have "sort (map ?hk ?s) = map ?hk ?s" by (rule sorted_sort_id)
  moreover have "mset (map ?hk ?m) = mset (map ?hk ?s)"
    using m(1) by simp
  ultimately have "map ?hk ?m = map ?hk ?s"
    using properties_for_sort [of "map ?hk ?m" "map ?hk ?s"] by simp
  then show ?thesis by (rule map_injective) (auto intro: injI)
qed

lemma pos_pair_merged:
  assumes fit: "fits rs ess"
  shows "map pos_pair (merge_order run_len run_key rs) =
    sort_key (\<lambda>h. row_key (ess ! fst h ! snd h)) (positions (\<lambda>p. length (ess ! p)) (length ess))"
proof -
  let ?s = "sort_key (\<lambda>h. row_key (ess ! fst h ! snd h)) (positions (\<lambda>p. length (ess ! p)) (length ess))"
  have "pos_pair (to_merged_pos h) = h" if "h \<in> set ?s" for h
  proof -
    have h: "fst h < length ess" "snd h < length (ess ! fst h)"
      using that by (auto simp: set_positions)
    have "length ess \<le> 2 ^ 32" using fit by (simp only: fits_def)
    moreover have "length (ess ! fst h) \<le> 2 ^ 32"
      using fit nth_mem [OF h(1)] by (simp only: fits_def)
    ultimately have "fst h < 2 ^ 32" "snd h < 2 ^ 32" using h by (auto intro: less_le_trans)
    then show ?thesis by (simp add: pos_pair_def to_merged_pos_def unat_of_nat)
  qed
  then have "map (pos_pair \<circ> to_merged_pos) ?s = ?s" by (intro map_idI) simp
  then show ?thesis by (simp add: merge_order_def merged_pairs [OF fit])
qed

lemma merged_rows:
  assumes fit: "fits rs ess"
  shows "map (\<lambda>pos. ess ! fst (pos_pair pos) ! snd (pos_pair pos)) (merge_order run_len run_key rs) =
    sort_key row_key (concat ess)"
proof -
  have "map (\<lambda>pos. ess ! fst (pos_pair pos) ! snd (pos_pair pos)) (merge_order run_len run_key rs) =
      map (\<lambda>h. ess ! fst h ! snd h) (map pos_pair (merge_order run_len run_key rs))"
    by simp
  also have "\<dots> = sort_key row_key (map (\<lambda>h. ess ! fst h ! snd h)
      (positions (\<lambda>p. length (ess ! p)) (length ess)))"
    unfolding pos_pair_merged [OF fit] sort_key_map by (rule refl)
  finally show ?thesis by (simp add: positions_concat)
qed

lemma merged_pos_range:
  assumes fit: "fits rs ess" and "pos \<in> set (merge_order run_len run_key rs)"
  shows "fst (pos_pair pos) < length ess \<and> snd (pos_pair pos) < length (ess ! fst (pos_pair pos))"
proof -
  have "pos_pair pos \<in> set (map pos_pair (merge_order run_len run_key rs))"
    using assms(2) by simp
  then show ?thesis by (auto simp: pos_pair_merged [OF fit] set_positions)
qed

text \<open>The merged positions of one run are its rows in ascending order.\<close>

lemma merged_part:
  assumes fit: "fits rs ess" and k: "k < length ess"
  shows "map (\<lambda>pos. snd (pos_pair pos))
      (filter (\<lambda>pos. fst (pos_pair pos) = k) (merge_order run_len run_key rs)) = [0..<length (ess ! k)]"
proof -
  let ?g = "\<lambda>h. row_key (ess ! fst h ! snd h)"
  let ?ps = "positions (\<lambda>p. length (ess ! p)) (length ess)" and ?part = "map (Pair k) [0..<length (ess ! k)]"
  have "filter (\<lambda>h. fst h = k) (sort_key ?g ?ps) = sort_key ?g ?part"
    using k by (simp add: filter_sort positions_part)
  also have "map ?g ?part = map row_key (ess ! k)" by (rule nth_equalityI) simp_all
  then have "sorted (map ?g ?part)" using fit k by (simp only: fits_def nth_mem)
  then have "sort_key ?g ?part = ?part" by (rule sort_key_id_if_sorted)
  finally have "filter (\<lambda>h. fst h = k) (map pos_pair (merge_order run_len run_key rs)) = ?part"
    by (simp only: pos_pair_merged [OF fit])
  then have "map snd (filter (\<lambda>h. fst h = k) (map pos_pair (merge_order run_len run_key rs))) = map snd ?part"
    by (rule arg_cong)
  then show ?thesis by (simp add: filter_map comp_def)
qed

end

text \<open>Assemblies provide the interface.\<close>

interpretation asm_runs: keyed_runs asm_len asm_sort_key compact_of event_sort_key
  by unfold_locales (simp_all add: compact_of_simps)

lemma compact_parts:
  assumes "\<And>d. mset (iter d) = mset d"
  shows "list_all2 compact_of (map (\<lambda>es. compact_new iter es None) ess) ess"
  by (simp add: list_all2_conv_all_nth compact_of_new [OF assms])

text \<open>
  C2: The merge of sorted partitions reproduces the combined assembly's stable sort exactly: reading
  the partitions at the merged positions gives the concatenation of all partitions, stably sorted by
  timestamp, path and source order. No event is lost, repeated or reordered among equal keys.
\<close>

theorem build_merged_order_stable_sort:
  assumes "\<And>d. mset (iter d) = mset d"
    and "\<forall>es \<in> set ess. sorted (map event_sort_key es) \<and> length es \<le> 2 ^ 32" "length ess \<le> 2 ^ 32"
  shows "let parts = map (\<lambda>es. compact_new iter es None) ess
    in map (\<lambda>pos. compact_view (parts ! unat (mp_part pos)) (unat (mp_index pos)))
         (build_merged_order parts) = sort_key event_sort_key (concat ess)"
proof -
  let ?parts = "map (\<lambda>es. compact_new iter es None) ess"
  have fit: "asm_runs.fits ?parts ess"
    using assms(2,3) compact_parts [OF assms(1)] by (simp add: asm_runs.fits_def)
  have view: "compact_view (?parts ! unat (mp_part pos)) (unat (mp_index pos)) =
      ess ! fst (pos_pair pos) ! snd (pos_pair pos)" if "pos \<in> set (build_merged_order ?parts)" for pos
  proof -
    have r: "fst (pos_pair pos) < length ess" "snd (pos_pair pos) < length (ess ! fst (pos_pair pos))"
      using asm_runs.merged_pos_range [OF fit] that by (auto simp: build_merged_order_def)
    show ?thesis
      using compact_of_view [OF asm_runs.fits_nth [OF fit r(1)] r(2)] by (simp add: pos_pair_def)
  qed
  have "map (\<lambda>pos. compact_view (?parts ! unat (mp_part pos)) (unat (mp_index pos)))
        (build_merged_order ?parts) =
      map (\<lambda>pos. ess ! fst (pos_pair pos) ! snd (pos_pair pos)) (build_merged_order ?parts)"
    using view by (intro map_cong refl) blast
  also have "\<dots> = sort_key event_sort_key (concat ess)"
    unfolding build_merged_order_def by (rule asm_runs.merged_rows [OF fit])
  finally show ?thesis by (simp add: Let_def)
qed

lemma build_merged_order_stable_sort_witness:
  "let parts = map (\<lambda>es. compact_new rev es None)
      [[sample_event ''claude'' ''a'' 2 0], [sample_event ''codex'' ''b'' 1 0, sample_event ''codex'' ''b'' 3 0]]
   in map (\<lambda>pos. compact_view (parts ! unat (mp_part pos)) (unat (mp_index pos)))
        (build_merged_order parts)
      = [sample_event ''codex'' ''b'' 1 0, sample_event ''claude'' ''a'' 2 0, sample_event ''codex'' ''b'' 3 0]"
  using build_merged_order_stable_sort [of rev "[[sample_event ''claude'' ''a'' 2 0],
      [sample_event ''codex'' ''b'' 1 0, sample_event ''codex'' ''b'' 3 0]]"]
  by (simp add: less_eq_prod_def word_le_nat_alt word_less_nat_alt)

end
