(* ===== verification/UsageSort.thy ===== *)
theory UsageSort
  imports UsageMerge
begin

text \<open>
  The in-place sort of \<open>src/usage/snapshot.rs\<close>: indices are ordered by timestamp, path, source order and
  original position, and the records are then moved along the cycles of that permutation. The
  rotation is \<open>unsafe\<close> in the code: an index out of bounds, which would be undefined behaviour, is
  \<open>None\<close> here, as is a rotation that runs out of fuel. The comparator never returns equal on two
  entries, so the unstable parallel sort has one possible result.
\<close>

definition sort_order :: "'f event list \<Rightarrow> (u64 \<times> nat) list" where
  "sort_order events =
    sort_key (\<lambda>(t, i). ((t, ue_source_path (events ! i), ue_source_order (events ! i)), i))
      (map (\<lambda>(i, e). (ue_timestamp_ms e, i)) (enumerate 0 events))"

text \<open>One cycle: the hole moves from \<open>current\<close> to its successor until it is back at \<open>start\<close>.\<close>

fun rotate_cycle :: "nat \<Rightarrow> nat \<Rightarrow> 'e \<Rightarrow> nat \<Rightarrow> nat list \<Rightarrow> 'e list \<Rightarrow> (nat list \<times> 'e list) option" where
  "rotate_cycle 0 start saved current order events = None"
| "rotate_cycle (Suc fuel) start saved current order events =
    (if length order \<le> current \<or> length events \<le> current then None
     else
       let nxt = order ! current;
           order' = order[current := current]
       in if nxt = start then Some (order', events[current := saved])
          else if length events \<le> nxt then None
          else rotate_cycle fuel start saved nxt order' (events[current := events ! nxt]))"

fun rotate_all :: "nat list \<Rightarrow> nat list \<Rightarrow> 'e list \<Rightarrow> 'e list option" where
  "rotate_all [] order events = Some events"
| "rotate_all (start # starts) order events =
    (if order ! start = start then rotate_all starts order events
     else if length events \<le> start then None
     else case rotate_cycle (length order) start (events ! start) start order events of
            None \<Rightarrow> None
          | Some (order', events') \<Rightarrow> rotate_all starts order' events')"

definition sort_usage_events :: "'f event list \<Rightarrow> 'f event list option" where
  "sort_usage_events events =
    (let order = map snd (sort_order events)
     in rotate_all [0..<length order] order events)"

section \<open>One cycle\<close>

definition perm_list :: "nat list \<Rightarrow> bool" where
  "perm_list q = (inj_on ((!) q) {..<length q} \<and> (\<forall>i < length q. q ! i < length q))"

lemma perm_list_inj: "perm_list q \<Longrightarrow> i < length q \<Longrightarrow> j < length q \<Longrightarrow> q ! i = q ! j \<Longrightarrow> i = j"
  by (auto simp: perm_list_def inj_on_def)

lemma perm_list_range: "perm_list q \<Longrightarrow> i < length q \<Longrightarrow> q ! i < length q"
  by (simp add: perm_list_def)

text \<open>What is known in the middle of a cycle, \<open>path\<close> being the positions visited so far.\<close>

definition mid_cycle ::
    "nat list \<Rightarrow> 'e list \<Rightarrow> nat list \<Rightarrow> nat list \<Rightarrow> 'e list \<Rightarrow> bool" where
  "mid_cycle q0 ev0 path q ev =
    (path \<noteq> [] \<and> distinct path \<and> set path \<subseteq> {..<length q0}
     \<and> (\<forall>k. Suc k < length path \<longrightarrow> q0 ! (path ! k) = path ! Suc k)
     \<and> length q = length q0 \<and> length ev = length q0 \<and> length ev0 = length q0
     \<and> (\<forall>i < length q0. if i \<in> set (butlast path) then q ! i = i \<and> ev ! i = ev0 ! (q0 ! i)
                        else q ! i = q0 ! i \<and> ev ! i = ev0 ! i))"

definition cycle_done :: "nat list \<Rightarrow> 'e list \<Rightarrow> nat set \<Rightarrow> nat list \<Rightarrow> 'e list \<Rightarrow> bool" where
  "cycle_done q0 ev0 C q ev =
    (C \<subseteq> {..<length q0} \<and> (!) q0 ` C = C \<and> length q = length q0 \<and> length ev = length q0
     \<and> (\<forall>i < length q0. if i \<in> C then q ! i = i \<and> ev ! i = ev0 ! (q0 ! i)
                        else q ! i = q0 ! i \<and> ev ! i = ev0 ! i))"

lemma path_image:
  assumes "path \<noteq> []" "\<forall>k. Suc k < length path \<longrightarrow> f (path ! k) = path ! Suc k" "f (last path) = hd path"
  shows "f ` set path = set path"
proof -
  obtain x xs where p: "path = x # xs" using assms(1) by (cases path) auto
  have "map f (butlast path) = tl path"
    by (rule nth_equalityI) (use assms(2) in \<open>auto simp: nth_butlast nth_tl\<close>)
  then have "f ` set (butlast path) = set (tl path)" by (metis set_map)
  moreover have "set path = insert (last path) (set (butlast path))"
    using append_butlast_last_id [OF assms(1)] by (metis Un_insert_right list.set(1,2) set_append sup_bot_right)
  ultimately have "f ` set path = insert (hd path) (set (tl path))" using assms(3) by simp
  then show ?thesis by (simp add: p)
qed

lemma butlast_snoc_path: "path \<noteq> [] \<Longrightarrow> set (butlast (path @ [x])) = insert (last path) (set (butlast path))"
  by (metis Un_insert_right append_butlast_last_id butlast_snoc list.set(1,2) set_append sup_bot_right)

lemma rotate_cycle_correct:
  assumes "perm_list q0" "mid_cycle q0 ev0 path q ev" "saved = ev0 ! hd path"
    and "length q0 - length path < fuel" "\<forall>i \<in> set path. q0 ! i \<noteq> i"
  shows "\<exists>q' ev' C. rotate_cycle fuel (hd path) saved (last path) q ev = Some (q', ev')
    \<and> set path \<subseteq> C \<and> (\<forall>i \<in> C. q0 ! i \<noteq> i) \<and> cycle_done q0 ev0 C q' ev'"
  using assms(2-)
proof (induction fuel arbitrary: path q ev)
  case 0
  then show ?case by simp
next
  case (Suc fuel)
  let ?c = "last path"
  note m = Suc.prems(1) [unfolded mid_cycle_def]
  have "?c \<in> set path" using m by simp
  moreover then have "?c < length q0" using m lessThan_iff by blast
  ultimately have c: "?c \<in> set path" "?c < length q0" .
  have "?c \<notin> set (butlast path)"
    using m by (metis append_butlast_last_id distinct_append disjoint_iff list.set_intros(1))
  then have qc: "q ! ?c = q0 ! ?c" using m c by auto
  let ?n = "q0 ! ?c"
  have n: "?n < length q0" using perm_list_range [OF assms(1) c(2)] .
  show ?case
  proof (cases "?n = hd path")
    case True
    have img: "(!) q0 ` set path = set path" using m True by (intro path_image) auto
    have "set path = insert ?c (set (butlast path))"
      using m append_butlast_last_id [of path] by (metis Un_insert_right list.set(1,2) set_append sup_bot_right)
    then have "cycle_done q0 ev0 (set path) (q[?c := ?c]) (ev[?c := saved])"
      using m c img True Suc.prems(2) by (auto simp: cycle_done_def nth_list_update)
    then show ?thesis using m c True qc Suc.prems(4) by (auto simp: Let_def)
  next
    case False
    have new: "?n \<notin> set path"
    proof
      assume "?n \<in> set path"
      then obtain j where j: "j < length path" "path ! j = ?n" by (auto simp: in_set_conv_nth)
      then obtain k where k: "j = Suc k" using False m by (cases j) (auto simp: hd_conv_nth)
      then have "q0 ! (path ! k) = q0 ! ?c" using m j by auto
      moreover have "path ! k < length q0" using m j k by (auto intro!: subsetD [of "set path" "{..<length q0}", simplified])
      ultimately have "path ! k = ?c" using perm_list_inj [OF assms(1)] c(2) by blast
      then have "k = length path - 1" using m j k
        by (metis Suc_lessD distinct_conv_nth last_conv_nth diff_less length_greater_0_conv zero_less_one)
      then show False using j k by simp
    qed
    have moves: "\<forall>i \<in> set (path @ [?n]). q0 ! i \<noteq> i"
      using Suc.prems(4) perm_list_inj [OF assms(1) n c(2)] new c(1) by auto
    let ?q = "q[?c := ?c]" and ?ev = "ev[?c := ev ! ?n]"
    have "?n \<notin> set (butlast path)" using new in_set_butlastD by fast
    then have evn: "ev ! ?n = ev0 ! ?n" using m n by auto
    have adj: "\<forall>k. Suc k < length (path @ [?n]) \<longrightarrow> q0 ! ((path @ [?n]) ! k) = (path @ [?n]) ! Suc k"
    proof (intro allI impI)
      fix k assume k: "Suc k < length (path @ [?n])"
      show "q0 ! ((path @ [?n]) ! k) = (path @ [?n]) ! Suc k"
      proof (cases "Suc k = length path")
        case True
        then have "k = length path - 1" by simp
        then show ?thesis using m True by (simp add: nth_append last_conv_nth)
      next
        case False
        then show ?thesis using m k by (simp add: nth_append)
      qed
    qed
    have ne: "path \<noteq> []" using m by simp
    have "mid_cycle q0 ev0 (path @ [?n]) ?q ?ev"
      using m n new c evn adj unfolding mid_cycle_def butlast_snoc_path [OF ne]
      by (auto simp: nth_list_update)
    moreover have "length q0 - length (path @ [?n]) < fuel"
    proof -
      have "length path = card (set path)" using m by (simp add: distinct_card)
      also have "\<dots> \<le> card {..<length q0}" using m by (intro card_mono) auto
      finally have "length path \<le> length q0" by simp
      moreover have "length path \<noteq> length q0"
      proof
        assume "length path = length q0"
        then have "set path = {..<length q0}"
          using m by (intro card_subset_eq) (auto simp: distinct_card)
        then show False using n new by auto
      qed
      ultimately show ?thesis using Suc.prems(3) by simp
    qed
    ultimately obtain q' ev' C where r: "rotate_cycle fuel (hd path) saved ?n ?q ?ev = Some (q', ev')"
        "set (path @ [?n]) \<subseteq> C" "\<forall>i \<in> C. q0 ! i \<noteq> i" "cycle_done q0 ev0 C q' ev'"
      using Suc.IH [of "path @ [?n]" ?q ?ev] Suc.prems(2) ne moves by auto
    then show ?thesis using m c n qc False by (auto simp: Let_def)
  qed
qed

section \<open>All cycles\<close>

definition rotated :: "nat list \<Rightarrow> 'e list \<Rightarrow> nat \<Rightarrow> nat list \<Rightarrow> 'e list \<Rightarrow> bool" where
  "rotated p orig s q ev =
    (perm_list q \<and> length q = length p \<and> length ev = length p \<and> (\<forall>i < s. i < length p \<longrightarrow> q ! i = i)
     \<and> (\<forall>i < length p. if q ! i = i then ev ! i = orig ! (p ! i) else q ! i = p ! i \<and> ev ! i = orig ! i))"

lemma rotated_cycle:
  assumes "rotated p orig s q ev" "s < length p" "cycle_done q ev C q' ev'" "s \<in> C" "q ! s \<noteq> s"
    and "\<forall>i \<in> C. q ! i \<noteq> i"
  shows "rotated p orig (Suc s) q' ev'"
proof -
  note r = assms(1) [unfolded rotated_def] and d = assms(3) [unfolded cycle_done_def]
  have inj: "inj_on ((!) q) {..<length p}" using r unfolding perm_list_def by metis
  have off: "q ! i \<notin> C" if "i < length p" "i \<notin> C" for i
  proof
    assume "q ! i \<in> C"
    then obtain j where "j \<in> C" "q ! j = q ! i" using d by (metis imageE)
    then have "j = i" using inj d r that(1) by (auto dest: inj_onD)
    then show False using \<open>j \<in> C\<close> that(2) by simp
  qed
  have q': "q' ! i = (if i \<in> C then i else q ! i)" if "i < length p" for i
    using d r that by auto
  have "inj_on ((!) q') {..<length p}"
  proof (rule inj_onI)
    fix i j assume ij: "i \<in> {..<length p}" "j \<in> {..<length p}" "q' ! i = q' ! j"
    then show "i = j" using q' [of i] q' [of j] off [of i] off [of j] inj
      by (auto split: if_splits dest: inj_onD)
  qed
  moreover have "\<forall>i < length p. q' ! i < length p"
    using q' r by (auto simp: perm_list_def)
  ultimately have "perm_list q'" using d r by (simp add: perm_list_def)
  moreover have "\<forall>i < Suc s. i < length p \<longrightarrow> q' ! i = i"
    using q' r assms(4) by (auto simp: less_Suc_eq)
  moreover have "if q' ! i = i then ev' ! i = orig ! (p ! i) else q' ! i = p ! i \<and> ev' ! i = orig ! i"
    if i: "i < length p" for i
  proof (cases "i \<in> C")
    case True
    then have qi: "q ! i = p ! i" using r i assms(6) by auto
    have "q ! i \<in> C" using True d by blast
    then have "q ! (q ! i) \<noteq> q ! i" "q ! i < length p" using assms(6) d r by auto
    then have "ev ! (q ! i) = orig ! (q ! i)" using r by auto
    moreover have "ev' ! i = ev ! (q ! i)" "q' ! i = i" using d r i True by auto
    ultimately show ?thesis using qi by simp
  next
    case False
    then have "q' ! i = q ! i" "ev' ! i = ev ! i" using d r i by auto
    then show ?thesis using r i by auto
  qed
  ultimately show ?thesis using d r by (simp add: rotated_def)
qed

lemma rotate_all_correct:
  assumes "rotated p orig s q ev"
  shows "\<exists>q' ev'. rotate_all [s..<length p] q ev = Some ev' \<and> rotated p orig (length p) q' ev'"
  using assms
proof (induction "length p - s" arbitrary: s q ev)
  case 0
  then show ?case by (auto simp: rotated_def)
next
  case (Suc k)
  then have s: "s < length p" by simp
  note r = Suc.prems [unfolded rotated_def]
  have starts: "[s..<length p] = s # [Suc s..<length p]" using s by (simp add: upt_conv_Cons)
  show ?case
  proof (cases "q ! s = s")
    case True
    then have "rotated p orig (Suc s) q ev" using r by (auto simp: rotated_def less_Suc_eq)
    then show ?thesis using Suc.hyps True by (simp add: starts)
  next
    case False
    have "mid_cycle q ev [s] q ev" using r s by (simp add: mid_cycle_def)
    moreover have "length q - length [s] < length q" using r s by (cases "length p") auto
    ultimately obtain q' ev' C where c: "rotate_cycle (length q) s (ev ! s) s q ev = Some (q', ev')"
        "s \<in> C" "\<forall>i \<in> C. q ! i \<noteq> i" "cycle_done q ev C q' ev'"
      using rotate_cycle_correct [of q ev "[s]" q ev "ev ! s" "length q"] r False by auto
    have "rotated p orig (Suc s) q' ev'"
      by (rule rotated_cycle [OF Suc.prems s c(4,2) False c(3)])
    then show ?thesis using Suc.hyps s r False c(1) by (simp add: starts)
  qed
qed

section \<open>The order of the indices\<close>

lemma sort_order_indices:
  "map snd (sort_order es) = sort_key (\<lambda>i. event_sort_key (es ! i)) [0..<length es]"
proof -
  let ?f = "\<lambda>i. event_sort_key (es ! i)"
  have enum: "map (\<lambda>(i, e). (ue_timestamp_ms e, i)) (enumerate 0 es) =
      map (\<lambda>i. (ue_timestamp_ms (es ! i), i)) [0..<length es]"
    by (rule nth_equalityI) (simp_all add: nth_enumerate_eq)
  have "sort_order es = map (\<lambda>i. (ue_timestamp_ms (es ! i), i)) (sort_key (\<lambda>i. (?f i, i)) [0..<length es])"
    unfolding sort_order_def enum sort_key_map by (simp add: event_sort_key_def)
  then have "map snd (sort_order es) = sort_key (\<lambda>i. (?f i, i)) [0..<length es]"
    by (simp add: comp_def)
  also have "\<dots> = sort_key ?f [0..<length es]"
  proof (rule sort_key_inj_key_eq)
    show "mset [0..<length es] = mset (sort_key ?f [0..<length es])" by simp
    show "inj_on (\<lambda>i. (?f i, i)) (set [0..<length es])" by (auto intro: inj_onI)
    show "sorted (map (\<lambda>i. (?f i, i)) (sort_key ?f [0..<length es]))"
      by (rule sort_key_stable) simp
  qed
  finally show ?thesis .
qed

text \<open>
  C6: The in-place sort always terminates inside the bounds of the slice and is the stable sort of
  the events by timestamp, path and source order: rotating the cycles of the index order moves every
  record exactly once to its place.
\<close>

theorem sort_usage_events_stable:
  "sort_usage_events es = Some (sort_key event_sort_key es)"
proof -
  let ?p = "sort_key (\<lambda>i. event_sort_key (es ! i)) [0..<length es]"
  have len: "length ?p = length es" by simp
  have "distinct ?p" by simp
  then have "inj_on ((!) ?p) {..<length ?p}" by (auto intro!: inj_onI simp: nth_eq_iff_index_eq)
  moreover have "\<forall>i < length ?p. ?p ! i < length ?p"
  proof (intro allI impI)
    fix i assume "i < length ?p"
    then have "?p ! i \<in> set ?p" by (rule nth_mem)
    then show "?p ! i < length ?p" by simp
  qed
  ultimately have perm: "perm_list ?p" by (simp add: perm_list_def)
  then have "rotated ?p es 0 ?p es" by (auto simp: rotated_def)
  then obtain q ev where r: "rotate_all [0..<length ?p] ?p es = Some ev" "rotated ?p es (length ?p) q ev"
    using rotate_all_correct by blast
  have "ev = map ((!) es) ?p"
    by (rule nth_equalityI) (use r(2) in \<open>auto simp: rotated_def\<close>)
  also have "\<dots> = sort_key event_sort_key (map ((!) es) [0..<length es])"
    by (simp add: sort_key_map)
  finally show ?thesis
    using r(1) by (simp add: sort_usage_events_def sort_order_indices map_nth Let_def)
qed

end
