(* ===== verification/UsageFilter.thy ===== *)
theory UsageFilter
  imports UsageMerge
begin

text \<open>
  The query predicates of \<open>src/usage/filter.rs\<close> with their per-query caches, and the two readers that
  apply them inside a time window: over one assembly (\<open>filtered_events\<close>) and over merged partitions
  (\<open>filtered_merged_positions\<close> of \<open>src/usage/merge.rs\<close>). Resolving a directory to its repository
  reads the file system, so it is the argument \<open>repo\<close>; paths are those of Unix.
\<close>

definition unfiled_project :: str where
  "unfiled_project = ''Unfiled''"

definition path_is_absolute :: "str \<Rightarrow> bool" where
  "path_is_absolute p = starts_with p ''/''"

definition starts_with_ignore_ascii_case :: "str \<Rightarrow> str \<Rightarrow> bool" where
  "starts_with_ignore_ascii_case haystack needle =
    (let n = length needle
     in n \<le> length haystack \<and> (n = length haystack \<or> n = 0 \<or> \<not> is_continuation (haystack ! n))
        \<and> eq_ignore_ascii_case (take n haystack) needle)"

definition project_tail :: "str \<Rightarrow> str" where
  "project_tail value =
    (let trimmed = trim_end_matches {CHR ''/'', CHR 0x5C} (trim value);
         tail0 = last_segment {CHR ''/'', CHR 0x5C, CHR '':''} trimmed;
         tail1 = unwrap_or tail0 (strip_suffix tail0 ''.git'');
         encoded = trim_matches {CHR ''-''} tail1
     in if starts_with tail1 ''-''
           \<and> (starts_with_ignore_ascii_case encoded ''users-''
              \<or> starts_with_ignore_ascii_case encoded ''home-'')
        then last_segment {CHR ''-''} encoded
        else tail1)"

definition usage_project_key :: "str \<Rightarrow> str" where
  "usage_project_key value = project_tail value"

type_synonym project_cache = "(str \<times> str) list"

definition usage_project_matches_precomputed ::
    "(str \<Rightarrow> str option) \<Rightarrow> str \<Rightarrow> str \<Rightarrow> str \<Rightarrow> project_grouping \<Rightarrow> project_cache
     \<Rightarrow> bool \<times> project_cache" where
  "usage_project_matches_precomputed repo candidate project_raw project_key grouping cache =
    (if eq_ignore_ascii_case candidate project_raw then (True, cache)
     else case grouping of
       Flat \<Rightarrow> (eq_ignore_ascii_case (project_tail candidate) project_key, cache)
     | Repository \<Rightarrow>
         (case map_of cache candidate of
            Some cached \<Rightarrow> (eq_ignore_ascii_case cached project_key, cache)
          | None \<Rightarrow>
              (let computed = (if path_is_absolute candidate
                    then unwrap_or unfiled_project (repo candidate)
                    else project_tail candidate)
               in (eq_ignore_ascii_case computed project_key, (candidate, computed) # cache))))"

definition usage_project_matches ::
    "(str \<Rightarrow> str option) \<Rightarrow> str \<Rightarrow> str \<Rightarrow> project_grouping \<Rightarrow> project_cache
     \<Rightarrow> bool \<times> project_cache" where
  "usage_project_matches repo candidate project grouping cache =
    usage_project_matches_precomputed repo candidate project (usage_project_key project) grouping cache"

record filter_plan =
  fp_grouping :: project_grouping
  fp_include_reviews :: bool
  fp_project_raw :: "str option"
  fp_project_key :: "str option"
  fp_session_set :: "(str \<times> str) set option"
  fp_project_cache :: project_cache

definition plan_new :: "usage_query \<Rightarrow> filter_plan" where
  "plan_new q =
    \<lparr>fp_grouping = uq_project_grouping q, fp_include_reviews = uq_include_reviews q,
     fp_project_raw = uq_project q, fp_project_key = map_option usage_project_key (uq_project q),
     fp_session_set = uq_session_keys q, fp_project_cache = []\<rparr>"

text \<open>The project test of \<open>matches\<close>, which may extend the cache, comes before the session test.\<close>

definition plan_matches ::
    "(str \<Rightarrow> str option) \<Rightarrow> filter_plan \<Rightarrow> filter_fields \<Rightarrow> bool \<times> filter_plan" where
  "plan_matches repo plan ev =
    (if \<not> (fp_include_reviews plan \<or> \<not> ff_permission_review ev) then (False, plan)
     else
       let (project_ok, plan1) =
         (case fp_project_raw plan of
            None \<Rightarrow> (True, plan)
          | Some project \<Rightarrow>
              (case fp_project_key plan of
                 None \<Rightarrow> (False, plan)
               | Some key \<Rightarrow>
                   (case ff_project ev of
                      None \<Rightarrow> (False, plan)
                    | Some candidate \<Rightarrow>
                        (let (b, cache) = usage_project_matches_precomputed repo candidate project key
                               (fp_grouping plan) (fp_project_cache plan)
                         in (b, plan\<lparr>fp_project_cache := cache\<rparr>)))))
       in if \<not> project_ok then (False, plan1)
          else (is_none_or (\<lambda>keys. is_some_and (\<lambda>sid. (ff_source ev, sid) \<in> keys)
                  (ff_session_id ev)) (fp_session_set plan1), plan1))"

text \<open>\<open>Iterator::filter\<close> with the plan as its captured, mutable state.\<close>

fun filter_st :: "('a \<Rightarrow> filter_plan \<Rightarrow> bool \<times> filter_plan) \<Rightarrow> 'a list \<Rightarrow> filter_plan \<Rightarrow> 'a list" where
  "filter_st m [] plan = []"
| "filter_st m (x # xs) plan =
    (let (b, plan') = m x plan in if b then x # filter_st m xs plan' else filter_st m xs plan')"

definition filtered_events :: "(str \<Rightarrow> str option) \<Rightarrow> 'f compact \<Rightarrow> usage_query \<Rightarrow> nat list" where
  "filtered_events repo a q =
    (let start = (case uq_since_ms q of None \<Rightarrow> 0 | Some since \<Rightarrow> asm_lower_bound a since);
         stop = (case uq_until_ms q of None \<Rightarrow> asm_len a | Some til \<Rightarrow> asm_upper_bound a til start);
         start' = min start (asm_len a);
         stop' = min (max stop start') (asm_len a)
     in filter_st (\<lambda>index plan. plan_matches repo plan (asm_filter_fields a index))
          [start'..<stop'] (plan_new q))"

definition pos_timestamp :: "'f compact list \<Rightarrow> merged_pos \<Rightarrow> u64" where
  "pos_timestamp parts pos = asm_timestamp_ms (parts ! unat (mp_part pos)) (unat (mp_index pos))"

definition merged_lower_bound :: "'f compact list \<Rightarrow> merged_pos list \<Rightarrow> u64 \<Rightarrow> nat" where
  "merged_lower_bound parts order since = partition_point (\<lambda>pos. pos_timestamp parts pos < since) order"

definition merged_upper_bound :: "'f compact list \<Rightarrow> merged_pos list \<Rightarrow> u64 \<Rightarrow> nat \<Rightarrow> nat" where
  "merged_upper_bound parts order til start =
    start + partition_point (\<lambda>pos. pos_timestamp parts pos < til) (drop start order)"

definition filtered_merged_positions ::
    "(str \<Rightarrow> str option) \<Rightarrow> 'f compact list \<Rightarrow> merged_pos list \<Rightarrow> usage_query \<Rightarrow> merged_pos list" where
  "filtered_merged_positions repo parts order q =
    (let start = (case uq_since_ms q of None \<Rightarrow> 0 | Some since \<Rightarrow> merged_lower_bound parts order since);
         stop = (case uq_until_ms q of None \<Rightarrow> length order
                 | Some til \<Rightarrow> merged_upper_bound parts order til start);
         start' = min start (length order);
         stop' = min (max stop start') (length order)
     in filter_st (\<lambda>pos plan. plan_matches repo plan
            (asm_filter_fields (parts ! unat (mp_part pos)) (unat (mp_index pos))))
          (take (stop' - start') (drop start' order)) (plan_new q))"

section \<open>The predicate the plan computes\<close>

text \<open>The project a candidate belongs to, as the repository grouping resolves it.\<close>

definition resolved_project :: "(str \<Rightarrow> str option) \<Rightarrow> str \<Rightarrow> str" where
  "resolved_project repo candidate =
    (if path_is_absolute candidate then unwrap_or unfiled_project (repo candidate)
     else project_tail candidate)"

definition project_selected :: "(str \<Rightarrow> str option) \<Rightarrow> project_grouping \<Rightarrow> str \<Rightarrow> str \<Rightarrow> bool" where
  "project_selected repo grouping project candidate =
    (eq_ignore_ascii_case candidate project \<or>
     eq_ignore_ascii_case
       (case grouping of Flat \<Rightarrow> project_tail candidate | Repository \<Rightarrow> resolved_project repo candidate)
       (project_tail project))"

definition query_selects :: "(str \<Rightarrow> str option) \<Rightarrow> usage_query \<Rightarrow> filter_fields \<Rightarrow> bool" where
  "query_selects repo q ev =
    ((uq_include_reviews q \<or> \<not> ff_permission_review ev)
     \<and> is_none_or (\<lambda>project. is_some_and (project_selected repo (uq_project_grouping q) project)
          (ff_project ev)) (uq_project q)
     \<and> is_none_or (\<lambda>keys. is_some_and (\<lambda>sid. (ff_source ev, sid) \<in> keys) (ff_session_id ev))
          (uq_session_keys q))"

definition in_window :: "usage_query \<Rightarrow> u64 \<Rightarrow> bool" where
  "in_window q ts =
    (is_none_or (\<lambda>since. since \<le> ts) (uq_since_ms q) \<and> is_none_or (\<lambda>til. ts < til) (uq_until_ms q))"

text \<open>A plan built for \<open>q\<close> whose cache holds only what the resolver answers.\<close>

definition plan_for :: "(str \<Rightarrow> str option) \<Rightarrow> usage_query \<Rightarrow> filter_plan \<Rightarrow> bool" where
  "plan_for repo q plan =
    (plan\<lparr>fp_project_cache := []\<rparr> = plan_new q
     \<and> (\<forall>(c, v) \<in> set (fp_project_cache plan). v = resolved_project repo c))"

lemma plan_for_new: "plan_for repo q (plan_new q)"
  by (simp add: plan_for_def plan_new_def)

lemma plan_for_fields:
  assumes "plan_for repo q plan"
  shows "fp_grouping plan = uq_project_grouping q" "fp_include_reviews plan = uq_include_reviews q"
    "fp_project_raw plan = uq_project q" "fp_project_key plan = map_option project_tail (uq_project q)"
    "fp_session_set plan = uq_session_keys q"
    "\<And>c v. (c, v) \<in> set (fp_project_cache plan) \<Longrightarrow> v = resolved_project repo c"
proof -
  have eq: "plan\<lparr>fp_project_cache := []\<rparr> = plan_new q" using assms by (simp add: plan_for_def)
  from arg_cong [OF eq, of fp_grouping] arg_cong [OF eq, of fp_include_reviews]
    arg_cong [OF eq, of fp_project_raw] arg_cong [OF eq, of fp_project_key]
    arg_cong [OF eq, of fp_session_set]
  show "fp_grouping plan = uq_project_grouping q" "fp_include_reviews plan = uq_include_reviews q"
    "fp_project_raw plan = uq_project q" "fp_project_key plan = map_option project_tail (uq_project q)"
    "fp_session_set plan = uq_session_keys q"
    by (simp_all add: plan_new_def usage_project_key_def [abs_def])
  show "\<And>c v. (c, v) \<in> set (fp_project_cache plan) \<Longrightarrow> v = resolved_project repo c"
    using assms by (auto simp: plan_for_def)
qed

lemma plan_for_cache:
  "plan_for repo q plan \<Longrightarrow> \<forall>(c, v) \<in> set cache. v = resolved_project repo c \<Longrightarrow>
    plan_for repo q (plan\<lparr>fp_project_cache := cache\<rparr>)"
  by (simp add: plan_for_def)

lemma project_matches_correct:
  assumes "\<And>c v. (c, v) \<in> set cache \<Longrightarrow> v = resolved_project repo c"
  shows "fst (usage_project_matches_precomputed repo cand project (project_tail project) g cache) =
      project_selected repo g project cand
    \<and> (\<forall>(c, v) \<in> set (snd (usage_project_matches_precomputed repo cand project (project_tail project) g cache)).
        v = resolved_project repo c)"
proof (cases "map_of cache cand")
  case None
  then show ?thesis
    using assms
    by (auto simp: usage_project_matches_precomputed_def project_selected_def resolved_project_def
        Let_def split: project_grouping.splits)
next
  case (Some v)
  then have "v = resolved_project repo cand" using assms map_of_SomeD by fastforce
  then show ?thesis
    using assms Some
    by (auto simp: usage_project_matches_precomputed_def project_selected_def
        split: project_grouping.splits)
qed

lemma plan_matches_correct:
  assumes "plan_for repo q plan"
  shows "fst (plan_matches repo plan ev) = query_selects repo q ev
    \<and> plan_for repo q (snd (plan_matches repo plan ev))"
proof (cases "uq_project q")
  case None
  then show ?thesis
    using assms by (simp add: plan_matches_def plan_for_fields [OF assms] query_selects_def)
next
  case (Some project)
  show ?thesis
  proof (cases "ff_project ev")
    case None
    then show ?thesis using Some assms
      by (simp add: plan_matches_def plan_for_fields [OF assms] query_selects_def)
  next
    case (Some cand)
    let ?m = "usage_project_matches_precomputed repo cand project (project_tail project)
        (uq_project_grouping q) (fp_project_cache plan)"
    have m: "fst ?m = project_selected repo (uq_project_grouping q) project cand"
      "\<forall>(c, v) \<in> set (snd ?m). v = resolved_project repo c"
      using project_matches_correct [OF plan_for_fields(6) [OF assms]] by blast+
    show ?thesis
      using plan_for_cache [OF assms m(2)] m(1) Some \<open>uq_project q = Some project\<close> assms
      by (simp add: plan_matches_def plan_for_fields(1-5) [OF assms] query_selects_def case_prod_beta)
  qed
qed

lemma filter_st_correct:
  assumes "plan_for repo q plan"
  shows "filter_st (\<lambda>x plan. plan_matches repo plan (fs x)) xs plan =
    filter (\<lambda>x. query_selects repo q (fs x)) xs"
  using assms
proof (induction xs arbitrary: plan)
  case (Cons x xs)
  then show ?case
    using plan_matches_correct [OF Cons.prems, of "fs x"] by (simp add: case_prod_beta)
qed simp

section \<open>Windows of sorted rows\<close>

lemma window_slice:
  fixes f :: "'a \<Rightarrow> u64"
  assumes sorted: "sorted (map f xs)"
    and start: "start = (case since of None \<Rightarrow> 0 | Some s \<Rightarrow> partition_point (\<lambda>x. f x < s) xs)"
    and stop: "stop = (case til of None \<Rightarrow> length xs
        | Some u \<Rightarrow> start + partition_point (\<lambda>x. f x < u) (drop start xs))"
  shows "start \<le> length xs \<and> start \<le> stop \<and> stop \<le> length xs
    \<and> take (stop - start) (drop start xs) =
      filter (\<lambda>x. is_none_or (\<lambda>s. s \<le> f x) since \<and> is_none_or (\<lambda>u. f x < u) til) xs"
proof -
  have s: "start \<le> length xs"
    unfolding start by (auto simp: partition_point_le split: option.splits)
  have d: "drop start xs = filter (\<lambda>x. is_none_or (\<lambda>s. s \<le> f x) since) xs"
    unfolding start by (cases since) (simp_all add: drop_partition_point dropWhile_filter_sorted [OF sorted])
  have e: "start \<le> stop" "stop \<le> length xs"
    using s partition_point_le [of _ "drop start xs"] unfolding stop
    by (auto split: option.splits simp: le_diff_conv2 add.commute)
  have ds: "sorted (map f (drop start xs))"
    using sorted by (simp add: drop_map [symmetric])
  have "take (stop - start) (drop start xs) =
      filter (\<lambda>x. is_none_or (\<lambda>u. f x < u) til) (drop start xs)"
    by (cases til) (simp_all add: stop take_partition_point takeWhile_filter_sorted [OF ds])
  then show ?thesis using s e unfolding d by (simp add: conj_commute)
qed

definition event_fields :: "'f event \<Rightarrow> filter_fields" where
  "event_fields e = \<lparr>ff_source = ue_source e, ff_permission_review = ue_permission_review e,
     ff_project = ue_project e, ff_session_id = ue_session_id e\<rparr>"

definition event_selected :: "(str \<Rightarrow> str option) \<Rightarrow> usage_query \<Rightarrow> 'f event \<Rightarrow> bool" where
  "event_selected repo q e = (in_window q (ue_timestamp_ms e) \<and> query_selects repo q (event_fields e))"

lemma sorted_key_timestamps:
  "sorted (map event_sort_key es) \<Longrightarrow> sorted (map ue_timestamp_ms es)"
  by (simp add: sorted_wrt_map event_sort_key_def less_eq_prod_def)
    (metis (mono_tags, lifting) less_imp_le sorted_wrt_mono_rel)

lemma filtered_events_correct:
  assumes a: "compact_of a es" and sorted: "sorted (map ue_timestamp_ms es)"
  shows "map (compact_view a) (filtered_events repo a q) = filter (event_selected repo q) es
    \<and> (\<forall>k \<in> set (filtered_events repo a q). k < length es)"
proof -
  define start where "start = (case uq_since_ms q of None \<Rightarrow> 0
      | Some s \<Rightarrow> partition_point (\<lambda>x. ue_timestamp_ms x < s) es)"
  define stop where "stop = (case uq_until_ms q of None \<Rightarrow> length es
      | Some u \<Rightarrow> start + partition_point (\<lambda>x. ue_timestamp_ms x < u) (drop start es))"
  note w = window_slice [OF sorted start_def stop_def]
  have "(case uq_since_ms q of None \<Rightarrow> 0 | Some since \<Rightarrow> asm_lower_bound a since) = start"
    by (simp add: start_def compact_of_lower_bound [OF a sorted] split: option.splits)
  moreover have "(case uq_until_ms q of None \<Rightarrow> asm_len a | Some til \<Rightarrow> asm_upper_bound a til start) = stop"
    using w by (simp add: stop_def compact_of_upper_bound [OF a sorted] compact_of_len [OF a]
        split: option.splits)
  ultimately have "filtered_events repo a q =
      filter_st (\<lambda>index plan. plan_matches repo plan (asm_filter_fields a index)) [start..<stop] (plan_new q)"
    using w by (simp add: filtered_events_def compact_of_len [OF a] Let_def max_def)
  also have "\<dots> = filter (\<lambda>k. query_selects repo q (asm_filter_fields a k)) [start..<stop]"
    by (rule filter_st_correct [OF plan_for_new])
  also have "\<dots> = filter (\<lambda>k. query_selects repo q (event_fields (es ! k))) [start..<stop]"
    using w by (intro filter_cong refl) (simp add: compact_of_filter_fields [OF a] event_fields_def)
  finally have fe: "filtered_events repo a q =
      filter (\<lambda>k. query_selects repo q (event_fields (es ! k))) [start..<stop]" .
  have range: "\<forall>k \<in> set (filtered_events repo a q). k < length es"
    using w by (auto simp: fe)
  have "map (compact_view a) (filtered_events repo a q) = map ((!) es) (filtered_events repo a q)"
    using range compact_of_view [OF a] by simp
  also have "\<dots> = filter (query_selects repo q \<circ> event_fields) (map ((!) es) [start..<stop])"
    by (simp add: fe filter_map comp_def)
  also have "map ((!) es) [start..<stop] = take (stop - start) (drop start es)"
    using w by (intro map_nth_slice) auto
  also have "filter (query_selects repo q \<circ> event_fields) \<dots> = filter (event_selected repo q) es"
    using w by (simp add: event_selected_def [abs_def] in_window_def conj_commute comp_def)
  finally show ?thesis using range by blast
qed

text \<open>The same over merged partitions, whose order sorts the timestamps.\<close>

definition merged_event :: "'f event list list \<Rightarrow> merged_pos \<Rightarrow> 'f event" where
  "merged_event ess pos = ess ! fst (pos_pair pos) ! snd (pos_pair pos)"

lemma filtered_merged_correct:
  assumes fit: "asm_runs.fits parts ess"
  shows "map (merged_event ess) (filtered_merged_positions repo parts (build_merged_order parts) q) =
      filter (event_selected repo q) (sort_key event_sort_key (concat ess))
    \<and> set (filtered_merged_positions repo parts (build_merged_order parts) q)
      \<subseteq> set (build_merged_order parts)"
proof -
  let ?order = "build_merged_order parts"
  have rows: "map (merged_event ess) ?order = sort_key event_sort_key (concat ess)"
    using asm_runs.merged_rows [OF fit] by (simp add: merged_event_def [abs_def] build_merged_order_def)
  have at: "rows_at \<in> set ?order \<Longrightarrow> fst (pos_pair rows_at) < length ess
      \<and> snd (pos_pair rows_at) < length (ess ! fst (pos_pair rows_at))" for rows_at
    using asm_runs.merged_pos_range [OF fit] by (simp add: build_merged_order_def)
  have ts: "pos_timestamp parts pos = ue_timestamp_ms (merged_event ess pos)" if "pos \<in> set ?order" for pos
    using at [OF that] compact_of_timestamp [OF asm_runs.fits_nth [OF fit]]
    by (simp add: pos_timestamp_def merged_event_def pos_pair_def)
  have ff: "asm_filter_fields (parts ! unat (mp_part pos)) (unat (mp_index pos)) =
      event_fields (merged_event ess pos)" if "pos \<in> set ?order" for pos
    using at [OF that] compact_of_filter_fields [OF asm_runs.fits_nth [OF fit]]
    by (simp add: merged_event_def pos_pair_def event_fields_def)
  have sorted: "sorted (map (pos_timestamp parts) ?order)"
  proof -
    have "map (pos_timestamp parts) ?order = map ue_timestamp_ms (map (merged_event ess) ?order)"
      using ts by simp
    then show ?thesis using sorted_key_timestamps [of "map (merged_event ess) ?order"]
      by (simp add: rows)
  qed
  define start where "start = (case uq_since_ms q of None \<Rightarrow> 0
      | Some s \<Rightarrow> partition_point (\<lambda>x. pos_timestamp parts x < s) ?order)"
  define stop where "stop = (case uq_until_ms q of None \<Rightarrow> length ?order
      | Some u \<Rightarrow> start + partition_point (\<lambda>x. pos_timestamp parts x < u) (drop start ?order))"
  note w = window_slice [OF sorted start_def stop_def]
  let ?slice = "filter (\<lambda>pos. in_window q (pos_timestamp parts pos)) ?order"
  have "filtered_merged_positions repo parts ?order q =
      filter_st (\<lambda>pos plan. plan_matches repo plan
        (asm_filter_fields (parts ! unat (mp_part pos)) (unat (mp_index pos)))) ?slice (plan_new q)"
    using w unfolding filtered_merged_positions_def Let_def merged_lower_bound_def merged_upper_bound_def
      start_def [symmetric] stop_def [symmetric]
    by (simp add: max_absorb1 in_window_def)
  also have "\<dots> = filter (\<lambda>pos. query_selects repo q
        (asm_filter_fields (parts ! unat (mp_part pos)) (unat (mp_index pos)))) ?slice"
    by (rule filter_st_correct [OF plan_for_new])
  also have "\<dots> = filter (event_selected repo q \<circ> merged_event ess) ?order"
    unfolding filter_filter by (intro filter_cong refl) (auto simp: ff ts event_selected_def)
  finally show ?thesis by (simp add: rows [symmetric] filter_map)
qed

text \<open>
  A query over one assembly of sorted events selects exactly the events inside its half-open time
  window that pass its review, project and session predicates, in order: the binary searches and the
  project cache, which lives across events, never change the answer.
\<close>

theorem filtered_events_select:
  assumes "\<And>d. mset (iter d) = mset d" "sorted (map ue_timestamp_ms es)"
  shows "let a = compact_new iter es previous
    in map (compact_view a) (filtered_events repo a q) =
       filter (\<lambda>e. in_window q (ue_timestamp_ms e) \<and> query_selects repo q (event_fields e)) es"
  using filtered_events_correct [OF compact_of_new [OF assms(1)] assms(2)]
  by (simp add: event_selected_def [abs_def])

text \<open>
  C10: A combined query over merged partitions selects exactly what the same query selects from one
  assembly holding the stably sorted concatenation of the partitions.
\<close>

theorem merged_query_agrees:
  assumes "\<And>d. mset (iter d) = mset d"
    and "\<forall>es \<in> set ess. sorted (map event_sort_key es) \<and> length es \<le> 2 ^ 32" "length ess \<le> 2 ^ 32"
  shows "let parts = map (\<lambda>es. compact_new iter es None) ess;
      whole = compact_new iter (sort_key event_sort_key (concat ess)) None
    in map (\<lambda>pos. compact_view (parts ! unat (mp_part pos)) (unat (mp_index pos)))
         (filtered_merged_positions repo parts (build_merged_order parts) q) =
       map (compact_view whole) (filtered_events repo whole q)"
proof -
  let ?parts = "map (\<lambda>es. compact_new iter es None) ess"
  let ?fm = "filtered_merged_positions repo ?parts (build_merged_order ?parts) q"
  have fit: "asm_runs.fits ?parts ess"
    using assms(2,3) compact_parts [OF assms(1)] by (simp add: asm_runs.fits_def)
  note fm = filtered_merged_correct [OF fit, of repo q]
  have "compact_view (?parts ! unat (mp_part pos)) (unat (mp_index pos)) = merged_event ess pos"
    if "pos \<in> set ?fm" for pos
  proof -
    have "pos \<in> set (merge_order asm_len asm_sort_key ?parts)"
      using that fm by (auto simp: build_merged_order_def)
    from asm_runs.merged_pos_range [OF fit this] show ?thesis
      using compact_of_view [OF asm_runs.fits_nth [OF fit]] by (simp add: merged_event_def pos_pair_def)
  qed
  then have "map (\<lambda>pos. compact_view (?parts ! unat (mp_part pos)) (unat (mp_index pos))) ?fm =
      map (merged_event ess) ?fm" by (intro map_cong refl)
  moreover have "sorted (map ue_timestamp_ms (sort_key event_sort_key (concat ess)))"
    by (rule sorted_key_timestamps) simp
  ultimately show ?thesis
    using fm filtered_events_correct [OF compact_of_new [OF assms(1)], of "sort_key event_sort_key (concat ess)"]
    by (simp add: Let_def)
qed

definition sample_query :: usage_query where
  "sample_query = \<lparr>uq_source = None, uq_project = Some ''memex'', uq_project_grouping = Flat,
     uq_session_keys = None, uq_since_ms = Some 2, uq_until_ms = Some 9, uq_cost_mode = CAuto,
     uq_include_events = True, uq_include_reviews = False, uq_cache_path = None, uq_memo_ttl_ms = 0\<rparr>"

lemma sample_query_selects:
  "query_selects repo sample_query (event_fields (sample_event src path ts ord)) = True"
  "in_window sample_query ts = (2 \<le> ts \<and> ts < 9)"
proof -
  have "project_tail ''memex'' = ''memex''" "project_tail ''/p/memex'' = ''memex''"
    by code_simp+
  then show "query_selects repo sample_query (event_fields (sample_event src path ts ord)) = True"
    by (simp add: query_selects_def sample_query_def event_fields_def sample_event_def
        project_selected_def)
qed (simp add: in_window_def sample_query_def)

lemma filtered_events_select_witness:
  "let a = compact_new rev [sample_event ''claude'' ''a'' 1 0, sample_event ''codex'' ''b'' 2 0] None
   in map (compact_view a) (filtered_events (\<lambda>_. None) a sample_query) = [sample_event ''codex'' ''b'' 2 0]"
  using filtered_events_select [of rev "[sample_event ''claude'' ''a'' 1 0, sample_event ''codex'' ''b'' 2 0]"
      None "\<lambda>_. None" sample_query]
  by (simp add: sample_query_selects word_le_nat_alt word_less_nat_alt)

lemma merged_query_agrees_witness:
  "let parts = map (\<lambda>es. compact_new rev es None)
       [[sample_event ''claude'' ''a'' 2 0], [sample_event ''codex'' ''b'' 1 0]];
     whole = compact_new rev [sample_event ''codex'' ''b'' 1 0, sample_event ''claude'' ''a'' 2 0] None
   in map (\<lambda>pos. compact_view (parts ! unat (mp_part pos)) (unat (mp_index pos)))
        (filtered_merged_positions (\<lambda>_. None) parts (build_merged_order parts) sample_query) =
      map (compact_view whole) (filtered_events (\<lambda>_. None) whole sample_query)"
  using merged_query_agrees [of rev "[[sample_event ''claude'' ''a'' 2 0], [sample_event ''codex'' ''b'' 1 0]]"
      "\<lambda>_. None" sample_query]
  by (simp add: less_eq_prod_def word_le_nat_alt word_less_nat_alt)

end
