(* ===== verification/UsagePricing.thy ===== *)
theory UsagePricing
  imports UsageFilter
begin

text \<open>
  The price catalog, the cost of an event and the estimate of wasted prompt caching of
  \<open>src/usage/pricing.rs\<close>. Token and nano-USD arithmetic is exact, at the widths the code uses. The
  \<open>f64\<close> operations the code calls are the fields of \<open>f64_ops\<close>: no theorem below assumes a law of
  them. Counters incremented with \<open>+=\<close> wrap.
\<close>

record 'f f64_ops =
  f_zero :: 'f
  f_add :: "'f \<Rightarrow> 'f \<Rightarrow> 'f"
  f_sub :: "'f \<Rightarrow> 'f \<Rightarrow> 'f"
  f_mul :: "'f \<Rightarrow> 'f \<Rightarrow> 'f"
  f_div :: "'f \<Rightarrow> 'f \<Rightarrow> 'f"
  f_max :: "'f \<Rightarrow> 'f \<Rightarrow> 'f"
  f_le :: "'f \<Rightarrow> 'f \<Rightarrow> bool"
  f_is_finite :: "'f \<Rightarrow> bool"
  f_round_u64 :: "'f \<Rightarrow> u64"
  f_of_u64 :: "u64 \<Rightarrow> 'f"
  f_of_u128 :: "u128 \<Rightarrow> 'f"

section \<open>The catalog\<close>

record rates =
  rt_input :: u64
  rt_cache_read :: u64
  rt_cache_write_5m :: u64
  rt_cache_write_1h :: u64
  rt_output :: u64

definition price_catalog_id :: str where
  "price_catalog_id = ''official-api-prices-2026-07-15''"

definition usd_per_million :: "u64 \<Rightarrow> u64" where
  "usd_per_million value_milli_usd = value_milli_usd * 1000000"

definition openai_rates :: "u64 \<Rightarrow> u64 \<Rightarrow> u64 \<Rightarrow> rates" where
  "openai_rates inp cached out =
    \<lparr>rt_input = usd_per_million inp, rt_cache_read = usd_per_million cached,
     rt_cache_write_5m = usd_per_million inp, rt_cache_write_1h = usd_per_million inp,
     rt_output = usd_per_million out\<rparr>"

definition claude_rates :: "u64 \<Rightarrow> u64 \<Rightarrow> u64 \<Rightarrow> u64 \<Rightarrow> u64 \<Rightarrow> rates" where
  "claude_rates inp write_5m write_1h rd out =
    \<lparr>rt_input = usd_per_million inp, rt_cache_read = usd_per_million rd,
     rt_cache_write_5m = usd_per_million write_5m, rt_cache_write_1h = usd_per_million write_1h,
     rt_output = usd_per_million out\<rparr>"

definition exact_or_snapshot :: "str \<Rightarrow> str \<Rightarrow> bool" where
  "exact_or_snapshot model base =
    (model = base \<or>
     is_some_and (\<lambda>suffix. starts_with suffix ''-20''
        \<and> list_all (\<lambda>c. is_ascii_digit c \<or> c = CHR ''-'') (drop 1 suffix))
       (strip_prefix model base))"

text \<open>The two vendors' blocks of early returns, over the test of a catalog name.\<close>

definition openai_catalog :: "(str \<Rightarrow> bool) \<Rightarrow> rates option" where
  "openai_catalog eos =
    (if eos ''gpt-5.5'' then Some (openai_rates 5000 500 30000)
     else if eos ''gpt-5.4'' then Some (openai_rates 2500 250 15000)
     else if eos ''gpt-5.4-mini'' then Some (openai_rates 750 75 4500)
     else if eos ''gpt-5.3-codex'' \<or> eos ''gpt-5.2-codex'' then Some (openai_rates 1750 175 14000)
     else if eos ''gpt-5-codex'' \<or> eos ''gpt-5'' then Some (openai_rates 1250 125 10000)
     else if eos ''gpt-4o'' then Some (openai_rates 2500 1250 10000)
     else if eos ''gpt-4o-mini'' then Some (openai_rates 150 75 600)
     else None)"

definition anthropic_catalog :: "(str \<Rightarrow> bool) \<Rightarrow> rates option" where
  "anthropic_catalog eos =
    (if list_ex eos
        [''claude-opus-4-8'', ''claude-opus-4-7'', ''claude-opus-4-6'', ''claude-opus-4-5'']
     then Some (claude_rates 5000 6250 10000 500 25000)
     else if eos ''claude-opus-4-1'' \<or> eos ''claude-opus-4''
     then Some (claude_rates 15000 18750 30000 1500 75000)
     else if eos ''claude-sonnet-5'' then Some (claude_rates 2000 2500 4000 200 10000)
     else if list_ex eos [''claude-sonnet-4-6'', ''claude-sonnet-4-5'', ''claude-sonnet-4'']
     then Some (claude_rates 3000 3750 6000 300 15000)
     else if eos ''claude-haiku-4-5'' then Some (claude_rates 1000 1250 2000 100 5000)
     else None)"

definition rates_for :: "str option \<Rightarrow> str \<Rightarrow> rates option" where
  "rates_for provider0 model0 =
    (let model = to_ascii_lowercase (trim model0);
         provider = to_ascii_lowercase (trim (unwrap_or [] provider0));
         openai = (provider = [] \<or> contains_sub provider ''openai'' \<or> contains_sub provider ''codex''
           \<or> contains_sub provider ''github-copilot'');
         anthropic = (provider = [] \<or> contains_sub provider ''anthropic'')
     in or_else (if openai then openai_catalog (exact_or_snapshot model) else None)
          (if anthropic then anthropic_catalog (exact_or_snapshot model) else None))"

type_synonym rate_cache = "(str option \<times> str \<times> rates option) list"

fun cache_find :: "rate_cache \<Rightarrow> str option \<Rightarrow> str \<Rightarrow> rates option option" where
  "cache_find [] provider model = None"
| "cache_find ((p, m, r) # rest) provider model =
    (if p = provider \<and> m = model then Some r else cache_find rest provider model)"

definition cache_rates_for :: "str option \<Rightarrow> str \<Rightarrow> rate_cache \<Rightarrow> rates option \<times> rate_cache" where
  "cache_rates_for provider model cache =
    (case cache_find cache provider model of
       Some r \<Rightarrow> (r, cache)
     | None \<Rightarrow> (let r = rates_for provider model in (r, cache @ [(provider, model, r)])))"

section \<open>The cost of an event\<close>

definition w128 :: "u64 \<Rightarrow> u128" where
  "w128 x = ucast x"

text \<open>\<open>u64::try_from\<close> on a \<open>u128\<close>.\<close>

definition u64_try_from :: "u128 \<Rightarrow> u64 option" where
  "u64_try_from x = (if unat x < 2 ^ 64 then Some (ucast x) else None)"

definition calculated_cost_nanos_cached ::
    "'f event \<Rightarrow> rate_cache \<Rightarrow> u64 option \<times> rate_cache" where
  "calculated_cost_nanos_cached e cache =
    (case ue_model e of
       None \<Rightarrow> (None, cache)
     | Some model \<Rightarrow>
        (case cache_rates_for (ue_provider e) model cache of
           (None, cache') \<Rightarrow> (None, cache')
         | (Some r, cache') \<Rightarrow>
            (let t = ue_tokens e;
                 write_1h = min (tb_cache_write_1h t) (tb_cache_write t);
                 write_5m = sat_sub (tb_cache_write t) write_1h;
                 total = w128 (tb_uncached_input t) * w128 (rt_input r)
                   + w128 (tb_cache_read t) * w128 (rt_cache_read r)
                   + w128 write_5m * w128 (rt_cache_write_5m r)
                   + w128 write_1h * w128 (rt_cache_write_1h r)
                   + w128 (tb_output t) * w128 (rt_output r)
             in (u64_try_from (total div 1000000), cache'))))"

definition source_cost_nanos :: "'f f64_ops \<Rightarrow> 'f event \<Rightarrow> u64 option" where
  "source_cost_nanos F e =
    (case ue_source_cost_usd e of
       None \<Rightarrow> None
     | Some v \<Rightarrow>
         if f_is_finite F v \<and> f_le F (f_zero F) v then
           (let nanos = f_mul F v (f_of_u64 F 1000000000)
            in if f_le F nanos (f_of_u64 F u64_max) then Some (f_round_u64 F nanos) else None)
         else None)"

definition event_cost_nanos_cached ::
    "'f f64_ops \<Rightarrow> 'f event \<Rightarrow> cost_mode \<Rightarrow> rate_cache \<Rightarrow> u64 option \<times> rate_cache" where
  "event_cost_nanos_cached F e mode cache =
    (let source = source_cost_nanos F e
     in case mode of
          CSource \<Rightarrow> (source, cache)
        | CAuto \<Rightarrow>
            (case source of
               Some c \<Rightarrow> (Some c, cache)
             | None \<Rightarrow> (if \<not> ue_cost_authoritative e then calculated_cost_nanos_cached e cache
                        else (None, cache)))
        | CReprice \<Rightarrow> calculated_cost_nanos_cached e cache)"

definition event_cost_nanos :: "'f f64_ops \<Rightarrow> 'f event \<Rightarrow> cost_mode \<Rightarrow> u64 option" where
  "event_cost_nanos F e mode = fst (event_cost_nanos_cached F e mode [])"

section \<open>Cache waste\<close>

record 'f cache_waste =
  cw_missed_tokens :: u64
  cw_missed_cost_usd :: 'f
  cw_miss_count :: u64
  cw_idle_misses :: u64
  cw_model_switch_misses :: u64

definition waste_default :: "'f f64_ops \<Rightarrow> 'f cache_waste" where
  "waste_default F = \<lparr>cw_missed_tokens = 0, cw_missed_cost_usd = f_zero F, cw_miss_count = 0,
     cw_idle_misses = 0, cw_model_switch_misses = 0\<rparr>"

definition waste_absorb :: "'f f64_ops \<Rightarrow> 'f cache_waste \<Rightarrow> 'f cache_waste \<Rightarrow> 'f cache_waste" where
  "waste_absorb F a b =
    \<lparr>cw_missed_tokens = sat_add (cw_missed_tokens a) (cw_missed_tokens b),
     cw_missed_cost_usd = f_add F (cw_missed_cost_usd a) (cw_missed_cost_usd b),
     cw_miss_count = cw_miss_count a + cw_miss_count b,
     cw_idle_misses = cw_idle_misses a + cw_idle_misses b,
     cw_model_switch_misses = cw_model_switch_misses a + cw_model_switch_misses b\<rparr>"

definition cache_ttl_ms :: u64 where
  "cache_ttl_ms = 5 * 60 * 1000"

definition cache_miss_noise_floor_tokens :: u64 where
  "cache_miss_noise_floor_tokens = 1024"

definition cache_miss_cost_usd_cached ::
    "'f f64_ops \<Rightarrow> 'f event \<Rightarrow> u64 \<Rightarrow> rate_cache \<Rightarrow> 'f \<times> rate_cache" where
  "cache_miss_cost_usd_cached F e missed cache =
    (case ue_model e of
       None \<Rightarrow> (f_zero F, cache)
     | Some model \<Rightarrow>
        (case cache_rates_for (ue_provider e) model cache of
           (None, cache') \<Rightarrow> (f_zero F, cache')
         | (Some r, cache') \<Rightarrow>
            (let t = ue_tokens e;
                 write_1h = min (tb_cache_write_1h t) (tb_cache_write t);
                 write_5m = tb_cache_write t - write_1h;
                 paid_tokens = sat_add (tb_uncached_input t) (tb_cache_write t)
             in if paid_tokens = 0 then (f_zero F, cache')
                else
                  let paid_nanos = f_div F
                        (f_of_u128 F (w128 (tb_uncached_input t) * w128 (rt_input r)
                          + w128 write_5m * w128 (rt_cache_write_5m r)
                          + w128 write_1h * w128 (rt_cache_write_1h r)))
                        (f_of_u64 F 1000000);
                      paid_per_token = f_div F paid_nanos (f_of_u64 F paid_tokens);
                      read_per_token = f_div F (f_of_u64 F (rt_cache_read r)) (f_of_u64 F 1000000)
                  in (f_div F
                        (f_mul F (f_of_u64 F missed)
                          (f_max F (f_sub F paid_per_token read_per_token) (f_zero F)))
                        (f_of_u64 F 1000000000), cache'))))"

record chain_state =
  cs_prompt_tokens :: u64
  cs_model :: "str \<times> str"
  cs_timestamp_ms :: u64
  cs_reported_cache :: bool

type_synonym chain_key = "str \<times> str \<times> str"

record 'f waste_state =
  ws_chains :: "chain_key \<rightharpoonup> chain_state"
  ws_by_source :: "(str \<times> 'f cache_waste) list"
  ws_rates :: rate_cache

definition chain_thread :: "'f event \<Rightarrow> str" where
  "chain_thread e = (if ue_source e = ''opencode'' then [] else ue_source_path e)"

definition prompt_tokens :: "token_buckets \<Rightarrow> u64" where
  "prompt_tokens t = sat_add (sat_add (tb_uncached_input t) (tb_cache_read t)) (tb_cache_write t)"

definition event_model :: "'f event \<Rightarrow> str \<times> str" where
  "event_model e = (unwrap_or [] (ue_provider e), unwrap_or [] (ue_model e))"

text \<open>A miss against the previous request of the chain, past the two guards.\<close>

definition record_miss ::
    "'f f64_ops \<Rightarrow> 'f event \<Rightarrow> chain_state \<Rightarrow> u64 \<Rightarrow> 'f waste_state \<Rightarrow> 'f waste_state" where
  "record_miss F e prev missed st =
    (let (cost, rates') = cache_miss_cost_usd_cached F e missed (ws_rates st);
         bump = (\<lambda>w. let w1 = w\<lparr>cw_miss_count := cw_miss_count w + 1,
                        cw_missed_tokens := sat_add (cw_missed_tokens w) missed,
                        cw_missed_cost_usd := f_add F (cw_missed_cost_usd w) cost\<rparr>
                in if event_model e \<noteq> cs_model prev
                   then w1\<lparr>cw_model_switch_misses := cw_model_switch_misses w1 + 1\<rparr>
                   else if cache_ttl_ms \<le> sat_sub (ue_timestamp_ms e) (cs_timestamp_ms prev)
                   then w1\<lparr>cw_idle_misses := cw_idle_misses w1 + 1\<rparr>
                   else w1)
     in st\<lparr>ws_by_source := entry_update (ue_source e) (waste_default F) bump (ws_by_source st),
           ws_rates := rates'\<rparr>)"

definition waste_step :: "'f f64_ops \<Rightarrow> 'f event \<Rightarrow> 'f waste_state \<Rightarrow> 'f waste_state" where
  "waste_step F e st =
    (if ue_sidechain e then st
     else case ue_session_id e of
       None \<Rightarrow> st
     | Some session_id \<Rightarrow>
        (let key = (ue_source e, session_id, chain_thread e);
             t = ue_tokens e;
             prompt = prompt_tokens t
         in if ue_cache_chain_excluded e \<or> ue_conservative_undercount e
            then st\<lparr>ws_chains := (ws_chains st)(key := None)\<rparr>
            else if prompt = 0 then st
            else
              let cached = sat_add (tb_cache_read t) (tb_cache_write t);
                  (st1, reported) =
                    (case ws_chains st key of
                       None \<Rightarrow> (st, cached > 0)
                     | Some prev \<Rightarrow>
                        (let reported = (cached > 0 \<or> cs_reported_cache prev)
                         in if (tb_cache_read t > 0 \<or> cs_reported_cache prev)
                               \<and> cs_prompt_tokens prev \<le> sat_mul prompt 2
                            then
                              let missed = sat_sub (min (cs_prompt_tokens prev) prompt) (tb_cache_read t)
                              in if missed > cache_miss_noise_floor_tokens
                                 then (record_miss F e prev missed st, reported)
                                 else (st, reported)
                            else (st, reported)))
              in st1\<lparr>ws_chains := (ws_chains st1)(key \<mapsto>
                   \<lparr>cs_prompt_tokens = prompt, cs_model = event_model e,
                    cs_timestamp_ms = ue_timestamp_ms e, cs_reported_cache = reported\<rparr>)\<rparr>))"

definition compute_cache_waste :: "'f f64_ops \<Rightarrow> 'f event list \<Rightarrow> (str \<times> 'f cache_waste) list" where
  "compute_cache_waste F es =
    ws_by_source (fold (waste_step F) es \<lparr>ws_chains = Map.empty, ws_by_source = [], ws_rates = []\<rparr>)"

section \<open>The rate cache answers as the catalog\<close>

text \<open>What a cache may hold: for a pair it knows, the catalog's answer.\<close>

definition rates_cached :: "rate_cache \<Rightarrow> bool" where
  "rates_cached cache = (\<forall>(p, m, r) \<in> set cache. r = rates_for p m)"

lemma rates_cached_Nil [simp]: "rates_cached []"
  by (simp add: rates_cached_def)

lemma cache_find_correct: "rates_cached cache \<Longrightarrow> cache_find cache p m = Some r \<Longrightarrow> r = rates_for p m"
  by (induction cache p m rule: cache_find.induct) (auto simp: rates_cached_def split: if_splits)

lemma cache_rates_for_correct:
  assumes "rates_cached cache"
  shows "fst (cache_rates_for p m cache) = rates_for p m \<and> rates_cached (snd (cache_rates_for p m cache))"
  using assms cache_find_correct [OF assms, of p m]
  by (auto simp: cache_rates_for_def rates_cached_def Let_def split: option.splits)

lemma cache_rates_for_split:
  assumes "rates_cached cache"
  obtains cache' where "cache_rates_for p m cache = (rates_for p m, cache')" "rates_cached cache'"
  using cache_rates_for_correct [OF assms] by (metis prod.collapse)

lemma calculated_cost_cached:
  assumes "rates_cached cache"
  shows "fst (calculated_cost_nanos_cached e cache) = fst (calculated_cost_nanos_cached e [])
    \<and> rates_cached (snd (calculated_cost_nanos_cached e cache))"
proof (cases "ue_model e")
  case None
  then show ?thesis using assms by (simp add: calculated_cost_nanos_cached_def)
next
  case (Some model)
  obtain c1 where c1: "cache_rates_for (ue_provider e) model cache = (rates_for (ue_provider e) model, c1)"
    "rates_cached c1" using cache_rates_for_split [OF assms] .
  obtain c2 where c2: "cache_rates_for (ue_provider e) model [] = (rates_for (ue_provider e) model, c2)"
    "rates_cached c2" using cache_rates_for_split [OF rates_cached_Nil] .
  show ?thesis
    using Some c1 c2 by (auto simp: calculated_cost_nanos_cached_def Let_def split: option.splits)
qed

lemma event_cost_cached:
  assumes "rates_cached cache"
  shows "fst (event_cost_nanos_cached F e mode cache) = event_cost_nanos F e mode
    \<and> rates_cached (snd (event_cost_nanos_cached F e mode cache))"
  using calculated_cost_cached [OF assms, of e] assms
  by (auto simp: event_cost_nanos_cached_def event_cost_nanos_def Let_def
      split: cost_mode.splits option.splits)

lemma miss_cost_cached:
  assumes "rates_cached cache"
  shows "fst (cache_miss_cost_usd_cached F e missed cache) = fst (cache_miss_cost_usd_cached F e missed [])
    \<and> rates_cached (snd (cache_miss_cost_usd_cached F e missed cache))"
proof (cases "ue_model e")
  case None
  then show ?thesis using assms by (simp add: cache_miss_cost_usd_cached_def)
next
  case (Some model)
  obtain c1 where c1: "cache_rates_for (ue_provider e) model cache = (rates_for (ue_provider e) model, c1)"
    "rates_cached c1" using cache_rates_for_split [OF assms] .
  obtain c2 where c2: "cache_rates_for (ue_provider e) model [] = (rates_for (ue_provider e) model, c2)"
    "rates_cached c2" using cache_rates_for_split [OF rates_cached_Nil] .
  show ?thesis
    using Some c1 c2 by (auto simp: cache_miss_cost_usd_cached_def Let_def split: option.splits)
qed

section \<open>Exact nano-USD arithmetic\<close>

text \<open>The price of an event in natural numbers, with no width.\<close>

definition price_nat :: "rates \<Rightarrow> token_buckets \<Rightarrow> nat" where
  "price_nat r t =
    (let w1h = min (unat (tb_cache_write_1h t)) (unat (tb_cache_write t));
         w5m = unat (tb_cache_write t) - w1h
     in (unat (tb_uncached_input t) * unat (rt_input r)
       + unat (tb_cache_read t) * unat (rt_cache_read r)
       + w5m * unat (rt_cache_write_5m r) + w1h * unat (rt_cache_write_1h r)
       + unat (tb_output t) * unat (rt_output r)) div 1000000)"

definition rates_small :: "rates \<Rightarrow> bool" where
  "rates_small r =
    (rt_input r < 2 ^ 40 \<and> rt_cache_read r < 2 ^ 40 \<and> rt_cache_write_5m r < 2 ^ 40
     \<and> rt_cache_write_1h r < 2 ^ 40 \<and> rt_output r < 2 ^ 40)"

lemma if_SomeE:
  "(if c then Some a else x) = Some r \<Longrightarrow> (r = a \<Longrightarrow> P) \<Longrightarrow> (x = Some r \<Longrightarrow> P) \<Longrightarrow> P"
  by (cases c) auto

lemma usd_per_million_small: "v \<le> 75000 \<Longrightarrow> usd_per_million v < 2 ^ 40"
proof -
  assume "v \<le> 75000"
  then have v: "unat v \<le> 75000" by (simp add: word_le_nat_alt)
  then have "unat (usd_per_million v) = unat v * 1000000"
    by (simp add: usd_per_million_def unat_word_ariths)
  with v show ?thesis by (simp add: word_less_nat_alt)
qed

lemma vendor_rates_small:
  "a \<le> 75000 \<Longrightarrow> b \<le> 75000 \<Longrightarrow> c \<le> 75000 \<Longrightarrow> rates_small (openai_rates a b c)"
  "a \<le> 75000 \<Longrightarrow> b \<le> 75000 \<Longrightarrow> c \<le> 75000 \<Longrightarrow> d \<le> 75000 \<Longrightarrow> e \<le> 75000 \<Longrightarrow>
    rates_small (claude_rates a b c d e)"
  unfolding rates_small_def openai_rates_def claude_rates_def rates.simps
  by (blast intro: usd_per_million_small)+

lemma openai_catalog_small: "openai_catalog eos = Some r \<Longrightarrow> rates_small r"
  unfolding openai_catalog_def by (elim if_SomeE) (simp_all add: vendor_rates_small)

lemma anthropic_catalog_small: "anthropic_catalog eos = Some r \<Longrightarrow> rates_small r"
  unfolding anthropic_catalog_def by (elim if_SomeE) (simp_all add: vendor_rates_small)

lemma catalog_rates_small: "rates_for p m = Some r \<Longrightarrow> rates_small r"
  by (auto simp: rates_for_def Let_def or_else_def split: option.splits if_splits
      dest: openai_catalog_small anthropic_catalog_small)

lemma unat_w128 [simp]: "unat (w128 x) = unat x"
  by (simp add: w128_def unsigned_ucast_eq take_bit_nat_eq_self_iff less_trans [OF unat_u64_lt])

lemma unat_min_u64: "unat (min a (b :: u64)) = min (unat a) (unat b)"
  by (simp add: min_def word_le_nat_alt)

lemma unat_w128_mult:
  assumes "r < (2 ^ 40 :: u64)"
  shows "unat (w128 x * w128 r) = unat x * unat r" "unat x * unat r < 2 ^ 104"
proof -
  have r: "unat r < 2 ^ 40" using assms by (simp add: word_less_nat_alt)
  have "unat x * unat r < 2 ^ 64 * 2 ^ 40"
    using unat_u64_lt [of x] r by (intro mult_strict_mono) auto
  then show lt: "unat x * unat r < 2 ^ 104" by simp
  then show "unat (w128 x * w128 r) = unat x * unat r"
    by (simp add: unat_word_ariths)
qed

lemma unat_w128_sum:
  fixes a b c d e :: u128
  assumes "unat a < 2 ^ 104" "unat b < 2 ^ 104" "unat c < 2 ^ 104" "unat d < 2 ^ 104" "unat e < 2 ^ 104"
  shows "unat (a + b + c + d + e) = unat a + unat b + unat c + unat d + unat e"
  using assms by (simp add: unat_word_ariths)

lemma u64_try_from_div:
  "u64_try_from (x div 1000000) =
    (if unat x div 1000000 < 2 ^ 64 then Some (of_nat (unat x div 1000000)) else None)"
proof -
  have d: "unat (x div 1000000) = unat x div 1000000" by (simp add: unat_div)
  have "ucast (x div 1000000) = (of_nat (unat (x div 1000000)) :: u64)"
    by (simp add: of_nat_unat)
  then show ?thesis by (simp add: u64_try_from_def d)
qed

text \<open>
  C8: A calculated cost is the exact price in nano-USD: the one-hour writes are priced once and never
  counted in the five-minute bucket, no \<open>u128\<close> product or sum wraps for any token counts at catalog
  rates, and the cost is absent exactly when the model is unpriced or the price exceeds \<open>u64\<close>.
\<close>

theorem calculated_cost_exact:
  "fst (calculated_cost_nanos_cached e []) =
    (case ue_model e of
       None \<Rightarrow> None
     | Some model \<Rightarrow>
        (case rates_for (ue_provider e) model of
           None \<Rightarrow> None
         | Some r \<Rightarrow> (if price_nat r (ue_tokens e) < 2 ^ 64
             then Some (of_nat (price_nat r (ue_tokens e))) else None)))"
proof (cases "ue_model e")
  case None
  then show ?thesis by (simp add: calculated_cost_nanos_cached_def)
next
  case (Some model)
  obtain c where c: "cache_rates_for (ue_provider e) model [] = (rates_for (ue_provider e) model, c)"
    using cache_rates_for_split [OF rates_cached_Nil] .
  show ?thesis
  proof (cases "rates_for (ue_provider e) model")
    case None
    then show ?thesis using Some c by (simp add: calculated_cost_nanos_cached_def)
  next
    case priced: (Some r)
    let ?t = "ue_tokens e"
    have small: "rates_small r" using priced by (rule catalog_rates_small)
    note m = unat_w128_mult [of "rt_input r"] unat_w128_mult [of "rt_cache_read r"]
      unat_w128_mult [of "rt_cache_write_5m r"] unat_w128_mult [of "rt_cache_write_1h r"]
      unat_w128_mult [of "rt_output r"]
    let ?w1h = "min (tb_cache_write_1h ?t) (tb_cache_write ?t)"
    let ?total = "w128 (tb_uncached_input ?t) * w128 (rt_input r)
        + w128 (tb_cache_read ?t) * w128 (rt_cache_read r)
        + w128 (sat_sub (tb_cache_write ?t) ?w1h) * w128 (rt_cache_write_5m r)
        + w128 ?w1h * w128 (rt_cache_write_1h r) + w128 (tb_output ?t) * w128 (rt_output r)"
    have "unat ?total = unat (tb_uncached_input ?t) * unat (rt_input r)
        + unat (tb_cache_read ?t) * unat (rt_cache_read r)
        + unat (sat_sub (tb_cache_write ?t) ?w1h) * unat (rt_cache_write_5m r)
        + unat ?w1h * unat (rt_cache_write_1h r) + unat (tb_output ?t) * unat (rt_output r)"
      using small m by (subst unat_w128_sum) (simp_all add: rates_small_def)
    then have "unat ?total div 1000000 = price_nat r ?t"
      by (simp add: price_nat_def Let_def unat_sat_sub unat_min_u64)
    then show ?thesis
      using Some priced c
      by (simp add: calculated_cost_nanos_cached_def Let_def u64_try_from_div)
  qed
qed

section \<open>Cache waste is local to its source\<close>

lemma record_miss_fields:
  "ws_chains (record_miss F e prev missed st) = ws_chains st"
  "ws_rates (record_miss F e prev missed st) = snd (cache_miss_cost_usd_cached F e missed (ws_rates st))"
  by (simp_all add: record_miss_def case_prod_beta Let_def)

text \<open>The row of the event's source after a miss, over the uncached cost.\<close>

definition missed_row ::
    "'f f64_ops \<Rightarrow> 'f event \<Rightarrow> chain_state \<Rightarrow> u64 \<Rightarrow> 'f cache_waste \<Rightarrow> 'f cache_waste" where
  "missed_row F e prev missed w =
    (let w1 = w\<lparr>cw_miss_count := cw_miss_count w + 1,
                cw_missed_tokens := sat_add (cw_missed_tokens w) missed,
                cw_missed_cost_usd := f_add F (cw_missed_cost_usd w)
                  (fst (cache_miss_cost_usd_cached F e missed []))\<rparr>
     in if event_model e \<noteq> cs_model prev
        then w1\<lparr>cw_model_switch_misses := cw_model_switch_misses w1 + 1\<rparr>
        else if cache_ttl_ms \<le> sat_sub (ue_timestamp_ms e) (cs_timestamp_ms prev)
        then w1\<lparr>cw_idle_misses := cw_idle_misses w1 + 1\<rparr> else w1)"

lemma record_miss_row:
  assumes "rates_cached (ws_rates st)"
  shows "ws_by_source (record_miss F e prev missed st) =
    entry_update (ue_source e) (waste_default F) (missed_row F e prev missed) (ws_by_source st)"
proof -
  have eq: "fst (cache_miss_cost_usd_cached F e missed (ws_rates st)) =
      fst (cache_miss_cost_usd_cached F e missed [])"
    using miss_cost_cached [OF assms] by blast
  show ?thesis
    unfolding record_miss_def missed_row_def [abs_def] case_prod_beta Let_def eq by simp
qed

text \<open>
  A step seen from its effect on one chain: what the chain becomes and whether a miss is recorded.
\<close>

datatype chain_effect =
    Untouched
  | Broken
  | Extended chain_state "(chain_state \<times> u64) option"

definition chain_effect_of :: "'f event \<Rightarrow> chain_state option \<Rightarrow> chain_effect" where
  "chain_effect_of e prior =
    (let t = ue_tokens e; prompt = prompt_tokens t;
         cached = sat_add (tb_cache_read t) (tb_cache_write t);
         nxt = (\<lambda>reported. \<lparr>cs_prompt_tokens = prompt, cs_model = event_model e,
            cs_timestamp_ms = ue_timestamp_ms e, cs_reported_cache = reported\<rparr>)
     in if ue_sidechain e \<or> ue_session_id e = None then Untouched
        else if ue_cache_chain_excluded e \<or> ue_conservative_undercount e then Broken
        else if prompt = 0 then Untouched
        else case prior of
          None \<Rightarrow> Extended (nxt (cached > 0)) None
        | Some prev \<Rightarrow>
            (let missed = sat_sub (min (cs_prompt_tokens prev) prompt) (tb_cache_read t)
             in Extended (nxt (cached > 0 \<or> cs_reported_cache prev))
                  (if (tb_cache_read t > 0 \<or> cs_reported_cache prev)
                      \<and> cs_prompt_tokens prev \<le> sat_mul prompt 2
                      \<and> missed > cache_miss_noise_floor_tokens
                   then Some (prev, missed) else None)))"

definition chain_key_of :: "'f event \<Rightarrow> chain_key" where
  "chain_key_of e = (ue_source e, unwrap_or [] (ue_session_id e), chain_thread e)"

lemma waste_step_effect:
  "waste_step F e st =
    (case chain_effect_of e (ws_chains st (chain_key_of e)) of
       Untouched \<Rightarrow> st
     | Broken \<Rightarrow> st\<lparr>ws_chains := (ws_chains st)(chain_key_of e := None)\<rparr>
     | Extended c miss \<Rightarrow>
         (let st1 = (case miss of None \<Rightarrow> st | Some (prev, missed) \<Rightarrow> record_miss F e prev missed st)
          in st1\<lparr>ws_chains := (ws_chains st1)(chain_key_of e \<mapsto> c)\<rparr>))"
  by (auto simp: waste_step_def chain_effect_of_def chain_key_of_def Let_def split: option.splits)

definition waste_sim :: "str \<Rightarrow> 'f waste_state \<Rightarrow> 'f waste_state \<Rightarrow> bool" where
  "waste_sim s a b =
    (rates_cached (ws_rates a) \<and> rates_cached (ws_rates b)
     \<and> (\<forall>k. fst k = s \<longrightarrow> ws_chains a k = ws_chains b k)
     \<and> map_of (ws_by_source a) s = map_of (ws_by_source b) s)"

lemma rates_cached_step:
  assumes "rates_cached (ws_rates st)"
  shows "rates_cached (ws_rates (waste_step F e st))"
  using assms miss_cost_cached [OF assms]
  by (auto simp: waste_step_effect record_miss_fields Let_def split: chain_effect.splits option.splits)

lemma waste_sim_same:
  assumes "waste_sim s a b" "ue_source e = s"
  shows "waste_sim s (waste_step F e a) (waste_step F e b)"
proof -
  have chain: "ws_chains a (chain_key_of e) = ws_chains b (chain_key_of e)"
    and rates: "rates_cached (ws_rates a)" "rates_cached (ws_rates b)"
    and row: "map_of (ws_by_source a) s = map_of (ws_by_source b) s"
    using assms by (auto simp: waste_sim_def chain_key_of_def)
  have "map_of (ws_by_source (waste_step F e a)) s = map_of (ws_by_source (waste_step F e b)) s"
    using row assms(2)
    by (auto simp: waste_step_effect chain record_miss_row rates map_of_entry_update Let_def
        split: chain_effect.splits option.splits)
  moreover have "\<forall>k. fst k = s \<longrightarrow> ws_chains (waste_step F e a) k = ws_chains (waste_step F e b) k"
    using assms(1)
    by (auto simp: waste_sim_def waste_step_effect chain record_miss_fields Let_def
        split: chain_effect.splits option.splits)
  ultimately show ?thesis
    using rates by (simp add: waste_sim_def rates_cached_step)
qed

lemma waste_sim_other:
  assumes "waste_sim s a b" "ue_source e \<noteq> s"
  shows "waste_sim s (waste_step F e a) b"
proof -
  have rates: "rates_cached (ws_rates a)" using assms by (simp add: waste_sim_def)
  have "map_of (ws_by_source (waste_step F e a)) s = map_of (ws_by_source a) s"
    using assms(2)
    by (auto simp: waste_step_effect record_miss_row rates map_of_entry_update Let_def
        split: chain_effect.splits option.splits)
  moreover have "\<forall>k. fst k = s \<longrightarrow> ws_chains (waste_step F e a) k = ws_chains a k"
    using assms(2)
    by (auto simp: waste_step_effect chain_key_of_def record_miss_fields Let_def
        split: chain_effect.splits option.splits)
  ultimately show ?thesis
    using assms(1) rates by (auto simp: waste_sim_def rates_cached_step)
qed

lemma waste_sim_fold:
  "waste_sim s a b \<Longrightarrow>
    waste_sim s (fold (waste_step F) es a) (fold (waste_step F) (filter (\<lambda>e. ue_source e = s) es) b)"
  by (induction es arbitrary: a b) (simp_all add: waste_sim_same waste_sim_other)

text \<open>
  The waste reported for a source depends on that source's events alone, in their order: removing
  every other source's events from the stream, and with them everything they put in the shared rate
  cache, leaves its row unchanged.
\<close>

theorem cache_waste_source_local:
  "map_of (compute_cache_waste F es) s = map_of (compute_cache_waste F (filter (\<lambda>e. ue_source e = s) es)) s"
proof -
  let ?st = "\<lparr>ws_chains = Map.empty, ws_by_source = [], ws_rates = []\<rparr> :: 'a waste_state"
  have "waste_sim s ?st ?st" by (simp add: waste_sim_def)
  from waste_sim_fold [OF this, of F es] show ?thesis
    by (simp add: waste_sim_def compute_cache_waste_def)
qed

section \<open>How large waste can be\<close>

lemma missed_within_prompt:
  "chain_effect_of e prior = Extended c (Some (prev, missed)) \<Longrightarrow>
    1024 < unat missed \<and> unat missed \<le> unat (prompt_tokens (ue_tokens e))"
  by (auto simp: chain_effect_of_def Let_def cache_miss_noise_floor_tokens_def word_less_nat_alt
      unat_sat_sub unat_min_u64 split: if_splits option.splits)

lemma waste_row_step:
  assumes "rates_cached (ws_rates st)"
  shows "map_of (ws_by_source (waste_step F e st)) s = map_of (ws_by_source st) s
    \<or> (\<exists>prev missed. ue_source e = s \<and> 1024 < unat missed
        \<and> unat missed \<le> unat (prompt_tokens (ue_tokens e))
        \<and> map_of (ws_by_source (waste_step F e st)) s =
            Some (missed_row F e prev missed (unwrap_or (waste_default F) (map_of (ws_by_source st) s))))"
proof (cases "chain_effect_of e (ws_chains st (chain_key_of e))")
  case (Extended c miss)
  show ?thesis
  proof (cases miss)
    case (Some pm)
    then obtain prev missed where pm: "miss = Some (prev, missed)" by (cases pm) auto
    have by_source: "ws_by_source (waste_step F e st) = entry_update (ue_source e) (waste_default F)
        (missed_row F e prev missed) (ws_by_source st)"
      by (simp add: waste_step_effect Extended pm record_miss_row [OF assms] Let_def)
    show ?thesis
      using missed_within_prompt [OF Extended [unfolded pm]]
      by (cases "ue_source e = s") (auto simp: by_source map_of_entry_update)
  qed (simp add: waste_step_effect Extended Let_def)
qed (simp_all add: waste_step_effect)

definition waste_within :: "nat \<Rightarrow> nat \<Rightarrow> 'f cache_waste \<Rightarrow> bool" where
  "waste_within n prompts w =
    (unat (cw_idle_misses w) + unat (cw_model_switch_misses w) \<le> unat (cw_miss_count w)
     \<and> unat (cw_miss_count w) \<le> n \<and> unat (cw_missed_tokens w) \<le> prompts
     \<and> min (1025 * unat (cw_miss_count w)) (2 ^ 64 - 1) \<le> unat (cw_missed_tokens w))"

lemma unat_Suc_u64: "unat (a :: u64) < 2 ^ 64 - 1 \<Longrightarrow> unat (a + 1) = Suc (unat a)"
  by (simp add: unat_word_ariths)

lemma missed_row_within:
  assumes "waste_within n prompts w" "n < 2 ^ 64 - 1" "1024 < unat missed" "unat missed \<le> p"
  shows "waste_within (Suc n) (prompts + p) (missed_row F e prev missed w)"
proof -
  have s: "unat (cw_miss_count w + 1) = Suc (unat (cw_miss_count w))"
      "unat (cw_idle_misses w + 1) = Suc (unat (cw_idle_misses w))"
      "unat (cw_model_switch_misses w + 1) = Suc (unat (cw_model_switch_misses w))"
    using assms(1,2) by (auto simp: waste_within_def intro!: unat_Suc_u64)
  show ?thesis
    using assms(1,3,4) by (auto simp: missed_row_def Let_def waste_within_def s unat_sat_add)
qed

lemma waste_within_mono:
  "waste_within n p w \<Longrightarrow> n \<le> n' \<Longrightarrow> p \<le> p' \<Longrightarrow> waste_within n' p' w"
  by (simp add: waste_within_def)

text \<open>
  The waste row of a source never claims more than happened: its misses are at most the source's
  requests, expiries and model switches at most its misses, and its missed tokens at most the prompt
  tokens those requests paid for, while every counted miss is above the noise floor.
\<close>

theorem cache_waste_bounds:
  assumes "length es < 2 ^ 64" "map_of (compute_cache_waste F es) s = Some w"
  shows "unat (cw_idle_misses w) + unat (cw_model_switch_misses w) \<le> unat (cw_miss_count w)
    \<and> unat (cw_miss_count w) \<le> length (filter (\<lambda>e. ue_source e = s) es)
    \<and> unat (cw_missed_tokens w) \<le>
        sum_list (map (\<lambda>e. unat (prompt_tokens (ue_tokens e))) (filter (\<lambda>e. ue_source e = s) es))
    \<and> min (1025 * unat (cw_miss_count w)) (2 ^ 64 - 1) \<le> unat (cw_missed_tokens w)"
proof -
  let ?init = "\<lparr>ws_chains = Map.empty, ws_by_source = [], ws_rates = []\<rparr> :: 'a waste_state"
  let ?n = "\<lambda>es. length (filter (\<lambda>e. ue_source e = s) es)"
  let ?p = "\<lambda>es. sum_list (map (\<lambda>e. unat (prompt_tokens (ue_tokens e))) (filter (\<lambda>e. ue_source e = s) es))"
  have "rates_cached (ws_rates (fold (waste_step F) es ?init))
    \<and> waste_within (?n es) (?p es)
        (unwrap_or (waste_default F) (map_of (ws_by_source (fold (waste_step F) es ?init)) s))"
    using assms(1)
  proof (induction es rule: rev_induct)
    case Nil
    then show ?case by (simp add: waste_within_def waste_default_def)
  next
    case (snoc e es)
    let ?st = "fold (waste_step F) es ?init"
    have r: "rates_cached (ws_rates ?st)"
      and w: "waste_within (?n es) (?p es) (unwrap_or (waste_default F) (map_of (ws_by_source ?st) s))"
      using snoc by simp_all
    have n: "?n es < 2 ^ 64 - 1"
      by (rule le_less_trans [OF length_filter_le]) (use snoc.prems in simp)
    from waste_row_step [OF r, of F e s]
    have "waste_within (?n (es @ [e])) (?p (es @ [e]))
        (unwrap_or (waste_default F) (map_of (ws_by_source (waste_step F e ?st)) s))"
    proof (elim disjE exE conjE)
      assume "map_of (ws_by_source (waste_step F e ?st)) s = map_of (ws_by_source ?st) s"
      then show ?thesis using w by (auto intro: waste_within_mono)
    next
      fix prev missed
      assume "ue_source e = s" "1024 < unat missed" "unat missed \<le> unat (prompt_tokens (ue_tokens e))"
        "map_of (ws_by_source (waste_step F e ?st)) s =
          Some (missed_row F e prev missed (unwrap_or (waste_default F) (map_of (ws_by_source ?st) s)))"
      then show ?thesis using missed_row_within [OF w n] by simp
    qed
    then show ?case using r by (simp add: rates_cached_step)
  qed
  then show ?thesis
    using assms(2) by (simp add: compute_cache_waste_def waste_within_def)
qed

text \<open>A concrete arithmetic for the instances.\<close>

definition int_f64 :: "int f64_ops" where
  "int_f64 = \<lparr>f_zero = 0, f_add = (+), f_sub = (-), f_mul = (*), f_div = (div), f_max = max,
     f_le = (\<le>), f_is_finite = (\<lambda>_. True), f_round_u64 = of_int, f_of_u64 = uint, f_of_u128 = uint\<rparr>"

definition sample_requests :: "int event list" where
  "sample_requests =
    [(sample_event ''claude'' ''a'' 1 0)\<lparr>ue_model := None, ue_tokens := disjoint_tokens 5000 10 20 1\<rparr>,
     (sample_event ''claude'' ''a'' 2 1)\<lparr>ue_model := None, ue_tokens := disjoint_tokens 6000 10 20 1\<rparr>]"

lemma sample_requests_waste:
  "compute_cache_waste int_f64 sample_requests =
    [(''claude'', \<lparr>cw_missed_tokens = 5020, cw_missed_cost_usd = 0, cw_miss_count = 1,
       cw_idle_misses = 0, cw_model_switch_misses = 0\<rparr>)]"
  by (simp add: compute_cache_waste_def sample_requests_def sample_event_def waste_step_def Let_def
      chain_thread_def prompt_tokens_def event_model_def sat_add_def sat_mul_def sat_sub_def
      disjoint_tokens_def record_miss_def cache_miss_cost_usd_cached_def waste_default_def
      int_f64_def cache_miss_noise_floor_tokens_def cache_ttl_ms_def word_le_nat_alt
      word_less_nat_alt min_def)

lemma cache_waste_bounds_witness:
  "5020 \<le> sum_list (map (\<lambda>e. unat (prompt_tokens (ue_tokens e)))
      (filter (\<lambda>e. ue_source e = ''claude'') sample_requests))"
  using cache_waste_bounds [of sample_requests int_f64 "''claude''"]
  by (simp add: sample_requests_waste) (simp add: sample_requests_def)

end
