(* ===== verification/UsageReports.thy ===== *)
theory UsageReports
  imports UsagePricing
begin

text \<open>
  Reports over assembled events: \<open>accumulate_usage_event\<close> of \<open>src/usage/pricing.rs\<close> and the readers of
  \<open>src/usage/query.rs\<close> over one partition and over merged partitions. The iteration orders of the
  two hash maps a report drains are the arguments \<open>iterw\<close> and \<open>iterr\<close>. A detail queue that ran
  empty would panic: that is the \<open>None\<close> of \<open>merged_details\<close>.
\<close>

record 'f usage_summary =
  us_source :: str
  us_events :: u64
  us_uncached_input :: u64
  us_cache_read :: u64
  us_cache_write :: u64
  us_output :: u64
  us_reasoning :: u64
  us_total_tokens :: u64
  us_known_cost_usd :: 'f
  us_priced_events :: u64
  us_unpriced_events :: u64
  us_cache_waste :: "'f cache_waste"

record 'f usage_report =
  ur_authority :: str
  ur_events :: u64
  ur_total_tokens :: u64
  ur_unknown_model_events :: u64
  ur_conservative_events :: u64
  ur_cost_mode :: cost_mode
  ur_price_catalog :: str
  ur_known_cost_usd :: 'f
  ur_priced_events :: u64
  ur_unpriced_events :: u64
  ur_cache_waste :: "'f cache_waste"
  ur_by_source :: "'f usage_summary list"
  ur_details :: "'f event list"
  ur_warnings :: "str list"

definition summary_default :: "'f f64_ops \<Rightarrow> str \<Rightarrow> 'f usage_summary" where
  "summary_default F source = \<lparr>us_source = source, us_events = 0, us_uncached_input = 0,
     us_cache_read = 0, us_cache_write = 0, us_output = 0, us_reasoning = 0, us_total_tokens = 0,
     us_known_cost_usd = f_zero F, us_priced_events = 0, us_unpriced_events = 0,
     us_cache_waste = waste_default F\<rparr>"

definition report_new :: "'f f64_ops \<Rightarrow> cost_mode \<Rightarrow> str list \<Rightarrow> 'f usage_report" where
  "report_new F mode warnings = \<lparr>ur_authority = ''local_log'', ur_events = 0, ur_total_tokens = 0,
     ur_unknown_model_events = 0, ur_conservative_events = 0, ur_cost_mode = mode,
     ur_price_catalog = price_catalog_id, ur_known_cost_usd = f_zero F, ur_priced_events = 0,
     ur_unpriced_events = 0, ur_cache_waste = waste_default F, ur_by_source = [], ur_details = [],
     ur_warnings = warnings\<rparr>"

text \<open>The report, the rows per source and the rate cache that the loop mutates.\<close>

type_synonym 'f scan_state = "'f usage_report \<times> (str \<times> 'f usage_summary) list \<times> rate_cache"

definition u64_of_bool :: "bool \<Rightarrow> u64" where
  "u64_of_bool b = (if b then 1 else 0)"

definition row_bump :: "'f f64_ops \<Rightarrow> token_buckets \<Rightarrow> u64 option \<Rightarrow> 'f usage_summary \<Rightarrow> 'f usage_summary" where
  "row_bump F t cost w =
    (let w1 = w\<lparr>us_events := us_events w + 1,
           us_uncached_input := sat_add (us_uncached_input w) (tb_uncached_input t),
           us_cache_read := sat_add (us_cache_read w) (tb_cache_read t),
           us_cache_write := sat_add (us_cache_write w) (tb_cache_write t),
           us_output := sat_add (us_output w) (tb_output t),
           us_reasoning := sat_add (us_reasoning w) (tb_reasoning t),
           us_total_tokens := sat_add (us_total_tokens w) (additive_total t)\<rparr>
     in case cost of
          Some c \<Rightarrow> w1\<lparr>us_priced_events := us_priced_events w1 + 1,
            us_known_cost_usd := f_add F (us_known_cost_usd w1)
              (f_div F (f_of_u64 F c) (f_of_u64 F 1000000000))\<rparr>
        | None \<Rightarrow> w1\<lparr>us_unpriced_events := us_unpriced_events w1 + 1\<rparr>)"

definition accumulate_usage_event ::
    "'f f64_ops \<Rightarrow> cost_mode \<Rightarrow> 'f event \<Rightarrow> 'f scan_state \<Rightarrow> 'f scan_state" where
  "accumulate_usage_event F mode e st =
    (let (r, rows, cache) = st;
         t = ue_tokens e;
         total = additive_total t;
         (cost, cache') = event_cost_nanos_cached F e mode cache;
         r1 = r\<lparr>ur_events := ur_events r + 1,
                ur_total_tokens := sat_add (ur_total_tokens r) total,
                ur_unknown_model_events := ur_unknown_model_events r + u64_of_bool (ue_model e = None),
                ur_conservative_events :=
                  ur_conservative_events r + u64_of_bool (ue_conservative_undercount e)\<rparr>;
         r2 = (case cost of
             Some c \<Rightarrow> r1\<lparr>ur_priced_events := ur_priced_events r1 + 1,
                ur_known_cost_usd := f_add F (ur_known_cost_usd r1)
                  (f_div F (f_of_u64 F c) (f_of_u64 F 1000000000))\<rparr>
           | None \<Rightarrow> r1\<lparr>ur_unpriced_events := ur_unpriced_events r1 + 1\<rparr>);
         rows' = entry_update (ue_source e) (summary_default F (ue_source e)) (row_bump F t cost) rows
     in (r2, rows', cache'))"

definition absorb_waste ::
    "'f f64_ops \<Rightarrow> str \<times> 'f cache_waste \<Rightarrow> 'f usage_report \<times> (str \<times> 'f usage_summary) list
     \<Rightarrow> 'f usage_report \<times> (str \<times> 'f usage_summary) list" where
  "absorb_waste F sw st =
    (let (source, waste) = sw; (r, rows) = st
     in (r\<lparr>ur_cache_waste := waste_absorb F (ur_cache_waste r) waste\<rparr>,
         entry_modify source (\<lambda>row. row\<lparr>us_cache_waste := waste\<rparr>) rows))"

text \<open>The part of a scan that follows the filter, on the events the views give, in order.\<close>

definition report_events ::
    "'f f64_ops \<Rightarrow> ((str \<times> 'f cache_waste) list \<Rightarrow> (str \<times> 'f cache_waste) list)
     \<Rightarrow> ((str \<times> 'f usage_summary) list \<Rightarrow> (str \<times> 'f usage_summary) list)
     \<Rightarrow> usage_query \<Rightarrow> str list \<Rightarrow> 'f event list \<Rightarrow> 'f usage_report" where
  "report_events F iterw iterr q warnings es =
    (let (r, rows, _) = fold (accumulate_usage_event F (uq_cost_mode q)) es
           (report_new F (uq_cost_mode q) warnings, [], []);
         (r1, rows1) = fold (absorb_waste F) (iterw (compute_cache_waste F es)) (r, rows)
     in r1\<lparr>ur_by_source := sort_key us_source (map snd (iterr rows1))\<rparr>)"

definition scan_single ::
    "'f f64_ops \<Rightarrow> ((str \<times> 'f cache_waste) list \<Rightarrow> (str \<times> 'f cache_waste) list)
     \<Rightarrow> ((str \<times> 'f usage_summary) list \<Rightarrow> (str \<times> 'f usage_summary) list)
     \<Rightarrow> (str \<Rightarrow> str option) \<Rightarrow> usage_query \<Rightarrow> 'f compact \<Rightarrow> str list \<Rightarrow> 'f usage_report" where
  "scan_single F iterw iterr repo q assembled warnings =
    (let events = filtered_events repo assembled q;
         report = report_events F iterw iterr q warnings (map (compact_view assembled) events)
     in if uq_include_events q then report\<lparr>ur_details := asm_details assembled events\<rparr> else report)"

text \<open>
  Details of merged matches: the indices per partition, one batched queue per partition, and the
  queues popped in merged order.
\<close>

fun group_positions :: "merged_pos list \<Rightarrow> nat list list \<Rightarrow> nat list list" where
  "group_positions [] acc = acc"
| "group_positions (pos # ps) acc =
    (let part = unat (mp_part pos)
     in group_positions ps (acc[part := acc ! part @ [unat (mp_index pos)]]))"

fun pop_positions :: "merged_pos list \<Rightarrow> 'a list list \<Rightarrow> 'a list option" where
  "pop_positions [] queues = Some []"
| "pop_positions (pos # ps) queues =
    (let part = unat (mp_part pos)
     in case queues ! part of
          [] \<Rightarrow> None
        | x # xs \<Rightarrow> map_option (\<lambda>out. x # out) (pop_positions ps (queues[part := xs])))"

definition merged_details :: "'f compact list \<Rightarrow> merged_pos list \<Rightarrow> 'f event list option" where
  "merged_details parts matches =
    (let per_part = group_positions matches (replicate (length parts) []);
         batched = map (\<lambda>(assembly, indices). asm_details assembly indices) (zip parts per_part)
     in pop_positions matches batched)"

definition scan_merged ::
    "'f f64_ops \<Rightarrow> ((str \<times> 'f cache_waste) list \<Rightarrow> (str \<times> 'f cache_waste) list)
     \<Rightarrow> ((str \<times> 'f usage_summary) list \<Rightarrow> (str \<times> 'f usage_summary) list)
     \<Rightarrow> (str \<Rightarrow> str option) \<Rightarrow> usage_query \<Rightarrow> 'f compact list \<Rightarrow> merged_pos list \<Rightarrow> str list
     \<Rightarrow> 'f usage_report option" where
  "scan_merged F iterw iterr repo q parts order warnings =
    (let matches = filtered_merged_positions repo parts order q;
         view_at = (\<lambda>pos. compact_view (parts ! unat (mp_part pos)) (unat (mp_index pos)));
         report = report_events F iterw iterr q warnings (map view_at matches)
     in if uq_include_events q
        then map_option (\<lambda>d. report\<lparr>ur_details := d\<rparr>) (merged_details parts matches)
        else Some report)"

text \<open>The chart points of \<open>visit_inner\<close>, in visiting order.\<close>

definition visit_single :: "(str \<Rightarrow> str option) \<Rightarrow> usage_query \<Rightarrow> 'f compact \<Rightarrow> activity_point list" where
  "visit_single repo q assembled =
    map (asm_activity_point assembled) (filtered_events repo assembled q)"

definition visit_merged ::
    "(str \<Rightarrow> str option) \<Rightarrow> usage_query \<Rightarrow> 'f compact list \<Rightarrow> merged_pos list \<Rightarrow> activity_point list" where
  "visit_merged repo q parts order =
    map (\<lambda>pos. asm_activity_point (parts ! unat (mp_part pos)) (unat (mp_index pos)))
      (filtered_merged_positions repo parts order q)"

section \<open>Interleaving the detail queues\<close>

lemma group_positions_length [simp]: "length (group_positions ps acc) = length acc"
  by (induction ps acc rule: group_positions.induct) (simp_all add: Let_def)

lemma group_positions_nth:
  assumes "\<forall>pos \<in> set ps. unat (mp_part pos) < length acc" "k < length acc"
  shows "group_positions ps acc ! k =
    acc ! k @ map (\<lambda>pos. unat (mp_index pos)) (filter (\<lambda>pos. unat (mp_part pos) = k) ps)"
  using assms by (induction ps acc rule: group_positions.induct) (auto simp: Let_def nth_list_update)

lemma pop_positions_correct:
  assumes "\<forall>pos \<in> set ps. unat (mp_part pos) < length queues"
    and "\<forall>k < length queues. queues ! k = map val (filter (\<lambda>pos. unat (mp_part pos) = k) ps)"
  shows "pop_positions ps queues = Some (map val ps)"
  using assms
proof (induction ps arbitrary: queues)
  case (Cons pos ps)
  let ?p = "unat (mp_part pos)"
  let ?tail = "map val (filter (\<lambda>p. unat (mp_part p) = ?p) ps)"
  have q: "queues ! ?p = val pos # ?tail" using Cons.prems by simp
  have "pop_positions ps (queues[?p := ?tail]) = Some (map val ps)"
    using Cons.prems by (intro Cons.IH) (auto simp: nth_list_update)
  then show ?case by (simp add: q)
qed simp

lemma merged_details_correct:
  assumes fit: "asm_runs.fits parts ess" and sub: "set matches \<subseteq> set (build_merged_order parts)"
  shows "merged_details parts matches = Some (map (merged_event ess) matches)"
proof -
  let ?per = "group_positions matches (replicate (length parts) [])"
  have at: "unat (mp_part pos) < length ess" "unat (mp_index pos) < length (ess ! unat (mp_part pos))"
    if "pos \<in> set matches" for pos
    using asm_runs.merged_pos_range [OF fit, of pos] sub that
    by (auto simp: build_merged_order_def pos_pair_def)
  have len: "length parts = length ess" by (rule asm_runs.fits_length [OF fit])
  have per: "?per ! k = map (\<lambda>pos. unat (mp_index pos)) (filter (\<lambda>pos. unat (mp_part pos) = k) matches)"
    if "k < length parts" for k
    using group_positions_nth [of matches "replicate (length parts) []" k] at len that by auto
  have batch: "map (\<lambda>(assembly, indices). asm_details assembly indices) (zip parts ?per) ! k =
      map (merged_event ess) (filter (\<lambda>pos. unat (mp_part pos) = k) matches)" if k: "k < length parts" for k
  proof -
    have "\<forall>j \<in> set (?per ! k). j < length (ess ! k)"
      unfolding per [OF k] using at by auto
    then have "asm_details (parts ! k) (?per ! k) = map ((!) (ess ! k)) (?per ! k)"
      using k len by (intro compact_of_details [OF asm_runs.fits_nth [OF fit]]) simp_all
    then show ?thesis using k by (auto simp: per [OF k] merged_event_def pos_pair_def)
  qed
  show ?thesis
    unfolding merged_details_def Let_def
    by (rule pop_positions_correct) (use at len batch in auto)
qed

lemma scan_single_correct:
  assumes "compact_of a es" "sorted (map ue_timestamp_ms es)"
  shows "scan_single F iterw iterr repo q a warnings =
    (let sel = filter (event_selected repo q) es;
         report = report_events F iterw iterr q warnings sel
     in if uq_include_events q then report\<lparr>ur_details := sel\<rparr> else report)"
proof -
  note fe = filtered_events_correct [OF assms, of repo q]
  have "asm_details a (filtered_events repo a q) = map ((!) es) (filtered_events repo a q)"
    using fe compact_of_details [OF assms(1)] by blast
  also have "\<dots> = map (compact_view a) (filtered_events repo a q)"
    by (intro map_cong refl) (use fe compact_of_view [OF assms(1)] in auto)
  finally show ?thesis using fe by (simp add: scan_single_def Let_def)
qed

lemma scan_merged_correct:
  assumes fit: "asm_runs.fits parts ess"
  shows "scan_merged F iterw iterr repo q parts (build_merged_order parts) warnings =
    Some (let sel = filter (event_selected repo q) (sort_key event_sort_key (concat ess));
              report = report_events F iterw iterr q warnings sel
          in if uq_include_events q then report\<lparr>ur_details := sel\<rparr> else report)"
proof -
  let ?m = "filtered_merged_positions repo parts (build_merged_order parts) q"
  note fm = filtered_merged_correct [OF fit, of repo q]
  have "compact_view (parts ! unat (mp_part pos)) (unat (mp_index pos)) = merged_event ess pos"
    if "pos \<in> set ?m" for pos
  proof -
    have "pos \<in> set (merge_order asm_len asm_sort_key parts)"
      using that fm by (auto simp: build_merged_order_def)
    from asm_runs.merged_pos_range [OF fit this] show ?thesis
      using compact_of_view [OF asm_runs.fits_nth [OF fit]] by (simp add: merged_event_def pos_pair_def)
  qed
  then have "map (\<lambda>pos. compact_view (parts ! unat (mp_part pos)) (unat (mp_index pos))) ?m =
      map (merged_event ess) ?m" by (intro map_cong refl)
  then show ?thesis
    using fm merged_details_correct [OF fit, of ?m] by (simp add: scan_merged_def Let_def)
qed

text \<open>
  C1: A combined report over merged partitions is, in every field and including the interleaved
  details, the report of the same query over one assembly of all events in stable order; the detail
  queues never run empty.
\<close>

theorem scan_merged_agrees:
  assumes "\<And>d. mset (iter d) = mset d"
    and "\<forall>es \<in> set ess. sorted (map event_sort_key es) \<and> length es \<le> 2 ^ 32" "length ess \<le> 2 ^ 32"
  shows "let parts = map (\<lambda>es. compact_new iter es None) ess;
      whole = compact_new iter (sort_key event_sort_key (concat ess)) None
    in scan_merged F iterw iterr repo q parts (build_merged_order parts) warnings =
       Some (scan_single F iterw iterr repo q whole warnings)"
proof -
  have fit: "asm_runs.fits (map (\<lambda>es. compact_new iter es None) ess) ess"
    using assms(2,3) compact_parts [OF assms(1)] by (simp add: asm_runs.fits_def)
  have sorted: "sorted (map ue_timestamp_ms (sort_key event_sort_key (concat ess)))"
    by (rule sorted_key_timestamps) simp
  show ?thesis
    unfolding Let_def scan_merged_correct [OF fit]
      scan_single_correct [OF compact_of_new [OF assms(1)] sorted] by (rule refl)
qed

lemma scan_merged_agrees_witness:
  "let parts = map (\<lambda>es. compact_new rev es None)
       [[sample_event ''claude'' ''a'' 2 0], [sample_event ''codex'' ''b'' 1 0]];
     whole = compact_new rev [sample_event ''codex'' ''b'' 1 0, sample_event ''claude'' ''a'' 2 0] None
   in scan_merged int_f64 rev rev (\<lambda>_. None) sample_query parts (build_merged_order parts) [] =
      Some (scan_single int_f64 rev rev (\<lambda>_. None) sample_query whole [])"
  using scan_merged_agrees [of rev "[[sample_event ''claude'' ''a'' 2 0], [sample_event ''codex'' ''b'' 1 0]]"
      int_f64 rev rev "\<lambda>_. None" sample_query "[]"]
  by (simp add: less_eq_prod_def word_le_nat_alt word_less_nat_alt)

section \<open>Totals\<close>

definition bucket_sum :: "(token_buckets \<Rightarrow> u64) \<Rightarrow> 'f event list \<Rightarrow> nat" where
  "bucket_sum bucket es = sum_list (map (\<lambda>e. unat (bucket (ue_tokens e))) es)"

lemma bucket_sum_simps [simp]:
  "bucket_sum bucket [] = 0"
  "bucket_sum bucket (es @ [e]) = bucket_sum bucket es + unat (bucket (ue_tokens e))"
  by (simp_all add: bucket_sum_def)

definition tokens_of :: "'f event list \<Rightarrow> nat" where
  "tokens_of es = sum_list (map (\<lambda>e. unat (additive_total (ue_tokens e))) es)"

definition from_source :: "str \<Rightarrow> 'f event list \<Rightarrow> 'f event list" where
  "from_source s es = filter (\<lambda>e. ue_source e = s) es"

lemma from_source_snoc:
  "from_source s (es @ [e]) = (if ue_source e = s then from_source s es @ [e] else from_source s es)"
  by (simp add: from_source_def)

definition row_counts :: "'f event list \<Rightarrow> 'f usage_summary \<Rightarrow> bool" where
  "row_counts es w =
    (unat (us_events w) = length es
     \<and> unat (us_priced_events w) + unat (us_unpriced_events w) = length es
     \<and> unat (us_total_tokens w) = min (tokens_of es) (2 ^ 64 - 1)
     \<and> unat (us_uncached_input w) = min (bucket_sum tb_uncached_input es) (2 ^ 64 - 1)
     \<and> unat (us_cache_read w) = min (bucket_sum tb_cache_read es) (2 ^ 64 - 1)
     \<and> unat (us_cache_write w) = min (bucket_sum tb_cache_write es) (2 ^ 64 - 1)
     \<and> unat (us_output w) = min (bucket_sum tb_output es) (2 ^ 64 - 1)
     \<and> unat (us_reasoning w) = min (bucket_sum tb_reasoning es) (2 ^ 64 - 1))"

definition scan_inv :: "'f event list \<Rightarrow> 'f scan_state \<Rightarrow> bool" where
  "scan_inv es st =
    (case st of (r, rows, cache) \<Rightarrow>
      unat (ur_events r) = length es
      \<and> unat (ur_priced_events r) + unat (ur_unpriced_events r) = length es
      \<and> unat (ur_total_tokens r) = min (tokens_of es) (2 ^ 64 - 1)
      \<and> distinct (map fst rows) \<and> (\<forall>(s, w) \<in> set rows. us_source w = s)
      \<and> (\<forall>s. case map_of rows s of None \<Rightarrow> from_source s es = []
              | Some w \<Rightarrow> from_source s es \<noteq> [] \<and> row_counts (from_source s es) w))"

lemma set_entry_update:
  "(s, w) \<in> set (entry_update k d g rows) \<Longrightarrow> (s, w) \<in> set rows \<or> s = k \<and> (\<exists>v. w = g v \<and> (v = d \<or> (k, v) \<in> set rows))"
  by (induction k d g rows rule: entry_update.induct) (auto split: if_splits)

lemma capped: "unat a = min n (2 ^ 64 - 1) \<Longrightarrow> unat (sat_add a b) = min (n + unat b) (2 ^ 64 - 1)"
  unfolding unat_sat_add by linarith

lemma scan_inv_step:
  assumes inv: "scan_inv es st" and n: "length es < 2 ^ 64 - 1"
  shows "scan_inv (es @ [e]) (accumulate_usage_event F mode e st)"
proof -
  obtain r rows cache where st: "st = (r, rows, cache)" by (cases st)
  obtain cost cache' where cost: "event_cost_nanos_cached F e mode cache = (cost, cache')"
    by (cases "event_cost_nanos_cached F e mode cache")
  note i = inv [unfolded st scan_inv_def, simplified]
  have tok: "tokens_of (es' @ [e]) = tokens_of es' + unat (additive_total (ue_tokens e))" for es'
    by (simp add: tokens_of_def)
  let ?bump = "row_bump F (ue_tokens e) cost"
  have bump_source: "us_source (?bump w) = us_source w" for w
    by (simp add: row_bump_def Let_def split: option.splits)
  have bump_counts: "row_counts (fs @ [e]) (?bump w)" if "row_counts fs w" "length fs < 2 ^ 64 - 1" for fs w
  proof -
    have "unat (us_events w) < 2 ^ 64 - 1" "unat (us_priced_events w) < 2 ^ 64 - 1"
        "unat (us_unpriced_events w) < 2 ^ 64 - 1"
      using that by (auto simp: row_counts_def)
    then have step: "unat (us_events w + 1) = Suc (unat (us_events w))"
        "unat (us_priced_events w + 1) = Suc (unat (us_priced_events w))"
        "unat (us_unpriced_events w + 1) = Suc (unat (us_unpriced_events w))"
      by (simp_all only: unat_Suc_u64)
    have fields: "us_events (?bump w) = us_events w + 1"
        "us_priced_events (?bump w) = (if cost = None then us_priced_events w else us_priced_events w + 1)"
        "us_unpriced_events (?bump w) = (if cost = None then us_unpriced_events w + 1 else us_unpriced_events w)"
        "us_total_tokens (?bump w) = sat_add (us_total_tokens w) (additive_total (ue_tokens e))"
        "us_uncached_input (?bump w) = sat_add (us_uncached_input w) (tb_uncached_input (ue_tokens e))"
        "us_cache_read (?bump w) = sat_add (us_cache_read w) (tb_cache_read (ue_tokens e))"
        "us_cache_write (?bump w) = sat_add (us_cache_write w) (tb_cache_write (ue_tokens e))"
        "us_output (?bump w) = sat_add (us_output w) (tb_output (ue_tokens e))"
        "us_reasoning (?bump w) = sat_add (us_reasoning w) (tb_reasoning (ue_tokens e))"
      by (simp_all add: row_bump_def Let_def split: option.splits)
    from that(1) show ?thesis unfolding row_counts_def fields tok bucket_sum_simps
      by (cases cost) (simp_all only: step capped length_append_singleton add_Suc add_Suc_right simp_thms
        if_True if_False option.distinct)
  qed
  let ?rows = "entry_update (ue_source e) (summary_default F (ue_source e)) ?bump rows"
  obtain r2 where acc: "accumulate_usage_event F mode e st = (r2, ?rows, cache')"
    and r2: "ur_events r2 = ur_events r + 1"
      "ur_total_tokens r2 = sat_add (ur_total_tokens r) (additive_total (ue_tokens e))"
      "cost \<noteq> None \<longrightarrow> ur_priced_events r2 = ur_priced_events r + 1
        \<and> ur_unpriced_events r2 = ur_unpriced_events r"
      "cost = None \<longrightarrow> ur_unpriced_events r2 = ur_unpriced_events r + 1
        \<and> ur_priced_events r2 = ur_priced_events r"
    unfolding st accumulate_usage_event_def
    by (cases cost) (simp_all add: cost Let_def)
  have small: "unat (ur_events r) < 2 ^ 64 - 1" "unat (ur_priced_events r) < 2 ^ 64 - 1"
      "unat (ur_unpriced_events r) < 2 ^ 64 - 1"
    using i n by auto
  have src: "length (from_source s es) < 2 ^ 64 - 1" for s
    unfolding from_source_def by (rule le_less_trans [OF length_filter_le n])
  have zero: "row_counts [] (summary_default F (ue_source e))"
    by (simp add: row_counts_def summary_default_def tokens_of_def)
  have rows: "case map_of ?rows s of None \<Rightarrow> from_source s (es @ [e]) = []
      | Some w \<Rightarrow> from_source s (es @ [e]) \<noteq> [] \<and> row_counts (from_source s (es @ [e])) w" for s
  proof (cases "ue_source e = s")
    case True
    have "row_counts (from_source s es) (unwrap_or (summary_default F (ue_source e)) (map_of rows s))"
      using i zero True by (cases "map_of rows s") (auto dest: spec [of _ s])
    then show ?thesis
      using bump_counts src True by (simp add: map_of_entry_update from_source_snoc)
  next
    case False
    moreover have "case map_of rows s of None \<Rightarrow> from_source s es = []
        | Some w \<Rightarrow> from_source s es \<noteq> [] \<and> row_counts (from_source s es) w"
      using i by blast
    ultimately show ?thesis by (simp add: map_of_entry_update from_source_snoc split: option.splits)
  qed
  have "us_source w = s" if "(s, w) \<in> set ?rows" for s w
    using set_entry_update [OF that] i by (auto simp: bump_source summary_default_def)
  then show ?thesis
    using i r2 small rows distinct_entry_update [of rows "ue_source e"]
    by (cases cost) (auto simp: acc scan_inv_def tok unat_Suc_u64 unat_sat_add)
qed

lemma scan_inv_fold:
  assumes "length es < 2 ^ 64"
  shows "scan_inv es (fold (accumulate_usage_event F mode) es (report_new F mode warnings, [], []))"
  using assms
proof (induction es rule: rev_induct)
  case Nil
  then show ?case by (simp add: scan_inv_def report_new_def tokens_of_def from_source_def)
next
  case (snoc e es)
  then show ?case by (simp add: scan_inv_step)
qed

lemma absorb_fold:
  assumes "fold (absorb_waste F) ws (r, rows) = (r1, rows1)"
  shows "ur_events r1 = ur_events r \<and> ur_priced_events r1 = ur_priced_events r
    \<and> ur_unpriced_events r1 = ur_unpriced_events r \<and> ur_total_tokens r1 = ur_total_tokens r
    \<and> map fst rows1 = map fst rows
    \<and> (\<forall>s w1. (s, w1) \<in> set rows1 \<longrightarrow> (\<exists>w. (s, w) \<in> set rows \<and> us_source w1 = us_source w
        \<and> (\<forall>es. row_counts es w \<longrightarrow> row_counts es w1)))"
  using assms
proof (induction ws arbitrary: r rows)
  case Nil
  then show ?case by fastforce
next
  case (Cons sw ws)
  obtain source waste where sw: "sw = (source, waste)" by (cases sw)
  let ?r = "r\<lparr>ur_cache_waste := waste_absorb F (ur_cache_waste r) waste\<rparr>"
  let ?rows = "entry_modify source (\<lambda>row. row\<lparr>us_cache_waste := waste\<rparr>) rows"
  have "fold (absorb_waste F) ws (?r, ?rows) = (r1, rows1)"
    using Cons.prems absorb_waste_def [of F "(source, waste)" "(r, rows)"] by (simp add: sw)
  note ih = Cons.IH [OF this]
  have old: "\<exists>w0. (s, w0) \<in> set rows \<and> us_source w = us_source w0
      \<and> (\<forall>es. row_counts es w0 \<longrightarrow> row_counts es w)" if "(s, w) \<in> set ?rows" for s w
    using that by (auto simp: entry_modify_def row_counts_def)
  have "\<exists>w. (s, w) \<in> set rows \<and> us_source w1 = us_source w \<and> (\<forall>es. row_counts es w \<longrightarrow> row_counts es w1)"
    if m: "(s, w1) \<in> set rows1" for s w1
  proof -
    obtain w where "(s, w) \<in> set ?rows" "us_source w1 = us_source w"
        "\<forall>es. row_counts es w \<longrightarrow> row_counts es w1" using ih m by blast
    then show ?thesis using old [of s w] by auto
  qed
  then show ?case using ih by simp
qed



end
