(* ===== verification/UsageFacts.thy ===== *)
theory UsageFacts
  imports UsageReports
begin

text \<open>
  The canonical facts of \<open>src/usage/cache.rs\<close> and \<open>src/usage/facts.rs\<close>: the rows a partition's events
  become, their incremental replacement with one digest per file, the triggers that drop a digest
  whenever a row of its file changes, and the reads that serve reports from rows.

  A table is its list of rows; a statement is a function of the tables and a transaction that fails
  leaves them as they were. A \<open>u64\<close> column holds the signed reading of its bits, as \<open>as i64\<close> gives
  it. Postcard serialization (\<open>enc\<close>), SHA-256 (\<open>sha\<close>) and the random generation are arguments.
\<close>

section \<open>Scanner order\<close>

definition scanners :: "source_filter list" where
  "scanners = [FClaude, FCodex, FOpencode, FPi, FOmp, FOpenClaw, FCursor, FCopilot, FGrok, FHermes,
     FJcode, FMuse, FAntigravity, FBob]"

text \<open>\<open>Iterator::position\<close>.\<close>

fun position :: "'a \<Rightarrow> 'a list \<Rightarrow> nat option" where
  "position x [] = None"
| "position x (y # ys) = (if y = x then Some 0 else map_option Suc (position x ys))"

definition source_ordinal :: "source_filter \<Rightarrow> nat" where
  "source_ordinal f = the (position f scanners)"

definition fact_source_label :: "int \<Rightarrow> str option" where
  "fact_source_label ordinal =
    (if 0 \<le> ordinal \<and> nat ordinal < length scanners
     then Some (filter_as_str (scanners ! nat ordinal)) else None)"

section \<open>Rows\<close>

record 'f db_fact =
  df_source :: str
  df_path :: str
  df_row_idx :: nat
  df_source_order :: int
  df_ordinal :: int
  df_timestamp_ms :: int
  df_session_id :: "str option"
  df_project :: "str option"
  df_provider :: "str option"
  df_model :: "str option"
  df_source_record_id :: "str option"
  df_request_id :: "str option"
  df_message_id :: "str option"
  df_raw_input :: int
  df_uncached_input :: int
  df_cache_read :: int
  df_cache_write :: int
  df_cache_write_1h :: int
  df_output :: int
  df_reasoning :: int
  df_source_cost_usd :: "'f option"
  df_cost_authoritative :: int
  df_dedupe_confidence :: str
  df_conservative_undercount :: int
  df_cache_chain_excluded :: int
  df_sidechain :: int
  df_permission_review :: int

definition as_i64 :: "u64 \<Rightarrow> int" where
  "as_i64 w = sint w"

definition as_u64 :: "int \<Rightarrow> u64" where
  "as_u64 i = word_of_int i"

definition i64_of_bool :: "bool \<Rightarrow> int" where
  "i64_of_bool b = (if b then 1 else 0)"

text \<open>The parameters of one \<open>INSERT INTO usage_facts\<close>.\<close>

definition db_fact_of :: "source_filter \<Rightarrow> nat \<Rightarrow> 'f event \<Rightarrow> 'f db_fact" where
  "db_fact_of f idx e =
    (let t = ue_tokens e
     in \<lparr>df_source = filter_as_str f, df_path = ue_source_path e, df_row_idx = idx,
         df_source_order = as_i64 (ue_source_order e), df_ordinal = int (source_ordinal f),
         df_timestamp_ms = as_i64 (ue_timestamp_ms e), df_session_id = ue_session_id e,
         df_project = ue_project e, df_provider = ue_provider e, df_model = ue_model e,
         df_source_record_id = ue_source_record_id e, df_request_id = ue_request_id e,
         df_message_id = ue_message_id e,
         df_raw_input = as_i64 (tb_raw_input t), df_uncached_input = as_i64 (tb_uncached_input t),
         df_cache_read = as_i64 (tb_cache_read t), df_cache_write = as_i64 (tb_cache_write t),
         df_cache_write_1h = as_i64 (tb_cache_write_1h t), df_output = as_i64 (tb_output t),
         df_reasoning = as_i64 (tb_reasoning t), df_source_cost_usd = ue_source_cost_usd e,
         df_cost_authoritative = i64_of_bool (ue_cost_authoritative e),
         df_dedupe_confidence = ue_dedupe_confidence e,
         df_conservative_undercount = i64_of_bool (ue_conservative_undercount e),
         df_cache_chain_excluded = i64_of_bool (ue_cache_chain_excluded e),
         df_sidechain = i64_of_bool (ue_sidechain e),
         df_permission_review = i64_of_bool (ue_permission_review e)\<rparr>)"

text \<open>
  \<open>map_fact_row\<close>. The code's \<open>FactRow\<close> has the fields of an event, with the path owned: it is an
  event here, its \<open>view\<close> and \<open>into_event\<close> are the identity. The source label comes from the caller.
\<close>

type_synonym 'f fact_row = "'f event"

definition map_fact_row :: "'f db_fact \<Rightarrow> str \<Rightarrow> 'f fact_row" where
  "map_fact_row r label =
    \<lparr>ue_source = label, ue_source_path = df_path r, ue_source_record_id = df_source_record_id r,
     ue_session_id = df_session_id r, ue_request_id = df_request_id r, ue_message_id = df_message_id r,
     ue_timestamp_ms = as_u64 (df_timestamp_ms r), ue_project = df_project r,
     ue_provider = df_provider r, ue_model = df_model r,
     ue_tokens = \<lparr>tb_raw_input = as_u64 (df_raw_input r), tb_uncached_input = as_u64 (df_uncached_input r),
       tb_cache_read = as_u64 (df_cache_read r), tb_cache_write = as_u64 (df_cache_write r),
       tb_cache_write_1h = as_u64 (df_cache_write_1h r), tb_output = as_u64 (df_output r),
       tb_reasoning = as_u64 (df_reasoning r)\<rparr>,
     ue_source_cost_usd = df_source_cost_usd r,
     ue_cost_authoritative = (df_cost_authoritative r \<noteq> 0),
     ue_dedupe_confidence =
       (if df_dedupe_confidence r = ''exact'' then ''exact''
        else if df_dedupe_confidence r = ''strong'' then ''strong'' else ''heuristic''),
     ue_conservative_undercount = (df_conservative_undercount r \<noteq> 0),
     ue_cache_chain_excluded = (df_cache_chain_excluded r \<noteq> 0),
     ue_sidechain = (df_sidechain r \<noteq> 0), ue_permission_review = (df_permission_review r \<noteq> 0),
     ue_source_order = as_u64 (df_source_order r)\<rparr>"

section \<open>The tables\<close>

record sync_row =
  sy_fingerprint :: str
  sy_parser_version :: int
  sy_warnings :: "str list"
  sy_generation :: str

record 'f facts_store =
  fs_facts :: "'f db_fact list"
  fs_files :: "str \<times> str \<rightharpoonup> str"
  fs_sync :: "str \<rightharpoonup> sync_row"

datatype facts_error = UniqueViolation

definition fact_pk :: "'f db_fact \<Rightarrow> str \<times> str \<times> nat" where
  "fact_pk r = (df_source r, df_path r, df_row_idx r)"

text \<open>An insert and the trigger after it.\<close>

definition insert_fact :: "'f db_fact \<Rightarrow> 'f facts_store \<Rightarrow> facts_error + 'f facts_store" where
  "insert_fact r st =
    (if fact_pk r \<in> fact_pk ` set (fs_facts st) then Inl UniqueViolation
     else Inr (st\<lparr>fs_facts := fs_facts st @ [r],
                  fs_files := (fs_files st)((df_source r, df_path r) := None)\<rparr>))"

text \<open>\<open>DELETE FROM usage_facts WHERE source = ?1 AND path = ?2\<close> and the trigger after each row.\<close>

definition delete_facts :: "str \<Rightarrow> str \<Rightarrow> 'f facts_store \<Rightarrow> 'f facts_store" where
  "delete_facts src path st =
    st\<lparr>fs_facts := filter (\<lambda>r. \<not> (df_source r = src \<and> df_path r = path)) (fs_facts st),
       fs_files := (if \<exists>r \<in> set (fs_facts st). df_source r = src \<and> df_path r = path
                    then (fs_files st)((src, path) := None) else fs_files st)\<rparr>"

text \<open>\<open>insert_fact_events\<close>: \<open>cnt\<close> is the next row index of each path.\<close>

definition next_index :: "str \<Rightarrow> (str \<Rightarrow> nat) \<Rightarrow> str \<Rightarrow> nat" where
  "next_index p cnt = cnt(p := cnt p + 1)"

fun insert_fact_events ::
    "source_filter \<Rightarrow> 'f event list \<Rightarrow> (str \<Rightarrow> nat) \<Rightarrow> 'f facts_store \<Rightarrow> facts_error + 'f facts_store" where
  "insert_fact_events f [] cnt st = Inr st"
| "insert_fact_events f (e # es) cnt st =
    (case insert_fact (db_fact_of f (cnt (ue_source_path e)) e) st of
       Inl err \<Rightarrow> Inl err
     | Inr st' \<Rightarrow>
         insert_fact_events f es (next_index (ue_source_path e) cnt) st')"

section \<open>Freshness fingerprints\<close>

type_synonym file_triple = "str \<times> u64 \<times> int"

definition stable_triples :: "(str \<Rightarrow> bool) \<Rightarrow> file_triple list \<Rightarrow> file_triple list" where
  "stable_triples volatile fingerprint =
    map (\<lambda>(path, size, mtime_ns). if volatile path then (path, 0, 0) else (path, size, mtime_ns))
      fingerprint"

definition fnv_byte :: "u64 \<Rightarrow> u64 \<Rightarrow> u64" where
  "fnv_byte byte hash = (xor hash byte) * 0x100000001b3"

definition byte_word :: "char \<Rightarrow> u64" where
  "byte_word c = of_nat (of_char c)"

definition fnv_triple :: "file_triple \<Rightarrow> u64 \<Rightarrow> u64" where
  "fnv_triple tr hash =
    (let (path, size, mtime_ns) = tr;
         h1 = fold (\<lambda>c. fnv_byte (byte_word c)) path hash;
         h2 = fnv_byte 0xff h1
     in fold (\<lambda>w h. fold (\<lambda>c. fnv_byte (byte_word c)) (le_bytes 8 (unat w)) h)
          [size, as_u64 mtime_ns] h2)"

definition hex_digit :: "nat \<Rightarrow> char" where
  "hex_digit n = ''0123456789abcdef'' ! n"

definition hex16 :: "u64 \<Rightarrow> str" where
  "hex16 h = map (\<lambda>k. hex_digit (unat h div 16 ^ (15 - k) mod 16)) [0..<16]"

definition fingerprint_files :: "file_triple list \<Rightarrow> str" where
  "fingerprint_files triples = hex16 (fold fnv_triple triples 0xcbf29ce484222325)"

definition write_fact_sync ::
    "source_filter \<Rightarrow> (str \<Rightarrow> bool) \<Rightarrow> int \<Rightarrow> str \<Rightarrow> file_triple list \<Rightarrow> str list
     \<Rightarrow> 'f facts_store \<Rightarrow> 'f facts_store" where
  "write_fact_sync f volatile version generation fingerprint warnings st =
    st\<lparr>fs_sync := (fs_sync st)(filter_as_str f \<mapsto>
        \<lparr>sy_fingerprint = fingerprint_files (stable_triples volatile fingerprint),
         sy_parser_version = version, sy_warnings = warnings, sy_generation = generation\<rparr>)\<rparr>"

definition fact_sync :: "'f facts_store \<Rightarrow> str \<Rightarrow> (str \<times> int \<times> str list) option" where
  "fact_sync st source =
    map_option (\<lambda>r. (sy_fingerprint r, sy_parser_version r, sy_warnings r)) (fs_sync st source)"

definition fact_generation :: "'f facts_store \<Rightarrow> str \<Rightarrow> str option" where
  "fact_generation st source = map_option sy_generation (fs_sync st source)"

definition invalidate_facts :: "str \<Rightarrow> 'f facts_store \<Rightarrow> 'f facts_store" where
  "invalidate_facts source st = st\<lparr>fs_sync := (fs_sync st)(source := None)\<rparr>"

section \<open>The digest of a file's contribution\<close>

text \<open>\<open>CachedUsageEventRef\<close>: what is serialized of an event; its source and path are the key.\<close>

record 'f cached_event =
  ce_source_record_id :: "str option"
  ce_session_id :: "str option"
  ce_request_id :: "str option"
  ce_message_id :: "str option"
  ce_timestamp_ms :: u64
  ce_project :: "str option"
  ce_provider :: "str option"
  ce_model :: "str option"
  ce_tokens :: token_buckets
  ce_source_cost_usd :: "'f option"
  ce_cost_authoritative :: bool
  ce_dedupe_confidence :: str
  ce_conservative_undercount :: bool
  ce_cache_chain_excluded :: bool
  ce_sidechain :: bool
  ce_permission_review :: bool
  ce_source_order :: u64

definition cached_from_event :: "'f event \<Rightarrow> 'f cached_event" where
  "cached_from_event e =
    \<lparr>ce_source_record_id = ue_source_record_id e, ce_session_id = ue_session_id e,
     ce_request_id = ue_request_id e, ce_message_id = ue_message_id e,
     ce_timestamp_ms = ue_timestamp_ms e, ce_project = ue_project e, ce_provider = ue_provider e,
     ce_model = ue_model e, ce_tokens = ue_tokens e, ce_source_cost_usd = ue_source_cost_usd e,
     ce_cost_authoritative = ue_cost_authoritative e,
     ce_dedupe_confidence = ue_dedupe_confidence e,
     ce_conservative_undercount = ue_conservative_undercount e,
     ce_cache_chain_excluded = ue_cache_chain_excluded e, ce_sidechain = ue_sidechain e,
     ce_permission_review = ue_permission_review e, ce_source_order = ue_source_order e\<rparr>"

definition cached_into_event :: "'f cached_event \<Rightarrow> str \<Rightarrow> str \<Rightarrow> 'f event" where
  "cached_into_event c source path =
    \<lparr>ue_source = source, ue_source_path = path, ue_source_record_id = ce_source_record_id c,
     ue_session_id = ce_session_id c, ue_request_id = ce_request_id c,
     ue_message_id = ce_message_id c, ue_timestamp_ms = ce_timestamp_ms c,
     ue_project = ce_project c, ue_provider = ce_provider c, ue_model = ce_model c,
     ue_tokens = ce_tokens c, ue_source_cost_usd = ce_source_cost_usd c,
     ue_cost_authoritative = ce_cost_authoritative c,
     ue_dedupe_confidence =
       (if ce_dedupe_confidence c = ''exact'' then ''exact''
        else if ce_dedupe_confidence c = ''strong'' then ''strong'' else ''heuristic''),
     ue_conservative_undercount = ce_conservative_undercount c,
     ue_cache_chain_excluded = ce_cache_chain_excluded c, ue_sidechain = ce_sidechain c,
     ue_permission_review = ce_permission_review c, ue_source_order = ce_source_order c\<rparr>"

definition contribution_bytes :: "('f cached_event \<Rightarrow> str) \<Rightarrow> 'f event list \<Rightarrow> str" where
  "contribution_bytes enc es = concat (map (prefixed 8) (map (\<lambda>e. enc (cached_from_event e)) es))"

definition contribution_digest :: "('f cached_event \<Rightarrow> str) \<Rightarrow> (str \<Rightarrow> str) \<Rightarrow> 'f event list \<Rightarrow> str" where
  "contribution_digest enc sha es = sha (contribution_bytes enc es)"

text \<open>\<open>slice::chunk_by\<close>: the maximal runs of neighbours that the relation accepts.\<close>

fun chunk_by :: "('a \<Rightarrow> 'a \<Rightarrow> bool) \<Rightarrow> 'a list \<Rightarrow> 'a list list" where
  "chunk_by p [] = []"
| "chunk_by p (x # xs) =
    (case (xs, chunk_by p xs) of
       (y # _, c # cs) \<Rightarrow> if p x y then (x # c) # cs else [x] # c # cs
     | _ \<Rightarrow> [[x]])"

text \<open>The grouping of a partition's events by path, in order of first appearance.\<close>

definition group_contributions :: "'f event list \<Rightarrow> (str \<times> 'f event list) list" where
  "group_contributions es =
    fold (\<lambda>run m. entry_update (ue_source_path (hd run)) [] (\<lambda>l. l @ run) m)
      (chunk_by (\<lambda>left right. ue_source_path left = ue_source_path right) es) []"

text \<open>\<open>previous\<close>: the paths that have rows, with the digest of each, if it has one.\<close>

definition previous_paths :: "str \<Rightarrow> 'f facts_store \<Rightarrow> str list" where
  "previous_paths src st = remdups (map df_path (filter (\<lambda>r. df_source r = src) (fs_facts st)))"

definition changed_paths ::
    "str \<Rightarrow> (str \<times> str) list \<Rightarrow> 'f facts_store \<Rightarrow> str list" where
  "changed_paths src hashes st =
    (let prev = previous_paths src st
     in filter (\<lambda>p. (if p \<in> set prev then fs_files st (src, p) else None) \<noteq> map_of hashes p)
          (map fst hashes)
        @ filter (\<lambda>p. p \<notin> fst ` set hashes) prev)"

text \<open>
  \<open>replace_partition_facts\<close>; \<open>iter\<close> is the iteration order of the hash set of changed paths. The
  transaction commits as a whole: an error returns no new tables.
\<close>

definition replace_partition_facts ::
    "('f cached_event \<Rightarrow> str) \<Rightarrow> (str \<Rightarrow> str) \<Rightarrow> (str list \<Rightarrow> str list) \<Rightarrow> (str \<Rightarrow> bool) \<Rightarrow> int \<Rightarrow> str
     \<Rightarrow> source_filter \<Rightarrow> 'f event list \<Rightarrow> file_triple list \<Rightarrow> str list
     \<Rightarrow> 'f facts_store \<Rightarrow> facts_error + 'f facts_store" where
  "replace_partition_facts enc sha iter volatile version generation f es fingerprint warnings st =
    (let src = filter_as_str f;
         contributions = group_contributions es;
         hashes = map (\<lambda>(p, l). (p, contribution_digest enc sha l)) contributions;
         changed = iter (changed_paths src hashes st);
         st1 = fold (delete_facts src) changed st;
         evs = (if list_all (\<lambda>(p, l). p \<in> set changed) contributions then es
                else concat (List.map_filter (map_of contributions) changed))
     in case insert_fact_events f evs (\<lambda>_. 0) st1 of
          Inl err \<Rightarrow> Inl err
        | Inr st2 \<Rightarrow>
            (let st3 = fold (\<lambda>p s. case map_of hashes p of
                   None \<Rightarrow> s
                 | Some d \<Rightarrow> s\<lparr>fs_files := (fs_files s)((src, p) \<mapsto> d)\<rparr>) changed st2
             in Inr (write_fact_sync f volatile version generation fingerprint warnings st3)))"

definition upsert_file_facts ::
    "(str \<Rightarrow> bool) \<Rightarrow> int \<Rightarrow> str \<Rightarrow> source_filter \<Rightarrow> str list \<Rightarrow> 'f event list
     \<Rightarrow> file_triple list \<Rightarrow> str list \<Rightarrow> 'f facts_store \<Rightarrow> facts_error + 'f facts_store" where
  "upsert_file_facts volatile version generation f removed es fingerprint warnings st =
    (let st1 = fold (delete_facts (filter_as_str f)) removed st
     in case insert_fact_events f es (\<lambda>_. 0) st1 of
          Inl err \<Rightarrow> Inl err
        | Inr st2 \<Rightarrow> Inr (write_fact_sync f volatile version generation fingerprint warnings st2))"

section \<open>Reading facts\<close>

definition fact_order_key :: "'f db_fact \<Rightarrow> int \<times> int \<times> str \<times> int \<times> nat" where
  "fact_order_key r = (df_ordinal r, df_timestamp_ms r, df_path r, df_source_order r, df_row_idx r)"

text \<open>The rows of a query \<open>WHERE ordinal = ? [AND timestamp_ms >= ?] [AND timestamp_ms < ?]\<close>.\<close>

definition select_ordinal :: "'f facts_store \<Rightarrow> int \<Rightarrow> u64 option \<Rightarrow> u64 option \<Rightarrow> 'f db_fact list" where
  "select_ordinal st ordinal since til =
    sort_key fact_order_key (filter (\<lambda>r. df_ordinal r = ordinal
        \<and> is_none_or (\<lambda>s. as_i64 s \<le> df_timestamp_ms r) since
        \<and> is_none_or (\<lambda>u. df_timestamp_ms r < as_i64 u) til) (fs_facts st))"

definition read_ordinal_run ::
    "'f facts_store \<Rightarrow> int \<Rightarrow> u64 option \<Rightarrow> u64 option \<Rightarrow> 'f fact_row list" where
  "read_ordinal_run st ordinal since til =
    List.map_filter (\<lambda>r. map_option (map_fact_row r) (fact_source_label (df_ordinal r)))
      (select_ordinal st ordinal since til)"

definition selected_scanners :: "source_filter option \<Rightarrow> source_filter list" where
  "selected_scanners source = filter (\<lambda>f. is_none_or (\<lambda>s. s = f) source) scanners"

definition read_fact_runs ::
    "'f facts_store \<Rightarrow> source_filter option \<Rightarrow> u64 option \<Rightarrow> u64 option \<Rightarrow> 'f fact_row list list" where
  "read_fact_runs st source since til =
    map (\<lambda>f. read_ordinal_run st (int (source_ordinal f)) since til) (selected_scanners source)"

definition merge_fact_runs :: "'f fact_row list list \<Rightarrow> merged_pos list" where
  "merge_fact_runs runs =
    merge_runs (\<lambda>row. (ue_timestamp_ms row, ue_source_path row, ue_source_order row)) runs"

text \<open>\<open>read_fact_assembly\<close> pushes the rows of one source, in report order, into a builder.\<close>

definition read_fact_assembly ::
    "(dictionary \<Rightarrow> dictionary) \<Rightarrow> 'f facts_store \<Rightarrow> source_filter \<Rightarrow> 'f compact" where
  "read_fact_assembly iter st f =
    builder_finish iter
      (fold builder_push
        (map (\<lambda>r. map_fact_row r (filter_as_str f)) (select_ordinal st (int (source_ordinal f)) None None))
        builder_default)"

text \<open>
  \<open>fact_details\<close>: each run is filtered to its matched indices, which the standard library's binary
  search finds in the ascending list of them, and the queues are popped in merged order.
\<close>

definition fact_details :: "'f fact_row list list \<Rightarrow> merged_pos list \<Rightarrow> 'f event list option" where
  "fact_details runs matches =
    (let per_run = group_positions matches (replicate (length runs) []);
         batched = map (\<lambda>(run, indices). map snd (filter (\<lambda>(i, _). i \<in> set indices) (enumerate 0 run)))
            (zip runs per_run)
     in pop_positions matches batched)"

definition scan_usage_from_facts ::
    "'f f64_ops \<Rightarrow> ((str \<times> 'f cache_waste) list \<Rightarrow> (str \<times> 'f cache_waste) list)
     \<Rightarrow> ((str \<times> 'f usage_summary) list \<Rightarrow> (str \<times> 'f usage_summary) list)
     \<Rightarrow> (str \<Rightarrow> str option) \<Rightarrow> usage_query \<Rightarrow> 'f facts_store \<Rightarrow> str list \<Rightarrow> 'f usage_report option" where
  "scan_usage_from_facts F iterw iterr repo q st warnings =
    (let runs = read_fact_runs st (uq_source q) (uq_since_ms q) (uq_until_ms q);
         order = merge_fact_runs runs;
         row_at = (\<lambda>pos. runs ! unat (mp_part pos) ! unat (mp_index pos));
         matched = filter_st (\<lambda>pos plan. plan_matches repo plan (event_fields (row_at pos))) order (plan_new q);
         report = report_events F iterw iterr q warnings (map row_at matched)
     in if uq_include_events q
        then map_option (\<lambda>d. report\<lparr>ur_details := d\<rparr>) (fact_details runs matched)
        else Some report)"

end
