(* ===== verification/UsageFactsSync.thy ===== *)
theory UsageFactsSync
  imports UsageFacts
begin

text \<open>
  What the fact tables promise: rows decode to the events they were made from, the primary key is
  never violated, and an incremental replacement leaves exactly the rows a full rewrite would.
\<close>

section \<open>Rows and events\<close>

lemma as_u64_as_i64 [simp]: "as_u64 (as_i64 w) = w"
  by (simp add: as_u64_def as_i64_def)

lemma i64_of_bool_nonzero [simp]: "(i64_of_bool b \<noteq> 0) = b"
  by (simp add: i64_of_bool_def)

definition known_confidence :: "str \<Rightarrow> bool" where
  "known_confidence c = (c \<in> {''exact'', ''strong'', ''heuristic''})"

lemma map_fact_row_of:
  assumes "ue_source e = label" "known_confidence (ue_dedupe_confidence e)"
  shows "map_fact_row (db_fact_of f i e) label = e"
  using assms by (cases e) (auto simp: map_fact_row_def db_fact_of_def Let_def known_confidence_def)

lemma cached_into_from:
  "known_confidence (ue_dedupe_confidence e) \<Longrightarrow>
    cached_into_event (cached_from_event e) (ue_source e) (ue_source_path e) = e"
  by (cases e) (auto simp: cached_into_event_def cached_from_event_def known_confidence_def)

lemma position_nth: "position x xs = Some i \<Longrightarrow> i < length xs \<and> xs ! i = x"
  by (induction x xs arbitrary: i rule: position.induct) (auto split: if_splits)

lemma fact_source_label_ordinal [simp]:
  "fact_source_label (int (source_ordinal f)) = Some (filter_as_str f)"
  by (cases f) (simp_all add: source_ordinal_def fact_source_label_def scanners_def)

lemma filter_as_str_inject: "filter_as_str f = filter_as_str g \<longleftrightarrow> f = g"
  by (cases f; cases g) simp_all

lemma source_ordinal_inject: "source_ordinal f = source_ordinal g \<longleftrightarrow> f = g"
  using fact_source_label_ordinal [of f] fact_source_label_ordinal [of g]
  by (metis filter_as_str_inject option.inject)

lemma db_fact_of_sel [simp]:
  "df_source (db_fact_of f i e) = filter_as_str f"
  "df_path (db_fact_of f i e) = ue_source_path e"
  "df_row_idx (db_fact_of f i e) = i"
  "df_ordinal (db_fact_of f i e) = int (source_ordinal f)"
  "df_timestamp_ms (db_fact_of f i e) = as_i64 (ue_timestamp_ms e)"
  "df_source_order (db_fact_of f i e) = as_i64 (ue_source_order e)"
  by (simp_all add: db_fact_of_def Let_def)

lemma db_fact_of_cong:
  assumes "cached_from_event e = cached_from_event e'" "ue_source_path e = ue_source_path e'"
  shows "db_fact_of f i e = db_fact_of f i e'"
  using assms by (cases e; cases e') (simp add: cached_from_event_def db_fact_of_def)

section \<open>The rows a list of events becomes\<close>

lemma next_index_simps [simp]:
  "next_index p cnt p = Suc (cnt p)" "q \<noteq> p \<Longrightarrow> next_index p cnt q = cnt q"
  by (simp_all add: next_index_def)

lemma next_index_le: "next_index p cnt q \<le> i \<Longrightarrow> cnt q \<le> i"
  by (simp add: next_index_def split: if_splits)

fun fact_rows :: "source_filter \<Rightarrow> 'f event list \<Rightarrow> (str \<Rightarrow> nat) \<Rightarrow> 'f db_fact list" where
  "fact_rows f [] cnt = []"
| "fact_rows f (e # es) cnt = db_fact_of f (cnt (ue_source_path e)) e
     # fact_rows f es (next_index (ue_source_path e) cnt)"

definition at_path :: "str \<Rightarrow> 'f event list \<Rightarrow> 'f event list" where
  "at_path p es = filter (\<lambda>e. ue_source_path e = p) es"

lemma at_path_simps [simp]:
  "at_path p [] = []"
  "at_path p (e # es) = (if ue_source_path e = p then e # at_path p es else at_path p es)"
  "at_path p (es @ fs) = at_path p es @ at_path p fs"
  by (simp_all add: at_path_def)

lemma at_path_idem [simp]: "at_path p (at_path q es) = (if p = q then at_path p es else [])"
  by (auto simp: at_path_def filter_empty_conv)

lemma fact_rows_source: "r \<in> set (fact_rows f es cnt) \<Longrightarrow>
    df_source r = filter_as_str f \<and> df_ordinal r = int (source_ordinal f)
    \<and> df_path r \<in> ue_source_path ` set es"
  by (induction f es cnt rule: fact_rows.induct) auto

lemma fact_rows_idx: "r \<in> set (fact_rows f es cnt) \<Longrightarrow> cnt (df_path r) \<le> df_row_idx r"
  by (induction f es cnt rule: fact_rows.induct) (auto dest: next_index_le)

lemma fact_rows_distinct: "distinct (map fact_pk (fact_rows f es cnt))"
proof (induction f es cnt rule: fact_rows.induct)
  case (2 f e es cnt)
  let ?cnt = "next_index (ue_source_path e) cnt"
  have "fact_pk (db_fact_of f (cnt (ue_source_path e)) e) \<noteq> fact_pk r"
    if "r \<in> set (fact_rows f es ?cnt)" for r
    using fact_rows_idx [OF that] by (auto simp: fact_pk_def)
  then show ?case using 2 by auto
qed simp

lemma fact_rows_cong:
  "(\<And>p. p \<in> ue_source_path ` set es \<Longrightarrow> cnt p = cnt' p) \<Longrightarrow> fact_rows f es cnt = fact_rows f es cnt'"
proof (induction f es cnt arbitrary: cnt' rule: fact_rows.induct)
  case (2 f e es cnt)
  have "fact_rows f es (next_index (ue_source_path e) cnt) =
      fact_rows f es (next_index (ue_source_path e) cnt')"
    by (rule "2.IH") (auto simp: "2.prems" next_index_def)
  then show ?case by (simp add: "2.prems")
qed simp

lemma fact_rows_path:
  "filter (\<lambda>r. df_path r = p) (fact_rows f es cnt) = fact_rows f (at_path p es) cnt"
proof (induction f es cnt rule: fact_rows.induct)
  case (2 f e es cnt)
  show ?case
  proof (cases "ue_source_path e = p")
    case False
    have "fact_rows f (at_path p es) (next_index (ue_source_path e) cnt) =
        fact_rows f (at_path p es) cnt"
      by (rule fact_rows_cong) (use False in \<open>auto simp: at_path_def next_index_def\<close>)
    then show ?thesis using False "2.IH" by simp
  qed (use "2.IH" in simp)
qed simp

lemma fact_rows_cached:
  assumes "map cached_from_event es = map cached_from_event es'"
    and "map ue_source_path es = map ue_source_path es'"
  shows "fact_rows f es cnt = fact_rows f es' cnt"
  using assms
proof (induction f es cnt arbitrary: es' rule: fact_rows.induct)
  case (2 f e es cnt)
  then obtain e' es'' where "es' = e' # es''" by (cases es') auto
  with 2 db_fact_of_cong [of e e'] show ?case by auto
qed simp

lemma insert_fact_events_ok:
  assumes "fact_pk ` set (fs_facts st) \<inter> fact_pk ` set (fact_rows f es cnt) = {}"
  shows "insert_fact_events f es cnt st =
    Inr (st\<lparr>fs_facts := fs_facts st @ fact_rows f es cnt,
            fs_files := (\<lambda>k. if fst k = filter_as_str f \<and> snd k \<in> ue_source_path ` set es
                            then None else fs_files st k)\<rparr>)"
  using assms
proof (induction f es cnt arbitrary: st rule: fact_rows.induct)
  case (1 f cnt)
  then show ?case by simp
next
  case (2 f e es cnt)
  let ?r = "db_fact_of f (cnt (ue_source_path e)) e"
  let ?st = "st\<lparr>fs_facts := fs_facts st @ [?r],
                fs_files := (fs_files st)((df_source ?r, df_path ?r) := None)\<rparr>"
  have ins: "insert_fact ?r st = Inr ?st" using "2.prems" by (auto simp: insert_fact_def)
  have "fact_pk ` set (fs_facts ?st)
      \<inter> fact_pk ` set (fact_rows f es (next_index (ue_source_path e) cnt)) = {}"
    using "2.prems" fact_rows_distinct [of f "e # es" cnt] by (auto simp: image_iff)
  then show ?case using "2.IH" [of ?st] ins by (auto simp: fun_eq_iff)
qed

section \<open>Contributions\<close>

lemma chunk_by_Nil_iff [simp]: "chunk_by p xs = [] \<longleftrightarrow> xs = []"
  by (induction p xs rule: chunk_by.induct) (auto split: list.splits)

lemma concat_chunk_by [simp]: "concat (chunk_by p xs) = xs"
proof (induction p xs rule: chunk_by.induct)
  case (2 p x xs)
  then show ?case by (cases xs; cases "chunk_by p xs") auto
qed simp

lemma chunk_by_step:
  assumes "xs \<noteq> []"
  obtains c cs where "chunk_by p xs = c # cs"
    "chunk_by p (x # xs) = (if p x (hd xs) then (x # c) # cs else [x] # c # cs)"
proof -
  have "chunk_by p xs \<noteq> []" using assms by simp
  then obtain c cs where c: "chunk_by p xs = c # cs" by (cases "chunk_by p xs") blast
  moreover have "chunk_by p (x # xs) = (if p x (hd xs) then (x # c) # cs else [x] # c # cs)"
    using assms by (subst chunk_by.simps(2), subst c) (simp split: list.split)
  ultimately show ?thesis by (rule that)
qed

definition one_key :: "('a \<Rightarrow> 'k) \<Rightarrow> 'a list \<Rightarrow> bool" where
  "one_key k run = (run \<noteq> [] \<and> k ` set run = {k (hd run)})"

lemma chunk_by_key: "run \<in> set (chunk_by (\<lambda>x y. k x = k y) xs) \<Longrightarrow> one_key k run"
proof (induction xs arbitrary: run)
  case (Cons x xs)
  let ?p = "\<lambda>x y. k x = k y"
  show ?case
  proof (cases "xs = []")
    case True
    then show ?thesis using Cons.prems by (simp add: one_key_def)
  next
    case False
    then obtain c cs where c: "chunk_by ?p xs = c # cs"
      "chunk_by ?p (x # xs) = (if k x = k (hd xs) then (x # c) # cs else [x] # c # cs)"
      by (rule chunk_by_step)
    have ih: "one_key k run" if "run \<in> set (c # cs)" for run
      by (rule Cons.IH) (simp only: c(1) that)
    have "c @ concat cs = xs" using concat_chunk_by [of ?p xs] by (simp only: c(1) concat.simps)
    then have hd: "hd c = hd xs" using ih [of c] by (cases c) (auto simp: one_key_def)
    have "run \<in> set (if k x = k (hd xs) then (x # c) # cs else [x] # c # cs)"
      using Cons.prems by (simp only: c(2))
    then consider "run = x # c" "k x = k (hd xs)" | "run = [x]" | "run \<in> set (c # cs)"
      by (auto split: if_splits)
    then show ?thesis
    proof cases
      case 1
      then show ?thesis using ih [of c] hd by (simp add: one_key_def)
    next
      case 2
      then show ?thesis by (simp add: one_key_def)
    next
      case 3
      then show ?thesis by (rule ih)
    qed
  qed
qed simp

lemma at_path_run:
  assumes "one_key ue_source_path run"
  shows "at_path p run = (if p = ue_source_path (hd run) then run else [])"
proof -
  have "ue_source_path e = ue_source_path (hd run)" if "e \<in> set run" for e
    using assms that by (auto simp: one_key_def)
  then show ?thesis by (simp add: at_path_def filter_id_conv filter_empty_conv)
qed

abbreviation group_run where
  "group_run run m \<equiv> entry_update (ue_source_path (hd run)) [] (\<lambda>l. l @ run) m"

lemma group_fold:
  assumes "\<forall>run \<in> set runs. one_key ue_source_path run" "distinct (map fst m)"
  shows "distinct (map fst (fold group_run runs m))
    \<and> map_of (fold group_run runs m) p =
      (if at_path p (concat runs) = [] then map_of m p
       else Some (unwrap_or [] (map_of m p) @ at_path p (concat runs)))"
  using assms
proof (induction runs arbitrary: m)
  case (Cons run runs)
  let ?q = "ue_source_path (hd run)"
  have run: "at_path p run = (if p = ?q then run else [])" "run \<noteq> []"
    using Cons.prems(1) at_path_run [of run p] by (simp_all add: one_key_def)
  have "distinct (map fst (group_run run m))" using Cons.prems(2) by (rule distinct_entry_update)
  note ih = Cons.IH [OF _ this]
  have step: "map_of (group_run run m) p = (if p = ?q then Some (unwrap_or [] (map_of m p) @ run) else map_of m p)"
    by (simp add: map_of_entry_update)
  show ?case using ih Cons.prems(1) run step by (cases "p = ?q") (simp_all add: step)
qed simp

lemma group_contributions_correct:
  "distinct (map fst (group_contributions es))"
  "map_of (group_contributions es) p = (if at_path p es = [] then None else Some (at_path p es))"
proof -
  have "\<forall>run \<in> set (chunk_by (\<lambda>left right. ue_source_path left = ue_source_path right) es).
      one_key ue_source_path run"
    by (simp add: chunk_by_key)
  note group_fold [OF this, of "[]" p]
  then show "distinct (map fst (group_contributions es))"
    "map_of (group_contributions es) p = (if at_path p es = [] then None else Some (at_path p es))"
    by (simp_all only: group_contributions_def concat_chunk_by) simp_all
qed

lemma at_path_Nil_iff: "at_path p es = [] \<longleftrightarrow> p \<notin> ue_source_path ` set es"
  by (auto simp: at_path_def filter_empty_conv)

lemma group_contributions_keys: "fst ` set (group_contributions es) = ue_source_path ` set es"
proof -
  have "p \<in> fst ` set (group_contributions es) \<longleftrightarrow> p \<in> ue_source_path ` set es" for p
    using group_contributions_correct(2) [of es p]
    by (metis at_path_Nil_iff map_of_eq_None_iff option.distinct(1))
  then show ?thesis by blast
qed

section \<open>The invariant of the tables\<close>

definition file_rows :: "str \<Rightarrow> str \<Rightarrow> 'f facts_store \<Rightarrow> 'f db_fact list" where
  "file_rows src p st = filter (\<lambda>r. df_source r = src \<and> df_path r = p) (fs_facts st)"

text \<open>
  \<open>D\<close> is the set of contributions that were ever recorded: on it the serialization is injective and
  SHA-256 has no collision. These are the assumptions under which a digest identifies a contribution.
\<close>

definition digests_faithful ::
    "('f cached_event \<Rightarrow> str) \<Rightarrow> (str \<Rightarrow> str) \<Rightarrow> 'f event list set \<Rightarrow> bool" where
  "digests_faithful enc sha D =
    (inj_on enc (cached_from_event ` \<Union> (set ` D)) \<and> inj_on sha (contribution_bytes enc ` D)
     \<and> (\<forall>l \<in> D. \<forall>e \<in> set l. length (enc (cached_from_event e)) < 256 ^ 8))"

definition facts_inv ::
    "('f cached_event \<Rightarrow> str) \<Rightarrow> (str \<Rightarrow> str) \<Rightarrow> 'f event list set \<Rightarrow> 'f facts_store \<Rightarrow> bool" where
  "facts_inv enc sha D st =
    (distinct (map fact_pk (fs_facts st))
     \<and> (\<forall>r \<in> set (fs_facts st). \<exists>f. df_source r = filter_as_str f \<and> df_ordinal r = int (source_ordinal f))
     \<and> (\<forall>f p d. fs_files st (filter_as_str f, p) = Some d \<longrightarrow>
          (\<exists>l \<in> D. file_rows (filter_as_str f) p st = fact_rows f l (\<lambda>_. 0)
             \<and> ue_source_path ` set l \<subseteq> {p} \<and> contribution_digest enc sha l = d)))"

lemma contribution_digest_inject:
  assumes "digests_faithful enc sha D" "l \<in> D" "l' \<in> D"
    and "contribution_digest enc sha l = contribution_digest enc sha l'"
  shows "map cached_from_event l = map cached_from_event l'"
proof -
  let ?b = "\<lambda>l. map (\<lambda>e. enc (cached_from_event e)) l"
  have "contribution_bytes enc l = contribution_bytes enc l'"
    using assms by (auto simp: digests_faithful_def contribution_digest_def dest: inj_onD)
  then have "?b l = ?b l'"
    unfolding contribution_bytes_def
    by (rule concat_prefixed_inject) (use assms(1-3) in \<open>auto simp: digests_faithful_def\<close>)
  then have "map enc (map cached_from_event l) = map enc (map cached_from_event l')"
    by (simp add: comp_def)
  moreover have "inj_on enc (set (map cached_from_event l) \<union> set (map cached_from_event l'))"
    by (rule inj_on_subset [of enc "cached_from_event ` \<Union> (set ` D)"])
      (use assms(1-3) in \<open>auto simp: digests_faithful_def\<close>)
  ultimately show ?thesis by (rule map_inj_on)
qed

lemma map_const_on: "g ` set l \<subseteq> {c} \<Longrightarrow> map g l = replicate (length l) c"
  by (induction l) auto

lemma same_contribution_rows:
  assumes "digests_faithful enc sha D" "l \<in> D" "l' \<in> D"
    and "contribution_digest enc sha l = contribution_digest enc sha l'"
    and "ue_source_path ` set l \<subseteq> {p}" "ue_source_path ` set l' \<subseteq> {p}"
  shows "fact_rows f l cnt = fact_rows f l' cnt"
proof (rule fact_rows_cached)
  show eq: "map cached_from_event l = map cached_from_event l'"
    using assms(1-4) by (rule contribution_digest_inject)
  show "map ue_source_path l = map ue_source_path l'"
    using arg_cong [OF eq, of length] assms(5,6) by (simp add: map_const_on)
qed

section \<open>Statements in a row\<close>

lemma fold_delete_facts:
  "fold (delete_facts src) ps st =
    st\<lparr>fs_facts := filter (\<lambda>r. \<not> (df_source r = src \<and> df_path r \<in> set ps)) (fs_facts st),
       fs_files := (\<lambda>k. if fst k = src \<and> snd k \<in> set ps \<and> file_rows src (snd k) st \<noteq> []
                        then None else fs_files st k)\<rparr>"
proof (induction ps arbitrary: st)
  case Nil
  then show ?case by simp
next
  case (Cons p ps)
  have "file_rows src q (delete_facts src p st) = (if q = p then [] else file_rows src q st)" for q
    by (auto simp: file_rows_def delete_facts_def filter_empty_conv intro: filter_cong)
  moreover have "fs_files (delete_facts src p st) k =
      (if fst k = src \<and> snd k = p \<and> file_rows src p st \<noteq> [] then None else fs_files st k)" for k
    by (cases k) (auto simp: delete_facts_def file_rows_def filter_empty_conv)
  moreover have "fs_facts (delete_facts src p st) =
      filter (\<lambda>r. \<not> (df_source r = src \<and> df_path r = p)) (fs_facts st)"
    "fs_sync (delete_facts src p st) = fs_sync st"
    by (simp_all add: delete_facts_def)
  ultimately show ?case
    by (auto simp: Cons.IH fun_eq_iff intro!: facts_store.equality filter_cong)
qed

lemma fold_put_digests:
  "fold (\<lambda>p s. case g p of None \<Rightarrow> s | Some d \<Rightarrow> s\<lparr>fs_files := (fs_files s)((src, p) \<mapsto> d)\<rparr>) ps st =
    st\<lparr>fs_files := (\<lambda>k. if fst k = src \<and> snd k \<in> set ps \<and> g (snd k) \<noteq> None
                        then g (snd k) else fs_files st k)\<rparr>"
proof (induction ps arbitrary: st)
  case Nil
  then show ?case by simp
next
  case (Cons p ps)
  show ?case
    by (cases "g p") (auto simp: Cons.IH fun_eq_iff intro!: facts_store.equality)
qed

lemma at_path_changed:
  assumes "distinct ps"
  shows "at_path p (concat (List.map_filter (map_of (group_contributions es)) ps)) =
    (if p \<in> set ps then at_path p es else [])"
  using assms
  by (induction ps) (auto simp: group_contributions_correct(2))

definition changed_events ::
    "'f event list \<Rightarrow> str list \<Rightarrow> 'f event list" where
  "changed_events es changed =
    (if list_all (\<lambda>(p, l). p \<in> set changed) (group_contributions es) then es
     else concat (List.map_filter (map_of (group_contributions es)) changed))"

lemma at_path_changed_events:
  assumes "distinct changed"
  shows "at_path p (changed_events es changed) = (if p \<in> set changed then at_path p es else [])"
proof (cases "list_all (\<lambda>(p, l). p \<in> set changed) (group_contributions es)")
  case True
  then have "ue_source_path ` set es \<subseteq> set changed"
    by (auto simp: group_contributions_keys [symmetric] list_all_iff)
  then show ?thesis using True by (auto simp: changed_events_def at_path_Nil_iff)
next
  case False
  then have "changed_events es changed = concat (List.map_filter (map_of (group_contributions es)) changed)"
    by (simp only: changed_events_def if_False)
  then show ?thesis by (simp only: at_path_changed [OF assms])
qed

lemma changed_events_paths:
  "distinct changed \<Longrightarrow> ue_source_path ` set (changed_events es changed) \<subseteq> set changed"
  using at_path_changed_events [of changed _ es] at_path_Nil_iff
  by (metis subsetI)

section \<open>Replacing a partition\<close>

lemma changed_paths_member:
  "p \<in> set (changed_paths src hashes st) \<longleftrightarrow>
    (case map_of hashes p of
       Some d \<Rightarrow> file_rows src p st = [] \<or> fs_files st (src, p) \<noteq> Some d
     | None \<Rightarrow> file_rows src p st \<noteq> [])"
proof -
  have prev: "p \<in> set (previous_paths src st) \<longleftrightarrow> file_rows src p st \<noteq> []"
    by (auto simp: previous_paths_def file_rows_def filter_empty_conv)
  have key: "p \<in> fst ` set hashes \<longleftrightarrow> map_of hashes p \<noteq> None"
    by (simp add: map_of_eq_None_iff)
  show ?thesis
    unfolding changed_paths_def Let_def set_append set_filter Un_iff mem_Collect_eq set_map prev key
    by (cases "map_of hashes p") simp_all
qed

lemma changed_paths_distinct: "distinct (map fst hashes) \<Longrightarrow> distinct (changed_paths src hashes st)"
  by (auto simp: changed_paths_def Let_def previous_paths_def)

definition contribution_hashes ::
    "('f cached_event \<Rightarrow> str) \<Rightarrow> (str \<Rightarrow> str) \<Rightarrow> 'f event list \<Rightarrow> (str \<times> str) list" where
  "contribution_hashes enc sha es =
    map (\<lambda>(p, l). (p, contribution_digest enc sha l)) (group_contributions es)"

lemma contribution_hashes_correct:
  "distinct (map fst (contribution_hashes enc sha es))"
  "map_of (contribution_hashes enc sha es) p =
    (if at_path p es = [] then None else Some (contribution_digest enc sha (at_path p es)))"
  using group_contributions_correct(1) [of es] group_contributions_correct(2) [of es p]
  by (simp_all only: contribution_hashes_def map_of_map) (simp_all add: comp_def case_prod_unfold)

definition replaced ::
    "('f cached_event \<Rightarrow> str) \<Rightarrow> (str \<Rightarrow> str) \<Rightarrow> source_filter \<Rightarrow> 'f event list \<Rightarrow> str list
     \<Rightarrow> 'f facts_store \<Rightarrow> 'f facts_store" where
  "replaced enc sha f es changed st =
    st\<lparr>fs_facts := filter (\<lambda>r. \<not> (df_source r = filter_as_str f \<and> df_path r \<in> set changed)) (fs_facts st)
         @ fact_rows f (changed_events es changed) (\<lambda>_. 0),
       fs_files := (\<lambda>k. if fst k = filter_as_str f \<and> snd k \<in> set changed
         then (if at_path (snd k) es = [] then
                 (if file_rows (filter_as_str f) (snd k) st = [] then fs_files st k else None)
               else Some (contribution_digest enc sha (at_path (snd k) es)))
         else fs_files st k)\<rparr>"

lemma replace_partition_eq:
  assumes "\<And>xs. mset (iter xs) = mset xs"
    and "changed = iter (changed_paths (filter_as_str f) (contribution_hashes enc sha es) st)"
  shows "replace_partition_facts enc sha iter volatile version generation f es fingerprint warnings st =
    Inr (write_fact_sync f volatile version generation fingerprint warnings (replaced enc sha f es changed st))"
proof -
  let ?src = "filter_as_str f"
  have "mset changed = mset (changed_paths ?src (contribution_hashes enc sha es) st)"
    using assms by simp
  then have dist: "distinct changed"
    using changed_paths_distinct [OF contribution_hashes_correct(1)] by (metis mset_eq_imp_distinct_iff)
  let ?st1 = "fold (delete_facts ?src) changed st"
  let ?evs = "changed_events es changed"
  have "fact_pk ` set (fs_facts ?st1) \<inter> fact_pk ` set (fact_rows f ?evs (\<lambda>_. 0)) = {}"
    using changed_events_paths [OF dist, of es]
    by (fastforce simp: fold_delete_facts fact_pk_def dest!: fact_rows_source)
  note ins = insert_fact_events_ok [OF this]
  have path: "p \<in> ue_source_path ` set ?evs \<longleftrightarrow> p \<in> set changed \<and> at_path p es \<noteq> []" for p
    using at_path_Nil_iff [of p ?evs] at_path_changed_events [OF dist, of p es] by metis
  have evs: "(if list_all (\<lambda>(p, l). p \<in> set changed) (group_contributions es) then es
      else concat (List.map_filter (map_of (group_contributions es)) changed)) = ?evs"
    by (simp only: changed_events_def)
  have hashes: "map (\<lambda>(p, l). (p, contribution_digest enc sha l)) (group_contributions es) =
      contribution_hashes enc sha es"
    by (simp only: contribution_hashes_def)
  let ?st2 = "?st1\<lparr>fs_facts := fs_facts ?st1 @ fact_rows f ?evs (\<lambda>_. 0),
      fs_files := \<lambda>k. if fst k = ?src \<and> snd k \<in> ue_source_path ` set ?evs then None else fs_files ?st1 k\<rparr>"
  have "fold (\<lambda>p s. case map_of (contribution_hashes enc sha es) p of None \<Rightarrow> s
        | Some d \<Rightarrow> s\<lparr>fs_files := (fs_files s)((?src, p) \<mapsto> d)\<rparr>) changed ?st2 =
      replaced enc sha f es changed st"
    unfolding fold_put_digests replaced_def
    by (rule facts_store.equality) (simp_all add: fold_delete_facts contribution_hashes_correct(2) path fun_eq_iff)
  then show ?thesis
    unfolding replace_partition_facts_def Let_def hashes assms(2) [symmetric] evs ins sum.case by simp
qed

lemma replaced_rows:
  assumes "distinct changed"
  shows "file_rows (filter_as_str g) p (replaced enc sha f es changed st) =
    (if g = f \<and> p \<in> set changed then fact_rows f (at_path p es) (\<lambda>_. 0)
     else file_rows (filter_as_str g) p st)"
proof -
  let ?new = "fact_rows f (changed_events es changed) (\<lambda>_. 0)"
  have "filter (\<lambda>r. df_source r = filter_as_str g \<and> df_path r = p) ?new =
      (if g = f then filter (\<lambda>r. df_path r = p) ?new else [])"
    by (auto simp: filter_empty_conv filter_as_str_inject dest: fact_rows_source intro!: filter_cong)
  also have "\<dots> = (if g = f \<and> p \<in> set changed then fact_rows f (at_path p es) (\<lambda>_. 0) else [])"
    by (auto simp: fact_rows_path at_path_changed_events [OF assms])
  finally have new: "filter (\<lambda>r. df_source r = filter_as_str g \<and> df_path r = p) ?new =
    (if g = f \<and> p \<in> set changed then fact_rows f (at_path p es) (\<lambda>_. 0) else [])" .
  show ?thesis
    by (auto simp: file_rows_def replaced_def new filter_as_str_inject filter_empty_conv intro!: filter_cong)
qed

lemma file_rows_write_sync [simp]:
  "file_rows src p (write_fact_sync f volatile version generation fingerprint warnings st) = file_rows src p st"
  by (simp add: file_rows_def write_fact_sync_def)

lemma facts_inv_write_sync [simp]:
  "facts_inv enc sha D (write_fact_sync f volatile version generation fingerprint warnings st) =
    facts_inv enc sha D st"
  by (simp add: facts_inv_def) (simp add: write_fact_sync_def)

lemma facts_inv_replaced:
  assumes inv: "facts_inv enc sha D st" and dist: "distinct changed"
    and D: "\<And>p. p \<in> set changed \<Longrightarrow> at_path p es \<noteq> [] \<Longrightarrow> at_path p es \<in> D"
  shows "facts_inv enc sha D (replaced enc sha f es changed st)"
proof -
  let ?st = "replaced enc sha f es changed st" and ?new = "fact_rows f (changed_events es changed) (\<lambda>_. 0)"
  have new: "df_source r = filter_as_str f \<and> df_ordinal r = int (source_ordinal f) \<and> df_path r \<in> set changed"
    if "r \<in> set ?new" for r
    using fact_rows_source [OF that] changed_events_paths [OF dist, of es] by auto
  have "distinct (map fact_pk (fs_facts ?st))"
    using inv new
    by (auto simp: replaced_def facts_inv_def fact_rows_distinct fact_pk_def distinct_map_filter dest!: new)
  moreover have "\<exists>g. df_source r = filter_as_str g \<and> df_ordinal r = int (source_ordinal g)"
    if "r \<in> set (fs_facts ?st)" for r
    using that new inv by (auto simp: replaced_def facts_inv_def)
  moreover have "\<exists>l \<in> D. file_rows (filter_as_str g) p ?st = fact_rows g l (\<lambda>_. 0)
      \<and> ue_source_path ` set l \<subseteq> {p} \<and> contribution_digest enc sha l = d"
    if d: "fs_files ?st (filter_as_str g, p) = Some d" for g p d
  proof (cases "g = f \<and> p \<in> set changed")
    case True
    show ?thesis
    proof (cases "at_path p es = []")
      case False
      then have "contribution_digest enc sha (at_path p es) = d" using d True by (simp add: replaced_def)
      moreover have "ue_source_path ` set (at_path p es) \<subseteq> {p}" by (auto simp: at_path_def)
      ultimately show ?thesis using D [of p] False True by (auto simp: replaced_rows [OF dist])
    next
      case Nil: True
      then have "file_rows (filter_as_str f) p st = []" "fs_files st (filter_as_str f, p) = Some d"
        using d True by (auto simp: replaced_def split: if_splits)
      moreover from this obtain l where "l \<in> D" "file_rows (filter_as_str f) p st = fact_rows f l (\<lambda>_. 0)"
        "ue_source_path ` set l \<subseteq> {p}" "contribution_digest enc sha l = d"
        using inv unfolding facts_inv_def by blast
      ultimately show ?thesis using True Nil by (auto simp: replaced_rows [OF dist] intro!: bexI [of _ l])
    qed
  next
    case False
    then have "fs_files st (filter_as_str g, p) = Some d"
      using d by (auto simp: replaced_def filter_as_str_inject)
    then show ?thesis using inv False by (auto simp: facts_inv_def replaced_rows [OF dist])
  qed
  ultimately show ?thesis by (simp add: facts_inv_def)
qed

lemma replace_partition_correct:
  assumes "facts_inv enc sha D st" "digests_faithful enc sha D" "\<And>xs. mset (iter xs) = mset xs"
    and D: "\<And>p. p \<in> ue_source_path ` set es \<Longrightarrow> at_path p es \<in> D"
  shows "\<exists>st'. replace_partition_facts enc sha iter volatile version generation f es fingerprint warnings st = Inr st'
    \<and> facts_inv enc sha D st'
    \<and> (\<forall>g p. file_rows (filter_as_str g) p st' =
         (if g = f then fact_rows f (at_path p es) (\<lambda>_. 0) else file_rows (filter_as_str g) p st))
    \<and> (\<forall>src. fact_sync st' src =
         (if src = filter_as_str f
          then Some (fingerprint_files (stable_triples volatile fingerprint), version, warnings)
          else fact_sync st src))"
proof -
  let ?src = "filter_as_str f" and ?h = "contribution_hashes enc sha es"
  define changed where "changed = iter (changed_paths ?src ?h st)"
  have m: "mset changed = mset (changed_paths ?src ?h st)" by (simp add: changed_def assms(3))
  have dist: "distinct changed"
    using m changed_paths_distinct [OF contribution_hashes_correct(1)] by (metis mset_eq_imp_distinct_iff)
  have "facts_inv enc sha D (replaced enc sha f es changed st)"
    using assms(1) dist by (rule facts_inv_replaced) (metis D at_path_Nil_iff)
  moreover have "file_rows ?src p st = fact_rows f (at_path p es) (\<lambda>_. 0)" if p: "p \<notin> set changed" for p
  proof -
    have "p \<notin> set (changed_paths ?src ?h st)" using p m by (metis mset_eq_setD)
    note un = this [unfolded changed_paths_member contribution_hashes_correct(2)]
    show ?thesis
    proof (cases "at_path p es = []")
      case False
      then have "fs_files st (?src, p) = Some (contribution_digest enc sha (at_path p es))" using un by auto
      then obtain l where l: "l \<in> D" "file_rows ?src p st = fact_rows f l (\<lambda>_. 0)"
        "ue_source_path ` set l \<subseteq> {p}" "contribution_digest enc sha l = contribution_digest enc sha (at_path p es)"
        using assms(1) unfolding facts_inv_def by blast
      have "at_path p es \<in> D" using D False by (metis at_path_Nil_iff)
      moreover have "ue_source_path ` set (at_path p es) \<subseteq> {p}" by (auto simp: at_path_def)
      ultimately show ?thesis using same_contribution_rows [OF assms(2) l(1) _ l(4,3)] l(2) by simp
    qed (use un in simp)
  qed
  ultimately show ?thesis
    by (simp add: replace_partition_eq [OF assms(3) changed_def] replaced_rows [OF dist])
      (simp add: fact_sync_def write_fact_sync_def replaced_def)
qed

text \<open>
  C5: Replacing a partition's facts never violates the primary key and, although it rewrites only
  the files whose digest changed, leaves for every file of the partition exactly the rows of its new
  events; other partitions' rows and marks are untouched, and the tables stay consistent.
\<close>

theorem replace_partition_facts_full:
  assumes "facts_inv enc sha D st" "digests_faithful enc sha D" "\<And>xs. mset (iter xs) = mset xs"
    and D: "\<And>p. p \<in> ue_source_path ` set es \<Longrightarrow> at_path p es \<in> D"
  shows "\<exists>st'. replace_partition_facts enc sha iter volatile version generation f es fingerprint warnings st = Inr st'
    \<and> facts_inv enc sha D st'
    \<and> (\<forall>g p. file_rows (filter_as_str g) p st' =
         (if g = f then fact_rows f (at_path p es) (\<lambda>_. 0) else file_rows (filter_as_str g) p st))
    \<and> (\<forall>src. fact_sync st' src =
         (if src = filter_as_str f
          then Some (fingerprint_files (stable_triples volatile fingerprint), version, warnings)
          else fact_sync st src))"
  by (rule replace_partition_correct [OF assms])

definition stamp_enc :: "'f cached_event \<Rightarrow> str" where
  "stamp_enc c = le_bytes 8 (unat (ce_timestamp_ms c))"

definition empty_facts :: "'f facts_store" where
  "empty_facts = \<lparr>fs_facts = [], fs_files = Map.empty, fs_sync = Map.empty\<rparr>"

lemma facts_inv_empty [simp]: "facts_inv enc sha D empty_facts"
  by (simp add: facts_inv_def empty_facts_def)

lemma stamp_enc_faithful:
  "digests_faithful stamp_enc id {[sample_event ''claude'' ''/a'' 5 0], [sample_event ''claude'' ''/b'' 7 0]}"
proof -
  have "stamp_enc (cached_from_event (sample_event s p t i)) = le_bytes 8 (unat t)" for s p t i
    by (simp add: stamp_enc_def cached_from_event_def sample_event_def)
  moreover have "le_bytes 8 7 \<noteq> le_bytes 8 5" using le_bytes_inject [of 7 8 5] by simp
  ultimately show ?thesis
    by (auto simp: digests_faithful_def cached_from_event_def sample_event_def stamp_enc_def)
qed

lemma replace_partition_facts_full_witness:
  "\<exists>st'. replace_partition_facts stamp_enc id rev (\<lambda>_. False) 1 ''gen'' FClaude
      [sample_event ''claude'' ''/a'' 5 0, sample_event ''claude'' ''/b'' 7 0] [] [] empty_facts = Inr st'
    \<and> file_rows ''claude'' ''/b'' st' = [db_fact_of FClaude 0 (sample_event ''claude'' ''/b'' 7 0)]"
proof -
  let ?es = "[sample_event ''claude'' ''/a'' 5 0, sample_event ''claude'' ''/b'' 7 0]"
  have "at_path p ?es \<in> {[sample_event ''claude'' ''/a'' 5 0], [sample_event ''claude'' ''/b'' 7 0]}"
    if "p \<in> ue_source_path ` set ?es" for p using that by auto
  then obtain st' where "replace_partition_facts stamp_enc id rev (\<lambda>_. False) 1 ''gen'' FClaude ?es [] [] empty_facts = Inr st'"
    "\<forall>g p. file_rows (filter_as_str g) p st' =
         (if g = FClaude then fact_rows FClaude (at_path p ?es) (\<lambda>_. 0) else file_rows (filter_as_str g) p empty_facts)"
    using replace_partition_facts_full [OF facts_inv_empty stamp_enc_faithful mset_rev,
        of ?es "\<lambda>_. False" 1 "''gen''" FClaude "[]" "[]"] by blast
  then show ?thesis by (auto dest: spec [of _ FClaude] intro!: exI [of _ st'])
qed

end
