(* ===== verification/UsageFactsRead.thy ===== *)
theory UsageFactsRead
  imports UsageFactsSync
begin

text \<open>
  Reading canonical facts: the rows of a partition decode to its events in report order, windows
  commute with the decoding, and a report served from rows is the report of the events.
\<close>

section \<open>Signed columns\<close>

definition small :: "u64 \<Rightarrow> bool" where
  "small w = (unat w < 2 ^ 63)"

lemma as_i64_small: "small w \<Longrightarrow> as_i64 w = int (unat w)"
proof -
  assume "small w"
  then have "int (unat w) < int (2 ^ 63)" by (simp only: small_def of_nat_less_iff)
  then have w: "uint w < 2 ^ 63" by simp
  have "(0 :: int) \<le> uint w" by simp
  then have "- (2 ^ 63) \<le> uint w" by (rule order_trans [rotated]) simp
  then have "signed_take_bit 63 (uint w) = uint w"
    using w by (rule signed_take_bit_int_eq_self)
  then show ?thesis by (simp add: as_i64_def sint_uint)
qed

lemma as_i64_less_iff: "small v \<Longrightarrow> small w \<Longrightarrow> as_i64 v < as_i64 w \<longleftrightarrow> v < w"
  by (simp add: as_i64_small word_less_def)

lemma as_i64_le_iff: "small v \<Longrightarrow> small w \<Longrightarrow> as_i64 v \<le> as_i64 w \<longleftrightarrow> v \<le> w"
  by (simp add: as_i64_small word_le_def)

section \<open>Rows in report order\<close>

definition storable :: "source_filter \<Rightarrow> 'f event list \<Rightarrow> bool" where
  "storable f es = (sorted (map event_sort_key es)
     \<and> (\<forall>e \<in> set es. ue_source e = filter_as_str f \<and> known_confidence (ue_dedupe_confidence e)
          \<and> small (ue_timestamp_ms e) \<and> small (ue_source_order e)))"

lemma fact_rows_origin:
  "r \<in> set (fact_rows f es cnt) \<Longrightarrow> \<exists>e \<in> set es. \<exists>i \<ge> cnt (ue_source_path e). r = db_fact_of f i e"
proof (induction f es cnt rule: fact_rows.induct)
  case (2 f e es cnt)
  show ?case
  proof (cases "r = db_fact_of f (cnt (ue_source_path e)) e")
    case False
    then obtain e' i where "e' \<in> set es" "next_index (ue_source_path e) cnt (ue_source_path e') \<le> i"
      "r = db_fact_of f i e'" using 2 by auto
    moreover from this have "cnt (ue_source_path e') \<le> i" by (blast dest: next_index_le)
    ultimately show ?thesis by auto
  qed auto
qed simp

lemma fact_order_key_of:
  "fact_order_key (db_fact_of f i e) =
    (int (source_ordinal f), as_i64 (ue_timestamp_ms e), ue_source_path e, as_i64 (ue_source_order e), i)"
  by (simp add: fact_order_key_def)

lemma fact_rows_sorted:
  assumes "storable f es"
  shows "sorted (map fact_order_key (fact_rows f es cnt))"
  using assms
proof (induction f es cnt rule: fact_rows.induct)
  case (2 f e es cnt)
  let ?p = "ue_source_path e"
  have "fact_order_key (db_fact_of f (cnt ?p) e) \<le> fact_order_key r"
    if r: "r \<in> set (fact_rows f es (next_index ?p cnt))" for r
  proof -
    obtain e' i where e': "e' \<in> set es" "next_index ?p cnt (ue_source_path e') \<le> i" "r = db_fact_of f i e'"
      using fact_rows_origin [OF r] by blast
    have le: "event_sort_key e \<le> event_sort_key e'" using 2 e' by (simp add: storable_def)
    have sm: "small (ue_timestamp_ms e)" "small (ue_timestamp_ms e')"
        "small (ue_source_order e)" "small (ue_source_order e')"
      using 2 e' by (simp_all add: storable_def)
    show ?thesis
      using le e'(2) unfolding e'(3) fact_order_key_of event_sort_key_def
      by (auto simp: less_eq_prod_def as_i64_less_iff [OF sm(1,2)] as_i64_le_iff [OF sm(1,2)]
          as_i64_less_iff [OF sm(3,4)] as_i64_le_iff [OF sm(3,4)])
  qed
  moreover have "storable f es" using "2.prems" by (simp add: storable_def)
  ultimately show ?case using "2.IH" by simp
qed simp

lemma fact_order_key_inj:
  assumes "distinct (map fact_pk rs)" "\<forall>r \<in> set rs. df_source r = src"
  shows "inj_on fact_order_key (set rs)"
proof (rule inj_onI)
  fix r s assume "r \<in> set rs" "s \<in> set rs" "fact_order_key r = fact_order_key s"
  moreover from this have "fact_pk r = fact_pk s" using assms(2) by (simp add: fact_order_key_def fact_pk_def)
  moreover have "inj_on fact_pk (set rs)" using assms(1) by (simp add: distinct_map)
  ultimately show "r = s" by (blast dest: inj_onD)
qed

text \<open>The rows of one partition are, as a multiset, those its events become.\<close>

definition holds_partition :: "source_filter \<Rightarrow> 'f event list \<Rightarrow> 'f facts_store \<Rightarrow> bool" where
  "holds_partition f es st =
    (\<forall>p. file_rows (filter_as_str f) p st = fact_rows f (at_path p es) (\<lambda>_. 0))"

lemma partition_rows:
  assumes inv: "facts_inv enc sha D st" and h: "holds_partition f es st"
  shows "mset (filter (\<lambda>r. df_ordinal r = int (source_ordinal f)) (fs_facts st)) = mset (fact_rows f es (\<lambda>_. 0))"
proof -
  let ?rs = "filter (\<lambda>r. df_ordinal r = int (source_ordinal f)) (fs_facts st)"
  have src: "df_ordinal r = int (source_ordinal f) \<longleftrightarrow> df_source r = filter_as_str f"
    if r: "r \<in> set (fs_facts st)" for r
  proof -
    obtain g where "df_source r = filter_as_str g" "df_ordinal r = int (source_ordinal g)"
      using inv r unfolding facts_inv_def by blast
    then show ?thesis by (simp add: filter_as_str_inject source_ordinal_inject)
  qed
  have "r \<in> set ?rs \<longleftrightarrow> r \<in> set (file_rows (filter_as_str f) (df_path r) st)" for r
    using src by (auto simp: file_rows_def)
  moreover have "r \<in> set (fact_rows f es (\<lambda>_. 0)) \<longleftrightarrow> r \<in> set (fact_rows f (at_path (df_path r) es) (\<lambda>_. 0))" for r
    by (simp add: fact_rows_path [symmetric])
  ultimately have "set ?rs = set (fact_rows f es (\<lambda>_. 0))" using h by (auto simp: holds_partition_def)
  moreover have "distinct ?rs"
    using inv by (auto simp: facts_inv_def distinct_map)
  moreover have "distinct (fact_rows f es (\<lambda>_. 0))"
    using fact_rows_distinct by (auto simp: distinct_map)
  ultimately show ?thesis by (simp only: set_eq_iff_mset_eq_distinct)
qed

lemma select_partition:
  assumes inv: "facts_inv enc sha D st" and h: "holds_partition f es st" and s: "storable f es"
  shows "select_ordinal st (int (source_ordinal f)) since til =
    filter (\<lambda>r. is_none_or (\<lambda>s. as_i64 s \<le> df_timestamp_ms r) since
        \<and> is_none_or (\<lambda>u. df_timestamp_ms r < as_i64 u) til) (fact_rows f es (\<lambda>_. 0))"
    (is "_ = filter ?w ?rows")
proof -
  let ?rs = "filter (\<lambda>r. df_ordinal r = int (source_ordinal f)) (fs_facts st)"
  have "sort_key fact_order_key (filter ?w ?rs) = filter ?w ?rows"
  proof (rule sort_key_inj_key_eq)
    show "mset (filter ?w ?rs) = mset (filter ?w ?rows)" by (simp only: mset_filter partition_rows [OF inv h, unfolded mset_filter])
    have set: "set ?rs = set ?rows" using partition_rows [OF inv h] by (rule mset_eq_setD)
    have "inj_on fact_order_key (set ?rows)"
      by (rule fact_order_key_inj [OF fact_rows_distinct]) (blast dest: fact_rows_source)
    then show "inj_on fact_order_key (set (filter ?w ?rs))"
      unfolding set_filter set [unfolded set_filter] by (rule inj_on_subset) blast
    show "sorted (map fact_order_key (filter ?w ?rows))"
      using fact_rows_sorted [OF s] by (simp add: sorted_filter)
  qed
  then show ?thesis by (simp add: select_ordinal_def conj_commute conj_left_commute)
qed

lemma decode_rows:
  assumes "storable f es" "is_none_or small since" "is_none_or small til"
  shows "List.map_filter (\<lambda>r. map_option (map_fact_row r) (fact_source_label (df_ordinal r)))
      (filter (\<lambda>r. is_none_or (\<lambda>s. as_i64 s \<le> df_timestamp_ms r) since
        \<and> is_none_or (\<lambda>u. df_timestamp_ms r < as_i64 u) til) (fact_rows f es cnt)) =
    filter (\<lambda>e. is_none_or (\<lambda>s. s \<le> ue_timestamp_ms e) since
        \<and> is_none_or (\<lambda>u. ue_timestamp_ms e < u) til) es"
  using assms(1)
proof (induction f es cnt rule: fact_rows.induct)
  case (2 f e es cnt)
  have e: "ue_source e = filter_as_str f" "known_confidence (ue_dedupe_confidence e)" "small (ue_timestamp_ms e)"
      "storable f es"
    using "2.prems" by (simp_all add: storable_def)
  have w: "is_none_or (\<lambda>s. as_i64 s \<le> as_i64 (ue_timestamp_ms e)) since = is_none_or (\<lambda>s. s \<le> ue_timestamp_ms e) since"
    "is_none_or (\<lambda>u. as_i64 (ue_timestamp_ms e) < as_i64 u) til = is_none_or (\<lambda>u. ue_timestamp_ms e < u) til"
    using assms(2,3) e(3) unfolding is_none_or_def by (simp_all add: as_i64_le_iff as_i64_less_iff split: option.splits)
  show ?case using "2.IH" [OF e(4)] by (simp add: map_fact_row_of [OF e(1,2)] w)
qed simp

lemma read_partition:
  assumes "facts_inv enc sha D st" "holds_partition f es st" "storable f es"
    and "is_none_or small since" "is_none_or small til"
  shows "read_ordinal_run st (int (source_ordinal f)) since til =
    filter (\<lambda>e. is_none_or (\<lambda>s. s \<le> ue_timestamp_ms e) since
        \<and> is_none_or (\<lambda>u. ue_timestamp_ms e < u) til) es"
  unfolding read_ordinal_run_def select_partition [OF assms(1-3)] by (rule decode_rows [OF assms(3-5)])

section \<open>Reports from rows\<close>

text \<open>A run of rows provides the interface of the merge on its own.\<close>

interpretation row_runs: keyed_runs "length :: 'f event list \<Rightarrow> nat" "\<lambda>run i. event_sort_key (run ! i)"
    "(=)" event_sort_key
  by unfold_locales simp_all

lemma merge_fact_runs_eq:
  "merge_fact_runs runs = merge_order length (\<lambda>run i. event_sort_key (run ! i)) runs"
  by (simp add: merge_fact_runs_def merge_runs_def event_sort_key_def)

lemma select_indices:
  assumes "sorted_wrt (<) indices" "\<forall>i \<in> set indices. i < length run"
  shows "map snd (filter (\<lambda>(i, _). i \<in> set indices) (enumerate 0 run)) = map ((!) run) indices"
proof -
  have "enumerate 0 run = map (\<lambda>i. (i, run ! i)) [0..<length run]"
    by (rule nth_equalityI) (simp_all add: nth_enumerate_eq)
  then have "map snd (filter (\<lambda>(i, _). i \<in> set indices) (enumerate 0 run)) =
      map ((!) run) (filter (\<lambda>i. i \<in> set indices) [0..<length run])"
    by (simp add: filter_map comp_def)
  moreover have "filter (\<lambda>i. i \<in> set indices) [0..<length run] = indices"
    by (rule sorted_distinct_set_unique) (use assms in \<open>auto simp: strict_sorted_iff sorted_wrt_filter\<close>)
  ultimately show ?thesis by simp
qed

lemma fact_details_correct:
  assumes fit: "row_runs.fits runs runs"
  shows "fact_details runs (filter sel (merge_fact_runs runs)) =
    Some (map (merged_event runs) (filter sel (merge_fact_runs runs)))"
proof -
  let ?ms = "filter sel (merge_fact_runs runs)"
  let ?per = "group_positions ?ms (replicate (length runs) [])"
  have at: "unat (mp_part pos) < length runs" "unat (mp_index pos) < length (runs ! unat (mp_part pos))"
    if "pos \<in> set ?ms" for pos
    using row_runs.merged_pos_range [OF fit, of pos] that by (auto simp: merge_fact_runs_eq pos_pair_def)
  have per: "?per ! k = map (\<lambda>pos. unat (mp_index pos)) (filter (\<lambda>pos. unat (mp_part pos) = k) ?ms)"
    if "k < length runs" for k
    using group_positions_nth [of ?ms "replicate (length runs) []" k] at that by auto
  have batch: "map (\<lambda>(run, indices). map snd (filter (\<lambda>(i, _). i \<in> set indices) (enumerate 0 run))) (zip runs ?per) ! k =
      map (merged_event runs) (filter (\<lambda>pos. unat (mp_part pos) = k) ?ms)" if k: "k < length runs" for k
  proof -
    have "sorted_wrt (<) (map (\<lambda>pos. snd (pos_pair pos))
        (filter (\<lambda>pos. fst (pos_pair pos) = k) (merge_fact_runs runs)))"
      unfolding merge_fact_runs_eq row_runs.merged_part [OF fit k] by (rule sorted_wrt_upt)
    then have "sorted_wrt (<) (map (\<lambda>pos. snd (pos_pair pos)) (filter sel
        (filter (\<lambda>pos. fst (pos_pair pos) = k) (merge_fact_runs runs))))"
      unfolding sorted_wrt_map by (rule sorted_wrt_filter)
    then have asc: "sorted_wrt (<) (?per ! k)"
      by (simp add: per [OF k] pos_pair_def conj_commute)
    have "\<forall>i \<in> set (?per ! k). i < length (runs ! k)" unfolding per [OF k] using at by auto
    from select_indices [OF asc this] show ?thesis
      using k by (auto simp: per [OF k] merged_event_def pos_pair_def)
  qed
  show ?thesis
    unfolding fact_details_def Let_def
    by (rule pop_positions_correct) (use at batch in auto)
qed

lemma scan_runs:
  assumes fit: "row_runs.fits runs runs"
  shows "map (\<lambda>pos. runs ! unat (mp_part pos) ! unat (mp_index pos))
      (filter_st (\<lambda>pos plan. plan_matches repo plan
          (event_fields (runs ! unat (mp_part pos) ! unat (mp_index pos)))) (merge_fact_runs runs) (plan_new q)) =
    filter (\<lambda>e. query_selects repo q (event_fields e)) (sort_key event_sort_key (concat runs))"
proof -
  have row: "(\<lambda>pos. runs ! unat (mp_part pos) ! unat (mp_index pos)) = merged_event runs"
    by (simp add: fun_eq_iff merged_event_def pos_pair_def)
  have rows: "map (merged_event runs) (merge_fact_runs runs) = sort_key event_sort_key (concat runs)"
    unfolding merge_fact_runs_eq using row_runs.merged_rows [OF fit] by (simp add: merged_event_def [abs_def])
  show ?thesis
    unfolding filter_st_correct [OF plan_for_new] row [unfolded fun_eq_iff, rule_format]
    by (simp add: rows [symmetric] filter_map comp_def)
qed

definition time_window :: "usage_query \<Rightarrow> 'f event \<Rightarrow> bool" where
  "time_window q e = (is_none_or (\<lambda>s. s \<le> ue_timestamp_ms e) (uq_since_ms q)
     \<and> is_none_or (\<lambda>u. ue_timestamp_ms e < u) (uq_until_ms q))"

lemma event_selected_split:
  "event_selected repo q e = (time_window q e \<and> query_selects repo q (event_fields e))"
  by (simp add: event_selected_def in_window_def time_window_def)

lemma concat_map_filter_in: "concat (map (\<lambda>f. filter P (g f)) fs) = filter P (concat (map g fs))"
  by (induction fs) simp_all

lemma scan_facts_correct:
  assumes inv: "facts_inv enc sha D st" and h: "\<And>f. holds_partition f (ess f) st"
    and s: "\<And>f. storable f (ess f)" and n: "\<And>f. length (ess f) \<le> 2 ^ 32"
    and w: "is_none_or small (uq_since_ms q)" "is_none_or small (uq_until_ms q)"
  shows "scan_usage_from_facts F iterw iterr repo q st warnings =
    Some (let sel = filter (event_selected repo q)
                (sort_key event_sort_key (concat (map ess (selected_scanners (uq_source q)))));
              report = report_events F iterw iterr q warnings sel
          in if uq_include_events q then report\<lparr>ur_details := sel\<rparr> else report)"
proof -
  let ?fs = "selected_scanners (uq_source q)"
  let ?runs = "map (\<lambda>f. filter (time_window q) (ess f)) ?fs"
  let ?all = "sort_key event_sort_key (concat (map ess ?fs))"
  have runs: "read_fact_runs st (uq_source q) (uq_since_ms q) (uq_until_ms q) = ?runs"
    unfolding read_fact_runs_def time_window_def [abs_def]
    by (intro map_cong refl read_partition [OF inv h s w])
  have "length ?fs \<le> length scanners" by (simp add: selected_scanners_def)
  moreover have "sorted (map event_sort_key (filter (time_window q) (ess f)))
      \<and> length (filter (time_window q) (ess f)) \<le> 2 ^ 32" for f
    using s [of f] le_trans [OF length_filter_le n [of f]] by (simp add: storable_def sorted_filter)
  ultimately have fit: "row_runs.fits ?runs ?runs"
    unfolding row_runs.fits_def by (auto simp: scanners_def intro!: list.rel_refl)
  have "filter (\<lambda>e. query_selects repo q (event_fields e)) (sort_key event_sort_key (concat ?runs)) =
      filter (event_selected repo q) ?all"
    by (simp add: concat_map_filter_in filter_sort [symmetric] event_selected_split [abs_def] conj_commute)
  note rows = scan_runs [OF fit, of repo q, unfolded this]
  let ?matched = "filter_st (\<lambda>pos plan. plan_matches repo plan
      (event_fields (?runs ! unat (mp_part pos) ! unat (mp_index pos)))) (merge_fact_runs ?runs) (plan_new q)"
  have "fact_details ?runs ?matched = Some (map (merged_event ?runs) ?matched)"
    unfolding filter_st_correct [OF plan_for_new] by (rule fact_details_correct [OF fit])
  also have "map (merged_event ?runs) ?matched =
      map (\<lambda>pos. ?runs ! unat (mp_part pos) ! unat (mp_index pos)) ?matched"
    by (simp add: merged_event_def pos_pair_def)
  finally have "fact_details ?runs ?matched = Some (filter (event_selected repo q) ?all)"
    unfolding rows .
  then show ?thesis
    unfolding scan_usage_from_facts_def Let_def runs rows by simp
qed

lemma read_assembly_correct:
  assumes "facts_inv enc sha D st" "holds_partition f es st" "storable f es"
  shows "read_fact_assembly iter st f = compact_new iter es None"
proof -
  have "map (\<lambda>r. map_fact_row r (filter_as_str f)) (fact_rows f es cnt) = es" for cnt
    using assms(3) by (induction f es cnt rule: fact_rows.induct) (simp_all add: storable_def map_fact_row_of)
  then show ?thesis
    by (simp add: read_fact_assembly_def select_partition [OF assms] builder_eq_new)
qed

section \<open>Reading after a replacement\<close>

text \<open>
  C3: What a replacement stores is what a read returns: after the facts of a partition are replaced
  by sorted events, reading its rows in any time window gives exactly the events of that window, in
  report order and field by field, and the assembly rebuilt from the rows is the assembly of the
  events.
\<close>

theorem facts_read_back:
  assumes "facts_inv enc sha D st" "digests_faithful enc sha D" "\<And>xs. mset (iter xs) = mset xs"
    and "\<And>p. p \<in> ue_source_path ` set es \<Longrightarrow> at_path p es \<in> D"
    and "storable f es" "is_none_or small since" "is_none_or small til"
  shows "\<exists>st'. replace_partition_facts enc sha iter volatile version generation f es fingerprint warnings st = Inr st'
    \<and> read_ordinal_run st' (int (source_ordinal f)) since til =
        filter (\<lambda>e. is_none_or (\<lambda>s. s \<le> ue_timestamp_ms e) since
          \<and> is_none_or (\<lambda>u. ue_timestamp_ms e < u) til) es
    \<and> read_fact_assembly iterd st' f = compact_new iterd es None"
proof -
  obtain st' where st': "replace_partition_facts enc sha iter volatile version generation f es fingerprint warnings st = Inr st'"
    "facts_inv enc sha D st'" "holds_partition f es st'"
    using replace_partition_correct [OF assms(1-4), of volatile version generation f fingerprint warnings]
    unfolding holds_partition_def by auto
  show ?thesis
    using st'(1) read_partition [OF st'(2,3) assms(5-7)] read_assembly_correct [OF st'(2,3) assms(5)] by auto
qed

lemma sample_storable:
  "storable FClaude [sample_event ''claude'' ''/a'' 5 0, sample_event ''claude'' ''/b'' 7 0]"
  by (simp add: storable_def less_eq_prod_def word_le_nat_alt word_less_nat_alt small_def known_confidence_def)
    (simp add: sample_event_def)

lemma facts_read_back_witness:
  "\<exists>st'. replace_partition_facts stamp_enc id rev (\<lambda>_. False) 1 ''gen'' FClaude
      [sample_event ''claude'' ''/a'' 5 0, sample_event ''claude'' ''/b'' 7 0] [] [] empty_facts = Inr st'
    \<and> read_ordinal_run st' 0 (Some 6) None = [sample_event ''claude'' ''/b'' 7 0]"
proof -
  let ?es = "[sample_event ''claude'' ''/a'' 5 0, sample_event ''claude'' ''/b'' 7 0]"
  have "at_path p ?es \<in> {[sample_event ''claude'' ''/a'' 5 0], [sample_event ''claude'' ''/b'' 7 0]}"
    if "p \<in> ue_source_path ` set ?es" for p using that by auto
  note facts_read_back [OF facts_inv_empty stamp_enc_faithful mset_rev this sample_storable,
      of "Some 6" None "\<lambda>_. False" 1 "''gen''" "[]" "[]" rev]
  moreover have "int (source_ordinal FClaude) = 0" by (simp add: source_ordinal_def scanners_def)
  moreover have "small 6" by (simp add: small_def)
  ultimately show ?thesis by (auto simp: word_le_nat_alt)
qed

text \<open>
  C4: A report served from canonical facts is, details included, the report of the same query over
  one assembly of the stored events: the bounds applied in SQL, the per-source runs and their merge
  change nothing, and the detail queues never run empty.
\<close>

theorem facts_report_agrees:
  assumes "facts_inv enc sha D st" "\<And>f. holds_partition f (ess f) st"
    and "\<And>f. storable f (ess f)" "\<And>f. length (ess f) \<le> 2 ^ 32"
    and "is_none_or small (uq_since_ms q)" "is_none_or small (uq_until_ms q)"
    and "\<And>d. mset (iter d) = mset d"
  shows "scan_usage_from_facts F iterw iterr repo q st warnings =
    Some (scan_single F iterw iterr repo q
      (compact_new iter (sort_key event_sort_key (concat (map ess (selected_scanners (uq_source q))))) None) warnings)"
proof -
  have sorted: "sorted (map ue_timestamp_ms
      (sort_key event_sort_key (concat (map ess (selected_scanners (uq_source q))))))"
    by (rule sorted_key_timestamps) simp
  show ?thesis
    unfolding scan_facts_correct [OF assms(1-6)] scan_single_correct [OF compact_of_new [OF assms(7)] sorted]
    by (rule refl)
qed

lemma facts_report_agrees_witness:
  "\<exists>st'. replace_partition_facts stamp_enc id rev (\<lambda>_. False) 1 ''gen'' FClaude
      [sample_event ''claude'' ''/a'' 5 0, sample_event ''claude'' ''/b'' 7 0] [] [] empty_facts = Inr st'
    \<and> scan_usage_from_facts int_f64 rev rev (\<lambda>_. None) sample_query st' [] =
        Some (scan_single int_f64 rev rev (\<lambda>_. None) sample_query
          (compact_new rev [sample_event ''claude'' ''/a'' 5 0, sample_event ''claude'' ''/b'' 7 0] None) [])"
proof -
  let ?es = "[sample_event ''claude'' ''/a'' 5 0, sample_event ''claude'' ''/b'' 7 0]"
  let ?ess = "\<lambda>f. if f = FClaude then ?es else []"
  have "at_path p ?es \<in> {[sample_event ''claude'' ''/a'' 5 0], [sample_event ''claude'' ''/b'' 7 0]}"
    if "p \<in> ue_source_path ` set ?es" for p using that by auto
  then obtain st' where st': "replace_partition_facts stamp_enc id rev (\<lambda>_. False) 1 ''gen'' FClaude ?es [] [] empty_facts = Inr st'"
    "facts_inv stamp_enc id {[sample_event ''claude'' ''/a'' 5 0], [sample_event ''claude'' ''/b'' 7 0]} st'"
    "\<forall>g p. file_rows (filter_as_str g) p st' =
         (if g = FClaude then fact_rows FClaude (at_path p ?es) (\<lambda>_. 0) else file_rows (filter_as_str g) p empty_facts)"
    using replace_partition_correct [OF facts_inv_empty stamp_enc_faithful mset_rev,
        of ?es "\<lambda>_. False" 1 "''gen''" FClaude "[]" "[]"] by blast
  have "holds_partition f (?ess f) st'" for f
    using st'(3) by (auto simp: holds_partition_def file_rows_def empty_facts_def)
  moreover have "storable f (?ess f)" for f
    using sample_storable by (auto simp: storable_def)
  moreover have "is_none_or small (uq_since_ms sample_query)" "is_none_or small (uq_until_ms sample_query)"
    by (simp_all add: sample_query_def small_def)
  moreover have "sort_key event_sort_key (concat (map ?ess (selected_scanners (uq_source sample_query)))) = ?es"
  proof -
    have "concat (map ?ess (selected_scanners (uq_source sample_query))) = ?es"
      by (simp add: sample_query_def selected_scanners_def scanners_def)
    then show ?thesis using sample_storable by (simp add: storable_def sort_key_id_if_sorted)
  qed
  ultimately show ?thesis
    using facts_report_agrees [OF st'(2), of ?ess sample_query rev int_f64 rev rev "\<lambda>_. None" "[]"] st'(1)
    by (auto simp: mset_rev)
qed

end
