(* ===== verification/IngestPlan.thy ===== *)
theory IngestPlan
  imports State Types
begin

text \<open>
  The decisions of \<open>src/ingest/plan.rs\<close>: what has happened to a source file since its state was saved,
  whether a refresh publishes, and which OpenCode database owns a session.
\<close>

datatype file_change = New | Unchanged | Append | Replaced | ParserChanged

definition replaces_records :: "file_change \<Rightarrow> bool" where
  "replaces_records c = (c \<in> {Replaced, ParserChanged})"

definition file_was_replaced :: "file_identity \<Rightarrow> file_identity \<Rightarrow> bool" where
  "file_was_replaced previous current =
    (let prefixes = opt_zip (fi_prefix_sha256 previous) (fi_prefix_sha256 current);
         prefix_matches = is_some_and (\<lambda>(old, new).
           0 < fi_prefix_bytes previous \<and> fi_prefix_bytes previous = fi_prefix_bytes current \<and> old = new) prefixes;
         prefix_changed = is_some_and (\<lambda>(old, new).
           fi_prefix_bytes previous = fi_prefix_bytes current \<and> old \<noteq> new) prefixes;
         identity_changed = is_some_and (\<lambda>((old_device, old_inode), (new_device, new_inode)).
           old_inode \<noteq> new_inode \<or> old_device \<noteq> new_device \<and> \<not> prefix_matches)
           (opt_zip (opt_zip (fi_device previous) (fi_inode previous))
                    (opt_zip (fi_device current) (fi_inode current)))
     in identity_changed \<or> prefix_changed)"

definition classify_file ::
    "source_kind \<Rightarrow> u64 \<Rightarrow> int \<Rightarrow> file_identity \<Rightarrow> u32 \<Rightarrow> file_state option \<Rightarrow> file_change" where
  "classify_file source len mtime identity parser_version previous =
    (case previous of
       None \<Rightarrow> New
     | Some p \<Rightarrow>
         if fl_parser_version p \<noteq> parser_version
            \<or> source \<in> {Claude, Codex} \<and> 0 < fl_offset p \<and> fl_legacy_turn_id p = None
         then ParserChanged
         else if len < fl_size p \<or> len < fl_offset p \<or> mtime < fl_mtime p
            \<or> file_was_replaced (fl_identity p) identity
            \<or> fi_sqlite_wal (fl_identity p) \<noteq> fi_sqlite_wal identity
            \<or> len = fl_size p
              \<and> (is_some_and (\<lambda>(old, new). old \<noteq> new)
                   (opt_zip (fi_modified_ns (fl_identity p)) (fi_modified_ns identity))
                 \<or> is_some_and (\<lambda>(old, new). old \<noteq> new)
                   (opt_zip (fi_changed_ns (fl_identity p)) (fi_changed_ns identity))
                 \<or> mtime \<noteq> fl_mtime p)
         then Replaced
         else if len = fl_size p \<and> mtime = fl_mtime p then Unchanged
         else if source \<in> {Jcode, Antigravity, Bob} then Replaced
         else Append)"

datatype refresh_decision = RUnchanged | CheckpointsOnly | Publish

record refresh_facts =
  rf_source_changes :: bool
  rf_vector_work :: bool
  rf_checkpoint_changes :: bool

definition decide_refresh :: "refresh_facts \<Rightarrow> refresh_decision" where
  "decide_refresh f =
    (if rf_source_changes f \<or> rf_vector_work f then Publish
     else if rf_checkpoint_changes f then CheckpointsOnly
     else RUnchanged)"

datatype opencode_outcome = OPlanned | OReady | OConfirmedAbsent | OFailed

definition classify_opencode_database_outcome ::
    "opencode_outcome option \<Rightarrow> bool \<Rightarrow> bool \<Rightarrow> opencode_outcome" where
  "classify_opencode_database_outcome outcome discovered inventory_completed =
    unwrap_or (if inventory_completed \<and> \<not> discovered then OConfirmedAbsent else OFailed) outcome"

definition claim_opencode_session_owner ::
    "str \<Rightarrow> str \<Rightarrow> (str \<times> str) list \<Rightarrow> (str \<times> str) list" where
  "claim_opencode_session_owner session database owners = entry_update session database id owners"

section \<open>Replacement\<close>

lemma opt_zip_eq_Some: "opt_zip x y = Some z \<longleftrightarrow> (\<exists>a b. x = Some a \<and> y = Some b \<and> z = (a, b))"
  by (cases x; cases y) auto

lemma is_some_and_iff: "is_some_and p x \<longleftrightarrow> (\<exists>y. x = Some y \<and> p y)"
  by (cases x) simp_all

lemma file_not_replaced_self [simp]: "\<not> file_was_replaced i i"
  by (auto simp: file_was_replaced_def Let_def is_some_and_iff opt_zip_eq_Some)

text \<open>
  What a file must satisfy for its saved offset to be trusted: the state was written by this parser,
  lies within the file, and nothing shows that the bytes before it are other bytes.
\<close>

definition resumable ::
    "source_kind \<Rightarrow> u64 \<Rightarrow> int \<Rightarrow> file_identity \<Rightarrow> u32 \<Rightarrow> file_state \<Rightarrow> bool" where
  "resumable source len mtime identity parser_version p =
    (fl_parser_version p = parser_version
     \<and> (source \<in> {Claude, Codex} \<longrightarrow> fl_offset p = 0 \<or> fl_legacy_turn_id p \<noteq> None)
     \<and> fl_size p \<le> len \<and> fl_offset p \<le> len \<and> fl_mtime p \<le> mtime
     \<and> \<not> file_was_replaced (fl_identity p) identity
     \<and> fi_sqlite_wal (fl_identity p) = fi_sqlite_wal identity)"

text \<open>A rewrite that kept the size but shows in a timestamp.\<close>

definition same_size_rewrite :: "u64 \<Rightarrow> int \<Rightarrow> file_identity \<Rightarrow> file_state \<Rightarrow> bool" where
  "same_size_rewrite len mtime identity p =
    (len = fl_size p \<and> (mtime \<noteq> fl_mtime p
       \<or> (\<exists>a b. fi_modified_ns (fl_identity p) = Some a \<and> fi_modified_ns identity = Some b \<and> a \<noteq> b)
       \<or> (\<exists>a b. fi_changed_ns (fl_identity p) = Some a \<and> fi_changed_ns identity = Some b \<and> a \<noteq> b)))"

definition whole_document :: "source_kind \<Rightarrow> bool" where
  "whole_document source = (source \<in> {Jcode, Antigravity, Bob})"


text \<open>
  Refreshing is idempotent: a file whose state was saved from the metadata it still has is
  Unchanged, so a refresh that follows a completed one reads nothing again.
\<close>

theorem saved_file_is_unchanged:
  assumes "fl_size p = len" "fl_mtime p = mtime" "fl_identity p = identity" "fl_offset p \<le> len"
    and "source \<in> {Claude, Codex} \<Longrightarrow> fl_legacy_turn_id p \<noteq> None"
  shows "classify_file source len mtime identity (fl_parser_version p) (Some p) = Unchanged"
  using assms by (auto simp: classify_file_def is_some_and_iff opt_zip_eq_Some)

lemma saved_file_is_unchanged_witness:
  "classify_file Claude 100 1700 (fl_identity sample_file) 2 (Some sample_file) = Unchanged"
  using saved_file_is_unchanged [of sample_file 100 1700 "fl_identity sample_file" Claude]
  by (simp add: sample_file_def)

section \<open>Session owners\<close>

lemma claim_owner_first:
  "map_of (claim_opencode_session_owner s db owners) t =
    (if t = s then Some (unwrap_or db (map_of owners s)) else map_of owners t)"
  by (simp add: claim_opencode_session_owner_def map_of_entry_update)

text \<open>Claims in order: each session belongs to the first database that claims it.\<close>

lemma claims_in_order:
  "map_of (fold (\<lambda>(s, db). claim_opencode_session_owner s db) claims owners) t =
    or_else (map_of owners t) (map_of claims t)"
proof (induction claims arbitrary: owners)
  case (Cons c claims)
  then show ?case by (cases c; cases "map_of owners t") (auto simp: claim_owner_first)
qed (cases "map_of owners t"; simp)

end
