(* ===== verification/CheckpointStore.thy ===== *)
theory CheckpointStore
  imports Checkpoint
begin

text \<open>
  What the reader and the writer promise. The interface \<open>file_reader\<close> is what a session asks of a
  store of file states; both backends provide it. A committed delta changes the files exactly as the
  delta says.
\<close>

section \<open>The interface of a store of files\<close>

text \<open>
  \<open>files\<close> is the finite map a store stands for. Inside the locale are the questions a caller asks of
  a store with a pending overlay: cleared or not, some paths deleted, some written.
\<close>

locale file_reader =
  fixes ok :: "'b \<Rightarrow> bool"
    and files :: "'b \<Rightarrow> str \<Rightarrow> 'f option"
    and load :: "'b \<Rightarrow> str list \<Rightarrow> 'scope \<Rightarrow> (str \<times> 'f option) list option"
    and contains :: "'b \<Rightarrow> str \<Rightarrow> bool"
    and keys :: "'b \<Rightarrow> str list option"
    and has_excluding :: "'b \<Rightarrow> str list \<Rightarrow> bool option"
  assumes load_files: "ok b \<Longrightarrow> \<exists>l. load b paths scope = Some l
      \<and> (\<forall>p. map_of l p = (if p \<in> set paths then Some (files b p) else None))"
    and contains_files: "ok b \<Longrightarrow> contains b p \<longleftrightarrow> files b p \<noteq> None"
    and keys_files: "ok b \<Longrightarrow> \<exists>ks. keys b = Some ks \<and> (\<forall>p. p \<in> set ks \<longleftrightarrow> files b p \<noteq> None)"
    and has_files: "ok b \<Longrightarrow> \<exists>ks. keys b = Some ks \<and> has_excluding b ex = Some (\<exists>p \<in> set ks. p \<notin> set ex)"
begin

definition overlay ::
    "'b \<Rightarrow> bool \<Rightarrow> str list \<Rightarrow> (str \<times> 'f) list \<Rightarrow> str \<Rightarrow> 'f option" where
  "overlay b clear dels ups p =
    (case map_of ups p of
       Some f \<Rightarrow> Some f
     | None \<Rightarrow> if clear \<or> p \<in> set dels then None else files b p)"

lemma overlay_keys:
  assumes "ok b"
  shows "\<exists>ks. keys b = Some ks
    \<and> (\<forall>p. p \<in> set (filter (\<lambda>k. k \<notin> set dels) (if clear then [] else ks)) \<union> fst ` set ups
         \<longleftrightarrow> overlay b clear dels ups p \<noteq> None)"
proof -
  obtain ks where ks: "keys b = Some ks" "\<forall>p. p \<in> set ks \<longleftrightarrow> files b p \<noteq> None"
    using keys_files [OF assms] by blast
  have "p \<in> fst ` set ups \<longleftrightarrow> map_of ups p \<noteq> None" for p by (simp add: map_of_eq_None_iff)
  then show ?thesis using ks by (intro exI [of _ ks]) (auto simp: overlay_def split: option.splits)
qed

lemma overlay_has:
  assumes "ok b" "clear \<longrightarrow> dels = []"
  shows "\<exists>r. has_excluding b dels = Some r
    \<and> (ups \<noteq> [] \<or> \<not> clear \<and> r \<longleftrightarrow> (\<exists>p. overlay b clear dels ups p \<noteq> None))"
proof -
  obtain ks where ks: "keys b = Some ks" "has_excluding b dels = Some (\<exists>p \<in> set ks. p \<notin> set dels)"
    using has_files [OF assms(1), of dels] by blast
  then have mem: "p \<in> set ks \<longleftrightarrow> files b p \<noteq> None" for p
    using keys_files [OF assms(1)] by auto
  have ups: "map_of ups p \<noteq> None \<longleftrightarrow> p \<in> fst ` set ups" for p by (simp add: map_of_eq_None_iff)
  have "(\<exists>p. overlay b clear dels ups p \<noteq> None) \<longleftrightarrow>
      (\<exists>p. map_of ups p \<noteq> None) \<or> (\<exists>p. \<not> clear \<and> p \<notin> set dels \<and> files b p \<noteq> None)"
  proof
    assume "\<exists>p. overlay b clear dels ups p \<noteq> None"
    then show "(\<exists>p. map_of ups p \<noteq> None) \<or> (\<exists>p. \<not> clear \<and> p \<notin> set dels \<and> files b p \<noteq> None)"
      by (auto simp: overlay_def split: option.splits if_splits)
  next
    assume "(\<exists>p. map_of ups p \<noteq> None) \<or> (\<exists>p. \<not> clear \<and> p \<notin> set dels \<and> files b p \<noteq> None)"
    then obtain p where "map_of ups p \<noteq> None \<or> (\<not> clear \<and> p \<notin> set dels \<and> files b p \<noteq> None)" by blast
    then have "overlay b clear dels ups p \<noteq> None" by (auto simp: overlay_def split: option.splits)
    then show "\<exists>p. overlay b clear dels ups p \<noteq> None" by blast
  qed
  also have "(\<exists>p. map_of ups p \<noteq> None) \<longleftrightarrow> ups \<noteq> []"
    unfolding ups by (cases ups) auto
  finally show ?thesis using ks(2) mem by auto
qed

lemma overlay_load:
  assumes "ok b"
  shows "\<exists>l. load b paths scope = Some l
    \<and> (\<forall>p. p \<in> set paths \<longrightarrow> p \<notin> set dels \<longrightarrow> map_of ups p = None \<longrightarrow>
         map_of l p = Some (overlay b False dels ups p))
    \<and> (\<forall>p. p \<notin> set paths \<longrightarrow> map_of l p = None)"
  using load_files [OF assms, of paths scope] by (auto simp: overlay_def)

end

section \<open>Both backends provide it\<close>

definition files_of :: "('t \<Rightarrow> json option) \<Rightarrow> 't backend \<Rightarrow> str \<Rightarrow> file_state option" where
  "files_of parse b p =
    (case b of
       Legacy v \<Rightarrow> Option.bind (legacy_file v p) file_of_json
     | Sqlite _ t \<Rightarrow> Option.bind (map_of (ct_files t) p) (file_of_text parse))"

definition readable :: "('t \<Rightarrow> json option) \<Rightarrow> 't \<Rightarrow> bool" where
  "readable parse t = (\<exists>v. parse t = Some v \<and> json_wf v \<and> decodes file_read v)"

definition backend_ok :: "('t \<Rightarrow> json option) \<Rightarrow> 't backend \<Rightarrow> bool" where
  "backend_ok parse b =
    (case b of
       Legacy v \<Rightarrow> (\<exists>m. Option.bind (json_get ''files'' v) as_object = Some m \<and> distinct (map fst m)
         \<and> (\<forall>x \<in> snd ` set m. file_of_json x \<noteq> None))
     | Sqlite _ t \<Rightarrow> distinct (map fst (ct_files t)) \<and> (\<forall>x \<in> snd ` set (ct_files t). readable parse x))"

lemma readable_text: "readable parse t \<Longrightarrow> file_of_text parse t \<noteq> None"
  by (auto simp: readable_def file_of_text_def file_of_json_def decodes_def)

lemma row_decodes:
  assumes "backend_ok parse (Sqlite v t)" "x \<in> snd ` set (ct_files t)"
  shows "file_of_text parse x \<noteq> None"
proof -
  have "readable parse x" using assms by (force simp: backend_ok_def)
  then show ?thesis by (rule readable_text)
qed

lemma load_points_correct:
  assumes "\<forall>p t. look p = Some t \<longrightarrow> dec t \<noteq> None"
  shows "\<exists>l. load_points look dec paths acc = Some l
    \<and> (\<forall>p. map_of l p = (if p \<in> set paths then Some (Option.bind (look p) dec) else map_of acc p))"
  using assms
proof (induction paths arbitrary: acc)
  case (Cons path paths)
  show ?case
  proof (cases "look path")
    case None
    then show ?thesis
      using Cons.IH [of "AList.update path None acc"] Cons.prems by (fastforce simp: update_conv')
  next
    case (Some t)
    then obtain f where "dec t = Some f" using Cons.prems by blast
    then show ?thesis
      using Cons.IH [of "AList.update path (Some f) acc"] Cons.prems Some by (fastforce simp: update_conv')
  qed
qed simp

lemma load_scan_correct:
  assumes "\<forall>t \<in> snd ` set rows. dec t \<noteq> None" "distinct (map fst rows)"
  shows "\<exists>l. load_scan dec wanted rows acc = Some l
    \<and> (\<forall>p. map_of l p = (if p \<in> set wanted \<and> p \<in> fst ` set rows
         then Some (Option.bind (map_of rows p) dec) else map_of acc p))"
  using assms
proof (induction dec wanted rows acc rule: load_scan.induct)
  case (2 dec wanted path t rows acc)
  obtain f where f: "dec t = Some f" using "2.prems"(1) by auto
  show ?case
  proof (cases "path \<in> set wanted")
    case True
    then show ?thesis using 2 f by (auto simp: update_conv')
  next
    case False
    then show ?thesis using 2 by auto
  qed
qed simp

lemma map_of_or_insert_none:
  "map_of (fold or_insert_none paths l) p =
    (if map_of l p = None \<and> p \<in> set paths then Some None else map_of l p)"
proof (induction paths arbitrary: l)
  case (Cons path paths)
  have "map_of (or_insert_none path l) p = (if map_of l p = None \<and> p = path then Some None else map_of l p)"
  proof (cases "path \<in> fst ` set l")
    case True
    then have "map_of l path \<noteq> None" by (simp add: map_of_eq_None_iff)
    then show ?thesis using True by (auto simp: or_insert_none_def)
  next
    case False
    then have "map_of l path = None" by (simp add: map_of_eq_None_iff)
    then show ?thesis using False by (simp add: or_insert_none_def map_of_append map_add_def split: option.splits)
  qed
  then have "map_of (fold or_insert_none (path # paths) l) p =
      (if (map_of l p = None \<and> p = path \<or> map_of l p = None) \<and> p \<in> set (path # paths) then Some None else map_of l p)"
    using Cons.IH [of "or_insert_none path l"] by (cases "map_of l p") auto
  then show ?case by auto
qed simp

lemma load_files_correct:
  assumes ok: "backend_ok parse b"
  shows "\<exists>l. load_files parse b paths scope = Some l
    \<and> (\<forall>p. map_of l p = (if p \<in> set paths then Some (files_of parse b p) else None))"
proof (cases b)
  case (Legacy v)
  have "file_of_json x \<noteq> None" if x: "legacy_file v p = Some x" for p x
  proof -
    obtain m where "json_get ''files'' v = Some (JObj m)" "\<forall>x \<in> snd ` set m. file_of_json x \<noteq> None"
      using ok by (auto simp: backend_ok_def Legacy bind_eq_Some_conv as_object_Some)
    moreover from this have "map_of m p = Some x" using x by (simp add: legacy_file_def json_get_def [of p])
    ultimately show ?thesis by (force dest: map_of_SomeD)
  qed
  then have "\<forall>p x. legacy_file v p = Some x \<longrightarrow> file_of_json x \<noteq> None" by blast
  from load_points_correct [OF this, of paths "[]"] show ?thesis
    by (simp add: load_files_def files_of_def Legacy cong: if_cong)
next
  case (Sqlite ver t)
  have dec: "file_of_text parse x \<noteq> None" if "x \<in> snd ` set (ct_files t)" for x
    using row_decodes [OF ok [unfolded Sqlite] that] .
  show ?thesis
  proof (cases scope)
    case Targeted
    have "file_of_text parse x \<noteq> None" if "map_of (ct_files t) p = Some x" for p x
      using dec map_of_SomeD [OF that] by force
    then have "\<forall>p x. map_of (ct_files t) p = Some x \<longrightarrow> file_of_text parse x \<noteq> None" by blast
  from load_points_correct [OF this, of paths "[]"] show ?thesis
      by (simp add: load_files_def files_of_def Sqlite Targeted cong: if_cong)
  next
    case Bulk
    have dist': "distinct (map fst (ct_files t))" using ok by (simp add: backend_ok_def Sqlite)
    obtain l where l: "load_scan (file_of_text parse) paths (ct_files t) [] = Some l"
      "\<forall>p. map_of l p = (if p \<in> set paths \<and> p \<in> fst ` set (ct_files t)
         then Some (Option.bind (map_of (ct_files t) p) (file_of_text parse)) else None)"
      using load_scan_correct [of "ct_files t" "file_of_text parse" paths "[]"] dec dist' by auto
    have "p \<notin> fst ` set (ct_files t) \<longleftrightarrow> map_of (ct_files t) p = None" for p
      by (simp add: map_of_eq_None_iff)
    then show ?thesis
      using l by (auto simp: load_files_def files_of_def Sqlite Bulk map_of_or_insert_none)
  qed
qed

lemma backend_keys:
  assumes ok: "backend_ok parse b"
  shows "\<exists>ks. file_keys b = Some ks \<and> (\<forall>p. p \<in> set ks \<longleftrightarrow> files_of parse b p \<noteq> None)
    \<and> (\<forall>p. contains_file b p \<longleftrightarrow> p \<in> set ks)"
proof (cases b)
  case (Legacy v)
  then obtain m where m: "json_get ''files'' v = Some (JObj m)" "\<forall>x \<in> snd ` set m. file_of_json x \<noteq> None"
    using ok by (auto simp: backend_ok_def bind_eq_Some_conv as_object_Some)
  have mem: "p \<in> fst ` set m \<longleftrightarrow> map_of m p \<noteq> None" for p by (simp add: map_of_eq_None_iff)
  have "map_of m p \<noteq> None \<longleftrightarrow> Option.bind (map_of m p) file_of_json \<noteq> None" for p
  proof (cases "map_of m p")
    case (Some x)
    then have "x \<in> snd ` set m" by (force dest: map_of_SomeD)
    then show ?thesis using Some bspec [OF m(2), of x] by simp
  qed simp
  then show ?thesis
    using mem by (simp add: Legacy file_keys_def contains_file_def files_of_def legacy_file_def m(1) as_object_JObj)
next
  case (Sqlite ver t)
  have mem: "p \<in> fst ` set (ct_files t) \<longleftrightarrow> map_of (ct_files t) p \<noteq> None" for p by (simp add: map_of_eq_None_iff)
  have "map_of (ct_files t) p \<noteq> None \<longleftrightarrow> Option.bind (map_of (ct_files t) p) (file_of_text parse) \<noteq> None" for p
  proof (cases "map_of (ct_files t) p")
    case (Some x)
    then have "x \<in> snd ` set (ct_files t)" by (force dest: map_of_SomeD)
    then show ?thesis using Some row_decodes [OF ok [unfolded Sqlite], of x] by simp
  qed simp
  then show ?thesis using mem by (simp add: Sqlite file_keys_def contains_file_def files_of_def)
qed

interpretation store: file_reader "backend_ok parse" "files_of parse" "load_files parse" contains_file
    file_keys has_files_excluding
proof
  fix b :: "'a backend" and paths scope p ex
  assume ok: "backend_ok parse b"
  show "\<exists>l. load_files parse b paths scope = Some l
      \<and> (\<forall>p. map_of l p = (if p \<in> set paths then Some (files_of parse b p) else None))"
    using ok by (rule load_files_correct)
  obtain ks where ks: "file_keys b = Some ks" "\<forall>p. p \<in> set ks \<longleftrightarrow> files_of parse b p \<noteq> None"
    "\<forall>p. contains_file b p \<longleftrightarrow> p \<in> set ks" using backend_keys [OF ok] by blast
  then show "contains_file b p \<longleftrightarrow> files_of parse b p \<noteq> None" by simp
  show "\<exists>ks. file_keys b = Some ks \<and> (\<forall>p. p \<in> set ks \<longleftrightarrow> files_of parse b p \<noteq> None)"
    using ks by blast
  show "\<exists>ks. file_keys b = Some ks \<and> has_files_excluding b ex = Some (\<exists>p \<in> set ks. p \<notin> set ex)"
    using ks(1) by (auto simp: has_files_excluding_def list_ex_iff)
qed

section \<open>Commits\<close>

text \<open>What the writer relies on: the text it renders of a value parses to that value.\<close>

definition parses_back :: "('t \<Rightarrow> json option) \<Rightarrow> (json \<Rightarrow> 't) \<Rightarrow> bool" where
  "parses_back parse render \<longleftrightarrow> (\<forall>v. parse (render v) = Some v)"

lemma file_payload_readable:
  assumes law: "parses_back parse render"
    and "is_none_or (readable parse) previous" "valid_file file"
  shows "\<exists>payload. file_payload parse render file previous = Some payload
    \<and> readable parse payload \<and> file_of_text parse payload = Some file"
proof -
  obtain old where "parse_previous parse previous = Some old" "is_none_or json_wf old"
    "is_none_or (decodes file_read) old"
    using assms(2) by (cases previous) (auto simp: parse_previous_def readable_def)
  from file_payload_spec [OF this assms(3), of render] obtain m where
    "file_payload parse render file previous = Some (render (JObj m))" "json_wf (JObj m)"
    "file_read m = Some file" by blast
  then show ?thesis
    using law by (simp add: parses_back_def readable_def decodes_def file_of_text_def file_of_json_def as_object_JObj del: json_wf.simps(1))
qed

lemma upsert_rows_correct:
  assumes "parses_back parse render" "distinct (map fst ups)" "\<forall>f \<in> snd ` set ups. valid_file f"
    and "distinct (map fst rows)" "\<forall>x \<in> snd ` set rows. readable parse x"
  shows "\<exists>rows'. upsert_rows parse render ups rows = Some rows' \<and> distinct (map fst rows')
    \<and> (\<forall>x \<in> snd ` set rows'. readable parse x)
    \<and> (\<forall>p. Option.bind (map_of rows' p) (file_of_text parse) =
         or_else (map_of ups p) (Option.bind (map_of rows p) (file_of_text parse)))"
  using assms(2-5)
proof (induction ups arbitrary: rows)
  case Nil
  then show ?case by simp
next
  case (Cons u ups)
  obtain path f where u: "u = (path, f)" by (cases u)
  have "is_none_or (readable parse) (map_of rows path)"
  proof (cases "map_of rows path")
    case (Some x)
    then have "x \<in> snd ` set rows" by (force dest: map_of_SomeD)
    then show ?thesis using Some bspec [OF Cons.prems(4), of x] by simp
  qed simp
  then obtain payload where p: "file_payload parse render f (map_of rows path) = Some payload"
    "readable parse payload" "file_of_text parse payload = Some f"
    using file_payload_readable [OF assms(1), of "map_of rows path" f] Cons.prems(2) u by auto
  let ?rows = "AList.update path payload rows"
  have "distinct (map fst ?rows)" using Cons.prems(3) by (rule distinct_update)
  moreover have "\<forall>x \<in> snd ` set ?rows. readable parse x"
    using values_update [of path payload rows] Cons.prems(4) p(2) by blast
  ultimately obtain rows' where r: "upsert_rows parse render ups ?rows = Some rows'" "distinct (map fst rows')"
    "\<forall>x \<in> snd ` set rows'. readable parse x"
    "\<forall>q. Option.bind (map_of rows' q) (file_of_text parse) =
         or_else (map_of ups q) (Option.bind (map_of ?rows q) (file_of_text parse))"
    using Cons.IH [of ?rows] Cons.prems by auto
  have "map_of ups path = None" using Cons.prems(1) by (simp add: u map_of_eq_None_iff)
  then have "or_else (map_of ups q) (Option.bind (map_of ?rows q) (file_of_text parse)) =
      or_else (map_of (u # ups) q) (Option.bind (map_of rows q) (file_of_text parse))" for q
    by (cases "q = path") (simp_all add: u update_conv' p(3))
  then show ?case using r p(1) by (auto simp: u)
qed

lemma write_files_correct:
  assumes "parses_back parse render" "distinct (map fst (cd_upserts d))"
    and "\<forall>f \<in> snd ` set (cd_upserts d). valid_file f" "backend_ok parse (Sqlite v t)"
  shows "\<exists>rows. write_files parse render d (ct_files t) = Some rows \<and> distinct (map fst rows)
    \<and> (\<forall>x \<in> snd ` set rows. readable parse x)
    \<and> (\<forall>p. Option.bind (map_of rows p) (file_of_text parse) =
        file_reader.overlay (files_of parse) (Sqlite v t) (cd_clear_files d) (cd_deletes d) (cd_upserts d) p)"
proof -
  let ?base = "filter (\<lambda>(path, _). path \<notin> set (cd_deletes d)) (if cd_clear_files d then [] else ct_files t)"
  have base: "distinct (map fst ?base)" "\<forall>x \<in> snd ` set ?base. readable parse x"
    using assms(4) by (auto simp: backend_ok_def distinct_map_filter)
  have look: "map_of ?base p = (if cd_clear_files d \<or> p \<in> set (cd_deletes d) then None else map_of (ct_files t) p)" for p
    by (simp add: map_of_filter_keys)
  have "or_else (map_of (cd_upserts d) p) (Option.bind (map_of ?base p) (file_of_text parse)) =
      file_reader.overlay (files_of parse) (Sqlite v t) (cd_clear_files d) (cd_deletes d) (cd_upserts d) p" for p
    unfolding store.overlay_def look files_of_def by (cases "map_of (cd_upserts d) p") simp_all
  then show ?thesis
    using upsert_rows_correct [OF assms(1-3) base] by (simp add: write_files_def)
qed

lemma replace_pending_files: "replace_pending parse render c t = Some t' \<Longrightarrow> ct_files t' = ct_files t"
  by (auto simp: replace_pending_def split: pending_change.splits)

lemma commit_delta_files:
  assumes "parses_back parse render" "distinct (map fst (cd_upserts d))"
    and "\<forall>f \<in> snd ` set (cd_upserts d). valid_file f" "backend_ok parse (Sqlite v t)"
    and c: "commit_delta bytes parse render d (Sqlite v t) = Some (changed, b')"
  shows "backend_ok parse b' \<and> (\<exists>t'. b' = Sqlite v t')
    \<and> files_of parse b' = file_reader.overlay (files_of parse) (Sqlite v t) (cd_clear_files d) (cd_deletes d) (cd_upserts d)
    \<and> (changed \<longleftrightarrow> \<not> delta_is_empty d)"
proof (cases "delta_is_empty d")
  case True
  then have "b' = Sqlite v t" "\<not> changed" using c by (simp_all add: commit_delta_def)
  then show ?thesis using assms(4) True by (auto simp: delta_is_empty_def store.overlay_def fun_eq_iff)
next
  case False
  obtain rows where rows: "write_files parse render d (ct_files t) = Some rows" "distinct (map fst rows)"
    "\<forall>x \<in> snd ` set rows. readable parse x"
    "\<forall>p. Option.bind (map_of rows p) (file_of_text parse) =
        file_reader.overlay (files_of parse) (Sqlite v t) (cd_clear_files d) (cd_deletes d) (cd_upserts d) p"
    using write_files_correct [OF assms(1-4)] by blast
  obtain t' where t': "b' = Sqlite v t'" "ct_files t' = rows" "changed"
    using c False rows(1) by (auto simp: commit_delta_def bind_eq_Some_conv dest!: replace_pending_files)
  show ?thesis using rows(2-4) t' False by (simp add: backend_ok_def files_of_def fun_eq_iff)
qed

text \<open>A commit that leaves the databases and the marker alone cannot fail.\<close>

lemma commit_delta_total:
  assumes "parses_back parse render" "distinct (map fst (cd_upserts d))"
    and "\<forall>f \<in> snd ` set (cd_upserts d). valid_file f" "backend_ok parse (Sqlite v t)"
    and "cd_opencode_databases d = None" "cd_pending d \<in> {Keep, Clear}"
  shows "\<exists>r. commit_delta bytes parse render d (Sqlite v t) = Some r"
  using write_files_correct [OF assms(1-4)] assms(5,6)
  by (auto simp: commit_delta_def replace_pending_def)

end
