(* ===== verification/CheckpointSession.thy ===== *)
theory CheckpointSession
  imports CheckpointStore
begin

text \<open>
  The checkpoint session of \<open>src/ingest/checkpoint.rs\<close>: what one ingest run sees of the store, with its
  uncommitted changes on top. A session stands for a plain map from paths to file states; its loaded
  entries are a cache of that map, and its delta is what the map differs by from the store.
\<close>

section \<open>Values of hash maps\<close>

text \<open>\<open>PartialEq\<close> of hash maps, and of the records that hold them: the order of entries is not part of a
  value.\<close>

definition hash_map_eq :: "('v \<Rightarrow> 'v \<Rightarrow> bool) \<Rightarrow> ('k \<times> 'v) list \<Rightarrow> ('k \<times> 'v) list \<Rightarrow> bool" where
  "hash_map_eq eq a b =
    list_all (\<lambda>k. case (map_of a k, map_of b k) of (Some x, Some y) \<Rightarrow> eq x y | (x, y) \<Rightarrow> x = None \<and> y = None)
      (map fst a @ map fst b)"

definition file_eq :: "file_state \<Rightarrow> file_state \<Rightarrow> bool" where
  "file_eq f g =
    (hash_map_eq (=) (fl_pending_tool_calls f) (fl_pending_tool_calls g)
     \<and> f\<lparr>fl_pending_tool_calls := []\<rparr> = g\<lparr>fl_pending_tool_calls := []\<rparr>)"

definition database_eq :: "opencode_database_state \<Rightarrow> opencode_database_state \<Rightarrow> bool" where
  "database_eq d e =
    (hash_map_eq (=) (od_session_cursors d) (od_session_cursors e)
     \<and> set (od_owned_session_ids d) = set (od_owned_session_ids e)
     \<and> d\<lparr>od_session_cursors := [], od_owned_session_ids := []\<rparr>
         = e\<lparr>od_session_cursors := [], od_owned_session_ids := []\<rparr>)"

type_synonym file_value = "file_state \<times> (str \<rightharpoonup> pending_tool_call)"

definition file_value :: "file_state \<Rightarrow> file_value" where
  "file_value f = (f\<lparr>fl_pending_tool_calls := []\<rparr>, map_of (fl_pending_tool_calls f))"

section \<open>The session\<close>

record 't session =
  se_backend :: "'t backend"
  se_loaded :: "(str \<times> file_state option) list"
  se_delta :: checkpoint_delta
  se_original_next_doc_id :: u64
  se_original_opencode_databases :: "(str \<times> opencode_database_state) list"
  se_next_doc_id :: u64
  se_opencode_databases :: "(str \<times> opencode_database_state) list"
  se_pending :: "pending_ingest option"
  se_scan_cache :: scan_cache
  se_directory_stamps :: "directory_stamp_update option"
  se_journal_cursor :: "journal_cursor_update option"

text \<open>The writer has been opened on the store; its header is given or read.\<close>

definition session_open ::
    "('t \<Rightarrow> nat) \<Rightarrow> ('t \<Rightarrow> json option) \<Rightarrow> 't option \<Rightarrow> 't option \<Rightarrow> checkpoint_header option
     \<Rightarrow> 't backend \<Rightarrow> 't session option" where
  "session_open bytes parse pending_sidecar cache_sidecar header b = do {
     h \<leftarrow> (case header of
       Some h \<Rightarrow> Some h
     | None \<Rightarrow> reader_header bytes parse pending_sidecar cache_sidecar b);
     Some \<lparr>se_backend = b, se_loaded = [], se_delta = delta_default,
       se_original_next_doc_id = of_nat (ch_next_doc_id h),
       se_original_opencode_databases = ch_opencode_databases h,
       se_next_doc_id = of_nat (ch_next_doc_id h),
       se_opencode_databases = ch_opencode_databases h, se_pending = ch_pending h,
       se_scan_cache = ch_scan_cache h, se_directory_stamps = None, se_journal_cursor = None\<rparr>}"

definition persisted_file_keys :: "'t session \<Rightarrow> str list option" where
  "persisted_file_keys s = file_keys (se_backend s)"

definition clears_files :: "'t session \<Rightarrow> bool" where
  "clears_files s = cd_clear_files (se_delta s)"

definition session_directory_stamps :: "'t session \<Rightarrow> str \<Rightarrow> (str \<times> directory_stamp) list" where
  "session_directory_stamps s fingerprint = load_directory_stamps (se_backend s) fingerprint"

text \<open>\<open>HashMap::extend\<close> from another map, whose keys are distinct: the order does not matter.\<close>

definition extend_map :: "(str \<times> 'v) list \<Rightarrow> (str \<times> 'v) list \<Rightarrow> (str \<times> 'v) list" where
  "extend_map extra m = foldr (\<lambda>(k, v). AList.update k v) extra m"

definition missing_paths :: "str list \<Rightarrow> 't session \<Rightarrow> str list" where
  "missing_paths paths s = remdups (filter (\<lambda>path. path \<notin> fst ` set (se_loaded s)) paths)"

definition preload ::
    "('t \<Rightarrow> json option) \<Rightarrow> str list \<Rightarrow> file_load_scope \<Rightarrow> 't session \<Rightarrow> 't session option" where
  "preload parse paths scope s =
    (let missing = missing_paths paths s
     in if cd_clear_files (se_delta s)
        then Some (s\<lparr>se_loaded := extend_map (map (\<lambda>path. (path, None)) missing) (se_loaded s)\<rparr>)
        else if missing \<noteq> []
        then map_option (\<lambda>found. s\<lparr>se_loaded := extend_map found (se_loaded s)\<rparr>)
               (load_files parse (se_backend s) missing scope)
        else Some s)"

text \<open>\<open>None\<close> is the panic on a path that was not preloaded.\<close>

definition session_file :: "'t session \<Rightarrow> str \<Rightarrow> file_state option option" where
  "session_file s path = map_of (se_loaded s) path"

definition session_contains :: "'t session \<Rightarrow> str \<Rightarrow> bool" where
  "session_contains s path =
    (case map_of (se_loaded s) path of
       Some x \<Rightarrow> x \<noteq> None
     | None \<Rightarrow> if cd_clear_files (se_delta s) then False else contains_file (se_backend s) path)"

definition session_file_keys :: "'t session \<Rightarrow> str list option" where
  "session_file_keys s = do {
     keys \<leftarrow> (if cd_clear_files (se_delta s) then Some [] else file_keys (se_backend s));
     Some (remdups (filter (\<lambda>k. k \<notin> set (cd_deletes (se_delta s))) keys @ map fst (cd_upserts (se_delta s))))}"

definition session_has_files :: "'t session \<Rightarrow> bool option" where
  "session_has_files s =
    (if cd_upserts (se_delta s) \<noteq> [] then Some True
     else if cd_clear_files (se_delta s) then Some False
     else has_files_excluding (se_backend s) (cd_deletes (se_delta s)))"

definition delete_file :: "str \<Rightarrow> 't session \<Rightarrow> 't session" where
  "delete_file path s =
    (let d = se_delta s
     in s\<lparr>se_loaded := AList.update path None (se_loaded s),
          se_delta := d\<lparr>cd_upserts := AList.delete path (cd_upserts d),
            cd_deletes := (if cd_clear_files d then cd_deletes d else List.insert path (cd_deletes d))\<rparr>\<rparr>)"

definition clear_files :: "'t session \<Rightarrow> 't session" where
  "clear_files s =
    s\<lparr>se_loaded := [],
      se_delta := (se_delta s)\<lparr>cd_upserts := [], cd_deletes := [], cd_clear_files := True\<rparr>\<rparr>"

definition upsert_file :: "str \<Rightarrow> file_state \<Rightarrow> 't session \<Rightarrow> 't session" where
  "upsert_file path file s =
    (if (case map_of (se_loaded s) path of Some (Some previous) \<Rightarrow> file_eq previous file | _ \<Rightarrow> False) then s
     else let d = se_delta s
       in s\<lparr>se_loaded := AList.update path (Some file) (se_loaded s),
            se_delta := d\<lparr>cd_deletes := removeAll path (cd_deletes d),
              cd_upserts := AList.update path file (cd_upserts d)\<rparr>\<rparr>)"

definition session_intent ::
    "('t \<Rightarrow> json option) \<Rightarrow> (json \<Rightarrow> 't) \<Rightarrow> pending_ingest \<Rightarrow> 't session \<Rightarrow> 't session option" where
  "session_intent parse render pending s =
    map_option (\<lambda>b. s\<lparr>se_backend := b, se_pending := Some pending\<rparr>)
      (commit_intent parse render pending (se_backend s))"

text \<open>The delta \<open>commit_final\<close> hands to the writer, and what it keeps of the session. A failed commit
  ends the run: \<open>None\<close>.\<close>

definition final_delta :: "scan_cache option \<Rightarrow> pending_change \<Rightarrow> 't session \<Rightarrow> checkpoint_delta" where
  "final_delta cache pending s =
    (se_delta s)\<lparr>cd_scan_cache := cache, cd_pending := pending,
       cd_directory_stamps := se_directory_stamps s, cd_journal_cursor := se_journal_cursor s,
       cd_next_doc_id :=
         (if se_next_doc_id s \<noteq> se_original_next_doc_id s then Some (se_next_doc_id s) else None),
       cd_opencode_databases :=
         (if hash_map_eq database_eq (se_opencode_databases s) (se_original_opencode_databases s)
          then None else Some (se_opencode_databases s))\<rparr>"

definition commit_final ::
    "('t \<Rightarrow> nat) \<Rightarrow> ('t \<Rightarrow> json option) \<Rightarrow> (json \<Rightarrow> 't) \<Rightarrow> scan_cache option \<Rightarrow> pending_change
     \<Rightarrow> 't session \<Rightarrow> (bool \<times> 't session) option" where
  "commit_final bytes parse render cache pending s = do {
     (changed, b) \<leftarrow> commit_delta bytes parse render (final_delta cache pending s) (se_backend s);
     Some (changed, s\<lparr>se_backend := b,
       se_scan_cache := unwrap_or (se_scan_cache s) cache,
       se_pending := (case pending of Keep \<Rightarrow> se_pending s | Replace p \<Rightarrow> Some p | Clear \<Rightarrow> None),
       se_delta := delta_default, se_directory_stamps := None, se_journal_cursor := None,
       se_original_next_doc_id := se_next_doc_id s,
       se_original_opencode_databases := se_opencode_databases s\<rparr>)}"

section \<open>What a session stands for\<close>

lemma hash_map_eq_iff: "hash_map_eq (=) a b \<longleftrightarrow> map_of a = map_of b"
proof
  assume h: "hash_map_eq (=) a b"
  show "map_of a = map_of b"
  proof
    fix k
    show "map_of a k = map_of b k"
    proof (cases "k \<in> set (map fst a @ map fst b)")
      case True
      then have "case (map_of a k, map_of b k) of (Some x, Some y) \<Rightarrow> x = y | (x, y) \<Rightarrow> x = None \<and> y = None"
        using h unfolding hash_map_eq_def list_all_iff by blast
      then show ?thesis by (cases "map_of a k"; cases "map_of b k") simp_all
    next
      case False
      then have "map_of a k = None" "map_of b k = None" by (simp_all add: map_of_eq_None_iff)
      then show ?thesis by simp
    qed
  qed
qed (simp add: hash_map_eq_def list_all_iff split: option.splits)

lemma file_eq_iff: "file_eq f g \<longleftrightarrow> file_value f = file_value g"
  by (auto simp: file_eq_def file_value_def hash_map_eq_iff)

definition session_look :: "('t \<Rightarrow> json option) \<Rightarrow> 't session \<Rightarrow> str \<Rightarrow> file_state option" where
  "session_look parse s =
    file_reader.overlay (files_of parse) (se_backend s) (cd_clear_files (se_delta s))
      (cd_deletes (se_delta s)) (cd_upserts (se_delta s))"

definition session_view :: "('t \<Rightarrow> json option) \<Rightarrow> 't session \<Rightarrow> str \<Rightarrow> file_value option" where
  "session_view parse s p = map_option file_value (session_look parse s p)"

definition delta_ok :: "checkpoint_delta \<Rightarrow> bool" where
  "delta_ok d = (distinct (map fst (cd_upserts d)) \<and> (\<forall>f \<in> snd ` set (cd_upserts d). valid_file f)
     \<and> (cd_clear_files d \<longrightarrow> cd_deletes d = []))"

definition stores_id :: "'t backend \<Rightarrow> u64 \<Rightarrow> bool" where
  "stores_id b n = (case b of Legacy _ \<Rightarrow> False | Sqlite _ t \<Rightarrow> ct_next_doc_id t = decimal (unat n))"

definition session_ok :: "('t \<Rightarrow> json option) \<Rightarrow> 't session \<Rightarrow> bool" where
  "session_ok parse s =
    (stores_id (se_backend s) (se_original_next_doc_id s) \<and> backend_ok parse (se_backend s) \<and> delta_ok (se_delta s)
     \<and> fst ` set (cd_upserts (se_delta s)) \<subseteq> fst ` set (se_loaded s)
     \<and> set (cd_deletes (se_delta s)) \<subseteq> fst ` set (se_loaded s)
     \<and> (\<forall>p x. map_of (se_loaded s) p = Some x \<longrightarrow> x = session_look parse s p))"

lemma map_of_extend: "map_of (extend_map extra m) p = or_else (map_of extra p) (map_of m p)"
  by (induction extra) (auto simp: extend_map_def or_else_def update_conv')

lemma keys_extend: "fst ` set (extend_map extra m) = fst ` set extra \<union> fst ` set m"
  by (induction extra) (simp_all add: extend_map_def dom_update split_beta)

lemma map_of_key: "p \<in> fst ` set m \<longleftrightarrow> map_of m p \<noteq> None"
  by (simp add: map_of_eq_None_iff)

lemma untouched_look:
  assumes "session_ok parse s" "p \<notin> fst ` set (se_loaded s)"
  shows "session_look parse s p = (if cd_clear_files (se_delta s) then None else files_of parse (se_backend s) p)"
proof -
  have "p \<notin> fst ` set (cd_upserts (se_delta s))" "p \<notin> set (cd_deletes (se_delta s))"
    using assms by (auto simp: session_ok_def)
  then have "map_of (cd_upserts (se_delta s)) p = None" "p \<notin> set (cd_deletes (se_delta s))"
    by (simp_all add: map_of_key)
  then show ?thesis by (simp add: session_look_def store.overlay_def)
qed

lemma session_loadedD:
  "session_ok parse s \<Longrightarrow> map_of (se_loaded s) p = Some x \<Longrightarrow> x = session_look parse s p"
  by (simp add: session_ok_def)

lemma session_okD:
  assumes "session_ok parse s"
  shows "backend_ok parse (se_backend s)" "delta_ok (se_delta s)"
    "fst ` set (cd_upserts (se_delta s)) \<subseteq> fst ` set (se_loaded s)"
    "set (cd_deletes (se_delta s)) \<subseteq> fst ` set (se_loaded s)"
  using assms unfolding session_ok_def by iprover+

lemma loaded_update_ok:
  assumes "session_ok parse s" and b: "se_backend s' = se_backend s"
    and i: "se_original_next_doc_id s' = se_original_next_doc_id s"
    and d: "delta_ok (se_delta s')" and l: "se_loaded s' = AList.update path x (se_loaded s)"
    and u: "fst ` set (cd_upserts (se_delta s')) \<subseteq> insert path (fst ` set (cd_upserts (se_delta s)))"
    and e: "set (cd_deletes (se_delta s')) \<subseteq> insert path (set (cd_deletes (se_delta s)))"
    and v: "session_look parse s' = (session_look parse s)(path := x)"
  shows "session_ok parse s'"
proof -
  have keys: "fst ` set (se_loaded s') = insert path (fst ` set (se_loaded s))"
    by (simp add: l dom_update)
  have "\<forall>p y. map_of (se_loaded s') p = Some y \<longrightarrow> y = session_look parse s' p"
    using session_loadedD [OF assms(1)] by (simp add: l v update_conv')
  moreover have "fst ` set (cd_upserts (se_delta s')) \<subseteq> fst ` set (se_loaded s')"
    using subset_trans [OF u insert_mono [OF session_okD(3) [OF assms(1)]]] unfolding keys .
  moreover have "set (cd_deletes (se_delta s')) \<subseteq> fst ` set (se_loaded s')"
    using subset_trans [OF e insert_mono [OF session_okD(4) [OF assms(1)]]] unfolding keys .
  ultimately show ?thesis using assms(1) d unfolding session_ok_def b i by (elim conjE, intro conjI)
qed

lemma session_look_cong:
  "se_backend s' = se_backend s \<Longrightarrow> se_delta s' = se_delta s \<Longrightarrow> session_look parse s' = session_look parse s"
  by (simp add: session_look_def)

lemma extended_ok:
  assumes "session_ok parse s" and found: "\<forall>p. map_of found p =
      (if p \<in> set (missing_paths paths s) then Some (session_look parse s p) else None)"
  defines "s' \<equiv> s\<lparr>se_loaded := extend_map found (se_loaded s)\<rparr>"
  shows "session_ok parse s' \<and> session_look parse s' = session_look parse s
    \<and> set paths \<subseteq> fst ` set (se_loaded s')"
proof -
  have look: "session_look parse s' = session_look parse s"
    by (rule session_look_cong) (simp_all add: s'_def)
  have keys: "fst ` set found = set (missing_paths paths s)"
    using found by (auto simp: set_eq_iff map_of_key simp del: not_None_eq split: if_splits)
  have "\<forall>p x. map_of (se_loaded s') p = Some x \<longrightarrow> x = session_look parse s p"
    using found session_loadedD [OF assms(1)]
    by (simp add: s'_def map_of_extend or_else_def)
  moreover have loaded: "fst ` set (se_loaded s') = set (missing_paths paths s) \<union> fst ` set (se_loaded s)"
    by (simp add: s'_def keys_extend keys)
  moreover have "set paths \<subseteq> fst ` set (se_loaded s')" unfolding loaded by (auto simp: missing_paths_def)
  moreover have "se_backend s' = se_backend s" "se_delta s' = se_delta s"
    "se_original_next_doc_id s' = se_original_next_doc_id s" by (simp_all add: s'_def)
  ultimately show ?thesis using assms(1) look unfolding session_ok_def by auto
qed

lemma map_of_constant: "map_of (map (\<lambda>k. (k, c)) ks) p = (if p \<in> set ks then Some c else None)"
  by (induction ks) auto

lemma preload_ok:
  assumes ok: "session_ok parse s"
  shows "\<exists>s'. preload parse paths scope s = Some s' \<and> session_ok parse s'
    \<and> session_look parse s' = session_look parse s \<and> set paths \<subseteq> fst ` set (se_loaded s')"
proof -
  let ?m = "missing_paths paths s"
  have new: "session_look parse s p = (if cd_clear_files (se_delta s) then None else files_of parse (se_backend s) p)"
    if "p \<in> set ?m" for p
    by (rule untouched_look [OF ok]) (use that in \<open>auto simp: missing_paths_def\<close>)
  consider "cd_clear_files (se_delta s)" | "\<not> cd_clear_files (se_delta s)" "?m \<noteq> []"
    | "\<not> cd_clear_files (se_delta s)" "?m = []" by blast
  then show ?thesis
  proof cases
    case 1
    have "\<forall>p. map_of (map (\<lambda>path. (path, None)) ?m) p =
        (if p \<in> set ?m then Some (session_look parse s p) else None)"
      using new 1 by (simp add: map_of_constant)
    from extended_ok [OF ok this] show ?thesis using 1 by (simp add: preload_def)
  next
    case 2
    obtain l where l: "load_files parse (se_backend s) ?m scope = Some l"
      "\<forall>p. map_of l p = (if p \<in> set ?m then Some (files_of parse (se_backend s) p) else None)"
      using store.load_files [OF session_okD(1) [OF ok], of ?m scope] by blast
    then have "\<forall>p. map_of l p = (if p \<in> set ?m then Some (session_look parse s p) else None)"
      using new 2 by simp
    from extended_ok [OF ok this] show ?thesis using 2 l by (simp add: preload_def)
  next
    case 3
    then have "set paths \<subseteq> fst ` set (se_loaded s)" by (auto simp: missing_paths_def filter_empty_conv)
    then show ?thesis using ok 3 by (simp add: preload_def)
  qed
qed

lemma delete_file_ok:
  assumes ok: "session_ok parse s"
  shows "session_ok parse (delete_file path s) \<and> session_look parse (delete_file path s) = (session_look parse s)(path := None)"
proof -
  let ?d = "se_delta s" and ?s = "delete_file path s"
  have look: "session_look parse ?s = (session_look parse s)(path := None)"
    by (auto simp: session_look_def delete_file_def Let_def store.overlay_def delete_conv' fun_eq_iff)
  have "delta_ok (se_delta ?s)"
    using session_okD(2) [OF ok]
    by (auto simp: delta_ok_def delete_file_def Let_def AList.delete_eq distinct_map_filter)
  moreover have "fst ` set (cd_upserts (se_delta ?s)) \<subseteq> insert path (fst ` set (cd_upserts ?d))"
    "set (cd_deletes (se_delta ?s)) \<subseteq> insert path (set (cd_deletes ?d))"
    by (auto simp: delete_file_def Let_def AList.delete_eq)
  ultimately have "session_ok parse ?s"
    using look by (intro loaded_update_ok [OF ok, of ?s path None]) (simp_all add: delete_file_def Let_def)
  then show ?thesis using look by blast
qed

lemma clear_files_ok:
  assumes "session_ok parse s"
  shows "session_ok parse (clear_files s) \<and> session_look parse (clear_files s) = (\<lambda>_. None)"
  using assms by (auto simp: session_ok_def clear_files_def delta_ok_def session_look_def store.overlay_def)

lemma upsert_file_ok:
  assumes ok: "session_ok parse s" and f: "valid_file f"
  shows "session_ok parse (upsert_file path f s)
    \<and> session_view parse (upsert_file path f s) = (session_view parse s)(path \<mapsto> file_value f)"
proof (cases "case map_of (se_loaded s) path of Some (Some previous) \<Rightarrow> file_eq previous f | _ \<Rightarrow> False")
  case True
  then obtain g where g: "map_of (se_loaded s) path = Some (Some g)" "file_value g = file_value f"
    by (auto simp: file_eq_iff split: option.splits)
  have "session_look parse s path = Some g" using session_loadedD [OF ok g(1)] by simp
  then have "session_view parse s path = Some (file_value f)" by (simp add: session_view_def g(2))
  then show ?thesis using True ok by (simp add: upsert_file_def fun_upd_idem)
next
  case False
  let ?d = "se_delta s" and ?s = "upsert_file path f s"
  have s: "?s = s\<lparr>se_loaded := AList.update path (Some f) (se_loaded s),
      se_delta := ?d\<lparr>cd_deletes := removeAll path (cd_deletes ?d), cd_upserts := AList.update path f (cd_upserts ?d)\<rparr>\<rparr>"
    using False by (simp add: upsert_file_def Let_def)
  have look: "session_look parse ?s = (session_look parse s)(path := Some f)"
    by (auto simp: s session_look_def store.overlay_def update_conv' fun_eq_iff split: option.splits)
  have "delta_ok (se_delta ?s)"
  proof -
    have "\<forall>g \<in> snd ` set (AList.update path f (cd_upserts ?d)). valid_file g"
      using session_okD(2) [OF ok] f values_update [of path f "cd_upserts ?d"] unfolding delta_ok_def by blast
    then show ?thesis using session_okD(2) [OF ok] by (auto simp: s delta_ok_def distinct_update)
  qed
  from loaded_update_ok [OF ok _ _ this _ _ _ look] look show ?thesis
    by (auto simp: s dom_update session_view_def fun_eq_iff)
qed

section \<open>Sequences of operations\<close>

datatype session_op = Preload "str list" file_load_scope | DeleteFile str | ClearFiles | UpsertFile str file_state

definition session_step :: "('t \<Rightarrow> json option) \<Rightarrow> session_op \<Rightarrow> 't session \<Rightarrow> 't session option" where
  "session_step parse op s =
    (case op of
       Preload paths scope \<Rightarrow> preload parse paths scope s
     | DeleteFile path \<Rightarrow> Some (delete_file path s)
     | ClearFiles \<Rightarrow> Some (clear_files s)
     | UpsertFile path f \<Rightarrow> Some (upsert_file path f s))"

fun session_run :: "('t \<Rightarrow> json option) \<Rightarrow> session_op list \<Rightarrow> 't session \<Rightarrow> 't session option" where
  "session_run parse [] s = Some s"
| "session_run parse (op # ops) s = Option.bind (session_step parse op s) (session_run parse ops)"

text \<open>The plain map the operations are about.\<close>

definition plain_step :: "session_op \<Rightarrow> (str \<Rightarrow> file_value option) \<Rightarrow> str \<Rightarrow> file_value option" where
  "plain_step op m =
    (case op of
       Preload _ _ \<Rightarrow> m
     | DeleteFile path \<Rightarrow> m(path := None)
     | ClearFiles \<Rightarrow> (\<lambda>_. None)
     | UpsertFile path f \<Rightarrow> m(path \<mapsto> file_value f))"

definition valid_op :: "session_op \<Rightarrow> bool" where
  "valid_op op = (case op of UpsertFile _ f \<Rightarrow> valid_file f | _ \<Rightarrow> True)"

lemma view_of_look: "session_view parse s = map_option file_value \<circ> session_look parse s"
  by (simp add: session_view_def fun_eq_iff)

lemma session_step_ok:
  assumes "session_ok parse s" "valid_op op"
  shows "\<exists>s'. session_step parse op s = Some s' \<and> session_ok parse s'
    \<and> session_view parse s' = plain_step op (session_view parse s)"
proof (cases op)
  case (Preload paths scope)
  then show ?thesis using preload_ok [OF assms(1), of paths scope]
    by (auto simp: session_step_def plain_step_def view_of_look)
next
  case (DeleteFile path)
  then show ?thesis using delete_file_ok [OF assms(1), of path]
    by (simp add: session_step_def plain_step_def view_of_look fun_eq_iff)
next
  case ClearFiles
  then show ?thesis using clear_files_ok [OF assms(1)]
    by (simp add: session_step_def plain_step_def view_of_look fun_eq_iff)
next
  case (UpsertFile path f)
  then show ?thesis using upsert_file_ok [OF assms(1), of f path] assms(2)
    by (simp add: session_step_def plain_step_def valid_op_def)
qed

lemma session_run_ok:
  assumes "session_ok parse s" "list_all valid_op ops"
  shows "\<exists>s'. session_run parse ops s = Some s' \<and> session_ok parse s'
    \<and> session_view parse s' = fold plain_step ops (session_view parse s)"
  using assms
proof (induction ops arbitrary: s)
  case (Cons op ops)
  obtain s1 where s1: "session_step parse op s = Some s1" "session_ok parse s1"
    "session_view parse s1 = plain_step op (session_view parse s)"
    using session_step_ok [OF Cons.prems(1), of op] Cons.prems(2) by auto
  show ?case using Cons.IH [OF s1(2)] Cons.prems(2) by (simp add: s1)
qed simp

lemma session_queries:
  assumes ok: "session_ok parse s"
  shows "session_contains s p \<longleftrightarrow> session_view parse s p \<noteq> None"
    and "\<exists>ks. session_file_keys s = Some ks \<and> distinct ks \<and> set ks = dom (session_view parse s)"
    and "session_has_files s = Some (session_view parse s \<noteq> Map.empty)"
    and "session_file s p = Some x \<Longrightarrow> map_option file_value x = session_view parse s p"
proof -
  let ?d = "se_delta s"
  have dom: "session_view parse s q \<noteq> None \<longleftrightarrow> session_look parse s q \<noteq> None" for q
    by (simp add: session_view_def)
  show "session_contains s p \<longleftrightarrow> session_view parse s p \<noteq> None"
  proof (cases "map_of (se_loaded s) p")
    case None
    then have "session_look parse s p =
        (if cd_clear_files ?d then None else files_of parse (se_backend s) p)"
      using untouched_look [OF ok] by (simp add: map_of_key)
    then show ?thesis unfolding dom
      using None store.contains_files [OF session_okD(1) [OF ok], of p] by (simp add: session_contains_def)
  next
    case (Some x)
    then show ?thesis unfolding dom using session_loadedD [OF ok Some] by (simp add: session_contains_def)
  qed
  obtain ks where ks: "file_keys (se_backend s) = Some ks"
    "\<forall>q. q \<in> set (filter (\<lambda>k. k \<notin> set (cd_deletes ?d)) (if cd_clear_files ?d then [] else ks))
        \<union> fst ` set (cd_upserts ?d) \<longleftrightarrow> session_look parse s q \<noteq> None"
    using store.overlay_keys [OF session_okD(1) [OF ok]] unfolding session_look_def by blast
  have "q \<in> set (filter (\<lambda>k. k \<notin> set (cd_deletes ?d)) (if cd_clear_files ?d then [] else ks))
      \<union> fst ` set (cd_upserts ?d) \<longleftrightarrow> q \<in> dom (session_view parse s)" for q
    using spec [OF ks(2), of q] dom [of q] by (simp only: dom_def mem_Collect_eq)
  then have "set (filter (\<lambda>k. k \<notin> set (cd_deletes ?d)) (if cd_clear_files ?d then [] else ks))
      \<union> fst ` set (cd_upserts ?d) = dom (session_view parse s)"
    by (rule set_eqI)
  then show "\<exists>ks. session_file_keys s = Some ks \<and> distinct ks \<and> set ks = dom (session_view parse s)"
    using ks(1) by (cases "cd_clear_files ?d") (simp_all add: session_file_keys_def)
  have clear: "cd_clear_files ?d \<longrightarrow> cd_deletes ?d = []" using session_okD(2) [OF ok] by (simp add: delta_ok_def)
  obtain r where r: "has_files_excluding (se_backend s) (cd_deletes ?d) = Some r"
    "cd_upserts ?d \<noteq> [] \<or> \<not> cd_clear_files ?d \<and> r \<longleftrightarrow> (\<exists>q. session_look parse s q \<noteq> None)"
    using store.overlay_has [OF session_okD(1) [OF ok] clear, of "cd_upserts ?d"]
    by (elim exE conjE) (rule that, simp_all only: session_look_def)
  have "(\<exists>q. session_look parse s q \<noteq> None) \<longleftrightarrow> session_view parse s \<noteq> Map.empty"
    using dom by (auto simp: fun_eq_iff)
  then show "session_has_files s = Some (session_view parse s \<noteq> Map.empty)"
    using r by (auto simp: session_has_files_def)
  show "map_option file_value x = session_view parse s p" if "session_file s p = Some x"
    using session_loadedD [OF ok, of p x] that by (simp add: session_file_def session_view_def)
qed

lemma session_open_ok:
  assumes "backend_ok parse (Sqlite v t)" "session_open bytes parse ps cs None (Sqlite v t) = Some s"
  shows "session_ok parse s \<and> session_view parse s = map_option file_value \<circ> files_of parse (Sqlite v t)"
proof -
  obtain h where h: "reader_header bytes parse ps cs (Sqlite v t) = Some h"
    "se_backend s = Sqlite v t" "se_loaded s = []" "se_delta s = delta_default"
    "se_original_next_doc_id s = of_nat (ch_next_doc_id h)"
    using assms(2) by (auto simp: session_open_def bind_eq_Some_conv)
  then have "parse_next_id (ct_next_doc_id t) = Some (ch_next_doc_id h)"
    by (auto simp: reader_header_def bind_eq_Some_conv split: option.splits)
  then have id: "ct_next_doc_id t = decimal (ch_next_doc_id h)" "ch_next_doc_id h < 2 ^ 64"
    using parse_next_id_decimal by blast+
  have "session_ok parse s"
    using assms(1) id by (simp add: session_ok_def h stores_id_def delta_ok_def delta_default_def take_bit_nat_eq_self unat_of_nat)
  then show ?thesis
    by (simp add: view_of_look session_look_def h delta_default_def store.overlay_def fun_eq_iff)
qed

lemma run_from_open:
  assumes "backend_ok parse (Sqlite v t)" "session_open bytes parse ps cs None (Sqlite v t) = Some s0"
    and "list_all valid_op ops"
  shows "\<exists>s. session_run parse ops s0 = Some s \<and> session_ok parse s
    \<and> session_view parse s = fold plain_step ops (map_option file_value \<circ> files_of parse (Sqlite v t))"
  using session_open_ok [OF assms(1,2)] session_run_ok [of parse s0 ops] assms(3) by auto

text \<open>
  C15: From an open checkpoint, every sequence of preloads, deletions, clearings and upserts succeeds
  and is one on a plain map of file states: the session contains exactly the paths of that map, lists
  them once each, knows whether there are any, and a preloaded path gives the map's value.
\<close>

theorem session_refines_map:
  assumes "backend_ok parse (Sqlite v t)" "session_open bytes parse ps cs None (Sqlite v t) = Some s0"
    and "list_all valid_op ops"
  shows "\<exists>s. session_run parse ops s0 = Some s
    \<and> (let m = fold plain_step ops (map_option file_value \<circ> files_of parse (Sqlite v t))
       in (\<forall>p. session_contains s p \<longleftrightarrow> p \<in> dom m)
        \<and> (\<exists>ks. session_file_keys s = Some ks \<and> distinct ks \<and> set ks = dom m)
        \<and> session_has_files s = Some (m \<noteq> Map.empty)
        \<and> (\<forall>p scope. \<exists>s' x. preload parse [p] scope s = Some s' \<and> session_file s' p = Some x
             \<and> map_option file_value x = m p))"
proof -
  obtain s where s: "session_run parse ops s0 = Some s" "session_ok parse s"
    "session_view parse s = fold plain_step ops (map_option file_value \<circ> files_of parse (Sqlite v t))"
    using run_from_open [OF assms] by blast
  have "\<exists>s' x. preload parse [p] scope s = Some s' \<and> session_file s' p = Some x
      \<and> map_option file_value x = session_view parse s p" for p scope
  proof -
    obtain s' where s': "preload parse [p] scope s = Some s'" "session_ok parse s'"
      "session_look parse s' = session_look parse s" "p \<in> fst ` set (se_loaded s')"
      using preload_ok [OF s(2), of "[p]" scope] by auto
    then obtain x where x: "session_file s' p = Some x" by (auto simp: session_file_def map_of_key)
    then show ?thesis using session_queries(4) [OF s'(2) x] s'(1,3) by (auto simp: session_view_def)
  qed
  moreover have "session_contains s p \<longleftrightarrow> p \<in> dom (session_view parse s)" for p
    using session_queries(1) [OF s(2)] by (simp add: domIff)
  ultimately show ?thesis
    unfolding Let_def s(3) [symmetric] using session_queries(2,3) [OF s(2)] s(1)
    by - (rule exI [of _ s], intro conjI allI)
qed

lemma session_refines_map_witness:
  "\<exists>s. session_run Some [UpsertFile ''/a'' sample_file, DeleteFile ''/a'', UpsertFile ''/b'' sample_file]
      (the (session_open (\<lambda>_. 0) Some None None None
        (Sqlite 2 \<lparr>ct_files = [], ct_next_doc_id = ''7'', ct_databases = JObj [], ct_legacy_extras = JObj [],
          ct_pending = None, ct_scan_cache = None, ct_directories = [], ct_journal = []\<rparr>))) = Some s
    \<and> session_contains s ''/b'' \<and> \<not> session_contains s ''/a''"
proof -
  let ?t = "\<lparr>ct_files = [], ct_next_doc_id = ''7'', ct_databases = JObj [], ct_legacy_extras = JObj [],
      ct_pending = None, ct_scan_cache = None, ct_directories = [], ct_journal = []\<rparr> :: json ckpt_tables"
  let ?ops = "[UpsertFile ''/a'' sample_file, DeleteFile ''/a'', UpsertFile ''/b'' sample_file]"
  have ok: "backend_ok Some (Sqlite 2 ?t)" by (simp add: backend_ok_def)
  have "digit_char 7 = CHR ''7''" by code_simp
  then have id: "parse_next_id ''7'' = Some 7" by (simp add: parse_next_id_decimal decimal.simps [of 7])
  have "\<exists>s0. session_open (\<lambda>_. 0) Some None None None (Sqlite 2 ?t) = Some s0"
    using id by (simp add: session_open_def reader_header_def databases_of_def entries_json_def as_object_def
        export_pending_json_def pending_document_def)
  then obtain s0 where s0: "session_open (\<lambda>_. 0) Some None None None (Sqlite 2 ?t) = Some s0" by blast
  have ops: "list_all valid_op ?ops" by (simp add: valid_op_def sample_valid)
  show ?thesis
    using session_refines_map [OF ok s0 ops] unfolding s0 option.sel Let_def
    by (elim exE conjE, intro exI conjI) (assumption, simp_all add: plain_step_def domIff)
qed

section \<open>Committing\<close>

lemma commit_delta_id:
  assumes "commit_delta bytes parse render d b = Some (changed, b')" "stores_id b n"
  shows "stores_id b' (unwrap_or n (cd_next_doc_id d))"
proof (cases "delta_is_empty d")
  case True
  then have "b' = b" "cd_next_doc_id d = None" using assms(1) by (simp_all add: commit_delta_def delta_is_empty_def)
  then show ?thesis using assms(2) by (simp add: unwrap_or_def)
next
  case False
  obtain v t where b: "b = Sqlite v t" "ct_next_doc_id t = decimal (unat n)"
    using assms(2) by (auto simp: stores_id_def split: backend.splits)
  have keep: "ct_next_doc_id t2 = ct_next_doc_id t1" if "replace_pending parse render c t1 = Some t2" for c t1 t2
    using that by (auto simp: replace_pending_def split: pending_change.splits)
  show ?thesis using assms(1) False b(2)
    by (auto simp: b commit_delta_def stores_id_def bind_eq_Some_conv unwrap_or_def dest!: keep split: option.splits)
qed

lemma final_delta_simps [simp]:
  "cd_upserts (final_delta cache pending s) = cd_upserts (se_delta s)"
  "cd_deletes (final_delta cache pending s) = cd_deletes (se_delta s)"
  "cd_clear_files (final_delta cache pending s) = cd_clear_files (se_delta s)"
  "cd_pending (final_delta cache pending s) = pending"
  by (simp_all add: final_delta_def)

lemma hash_map_eq_refl: "(\<And>x. eq x x) \<Longrightarrow> hash_map_eq eq a a"
  by (simp add: hash_map_eq_def list_all_iff split: option.splits)

lemma database_eq_refl: "database_eq d d"
  by (simp add: database_eq_def hash_map_eq_iff)

lemma session_sqlite: "session_ok parse s \<Longrightarrow> \<exists>v t. se_backend s = Sqlite v t"
  by (auto simp: session_ok_def stores_id_def split: backend.splits)

lemma commit_final_ok:
  assumes law: "parses_back parse render" and ok: "session_ok parse s"
    and c: "commit_final bytes parse render cache pending s = Some (changed, s')"
  shows "session_ok parse s' \<and> session_look parse s' = session_look parse s
    \<and> files_of parse (se_backend s') = session_look parse s
    \<and> stores_id (se_backend s') (se_next_doc_id s)
    \<and> (changed \<longleftrightarrow> \<not> delta_is_empty (final_delta cache pending s))"
proof -
  obtain v t where b: "se_backend s = Sqlite v t" using session_sqlite [OF ok] by blast
  obtain b' where b': "commit_delta bytes parse render (final_delta cache pending s) (Sqlite v t) = Some (changed, b')"
    "se_backend s' = b'" "se_delta s' = delta_default" "se_loaded s' = se_loaded s"
    "se_original_next_doc_id s' = se_next_doc_id s"
    using c by (auto simp: commit_final_def b bind_eq_Some_conv)
  have d: "distinct (map fst (cd_upserts (final_delta cache pending s)))"
    "\<forall>f \<in> snd ` set (cd_upserts (final_delta cache pending s)). valid_file f"
    using session_okD(2) [OF ok] by (simp_all add: delta_ok_def)
  have store: "backend_ok parse b'" "files_of parse b' = session_look parse s"
    "changed \<longleftrightarrow> \<not> delta_is_empty (final_delta cache pending s)"
    using commit_delta_files [OF law d _ b'(1)] session_okD(1) [OF ok]
    by (simp_all add: b session_look_def)
  have id0: "stores_id (Sqlite v t) (se_original_next_doc_id s)" using ok by (simp add: session_ok_def b)
  have id: "stores_id b' (se_next_doc_id s)"
    using commit_delta_id [OF b'(1) id0] by (auto simp: final_delta_def unwrap_or_def split: if_splits)
  have look: "session_look parse s' = session_look parse s"
    unfolding store(2) [symmetric] by (simp add: session_look_def b' delta_default_def store.overlay_def fun_eq_iff)
  have "\<forall>p x. map_of (se_loaded s') p = Some x \<longrightarrow> x = session_look parse s' p"
    using session_loadedD [OF ok] by (simp add: b'(4) look)
  then have "session_ok parse s'"
    using store(1) id unfolding session_ok_def by (simp add: b' delta_ok_def delta_default_def)
  then show ?thesis using look store(2,3) id by (simp add: b'(2))
qed

lemma commit_final_again:
  assumes "commit_final bytes parse render cache pending s = Some (changed, s')"
  shows "commit_final bytes parse render None Keep s' = Some (False, s')"
proof -
  obtain b' where s': "se_delta s' = delta_default" "se_directory_stamps s' = None" "se_journal_cursor s' = None"
    "se_original_next_doc_id s' = se_next_doc_id s'" "se_original_opencode_databases s' = se_opencode_databases s'"
    using assms by (auto simp: commit_final_def bind_eq_Some_conv)
  have "delta_is_empty (final_delta None Keep s')"
    using hash_map_eq_refl [of database_eq, OF database_eq_refl]
    by (simp add: delta_is_empty_def final_delta_def s' delta_default_def is_none_or_def)
  then show ?thesis
    using s' by (simp add: commit_final_def commit_delta_def unwrap_or_def)
qed

text \<open>
  C16: Committing a session stores exactly the map it stands for, and the next document id it reached;
  the session still stands for that map, reports a change exactly when its delta had one, and committing
  again writes nothing. The commit cannot fail when the OpenCode cursors and the pending marker are
  not rewritten. The stored text of a value is relied on to parse to that value.
\<close>

theorem commit_final_publishes:
  assumes "parses_back parse render" "session_ok parse s"
  shows "(case commit_final bytes parse render cache pending s of
      None \<Rightarrow> (\<exists>p. pending = Replace p)
        \<or> \<not> hash_map_eq database_eq (se_opencode_databases s) (se_original_opencode_databases s)
    | Some (changed, s') \<Rightarrow>
        map_option file_value \<circ> files_of parse (se_backend s') = session_view parse s
        \<and> session_view parse s' = session_view parse s \<and> session_ok parse s'
        \<and> stores_id (se_backend s') (se_next_doc_id s)
        \<and> (changed \<longleftrightarrow> \<not> delta_is_empty (final_delta cache pending s))
        \<and> commit_final bytes parse render None Keep s' = Some (False, s'))"
proof (cases "commit_final bytes parse render cache pending s")
  case None
  obtain v t where b: "se_backend s = Sqlite v t" using session_sqlite [OF assms(2)] by blast
  have d: "distinct (map fst (cd_upserts (final_delta cache pending s)))"
    "\<forall>f \<in> snd ` set (cd_upserts (final_delta cache pending s)). valid_file f"
    using session_okD(2) [OF assms(2)] by (simp_all add: delta_ok_def)
  have "commit_delta bytes parse render (final_delta cache pending s) (Sqlite v t) = None"
    using None by (auto simp: commit_final_def b Option.bind_eq_None_conv split: prod.splits)
  then have "\<not> (cd_opencode_databases (final_delta cache pending s) = None \<and> pending \<in> {Keep, Clear})"
    using commit_delta_total [OF assms(1) d, of v t bytes] session_okD(1) [OF assms(2)] by (auto simp: b)
  then show ?thesis using None
    by (cases pending) (auto simp: final_delta_def split: if_splits)
next
  case (Some r)
  obtain changed s' where r: "r = (changed, s')" by (cases r)
  show ?thesis
    using commit_final_ok [OF assms Some [unfolded r]] commit_final_again [OF Some [unfolded r]]
    by (simp add: Some r view_of_look)
qed

lemma commit_final_publishes_witness:
  "\<exists>changed s'. commit_final (\<lambda>_. 0) Some (\<lambda>v. v) None Keep
      (upsert_file ''/b'' sample_file \<lparr>se_backend = Sqlite 2 \<lparr>ct_files = [], ct_next_doc_id = decimal 7,
          ct_databases = JObj [], ct_legacy_extras = JObj [], ct_pending = None, ct_scan_cache = None,
          ct_directories = [], ct_journal = []\<rparr>,
        se_loaded = [], se_delta = delta_default, se_original_next_doc_id = 7,
        se_original_opencode_databases = [], se_next_doc_id = 9, se_opencode_databases = [],
        se_pending = None, se_scan_cache = scan_cache_default, se_directory_stamps = None,
        se_journal_cursor = None\<rparr>) = Some (changed, s')
    \<and> map_option file_value (files_of Some (se_backend s') ''/b'') = Some (file_value sample_file)"
proof -
  let ?t = "\<lparr>ct_files = [], ct_next_doc_id = decimal 7, ct_databases = JObj [], ct_legacy_extras = JObj [],
      ct_pending = None, ct_scan_cache = None, ct_directories = [], ct_journal = []\<rparr> :: json ckpt_tables"
  let ?s = "\<lparr>se_backend = Sqlite 2 ?t, se_loaded = [], se_delta = delta_default, se_original_next_doc_id = 7,
      se_original_opencode_databases = [], se_next_doc_id = 9, se_opencode_databases = [],
      se_pending = None, se_scan_cache = scan_cache_default, se_directory_stamps = None,
      se_journal_cursor = None\<rparr> :: json session"
  let ?u = "upsert_file ''/b'' sample_file ?s"
  have "session_ok Some ?s"
    by (simp add: session_ok_def stores_id_def backend_ok_def delta_ok_def delta_default_def)
  then have ok: "session_ok Some ?u" "session_view Some ?u ''/b'' = Some (file_value sample_file)"
    using upsert_file_ok [of Some ?s sample_file "''/b''"] sample_valid(1) by simp_all
  have dbs: "se_opencode_databases ?u = []" "se_original_opencode_databases ?u = []"
    by (simp_all add: upsert_file_def Let_def)
  have law: "parses_back Some (\<lambda>v. v)" by (simp add: parses_back_def)
  have published: "case commit_final (\<lambda>_. 0) Some (\<lambda>v. v) None Keep ?u of
      None \<Rightarrow> False
    | Some (changed, s') \<Rightarrow> map_option file_value \<circ> files_of Some (se_backend s') = session_view Some ?u"
    using commit_final_publishes [OF law ok(1), where bytes = "\<lambda>_. 0" and cache = None and pending = Keep]
    by (auto simp: dbs hash_map_eq_def split: option.splits)
  then obtain changed s' where c: "commit_final (\<lambda>_. 0) Some (\<lambda>v. v) None Keep ?u = Some (changed, s')"
    "map_option file_value \<circ> files_of Some (se_backend s') = session_view Some ?u"
    by (auto split: option.splits)
  show ?thesis
    using c(1) fun_cong [OF c(2), of "''/b''"] ok(2) by auto
qed

end
