(* ===== verification/WebAuth.thy ===== *)
theory WebAuth
  imports Prelude
begin

text \<open>
  The web server's credentials, \<open>src/web_auth.rs\<close>: bootstrap tokens that carry an expiry and a MAC and
  can be exchanged once, sessions kept by the digest of their secret, and the access token. Base64, the
  digest, the MAC, the random bytes and the two clocks are parameters. A handler is a function of the
  state; the requests a server answers, in any order, are the runs of a step relation.
\<close>

section \<open>State and primitives\<close>

text \<open>Byte strings are strings. The primitives are those of the crates \<open>base64\<close>, \<open>sha2\<close> and \<open>hmac\<close>.\<close>

record crypto =
  cr_encode :: "str \<Rightarrow> str"
  cr_decode :: "str \<Rightarrow> str option"
  cr_digest :: "str \<Rightarrow> str"
  cr_mac :: "str \<Rightarrow> str \<Rightarrow> str"

datatype auth_error = ClockOverflow | BeforeEpoch | NoRandomness | InvalidToken | ExpiredToken | UsedToken

definition access_token_bytes :: nat where "access_token_bytes = 32"
definition bootstrap_nonce_bytes :: nat where "bootstrap_nonce_bytes = 16"
definition bootstrap_payload_bytes :: nat where "bootstrap_payload_bytes = 8 + bootstrap_nonce_bytes"
definition bootstrap_token_bytes :: nat where "bootstrap_token_bytes = bootstrap_payload_bytes + 32"

text \<open>Seconds of the system clock, nanoseconds of the monotonic one.\<close>

definition bootstrap_ttl :: nat where "bootstrap_ttl = 10 * 60"
definition session_ttl :: nat where "session_ttl = 12 * 60 * 60 * 10 ^ 9"

lemmas web_constants = access_token_bytes_def bootstrap_nonce_bytes_def bootstrap_payload_bytes_def
  bootstrap_token_bytes_def bootstrap_ttl_def

text \<open>The maps are keyed by digests: sessions by the instant they were made at, used tokens by their
  expiry.\<close>

record web_auth =
  wa_secret :: str
  wa_sessions :: "(str \<times> nat) list"
  wa_used :: "(str \<times> u64) list"

definition auth_new :: "str \<Rightarrow> web_auth" where
  "auth_new secret = \<lparr>wa_secret = secret, wa_sessions = [], wa_used = []\<rparr>"

text \<open>\<open>u64::to_be_bytes\<close> and \<open>from_be_bytes\<close>.\<close>

definition be_bytes :: "u64 \<Rightarrow> str" where
  "be_bytes w = rev (le_bytes 8 (unat w))"

definition of_be_bytes :: "str \<Rightarrow> u64" where
  "of_be_bytes bs = of_nat (foldl (\<lambda>n c. n * 256 + of_char c) 0 bs)"

text \<open>\<open>SystemTime\<close> in whole seconds since the epoch, negative before it; \<open>as_secs\<close> rounds down.\<close>

definition clock_limit :: int where "clock_limit = 2 ^ 63"

definition epoch_seconds :: "int \<Rightarrow> auth_error + u64" where
  "epoch_seconds clock = (if clock < 0 then Inl BeforeEpoch else Inr (of_nat (nat clock)))"

section \<open>Handlers\<close>

definition create_bootstrap_token ::
    "crypto \<Rightarrow> web_auth \<Rightarrow> int \<Rightarrow> str option \<Rightarrow> auth_error + str" where
  "create_bootstrap_token c s clock nonce =
    (if clock_limit \<le> clock + int bootstrap_ttl then Inl ClockOverflow
     else case epoch_seconds (clock + int bootstrap_ttl) of
       Inl e \<Rightarrow> Inl e
     | Inr expires_at \<Rightarrow> (case nonce of
         None \<Rightarrow> Inl NoRandomness
       | Some nonce \<Rightarrow>
           let payload = be_bytes expires_at @ nonce;
               signature = cr_mac c (wa_secret s) payload
           in Inr (cr_encode c (payload @ signature))))"

definition token_of :: "crypto \<Rightarrow> str \<Rightarrow> str option" where
  "token_of c encoded =
    (case cr_decode c encoded of
       None \<Rightarrow> None
     | Some token \<Rightarrow> if length token = bootstrap_token_bytes then Some token else None)"

definition token_payload :: "str \<Rightarrow> str" where
  "token_payload token = take bootstrap_payload_bytes token"

definition token_expiry :: "str \<Rightarrow> u64" where
  "token_expiry token = of_be_bytes (take 8 (token_payload token))"

definition signed_token :: "crypto \<Rightarrow> str \<Rightarrow> str \<Rightarrow> bool" where
  "signed_token c secret token =
    (drop bootstrap_payload_bytes token = cr_mac c secret (token_payload token))"

definition retain_used :: "u64 \<Rightarrow> (str \<times> u64) list \<Rightarrow> (str \<times> u64) list" where
  "retain_used now used = filter (\<lambda>(_, expiry). now \<le> expiry) used"

text \<open>The checks, which read the clock before the used map is locked, and the part under the lock. The
  used map is changed by every token that passes the checks, the refused second use included; the
  session's random bytes are drawn last.\<close>

definition exchange_check :: "crypto \<Rightarrow> str \<Rightarrow> int \<Rightarrow> str \<Rightarrow> auth_error + (str \<times> u64)" where
  "exchange_check c secret clock encoded =
    (case token_of c encoded of
       None \<Rightarrow> Inl InvalidToken
     | Some token \<Rightarrow>
         if \<not> signed_token c secret token then Inl InvalidToken
         else case epoch_seconds clock of
           Inl e \<Rightarrow> Inl e
         | Inr now \<Rightarrow>
             if token_expiry token < now \<or> sat_add now (of_nat bootstrap_ttl) < token_expiry token
             then Inl ExpiredToken
             else Inr (token, now))"

definition exchange_commit ::
    "crypto \<Rightarrow> str \<Rightarrow> u64 \<Rightarrow> nat \<Rightarrow> str option \<Rightarrow> web_auth \<Rightarrow> (auth_error + str) \<times> web_auth" where
  "exchange_commit c token now instant random s =
    (let fingerprint = cr_digest c token;
         used = retain_used now (wa_used s);
         s' = s\<lparr>wa_used := AList.update fingerprint (token_expiry token) used\<rparr>
     in if map_of used fingerprint \<noteq> None then (Inl UsedToken, s')
        else case random of
          None \<Rightarrow> (Inl NoRandomness, s')
        | Some session \<Rightarrow>
            (Inr (cr_encode c session),
             s'\<lparr>wa_sessions := AList.update (cr_digest c session) instant (wa_sessions s')\<rparr>))"

definition exchange_bootstrap_token ::
    "crypto \<Rightarrow> int \<Rightarrow> nat \<Rightarrow> str option \<Rightarrow> str \<Rightarrow> web_auth \<Rightarrow> (auth_error + str) \<times> web_auth" where
  "exchange_bootstrap_token c clock instant random encoded s =
    (case exchange_check c (wa_secret s) clock encoded of
       Inl e \<Rightarrow> (Inl e, s)
     | Inr (token, now) \<Rightarrow> exchange_commit c token now instant random s)"

lemmas exchange_defs = exchange_bootstrap_token_def exchange_check_def exchange_commit_def

definition access_bytes :: "crypto \<Rightarrow> str \<Rightarrow> str option" where
  "access_bytes c encoded =
    (case cr_decode c encoded of
       None \<Rightarrow> None
     | Some bytes \<Rightarrow> if length bytes = access_token_bytes then Some bytes else None)"

definition authorize_bearer :: "crypto \<Rightarrow> web_auth \<Rightarrow> str \<Rightarrow> bool" where
  "authorize_bearer c s encoded =
    (case access_bytes c encoded of None \<Rightarrow> False | Some candidate \<Rightarrow> wa_secret s = candidate)"

text \<open>\<open>duration_since\<close> saturates at zero.\<close>

definition authorize_session :: "crypto \<Rightarrow> nat \<Rightarrow> str \<Rightarrow> web_auth \<Rightarrow> bool \<times> web_auth" where
  "authorize_session c now encoded s =
    (case access_bytes c encoded of
       None \<Rightarrow> (False, s)
     | Some session \<Rightarrow>
         let sessions = filter (\<lambda>(_, created_at). now - created_at \<le> session_ttl) (wa_sessions s)
         in (map_of sessions (cr_digest c session) \<noteq> None, s\<lparr>wa_sessions := sessions\<rparr>))"

section \<open>Runs\<close>

text \<open>What one request did: the clocks it read, what it presented, what it got.\<close>

datatype auth_event =
    Created int "auth_error + str"
  | Exchanged int nat str "auth_error + str"
  | SessionChecked nat str bool
  | BearerChecked str bool

inductive auth_step :: "crypto \<Rightarrow> web_auth \<Rightarrow> auth_event \<Rightarrow> web_auth \<Rightarrow> bool" for c where
  create: "auth_step c s (Created clock (create_bootstrap_token c s clock nonce)) s"
| exchange: "exchange_bootstrap_token c clock instant random encoded s = (r, s') \<Longrightarrow>
    auth_step c s (Exchanged clock instant encoded r) s'"
| check_session: "authorize_session c now encoded s = (r, s') \<Longrightarrow>
    auth_step c s (SessionChecked now encoded r) s'"
| check_bearer: "auth_step c s (BearerChecked encoded (authorize_bearer c s encoded)) s"

inductive_cases exchangeE: "auth_step c s (Exchanged clock instant encoded r) s'"
inductive_cases check_sessionE: "auth_step c s (SessionChecked now encoded r) s'"
inductive_cases quietE: "auth_step c s (Created clock r) s'" "auth_step c s (BearerChecked encoded r) s'"

inductive auth_run :: "crypto \<Rightarrow> str \<Rightarrow> auth_event list \<Rightarrow> web_auth \<Rightarrow> bool" for c secret where
  start: "auth_run c secret [] (auth_new secret)"
| step: "auth_run c secret tr s \<Longrightarrow> auth_step c s e s' \<Longrightarrow> auth_run c secret (tr @ [e]) s'"

section \<open>Single use\<close>

definition presented :: "crypto \<Rightarrow> auth_event list \<Rightarrow> str list" where
  "presented c = List.map_filter (\<lambda>e. case e of Exchanged _ _ encoded _ \<Rightarrow> token_of c encoded | _ \<Rightarrow> None)"

text \<open>The tokens that were exchanged for a session.\<close>

definition spent :: "crypto \<Rightarrow> auth_event list \<Rightarrow> str list" where
  "spent c = List.map_filter (\<lambda>e. case e of Exchanged _ _ encoded (Inr _) \<Rightarrow> token_of c encoded | _ \<Rightarrow> None)"

definition exchange_clocks :: "auth_event list \<Rightarrow> int list" where
  "exchange_clocks = List.map_filter (\<lambda>e. case e of Exchanged clock _ _ _ \<Rightarrow> Some clock | _ \<Rightarrow> None)"

lemma map_filter_snoc: "List.map_filter f (xs @ [x]) = List.map_filter f xs @ (case f x of None \<Rightarrow> [] | Some y \<Rightarrow> [y])"
  by (induction xs) (simp_all add: map_filter_simps split: option.splits)

lemma trace_snoc:
  "presented c (tr @ [e]) = presented c tr @ presented c [e]"
  "spent c (tr @ [e]) = spent c tr @ spent c [e]"
  "exchange_clocks (tr @ [e]) = exchange_clocks tr @ exchange_clocks [e]"
  unfolding presented_def spent_def exchange_clocks_def
  by (simp_all add: map_filter_snoc map_filter_simps split: option.splits)

lemma trace_single [simp]:
  "presented c [Created i r] = []" "presented c [SessionChecked n x b] = []" "presented c [BearerChecked x b] = []"
  "presented c [Exchanged i n x r] = (case token_of c x of None \<Rightarrow> [] | Some t \<Rightarrow> [t])"
  "spent c [Created i r] = []" "spent c [SessionChecked n x b] = []" "spent c [BearerChecked x b] = []"
  "spent c [Exchanged i n x (Inl err)] = []"
  "spent c [Exchanged i n x (Inr ok)] = (case token_of c x of None \<Rightarrow> [] | Some t \<Rightarrow> [t])"
  "exchange_clocks [Created i r] = []" "exchange_clocks [SessionChecked n x b] = []"
  "exchange_clocks [BearerChecked x b] = []" "exchange_clocks [Exchanged i n x r] = [i]"
  by (simp_all add: presented_def spent_def exchange_clocks_def map_filter_simps split: option.splits)

lemma unat_epoch: "0 \<le> clock \<Longrightarrow> clock < clock_limit \<Longrightarrow> unat (of_nat (nat clock) :: u64) = nat clock"
proof -
  assume "0 \<le> clock" "clock < clock_limit"
  then have "nat clock < 2 ^ 64" by (simp add: clock_limit_def)
  then show ?thesis by (simp only: unat_of_nat) (simp add: take_bit_nat_eq_self)
qed

text \<open>What an exchange that reached the used map did.\<close>

lemma exchange_cases:
  assumes "exchange_bootstrap_token c clock instant random encoded s = (r, s')"
  shows "(s' = s \<and> (\<exists>e. r = Inl e)) \<or>
    (\<exists>token. token_of c encoded = Some token \<and> signed_token c (wa_secret s) token \<and> 0 \<le> clock
      \<and> of_nat (nat clock) \<le> token_expiry token
      \<and> token_expiry token \<le> sat_add (of_nat (nat clock)) (of_nat bootstrap_ttl)
      \<and> wa_used s' = AList.update (cr_digest c token) (token_expiry token) (retain_used (of_nat (nat clock)) (wa_used s))
      \<and> (\<forall>x. r = Inr x \<longrightarrow> map_of (retain_used (of_nat (nat clock)) (wa_used s)) (cr_digest c token) = None
           \<and> (\<exists>session. random = Some session \<and> x = cr_encode c session
             \<and> wa_sessions s' = AList.update (cr_digest c session) instant (wa_sessions s)))
      \<and> ((\<exists>e. r = Inl e) \<longrightarrow> wa_sessions s' = wa_sessions s) \<and> wa_secret s' = wa_secret s)"
  using assms
  by (auto simp: exchange_defs epoch_seconds_def Let_def not_less split: option.splits if_splits sum.splits)

definition spent_inv :: "crypto \<Rightarrow> auth_event list \<Rightarrow> web_auth \<Rightarrow> bool" where
  "spent_inv c tr s \<longleftrightarrow> distinct (spent c tr) \<and> set (spent c tr) \<subseteq> set (presented c tr)
    \<and> (\<forall>token \<in> set (spent c tr). \<forall>now. (\<forall>t \<in> set (exchange_clocks tr). t \<le> now) \<longrightarrow>
         nat now \<le> unat (token_expiry token) \<longrightarrow>
         map_of (wa_used s) (cr_digest c token) = Some (token_expiry token))"

lemma spent_inv_exchange:
  assumes ih: "spent_inv c tr s" and step: "exchange_bootstrap_token c clock instant random encoded s = (r, s')"
    and past: "\<forall>t \<in> set (exchange_clocks tr). t \<le> clock" and limit: "clock < clock_limit"
    and inj: "inj_on (cr_digest c) (set (presented c (tr @ [Exchanged clock instant encoded r])))"
  shows "spent_inv c (tr @ [Exchanged clock instant encoded r]) s'"
  using exchange_cases [OF step]
proof (elim disjE exE conjE)
  fix e assume "s' = s" "r = Inl e"
  then show ?thesis using ih by (auto simp: spent_inv_def trace_snoc)
next
  fix token
  assume tok: "token_of c encoded = Some token" and c0: "0 \<le> clock"
    and fresh: "of_nat (nat clock) \<le> token_expiry token"
    and used: "wa_used s' = AList.update (cr_digest c token) (token_expiry token) (retain_used (of_nat (nat clock)) (wa_used s))"
    and ok: "\<forall>x. r = Inr x \<longrightarrow> map_of (retain_used (of_nat (nat clock)) (wa_used s)) (cr_digest c token) = None
           \<and> (\<exists>session. random = Some session \<and> x = cr_encode c session
             \<and> wa_sessions s' = AList.update (cr_digest c session) instant (wa_sessions s))"
  have now: "unat (of_nat (nat clock) :: u64) = nat clock" using unat_epoch [OF c0 limit] .
  have kept: "map_of (retain_used (of_nat (nat clock)) (wa_used s)) (cr_digest c t) = Some (token_expiry t)"
    if "t \<in> set (spent c tr)" "nat clock \<le> unat (token_expiry t)" for t
    using ih that past
    by (auto simp: spent_inv_def retain_used_def word_le_nat_alt now intro!: map_of_filter_Some)
  have new: "token \<notin> set (spent c tr)" if "r = Inr x" for x
    using kept [of token] ok that fresh by (auto simp: word_le_nat_alt now)
  have later: "map_of (wa_used s') (cr_digest c t) = Some (token_expiry t)"
    if t: "t \<in> set (spent c tr) \<or> t = token" and n: "clock \<le> n" "nat n \<le> unat (token_expiry t)" for t n
  proof (cases "t = token")
    case False
    then have "t \<in> set (spent c tr)" using t by simp
    moreover from this have "cr_digest c t \<noteq> cr_digest c token"
      using inj False ih tok by (auto simp: spent_inv_def trace_snoc inj_on_def)
    moreover have "nat clock \<le> unat (token_expiry t)" using n by linarith
    ultimately show ?thesis using kept [of t] by (simp add: used update_conv')
  qed (simp add: used update_conv')
  show ?thesis
  proof (cases r)
    case (Inl e)
    then show ?thesis using ih later by (auto simp: spent_inv_def trace_snoc tok)
  next
    case (Inr x)
    then show ?thesis using ih later new [OF Inr] by (auto simp: spent_inv_def trace_snoc tok)
  qed
qed

lemma spent_inv_run:
  "auth_run c secret tr s \<Longrightarrow> sorted (exchange_clocks tr) \<Longrightarrow> \<forall>t \<in> set (exchange_clocks tr). t < clock_limit \<Longrightarrow>
    inj_on (cr_digest c) (set (presented c tr)) \<Longrightarrow> spent_inv c tr s"
proof (induction rule: auth_run.induct)
  case start
  then show ?case by (simp add: spent_inv_def spent_def presented_def map_filter_simps)
next
  case (step tr s e s')
  have ih: "spent_inv c tr s"
    using step.IH step.prems by (auto simp: trace_snoc sorted_append intro: inj_on_subset)
  from step.hyps(2) show ?case
  proof cases
    case (exchange clock instant random encoded r)
    show ?thesis unfolding exchange(1)
      by (rule spent_inv_exchange [OF ih exchange(2)])
        (use step.prems exchange in \<open>auto simp: trace_snoc sorted_append\<close>)
  qed (use ih in \<open>auto simp: spent_inv_def trace_snoc authorize_session_def Let_def split: option.splits\<close>)
qed


section \<open>Sessions\<close>

text \<open>The sessions handed out, with the instant and the bytes, and the instants the run read.\<close>

definition issued :: "crypto \<Rightarrow> auth_event list \<Rightarrow> (nat \<times> str) list" where
  "issued c = List.map_filter (\<lambda>e. case e of
     Exchanged _ instant _ (Inr session) \<Rightarrow> map_option (Pair instant) (cr_decode c session) | _ \<Rightarrow> None)"

definition run_instants :: "auth_event list \<Rightarrow> nat list" where
  "run_instants = List.map_filter (\<lambda>e. case e of
     Exchanged _ instant _ _ \<Rightarrow> Some instant | SessionChecked instant _ _ \<Rightarrow> Some instant | _ \<Rightarrow> None)"

lemma session_trace:
  "issued c (tr @ [e]) = issued c tr @ issued c [e]"
  "run_instants (tr @ [e]) = run_instants tr @ run_instants [e]"
  "issued c [Created i r] = []" "issued c [SessionChecked n x b] = []" "issued c [BearerChecked x b] = []"
  "issued c [Exchanged i n x (Inl err)] = []"
  "issued c [Exchanged i n x (Inr y)] = (case cr_decode c y of None \<Rightarrow> [] | Some z \<Rightarrow> [(n, z)])"
  "run_instants [Created i r] = []" "run_instants [SessionChecked n x b] = [n]"
  "run_instants [BearerChecked x b] = []" "run_instants [Exchanged i n x r] = [n]"
  by (simp_all add: issued_def run_instants_def map_filter_snoc map_filter_simps split: option.splits)

text \<open>A session is live at an instant when it was handed out no longer than the time to live before.\<close>

definition live :: "crypto \<Rightarrow> auth_event list \<Rightarrow> nat \<Rightarrow> str \<Rightarrow> bool" where
  "live c tr now digest \<longleftrightarrow> (\<exists>(i, session) \<in> set (issued c tr). cr_digest c session = digest \<and> now - i \<le> session_ttl)"

definition sessions_inv :: "crypto \<Rightarrow> auth_event list \<Rightarrow> web_auth \<Rightarrow> bool" where
  "sessions_inv c tr s \<longleftrightarrow>
    (\<forall>d i. (d, i) \<in> set (wa_sessions s) \<longrightarrow> (\<exists>session. (i, session) \<in> set (issued c tr) \<and> cr_digest c session = d))
    \<and> (\<forall>d now. (\<forall>t \<in> set (run_instants tr). t \<le> now) \<longrightarrow> live c tr now d \<longrightarrow>
        (\<exists>i. map_of (wa_sessions s) d = Some i \<and> now - i \<le> session_ttl))"

lemma sessions_inv_live:
  "sessions_inv c tr s \<Longrightarrow> \<forall>t \<in> set (run_instants tr). t \<le> now \<Longrightarrow> live c tr now d \<Longrightarrow>
    \<exists>i. map_of (wa_sessions s) d = Some i \<and> now - i \<le> session_ttl"
  by (simp add: sessions_inv_def)

lemma issued_instants: "(i, session) \<in> set (issued c tr) \<Longrightarrow> i \<in> set (run_instants tr)"
  by (induction tr)
    (auto simp: issued_def run_instants_def map_filter_simps split: option.splits auth_event.splits sum.splits)

lemma live_snoc_quiet: "issued c [e] = [] \<Longrightarrow> live c (tr @ [e]) now d = live c tr now d"
  by (simp add: live_def session_trace)

lemma sessions_inv_add:
  assumes ih: "sessions_inv c tr s" and e: "issued c [e] = [(i, session)]" "run_instants [e] = [i]"
    and past: "\<forall>t \<in> set (run_instants tr). t \<le> i"
    and s': "wa_sessions s' = AList.update (cr_digest c session) i (wa_sessions s)"
  shows "sessions_inv c (tr @ [e]) s'"
  unfolding sessions_inv_def
proof (intro conjI allI impI)
  fix d j assume "(d, j) \<in> set (wa_sessions s')"
  then have "(d, j) = (cr_digest c session, i) \<or> (d, j) \<in> set (wa_sessions s)"
    by (auto simp: s' dest!: set_updateD)
  then show "\<exists>x. (j, x) \<in> set (issued c (tr @ [e])) \<and> cr_digest c x = d"
    using ih e(1) by (auto simp: session_trace sessions_inv_def)
next
  fix d now
  assume now: "\<forall>t \<in> set (run_instants (tr @ [e])). t \<le> now" and l: "live c (tr @ [e]) now d"
  show "\<exists>j. map_of (wa_sessions s') d = Some j \<and> now - j \<le> session_ttl"
  proof (cases "d = cr_digest c session")
    case True
    obtain j x where "(j, x) \<in> set (issued c (tr @ [e]))" "now - j \<le> session_ttl"
      using l by (auto simp: live_def)
    moreover from this have "j \<le> i" using issued_instants past e by (fastforce simp: session_trace)
    ultimately show ?thesis by (simp add: True s' update_conv')
  next
    case False
    then have "live c tr now d" using l e(1) by (auto simp: live_def session_trace)
    then show ?thesis using ih now False by (simp add: sessions_inv_def session_trace s' update_conv')
  qed
qed

lemma sessions_inv_check:
  assumes ih: "sessions_inv c tr s" and e: "issued c [e] = []" "run_instants [e] = [n]"
    and s': "wa_sessions s' = filter (\<lambda>(_, i). n - i \<le> session_ttl) (wa_sessions s)"
  shows "sessions_inv c (tr @ [e]) s'"
  unfolding sessions_inv_def
proof (intro conjI allI impI)
  fix d j assume "(d, j) \<in> set (wa_sessions s')"
  then show "\<exists>x. (j, x) \<in> set (issued c (tr @ [e])) \<and> cr_digest c x = d"
    using ih by (auto simp: s' session_trace sessions_inv_def)
next
  fix d now
  assume now: "\<forall>t \<in> set (run_instants (tr @ [e])). t \<le> now" and l: "live c (tr @ [e]) now d"
  then obtain i where i: "map_of (wa_sessions s) d = Some i" "now - i \<le> session_ttl"
    using sessions_inv_live [OF ih, of now d] e by (auto simp: live_snoc_quiet session_trace)
  moreover have "n - i \<le> session_ttl" using now i(2) by (auto simp: session_trace e(2))
  ultimately show "\<exists>i. map_of (wa_sessions s') d = Some i \<and> now - i \<le> session_ttl"
    using map_of_filter_Some [OF i(1), of "\<lambda>(_, i). n - i \<le> session_ttl"] by (auto simp: s')
qed

lemma sessions_inv_quiet:
  assumes "sessions_inv c tr s" "issued c [e] = []" "wa_sessions s' = wa_sessions s"
  shows "sessions_inv c (tr @ [e]) s'"
  using assms by (auto simp: sessions_inv_def live_snoc_quiet session_trace)

lemma sessions_inv_run:
  assumes law: "\<And>b. cr_decode c (cr_encode c b) = Some b"
  shows "auth_run c secret tr s \<Longrightarrow> sorted (run_instants tr) \<Longrightarrow> sessions_inv c tr s"
proof (induction rule: auth_run.induct)
  case start
  then show ?case by (simp add: sessions_inv_def live_def issued_def map_filter_simps auth_new_def)
next
  case (step tr s e s')
  have ih: "sessions_inv c tr s" and past: "\<And>i. i \<in> set (run_instants [e]) \<Longrightarrow> \<forall>t \<in> set (run_instants tr). t \<le> i"
    using step.IH step.prems by (auto simp: session_trace sorted_append)
  from step.hyps(2) show ?case
  proof cases
    case (create clock nonce)
    then show ?thesis using sessions_inv_quiet [OF ih] by (simp add: session_trace)
  next
    case (exchange clock instant random encoded r)
    show ?thesis
    proof (cases r)
      case (Inl err)
      then have "wa_sessions s' = wa_sessions s" using exchange_cases [OF exchange(2)] by auto
      then show ?thesis using sessions_inv_quiet [OF ih] exchange Inl by (simp add: session_trace)
    next
      case (Inr x)
      then obtain session where "x = cr_encode c session"
        "wa_sessions s' = AList.update (cr_digest c session) instant (wa_sessions s)"
        using exchange_cases [OF exchange(2)] by auto
      then show ?thesis
        using sessions_inv_add [OF ih, of e instant session s'] past exchange(1) Inr
        by (simp add: session_trace law)
    qed
  next
    case (check_session now encoded r)
    show ?thesis
    proof (cases "access_bytes c encoded")
      case None
      then show ?thesis using sessions_inv_quiet [OF ih] check_session
        by (simp add: session_trace authorize_session_def)
    next
      case (Some b)
      then have "wa_sessions s' = filter (\<lambda>(_, i). now - i \<le> session_ttl) (wa_sessions s)"
        using check_session(2) by (auto simp: authorize_session_def Let_def)
      then show ?thesis using sessions_inv_check [OF ih, of e now s'] check_session(1) by (simp add: session_trace)
    qed
  next
    case (check_bearer encoded)
    then show ?thesis using sessions_inv_quiet [OF ih] by (simp add: session_trace)
  qed
qed

text \<open>
  C25: A session cookie is accepted exactly when it decodes to 32 bytes with the digest of a session that
  a successful exchange of this run handed out at most twelve hours before: nothing else is ever
  accepted, and no session is dropped early by the pruning or by later exchanges. The monotonic clock
  does not go backwards and decoding inverts encoding.
\<close>

theorem session_accepted_iff:
  assumes "auth_run c secret tr s" "sorted (run_instants tr)" "\<forall>t \<in> set (run_instants tr). t \<le> now"
    and "\<And>b. cr_decode c (cr_encode c b) = Some b"
  shows "fst (authorize_session c now encoded s) \<longleftrightarrow>
    (\<exists>b. cr_decode c encoded = Some b \<and> length b = access_token_bytes
       \<and> (\<exists>(i, session) \<in> set (issued c tr). cr_digest c session = cr_digest c b \<and> now - i \<le> session_ttl))"
proof -
  have inv: "sessions_inv c tr s" using sessions_inv_run [OF assms(4,1,2)] .
  have "map_of (filter (\<lambda>(_, i). now - i \<le> session_ttl) (wa_sessions s)) d \<noteq> None \<longleftrightarrow> live c tr now d" for d
  proof
    assume "map_of (filter (\<lambda>(_, i). now - i \<le> session_ttl) (wa_sessions s)) d \<noteq> None"
    then obtain i where "(d, i) \<in> set (wa_sessions s)" "now - i \<le> session_ttl"
      by (auto dest!: map_of_SomeD)
    then show "live c tr now d" using inv unfolding sessions_inv_def live_def by blast
  next
    assume "live c tr now d"
    then obtain i where i: "map_of (wa_sessions s) d = Some i" "now - i \<le> session_ttl"
      using sessions_inv_live [OF inv assms(3)] by blast
    show "map_of (filter (\<lambda>(_, i). now - i \<le> session_ttl) (wa_sessions s)) d \<noteq> None"
      using map_of_filter_Some [OF i(1), of "\<lambda>(_, i). now - i \<le> session_ttl"] i(2) by simp
  qed
  then show ?thesis
    by (auto simp: authorize_session_def access_bytes_def Let_def live_def split: option.splits)
qed

section \<open>A fresh token works\<close>

lemma foldl_be_bytes: "foldl (\<lambda>n c. n * 256 + of_char c) 0 (rev (le_bytes k n)) = n mod 256 ^ k"
proof (induction k arbitrary: n)
  case (Suc k)
  have "n div 256 mod 256 ^ k * 256 + n mod 256 = n mod (256 * 256 ^ k)"
    by (metis mod_mult2_eq add.commute mult.commute)
  then show ?case using Suc.IH [of "n div 256"] by (simp add: of_char_of)
qed simp

lemma of_be_bytes_be_bytes [simp]: "of_be_bytes (be_bytes w) = w"
proof -
  have "unat w < 256 ^ 8" using unat_u64_lt [of w] by simp
  then show ?thesis by (simp add: of_be_bytes_def be_bytes_def foldl_be_bytes)
qed

lemma length_be_bytes [simp]: "length (be_bytes w) = 8"
  by (simp add: be_bytes_def)

lemma created_token:
  assumes "\<And>b. cr_decode c (cr_encode c b) = Some b" "\<And>k m. length (cr_mac c k m) = 32"
    and "0 \<le> clock" "clock + int bootstrap_ttl < clock_limit" "length nonce = bootstrap_nonce_bytes"
  shows "\<exists>encoded token. create_bootstrap_token c s clock (Some nonce) = Inr encoded
    \<and> token_of c encoded = Some token \<and> signed_token c (wa_secret s) token
    \<and> token_expiry token = of_nat (nat (clock + int bootstrap_ttl))"
proof -
  let ?e = "of_nat (nat (clock + int bootstrap_ttl)) :: u64"
  let ?p = "be_bytes ?e @ nonce"
  have "epoch_seconds (clock + int bootstrap_ttl) = Inr ?e"
    using assms(3) by (simp add: epoch_seconds_def bootstrap_ttl_def)
  then have "create_bootstrap_token c s clock (Some nonce) = Inr (cr_encode c (?p @ cr_mac c (wa_secret s) ?p))"
    using assms(4) by (simp add: create_bootstrap_token_def Let_def)
  moreover have "length ?p = bootstrap_payload_bytes" using assms(5) by (simp add: web_constants)
  moreover from this have "take bootstrap_payload_bytes (?p @ x) = ?p" "drop bootstrap_payload_bytes (?p @ x) = x" for x
    by (simp_all del: append_assoc)
  ultimately show ?thesis
    using assms(1,2)
    by (simp add: token_of_def signed_token_def token_expiry_def token_payload_def bootstrap_token_bytes_def del: append_assoc)
qed

lemma exchange_fresh:
  assumes "token_of c encoded = Some token" "signed_token c (wa_secret s) token"
    and "0 \<le> clock" "of_nat (nat clock) \<le> token_expiry token"
    and "token_expiry token \<le> sat_add (of_nat (nat clock)) (of_nat bootstrap_ttl)"
    and "cr_digest c token \<notin> fst ` set (wa_used s)"
  shows "\<exists>s'. exchange_bootstrap_token c clock instant (Some session) encoded s = (Inr (cr_encode c session), s')
    \<and> map_of (wa_sessions s') (cr_digest c session) = Some instant"
proof -
  have "cr_digest c token \<notin> fst ` set (retain_used (of_nat (nat clock)) (wa_used s))"
    using assms(6) by (auto simp: retain_used_def)
  then have "map_of (retain_used (of_nat (nat clock)) (wa_used s)) (cr_digest c token) = None"
    by (simp add: map_of_eq_None_iff)
  then show ?thesis
    using assms(1-5) by (simp add: exchange_defs epoch_seconds_def Let_def not_less update_conv')
qed

text \<open>
  C26: A bootstrap token works: while the system clock is within ten minutes of its creation, a server
  with the same secret that has not seen the token exchanges it for a session, and accepts that session
  for the next twelve hours. Decoding inverts encoding and a MAC has 32 bytes.
\<close>

theorem bootstrap_token_works:
  assumes "\<And>b. cr_decode c (cr_encode c b) = Some b" "\<And>k m. length (cr_mac c k m) = 32"
    and "0 \<le> clock" "clock + int bootstrap_ttl < clock_limit"
    and "length nonce = bootstrap_nonce_bytes" "length session = access_token_bytes"
  shows "\<exists>encoded token. create_bootstrap_token c s clock (Some nonce) = Inr encoded \<and> token_of c encoded = Some token
    \<and> (\<forall>s' now instant. wa_secret s' = wa_secret s \<longrightarrow> clock \<le> now \<longrightarrow> now \<le> clock + int bootstrap_ttl \<longrightarrow>
         cr_digest c token \<notin> fst ` set (wa_used s') \<longrightarrow>
         (\<exists>cookie s''. exchange_bootstrap_token c now instant (Some session) encoded s' = (Inr cookie, s'')
            \<and> (\<forall>later. later - instant \<le> session_ttl \<longrightarrow> fst (authorize_session c later cookie s''))))"
proof -
  obtain encoded token where t: "create_bootstrap_token c s clock (Some nonce) = Inr encoded"
    "token_of c encoded = Some token" "signed_token c (wa_secret s) token"
    "token_expiry token = of_nat (nat (clock + int bootstrap_ttl))"
    using created_token [OF assms(1,2,3,4,5)] by blast
  have "\<exists>cookie s''. exchange_bootstrap_token c now instant (Some session) encoded s' = (Inr cookie, s'')
      \<and> (\<forall>later. later - instant \<le> session_ttl \<longrightarrow> fst (authorize_session c later cookie s''))"
    if s': "wa_secret s' = wa_secret s" "clock \<le> now" "now \<le> clock + int bootstrap_ttl"
      "cr_digest c token \<notin> fst ` set (wa_used s')" for s' now instant
  proof -
    have e: "unat (token_expiry token) = nat (clock + int bootstrap_ttl)" unfolding t(4)
      by (rule unat_epoch) (use assms(3,4) in auto)
    have n: "unat (of_nat (nat now) :: u64) = nat now"
      by (rule unat_epoch) (use s'(2,3) assms(3,4) in auto)
    have ttl: "unat (of_nat bootstrap_ttl :: u64) = bootstrap_ttl" by (simp add: bootstrap_ttl_def)
    have "of_nat (nat now) \<le> token_expiry token"
      using s'(3) by (simp add: word_le_nat_alt e n nat_mono)
    moreover have "token_expiry token \<le> sat_add (of_nat (nat now)) (of_nat bootstrap_ttl)"
    proof -
      have "nat (clock + int bootstrap_ttl) \<le> min (nat now + bootstrap_ttl) (2 ^ 64 - 1)"
        using s'(2) assms(3,4) unfolding clock_limit_def min_def by auto
      then show ?thesis unfolding word_le_nat_alt e unat_sat_add n ttl .
    qed
    ultimately obtain s'' where x: "exchange_bootstrap_token c now instant (Some session) encoded s' =
        (Inr (cr_encode c session), s'')" "map_of (wa_sessions s'') (cr_digest c session) = Some instant"
      using exchange_fresh [OF t(2), of s' now instant session] t(3) s' assms(3) by auto
    have "fst (authorize_session c later (cr_encode c session) s'')" if "later - instant \<le> session_ttl" for later
      using map_of_filter_Some [OF x(2), of "\<lambda>(_, i). later - i \<le> session_ttl"] that
      by (simp add: authorize_session_def access_bytes_def assms(1,6))
    then show ?thesis using x(1) by blast
  qed
  then show ?thesis using t(1,2) by blast
qed

section \<open>Witnesses\<close>

definition plain_crypto :: crypto where
  "plain_crypto = \<lparr>cr_encode = (\<lambda>b. b), cr_decode = Some, cr_digest = (\<lambda>b. b),
     cr_mac = (\<lambda>k m. take 32 (k @ m @ replicate 32 (CHR ''.'')))\<rparr>"

lemma plain_crypto_laws:
  "cr_decode plain_crypto (cr_encode plain_crypto b) = Some b" "length (cr_mac plain_crypto k m) = 32"
  by (simp_all add: plain_crypto_def)

text \<open>A run that makes a token, exchanges it, tries it again and uses the session.\<close>

lemma sample_run:
  "\<exists>token cookie s. auth_run plain_crypto ''k''
      [Exchanged 1000 5 token (Inr cookie), Exchanged 1010 9 token (Inl UsedToken), SessionChecked 11 cookie True] s
    \<and> token_of plain_crypto token \<noteq> None"
proof -
  let ?c = plain_crypto and ?n = "replicate 16 (CHR ''n'')" and ?x = "replicate 32 (CHR ''s'')"
  obtain encoded token where t: "token_of ?c encoded = Some token" "signed_token ?c ''k'' token"
    "token_expiry token = 1600"
    using created_token [of ?c 1000 ?n "auth_new ''k''"] plain_crypto_laws
    by (auto simp: bootstrap_ttl_def clock_limit_def bootstrap_nonce_bytes_def auth_new_def)
  let ?s1 = "\<lparr>wa_secret = ''k'', wa_sessions = [(?x, 5)], wa_used = [(token, 1600)]\<rparr>"
  have fresh: "\<not> (1600 :: u64) < 1000" "\<not> sat_add (1000 :: u64) 600 < 1600" "\<not> (1600 :: u64) < 1010"
    "\<not> sat_add (1010 :: u64) 600 < 1600" "(1010 :: u64) \<le> 1600"
    by (simp_all add: word_less_nat_alt word_le_nat_alt unat_sat_add)
  have "exchange_bootstrap_token ?c 1000 5 (Some ?x) encoded (auth_new ''k'') = (Inr ?x, ?s1)"
    using t fresh by (simp add: exchange_defs epoch_seconds_def auth_new_def plain_crypto_def
        bootstrap_ttl_def retain_used_def Let_def)
  moreover have "exchange_bootstrap_token ?c 1010 9 (Some ?x) encoded ?s1 = (Inl UsedToken, ?s1)"
    using t fresh by (simp add: exchange_defs epoch_seconds_def plain_crypto_def
        bootstrap_ttl_def retain_used_def Let_def)
  moreover have "authorize_session ?c 11 ?x ?s1 = (True, ?s1)"
    by (simp add: authorize_session_def access_bytes_def plain_crypto_def access_token_bytes_def session_ttl_def)
  ultimately have "auth_run ?c ''k''
      ((([] @ [Exchanged 1000 5 encoded (Inr ?x)]) @ [Exchanged 1010 9 encoded (Inl UsedToken)])
        @ [SessionChecked 11 ?x True]) ?s1"
    by (blast intro: auth_run.intros auth_step.intros)
  then show ?thesis using t(1) by (intro exI [of _ encoded] exI [of _ ?x] exI [of _ ?s1]) simp
qed


lemma session_accepted_iff_witness:
  "\<exists>token cookie s. auth_run plain_crypto ''k''
      [Exchanged 1000 5 token (Inr cookie), Exchanged 1010 9 token (Inl UsedToken), SessionChecked 11 cookie True] s
    \<and> \<not> fst (authorize_session plain_crypto (11 + session_ttl) cookie s)"
proof -
  obtain token cookie s where run: "auth_run plain_crypto ''k''
      [Exchanged 1000 5 token (Inr cookie), Exchanged 1010 9 token (Inl UsedToken), SessionChecked 11 cookie True] s"
    using sample_run by blast
  have "\<not> fst (authorize_session plain_crypto (11 + session_ttl) cookie s)"
    by (subst session_accepted_iff [OF run])
      (simp_all add: run_instants_def issued_def map_filter_simps plain_crypto_def)
  then show ?thesis using run by blast
qed

lemma bootstrap_token_works_witness:
  "\<exists>encoded token. create_bootstrap_token plain_crypto (auth_new ''k'') 1000 (Some (replicate 16 (CHR ''n''))) = Inr encoded
    \<and> token_of plain_crypto encoded = Some token
    \<and> (\<exists>cookie s. exchange_bootstrap_token plain_crypto 1600 3 (Some (replicate 32 (CHR ''s''))) encoded
          (auth_new ''k'') = (Inr cookie, s) \<and> fst (authorize_session plain_crypto 4 cookie s))"
proof -
  obtain encoded token where t:
    "create_bootstrap_token plain_crypto (auth_new ''k'') 1000 (Some (replicate 16 (CHR ''n''))) = Inr encoded"
    "token_of plain_crypto encoded = Some token"
    "\<forall>s' now instant. wa_secret s' = wa_secret (auth_new ''k'') \<longrightarrow> 1000 \<le> now \<longrightarrow> now \<le> 1000 + int bootstrap_ttl \<longrightarrow>
         cr_digest plain_crypto token \<notin> fst ` set (wa_used s') \<longrightarrow>
         (\<exists>cookie s''. exchange_bootstrap_token plain_crypto now instant (Some (replicate 32 (CHR ''s''))) encoded s' = (Inr cookie, s'')
            \<and> (\<forall>later. later - instant \<le> session_ttl \<longrightarrow> fst (authorize_session plain_crypto later cookie s'')))"
    using bootstrap_token_works [of plain_crypto 1000 "replicate 16 (CHR ''n'')" "replicate 32 (CHR ''s'')" "auth_new ''k''"]
      plain_crypto_laws
    by (auto simp: bootstrap_ttl_def clock_limit_def web_constants)
  have "wa_secret (auth_new ''k'') = wa_secret (auth_new ''k'')" "(1600 :: int) \<le> 1000 + int bootstrap_ttl"
    "cr_digest plain_crypto token \<notin> fst ` set (wa_used (auth_new ''k''))" "4 - (3 :: nat) \<le> session_ttl"
    by (simp_all add: bootstrap_ttl_def auth_new_def session_ttl_def)
  then show ?thesis using t(1,2) t(3) [rule_format, of "auth_new ''k''" 1600 3] by fastforce
qed

section \<open>Where the clock read and the lock are apart\<close>

text \<open>
  C27: Single use needs the clock reads to be in the order of the locks. Requests are served by threads:
  when one has passed the checks in the last second of a spent token, and another prunes the used map
  a second later, the first is still let through, so the token is exchanged twice although the clock
  only goes forward.
\<close>

theorem exchange_race:
  "\<exists>token other cookie s1 s2 s3.
     exchange_bootstrap_token plain_crypto 1000 5 (Some (replicate 32 (CHR ''s''))) token (auth_new ''k'') = (Inr cookie, s1)
     \<and> exchange_check plain_crypto ''k'' 1600 token = Inr (token, 1600)
     \<and> fst (exchange_bootstrap_token plain_crypto 1601 6 (Some (replicate 32 (CHR ''t''))) other s1) = Inr s2
     \<and> exchange_commit plain_crypto token 1600 7 (Some (replicate 32 (CHR ''u'')))
         (snd (exchange_bootstrap_token plain_crypto 1601 6 (Some (replicate 32 (CHR ''t''))) other s1))
         = (Inr (replicate 32 (CHR ''u'')), s3)"
proof -
  let ?c = plain_crypto and ?n = "replicate 16 (CHR ''n'')"
  obtain token where tok: "token_of ?c token = Some token" "signed_token ?c ''k'' token" "token_expiry token = 1600"
    using created_token [of ?c 1000 ?n "auth_new ''k''"] plain_crypto_laws
    by (auto simp: bootstrap_ttl_def clock_limit_def bootstrap_nonce_bytes_def auth_new_def token_of_def
        plain_crypto_def split: if_splits)
  obtain other where oth: "token_of ?c other = Some other" "signed_token ?c ''k'' other" "token_expiry other = 1700"
    using created_token [of ?c 1100 ?n "auth_new ''k''"] plain_crypto_laws
    by (auto simp: bootstrap_ttl_def clock_limit_def bootstrap_nonce_bytes_def auth_new_def token_of_def
        plain_crypto_def split: if_splits)
  have time: "\<not> (1600 :: u64) < 1000" "\<not> sat_add (1000 :: u64) 600 < 1600" "\<not> (1600 :: u64) < 1600"
    "\<not> sat_add (1600 :: u64) 600 < 1600" "\<not> (1601 :: u64) \<le> 1600" "\<not> (1700 :: u64) < 1601"
    "\<not> sat_add (1601 :: u64) 600 < 1700" "(1600 :: u64) \<le> 1700"
    by (simp_all add: word_less_nat_alt word_le_nat_alt unat_sat_add)
  have diff: "other \<noteq> token" using tok(3) oth(3) by auto
  let ?s = "replicate 32 (CHR ''s'')" and ?t = "replicate 32 (CHR ''t'')" and ?u = "replicate 32 (CHR ''u'')"
  let ?s1 = "\<lparr>wa_secret = ''k'', wa_sessions = [(?s, 5)], wa_used = [(token, 1600)]\<rparr>"
  let ?s2 = "\<lparr>wa_secret = ''k'', wa_sessions = [(?s, 5), (?t, 6)], wa_used = [(other, 1700)]\<rparr>"
  note defs = exchange_defs epoch_seconds_def auth_new_def plain_crypto_def bootstrap_ttl_def retain_used_def
  have "exchange_bootstrap_token ?c 1000 5 (Some ?s) token (auth_new ''k'') = (Inr ?s, ?s1)"
    using tok time by (simp add: defs Let_def)
  moreover have "exchange_check ?c ''k'' 1600 token = Inr (token, 1600)"
    using tok time by (simp add: defs)
  moreover have "exchange_bootstrap_token ?c 1601 6 (Some ?t) other ?s1 = (Inr ?t, ?s2)"
    using oth time by (simp add: defs Let_def)
  moreover have "exchange_commit ?c token 1600 7 (Some ?u) ?s2 =
      (Inr ?u, \<lparr>wa_secret = ''k'', wa_sessions = [(?s, 5), (?t, 6), (?u, 7)], wa_used = [(other, 1700), (token, 1600)]\<rparr>)"
    using tok(3) time diff by (simp add: defs Let_def)
  ultimately show ?thesis by (metis fst_conv snd_conv)
qed

end
