(* ===== verification/WebSecret.thy ===== *)
theory WebSecret
  imports WebAuth
begin

text \<open>
  How the web server's access token comes to be on disk, \<open>load_or_create_secret\<close> of
  \<open>src/web_auth.rs\<close>: every process writes its own secret to a fresh temporary file and publishes it by
  a hard link, which fails when the name exists; a process that loses reads the winner's file. Any
  number of processes run at once, one file operation at a time, and may stop or fail at any of them.
\<close>

section \<open>One process\<close>

type_synonym files = "str \<Rightarrow> str option"

text \<open>The state is the operation that comes next. \<open>Choosing n\<close> has tried \<open>n\<close> temporary names.\<close>

datatype publisher = Choosing nat | Writing str | Linking str | Unlinking str | Losing | Holding str | Broken

definition token_file :: str where "token_file = ''web-auth-token''"

definition token_path :: "str \<Rightarrow> str" where
  "token_path root = root @ ''/'' @ token_file"

definition temp_path :: "crypto \<Rightarrow> str \<Rightarrow> str \<Rightarrow> str" where
  "temp_path c root suffix = root @ ''/.'' @ token_file @ ''.'' @ cr_encode c suffix @ ''.tmp''"

definition secret_text :: "crypto \<Rightarrow> str \<Rightarrow> str" where
  "secret_text c secret = cr_encode c secret @ [CHR 0x0A]"

definition read_secret :: "crypto \<Rightarrow> str \<Rightarrow> str option" where
  "read_secret c text =
    (case cr_decode c (trim text) of
       None \<Rightarrow> None
     | Some b \<Rightarrow> if length b = access_token_bytes then Some b else None)"

text \<open>Cleaning up ignores its own failure, so the temporary file may stay.\<close>

inductive publish_step ::
    "crypto \<Rightarrow> str \<Rightarrow> str \<Rightarrow> files \<times> publisher \<Rightarrow> files \<times> publisher \<Rightarrow> bool" for c root secret where
  exhausted: "publish_step c root secret (fs, Choosing 16) (fs, Broken)"
| taken: "n < 16 \<Longrightarrow> fs (temp_path c root suffix) \<noteq> None \<Longrightarrow>
    publish_step c root secret (fs, Choosing n) (fs, Choosing (Suc n))"
| create_new: "n < 16 \<Longrightarrow> fs (temp_path c root suffix) = None \<Longrightarrow>
    publish_step c root secret (fs, Choosing n) (fs(temp_path c root suffix \<mapsto> ''''), Writing (temp_path c root suffix))"
| create_fails: "publish_step c root secret (fs, Choosing n) (fs, Broken)"
| write_part: "publish_step c root secret (fs, Writing temp) (fs(temp \<mapsto> take k (secret_text c secret)), Writing temp)"
| write_all: "publish_step c root secret (fs, Writing temp) (fs(temp \<mapsto> secret_text c secret), Linking temp)"
| write_fails: "fs' \<in> {fs, fs(temp := None)} \<Longrightarrow> publish_step c root secret (fs, Writing temp) (fs', Broken)"
| link: "fs (token_path root) = None \<Longrightarrow>
    publish_step c root secret (fs, Linking temp) (fs(token_path root := fs temp), Unlinking temp)"
| link_exists: "fs (token_path root) \<noteq> None \<Longrightarrow> fs' \<in> {fs, fs(temp := None)} \<Longrightarrow>
    publish_step c root secret (fs, Linking temp) (fs', Losing)"
| link_fails: "fs' \<in> {fs, fs(temp := None)} \<Longrightarrow> publish_step c root secret (fs, Linking temp) (fs', Broken)"
| unlink: "publish_step c root secret (fs, Unlinking temp) (fs(temp := None), Holding secret)"
| unlink_fails: "fs' \<in> {fs, fs(temp := None)} \<Longrightarrow> publish_step c root secret (fs, Unlinking temp) (fs', Broken)"
| read_winner: "fs (token_path root) = Some text \<Longrightarrow> read_secret c text = Some b \<Longrightarrow>
    publish_step c root secret (fs, Losing) (fs, Holding b)"
| read_fails: "publish_step c root secret (fs, Losing) (fs, Broken)"

inductive_cases publish_stepE: "publish_step c root secret (fs, pc) (fs', pc')"

section \<open>Many processes\<close>

inductive system_step ::
    "crypto \<Rightarrow> str \<Rightarrow> (nat \<Rightarrow> str) \<Rightarrow> files \<times> (nat \<Rightarrow> publisher) \<Rightarrow> files \<times> (nat \<Rightarrow> publisher) \<Rightarrow> bool"
  for c root secrets where
  move: "publish_step c root (secrets i) (fs, ps i) (fs', pc) \<Longrightarrow>
    system_step c root secrets (fs, ps) (fs', ps(i := pc))"

definition starts :: "crypto \<Rightarrow> str \<Rightarrow> files \<Rightarrow> bool" where
  "starts c root fs \<longleftrightarrow> (fs (token_path root) = None
     \<or> (\<exists>b. length b = access_token_bytes \<and> fs (token_path root) = Some (secret_text c b)))"

inductive publishing ::
    "crypto \<Rightarrow> str \<Rightarrow> (nat \<Rightarrow> str) \<Rightarrow> files \<times> (nat \<Rightarrow> publisher) \<Rightarrow> bool" for c root secrets where
  begin_all: "starts c root fs \<Longrightarrow> publishing c root secrets (fs, \<lambda>_. Choosing 0)"
| continue: "publishing c root secrets x \<Longrightarrow> system_step c root secrets x y \<Longrightarrow> publishing c root secrets y"

section \<open>One secret\<close>

fun owned :: "publisher \<Rightarrow> str option" where
  "owned (Writing temp) = Some temp"
| "owned (Linking temp) = Some temp"
| "owned (Unlinking temp) = Some temp"
| "owned _ = None"

text \<open>What holds of a process in state \<open>pc\<close> with the files \<open>fs\<close>.\<close>

definition process_ok :: "crypto \<Rightarrow> str \<Rightarrow> str \<Rightarrow> files \<Rightarrow> publisher \<Rightarrow> bool" where
  "process_ok c root secret fs pc \<longleftrightarrow>
    (\<forall>temp. owned pc = Some temp \<longrightarrow> temp \<noteq> token_path root \<and> fs temp \<noteq> None)
    \<and> (\<forall>temp. pc = Linking temp \<longrightarrow> fs temp = Some (secret_text c secret))
    \<and> (\<forall>temp. pc = Unlinking temp \<longrightarrow> fs (token_path root) = Some (secret_text c secret))
    \<and> (pc = Losing \<longrightarrow> fs (token_path root) \<noteq> None)
    \<and> (\<forall>b. pc = Holding b \<longrightarrow> fs (token_path root) = Some (secret_text c b))"

definition system_ok :: "crypto \<Rightarrow> str \<Rightarrow> (nat \<Rightarrow> str) \<Rightarrow> files \<times> (nat \<Rightarrow> publisher) \<Rightarrow> bool" where
  "system_ok c root secrets = (\<lambda>(fs, ps). starts c root fs
    \<and> (\<forall>i. process_ok c root (secrets i) fs (ps i))
    \<and> (\<forall>i j temp. owned (ps i) = Some temp \<longrightarrow> owned (ps j) = Some temp \<longrightarrow> i = j))"

lemma temp_path_neq: "temp_path c root suffix \<noteq> token_path root"
proof
  assume "temp_path c root suffix = token_path root"
  then have "last (temp_path c root suffix) = last (token_path root)" by simp
  then show False by (simp add: temp_path_def token_path_def token_file_def)
qed

text \<open>A step changes no file but a temporary one that no other process owns, or the published name, once.\<close>

definition leaves :: "str \<Rightarrow> files \<Rightarrow> files \<Rightarrow> str option \<Rightarrow> bool" where
  "leaves path fs fs' temp \<longleftrightarrow>
    (\<forall>t. t \<noteq> path \<longrightarrow> Some t \<noteq> temp \<longrightarrow> fs' t = fs t) \<and> (fs path \<noteq> None \<longrightarrow> fs' path = fs path)"

lemma step_leaves:
  assumes "publish_step c root secret (fs, pc) (fs', pc')" "process_ok c root secret fs pc"
  shows "leaves (token_path root) fs fs' (case owned pc of Some t \<Rightarrow> Some t | None \<Rightarrow> owned pc')
    \<and> (owned pc = None \<longrightarrow> (\<forall>t. owned pc' = Some t \<longrightarrow> fs t = None))
    \<and> (owned pc \<noteq> None \<longrightarrow> owned pc' \<noteq> None \<longrightarrow> owned pc' = owned pc)"
  using assms by cases (auto simp: leaves_def process_ok_def temp_path_neq)

lemma step_process_ok:
  assumes "publish_step c root secret (fs, pc) (fs', pc')" "process_ok c root secret fs pc"
    and "starts c root fs" "length secret = access_token_bytes"
    and law: "\<And>b. cr_decode c (cr_encode c b) = Some b" "\<And>b. trim (secret_text c b) = cr_encode c b"
  shows "process_ok c root secret fs' pc' \<and> starts c root fs'"
proof -
  have read: "read_secret c (secret_text c b) = Some b'  \<Longrightarrow> b' = b" for b b'
    using law by (simp add: read_secret_def split: if_splits)
  from assms(1) show ?thesis
    by cases (use assms(2-4) read in \<open>auto simp: process_ok_def starts_def temp_path_neq temp_path_neq [symmetric]\<close>)
qed

lemma process_ok_left:
  assumes "process_ok c root secret fs pc" "leaves (token_path root) fs fs' temp" "owned pc = None \<or> owned pc \<noteq> temp"
  shows "process_ok c root secret fs' pc"
proof (cases pc)
  case (Writing t)
  then show ?thesis using assms by (auto simp: process_ok_def leaves_def)
next
  case (Linking t)
  then show ?thesis using assms by (auto simp: process_ok_def leaves_def)
next
  case (Unlinking t)
  then show ?thesis using assms by (auto simp: process_ok_def leaves_def)
qed (use assms in \<open>auto simp: process_ok_def leaves_def\<close>)

lemma system_step_ok:
  assumes "system_step c root secrets x y" "system_ok c root secrets x" "\<And>i. length (secrets i) = access_token_bytes"
    and law: "\<And>b. cr_decode c (cr_encode c b) = Some b" "\<And>b. trim (secret_text c b) = cr_encode c b"
  shows "system_ok c root secrets y
    \<and> (fst x (token_path root) \<noteq> None \<longrightarrow> fst y (token_path root) = fst x (token_path root))"
  using assms(1)
proof cases
  case (move i fs ps fs' pc)
  have inv: "starts c root fs" "\<And>j. process_ok c root (secrets j) fs (ps j)"
    "\<And>j k t. owned (ps j) = Some t \<Longrightarrow> owned (ps k) = Some t \<Longrightarrow> j = k"
    using assms(2) by (auto simp: system_ok_def move(1))
  let ?t = "case owned (ps i) of Some t \<Rightarrow> Some t | None \<Rightarrow> owned pc"
  have left: "leaves (token_path root) fs fs' ?t" "owned (ps i) = None \<Longrightarrow> owned pc = Some t \<Longrightarrow> fs t = None"
    "owned (ps i) \<noteq> None \<Longrightarrow> owned pc \<noteq> None \<Longrightarrow> owned pc = owned (ps i)" for t
    using step_leaves [OF move(3) inv(2)] by auto
  have ok: "process_ok c root (secrets i) fs' pc" "starts c root fs'"
    using step_process_ok [OF move(3) inv(2,1) assms(3) law] by auto
  have apart: "owned (ps j) = Some t \<Longrightarrow> ?t = Some t \<Longrightarrow> j = i" for j t
  proof (cases "owned (ps i)")
    case None
    assume "owned (ps j) = Some t" "?t = Some t"
    then have "fs t = None" "fs t \<noteq> None" using None left(2) inv(2) [of j] by (auto simp: process_ok_def)
    then show ?thesis by simp
  qed (use inv(3) in auto)
  have "process_ok c root (secrets j) fs' ((ps(i := pc)) j)" for j
  proof (cases "j = i")
    case False
    then show ?thesis
      using process_ok_left [OF inv(2) left(1), of j] apart [of j] by (cases "owned (ps j)") (simp, metis fun_upd_other)
  qed (simp add: ok)
  moreover have "j = k" if t: "owned ((ps(i := pc)) j) = Some t" "owned ((ps(i := pc)) k) = Some t" for j k t
  proof -
    have mover: "?t = Some t" if "owned pc = Some t" using that left(3) by (cases "owned (ps i)") auto
    have other: "owned (ps l) = Some t" if "l \<noteq> i" "owned ((ps(i := pc)) l) = Some t" for l
      using that by simp
    have only: "l = i" if "j = i \<or> k = i" "l = j \<or> l = k" for l
    proof (cases "l = i")
      case False
      have "owned pc = Some t" using that t by auto
      moreover have "owned (ps l) = Some t" using other [OF False] that t by blast
      ultimately show ?thesis using apart [of l t] mover by blast
    qed
    show ?thesis
    proof (cases "j = i \<or> k = i")
      case True
      then show ?thesis using only [of j] only [of k] by blast
    next
      case False
      then show ?thesis using inv(3) [of j t k] other [of j] other [of k] t by blast
    qed
  qed
  ultimately have "system_ok c root secrets (fs', ps(i := pc))"
    using ok(2) unfolding system_ok_def prod.case by (intro conjI allI impI)
  then show ?thesis using left(1) by (simp add: move leaves_def)
qed

lemma publishing_ok:
  assumes "publishing c root secrets x" "\<And>i. length (secrets i) = access_token_bytes"
    and law: "\<And>b. cr_decode c (cr_encode c b) = Some b" "\<And>b. trim (secret_text c b) = cr_encode c b"
  shows "system_ok c root secrets x"
  using assms(1)
proof induction
  case (begin_all fs)
  then show ?case by (simp add: system_ok_def process_ok_def)
next
  case (continue x y)
  then show ?case using system_step_ok [OF continue(2) _ assms(2) law] by blast
qed

text \<open>
  C28: Whatever number of processes create the access token at once, and wherever they stop or fail, the
  published file never holds anything but one complete secret and is never replaced, and every process
  that returns a secret returns that one. Base64 text has no surrounding whitespace and decodes to what
  was encoded; secrets have 32 bytes.
\<close>

theorem one_secret_published:
  assumes "publishing c root secrets (fs, ps)" "\<And>i. length (secrets i) = access_token_bytes"
    and "\<And>b. cr_decode c (cr_encode c b) = Some b" "\<And>b. trim (secret_text c b) = cr_encode c b"
  shows "(fs (token_path root) = None \<or> (\<exists>b. length b = access_token_bytes \<and> fs (token_path root) = Some (secret_text c b)))
    \<and> (\<forall>i b. ps i = Holding b \<longrightarrow> fs (token_path root) = Some (secret_text c b))
    \<and> (\<forall>i j a b. ps i = Holding a \<longrightarrow> ps j = Holding b \<longrightarrow> a = b)
    \<and> (\<forall>y text. system_step c root secrets (fs, ps) y \<longrightarrow> fs (token_path root) = Some text \<longrightarrow>
         fst y (token_path root) = Some text)"
proof -
  have ok: "system_ok c root secrets (fs, ps)" using publishing_ok [OF assms] .
  have hold: "fs (token_path root) = Some (secret_text c b)" if "ps i = Holding b" for i b
  proof -
    have "process_ok c root (secrets i) fs (ps i)" using ok by (simp add: system_ok_def)
    then show ?thesis using that by (simp add: process_ok_def)
  qed
  have "a = b" if "ps i = Holding a" "ps j = Holding b" for i j a b
  proof -
    have "secret_text c a = secret_text c b" using hold [OF that(1)] hold [OF that(2)] by simp
    then have "cr_encode c a = cr_encode c b" by (simp add: secret_text_def)
    then show ?thesis using assms(3) by (metis option.inject)
  qed
  moreover have "fst y (token_path root) = Some x"
    if "system_step c root secrets (fs, ps) y" "fs (token_path root) = Some x" for y x
    using system_step_ok [OF that(1) ok assms(2-4)] that(2) by simp
  ultimately show ?thesis using ok hold by (auto simp: system_ok_def starts_def)
qed

section \<open>A concrete run\<close>

text \<open>A text encoding without whitespace: a byte is as many letters A as its value, then a B.\<close>

definition tally :: "str \<Rightarrow> str" where
  "tally b = concat (map (\<lambda>ch. replicate (of_char ch) (CHR ''A'') @ ''B'') b)"

fun untally :: "nat \<Rightarrow> str \<Rightarrow> str" where
  "untally n [] = []"
| "untally n (ch # cs) = (if ch = CHR ''A'' then untally (Suc n) cs else char_of n # untally 0 cs)"

definition tally_crypto :: crypto where
  "tally_crypto = plain_crypto\<lparr>cr_encode := tally, cr_decode := (\<lambda>t. Some (untally 0 t))\<rparr>"

lemma untally_letters: "untally n (replicate k (CHR ''A'') @ cs) = untally (n + k) cs"
  by (induction k arbitrary: n) simp_all

lemma untally_tally: "untally 0 (tally b) = b"
  by (induction b) (simp_all add: tally_def untally_letters)

lemma utf8_chars_ascii: "\<forall>ch \<in> set s. \<not> is_continuation ch \<Longrightarrow> utf8_chars s = map (\<lambda>ch. [ch]) s"
proof (induction s)
  case (Cons ch s)
  have "takeWhile is_continuation s = [] \<and> dropWhile is_continuation s = s"
    using Cons.prems by (cases s) auto
  then show ?case using Cons by simp
qed simp

lemma trim_letters:
  assumes "set s \<subseteq> {CHR ''A'', CHR ''B''}"
  shows "trim (s @ [CHR 0x0A]) = s"
proof -
  have plain: "\<forall>ch \<in> set s. \<not> is_continuation ch \<and> \<not> is_whitespace_char [ch]"
    using assms by (auto simp: is_continuation_def is_whitespace_char_def)
  have nl: "\<not> is_continuation (CHR 0x0A)" "is_whitespace_char [CHR 0x0A]"
    by (simp_all add: is_continuation_def is_whitespace_char_def)
  have chars: "utf8_chars (s @ [CHR 0x0A]) = map (\<lambda>ch. [ch]) (s @ [CHR 0x0A])"
    by (rule utf8_chars_ascii) (use plain nl in auto)
  have "trim (s @ [CHR 0x0A]) = s" if "s = []"
    using nl by (simp add: that trim_def trim_start_def trim_end_def)
  moreover have "trim (s @ [CHR 0x0A]) = s" if ne: "s \<noteq> []"
  proof -
    have "trim_start (s @ [CHR 0x0A]) = s @ [CHR 0x0A]"
      unfolding trim_start_def chars using plain ne by (cases s) simp_all
    moreover have "dropWhile is_whitespace_char (rev (map (\<lambda>ch. [ch]) s)) = rev (map (\<lambda>ch. [ch]) s)"
      using plain ne by (cases s rule: rev_cases) auto
    moreover have "trim_end (s @ [CHR 0x0A]) = concat (rev (dropWhile is_whitespace_char (rev (map (\<lambda>ch. [ch]) s))))"
      unfolding trim_end_def chars using nl by simp
    ultimately show ?thesis by (simp add: trim_def)
  qed
  ultimately show ?thesis by blast
qed

lemma tally_laws:
  "cr_decode tally_crypto (cr_encode tally_crypto b) = Some b"
  "trim (secret_text tally_crypto b) = cr_encode tally_crypto b"
proof -
  have "set (tally b) \<subseteq> {CHR ''A'', CHR ''B''}" by (auto simp: tally_def)
  then show "trim (secret_text tally_crypto b) = cr_encode tally_crypto b"
    by (simp add: tally_crypto_def secret_text_def trim_letters)
qed (simp add: tally_crypto_def untally_tally)

text \<open>Process 0 wins; process 1 has written its own file by then, loses the link and reads.\<close>

definition two_secrets :: "nat \<Rightarrow> str" where
  "two_secrets i = replicate 32 (if i = 0 then CHR ''x'' else CHR ''y'')"

lemma publishing_moves:
  assumes "publishing c root secrets (fs, ps)" "publish_step c root (secrets i) (fs, ps i) (fs', pc)"
  shows "publishing c root secrets (fs', ps(i := pc))"
  using assms by (meson publishing.continue system_step.move)

lemma two_processes:
  defines "p0 \<equiv> temp_path tally_crypto ''/r'' ''a''" and "p1 \<equiv> temp_path tally_crypto ''/r'' ''b''"
  shows "\<exists>fs. publishing tally_crypto ''/r'' two_secrets
    (fs, (\<lambda>_. Choosing 0)(0 := Holding (two_secrets 0), 1 := Holding (two_secrets 0)))"
proof -
  let ?c = tally_crypto and ?r = "''/r''" and ?path = "token_path ''/r''"
  let ?x = "secret_text ?c (two_secrets 0)" and ?y = "secret_text ?c (two_secrets 1)"
  have "tally ''a'' \<noteq> tally ''b''"
  proof
    assume "tally ''a'' = tally ''b''"
    then have "untally 0 (tally ''a'') = untally 0 (tally ''b'')" by (rule arg_cong)
    then show False unfolding untally_tally by simp
  qed
  then have ne: "p0 \<noteq> p1" by (simp add: p0_def p1_def temp_path_def tally_crypto_def)
  have np: "p0 \<noteq> ?path" "p1 \<noteq> ?path" by (simp_all add: p0_def p1_def temp_path_neq)
  note go = publishing_moves and steps = publish_step.intros
  have read: "read_secret ?c ?x = Some (two_secrets 0)"
    using tally_laws by (simp add: read_secret_def two_secrets_def access_token_bytes_def)
  have "publishing ?c ?r two_secrets (\<lambda>_. None, \<lambda>_. Choosing 0)"
    by (rule publishing.begin_all) (simp add: starts_def)
  from go [OF this, of 0 "[p0 \<mapsto> '''']" "Writing p0"]
  have "publishing ?c ?r two_secrets ([p0 \<mapsto> ''''], (\<lambda>_. Choosing 0)(0 := Writing p0))"
    by (simp add: p0_def steps)
  from go [OF this, of 1 "[p0 \<mapsto> '''', p1 \<mapsto> '''']" "Writing p1"]
  have "publishing ?c ?r two_secrets ([p0 \<mapsto> '''', p1 \<mapsto> ''''], (\<lambda>_. Choosing 0)(0 := Writing p0, 1 := Writing p1))"
    using ne by (simp add: p1_def steps)
  from go [OF this, of 1 "[p0 \<mapsto> '''', p1 \<mapsto> ?y]" "Linking p1"]
  have "publishing ?c ?r two_secrets ([p0 \<mapsto> '''', p1 \<mapsto> ?y], (\<lambda>_. Choosing 0)(0 := Writing p0, 1 := Linking p1))"
    using steps(6) [of ?c ?r "two_secrets 1" "[p0 \<mapsto> '''', p1 \<mapsto> '''']" p1] by simp
  from go [OF this, of 0 "[p1 \<mapsto> ?y, p0 \<mapsto> ?x]" "Linking p0"]
  have "publishing ?c ?r two_secrets ([p1 \<mapsto> ?y, p0 \<mapsto> ?x], (\<lambda>_. Choosing 0)(0 := Linking p0, 1 := Linking p1))"
    using steps(6) [of ?c ?r "two_secrets 0" "[p0 \<mapsto> '''', p1 \<mapsto> ?y]" p0] ne by (simp add: fun_upd_twist)
  from go [OF this, of 0 "[p1 \<mapsto> ?y, p0 \<mapsto> ?x, ?path \<mapsto> ?x]" "Unlinking p0"]
  have "publishing ?c ?r two_secrets ([p1 \<mapsto> ?y, p0 \<mapsto> ?x, ?path \<mapsto> ?x], (\<lambda>_. Choosing 0)(0 := Unlinking p0, 1 := Linking p1))"
    using steps(8) [of "[p1 \<mapsto> ?y, p0 \<mapsto> ?x]" ?r ?c "two_secrets 0" p0] np ne by (simp add: fun_upd_twist)
  from go [OF this, of 1 "[p1 \<mapsto> ?y, p0 \<mapsto> ?x, ?path \<mapsto> ?x]" Losing]
  have "publishing ?c ?r two_secrets ([p1 \<mapsto> ?y, p0 \<mapsto> ?x, ?path \<mapsto> ?x], (\<lambda>_. Choosing 0)(0 := Unlinking p0, 1 := Losing))"
    by (simp add: steps)
  from go [OF this, of 1 "[p1 \<mapsto> ?y, p0 \<mapsto> ?x, ?path \<mapsto> ?x]" "Holding (two_secrets 0)"]
  have "publishing ?c ?r two_secrets ([p1 \<mapsto> ?y, p0 \<mapsto> ?x, ?path \<mapsto> ?x],
      (\<lambda>_. Choosing 0)(0 := Unlinking p0, 1 := Holding (two_secrets 0)))"
    using steps(13) [of "[p1 \<mapsto> ?y, p0 \<mapsto> ?x, ?path \<mapsto> ?x]" ?r ?x ?c "two_secrets 0" "two_secrets 1"] read by simp
  from go [OF this, of 0 "([p1 \<mapsto> ?y, p0 \<mapsto> ?x, ?path \<mapsto> ?x])(p0 := None)" "Holding (two_secrets 0)"]
  show ?thesis
    using steps(11) [of ?c ?r "two_secrets 0" "[p1 \<mapsto> ?y, p0 \<mapsto> ?x, ?path \<mapsto> ?x]" p0]
    by (auto simp: fun_upd_twist)
qed

lemma one_secret_published_witness:
  "\<exists>fs. publishing tally_crypto ''/r'' two_secrets
      (fs, (\<lambda>_. Choosing 0)(0 := Holding (two_secrets 0), 1 := Holding (two_secrets 0)))
    \<and> fs (token_path ''/r'') = Some (secret_text tally_crypto (two_secrets 0))"
proof -
  obtain fs where run: "publishing tally_crypto ''/r'' two_secrets
      (fs, (\<lambda>_. Choosing 0)(0 := Holding (two_secrets 0), 1 := Holding (two_secrets 0)))"
    using two_processes by blast
  have "fs (token_path ''/r'') = Some (secret_text tally_crypto (two_secrets 0))"
  proof -
    have len: "length (two_secrets i) = access_token_bytes" for i
      by (simp add: two_secrets_def access_token_bytes_def)
    from one_secret_published [OF run len tally_laws, THEN conjunct2, THEN conjunct1]
    show ?thesis by (metis fun_upd_same)
  qed
  then show ?thesis using run by blast
qed

end
