(* ===== verification/Watch.thy ===== *)
theory Watch
  imports Checkpoint
begin

text \<open>
  The event-driven scheduler of \<open>src/watch.rs\<close>: a bounded queue of file system events, the set of
  dirty paths, the timers, and the decision to run an ingest; with the no-op check and the sweep of
  recently active files, and the daemon loop of \<open>src/cli.rs\<close> that drives it. Instants are milliseconds
  of a monotonic clock. The file system, the watcher backend, the exclusion patterns and the parsers'
  path predicates are parameters. Paths are absolute and normalised.
\<close>

section \<open>Configuration and counters\<close>

datatype watch_mode = Events | Poll

definition parse_watch_mode :: "str \<Rightarrow> watch_mode option" where
  "parse_watch_mode text =
    (let name = to_ascii_lowercase (trim text)
     in if name = ''events'' then Some Events else if name = ''poll'' then Some Poll else None)"

definition show_watch_mode :: "watch_mode \<Rightarrow> str" where
  "show_watch_mode m = (case m of Events \<Rightarrow> ''events'' | Poll \<Rightarrow> ''poll'')"

record watch_config =
  wc_debounce :: nat
  wc_settle :: nat
  wc_max_batch_age :: nat
  wc_min_spacing :: nat
  wc_resync_interval :: nat
  wc_dirty_cap :: nat

definition watch_config_default :: watch_config where
  "watch_config_default = \<lparr>wc_debounce = 1500, wc_settle = 500, wc_max_batch_age = 8000,
     wc_min_spacing = 5000, wc_resync_interval = 600000, wc_dirty_cap = 10000\<rparr>"

datatype fire_cause = Dirty | Resync

record watch_stats =
  ws_events_total :: u64
  ws_events_filtered :: u64
  ws_fires_dirty :: u64
  ws_fires_resync :: u64
  ws_noop_skips :: u64
  ws_watcher_errors :: u64
  ws_resync_requests :: u64
  ws_hot_sweeps :: u64
  ws_hot_hits :: u64

definition watch_stats_default :: watch_stats where
  "watch_stats_default = \<lparr>ws_events_total = 0, ws_events_filtered = 0, ws_fires_dirty = 0, ws_fires_resync = 0,
     ws_noop_skips = 0, ws_watcher_errors = 0, ws_resync_requests = 0, ws_hot_sweeps = 0, ws_hot_hits = 0\<rparr>"

section \<open>Events\<close>

text \<open>\<open>Path::file_name\<close> and \<open>with_file_name\<close> on a normalised path.\<close>

definition file_name :: "str \<Rightarrow> str option" where
  "file_name path =
    (let name = last_segment {CHR ''/''} path
     in if name = '''' \<or> name = ''..'' then None else Some name)"

definition with_file_name :: "str \<Rightarrow> str \<Rightarrow> str" where
  "with_file_name path name = take (length path - length (last_segment {CHR ''/''} path)) path @ name"

definition ignorable_file_name :: "str \<Rightarrow> bool" where
  "ignorable_file_name name =
    (name = ''.DS_Store'' \<or> ends_with name ''.tmp'' \<or> ends_with name ''.swp'' \<or> ends_with name ''~''
     \<or> ends_with name ''-wal'' \<or> ends_with name ''-shm'' \<or> ends_with name ''-journal''
     \<or> starts_with name ''.memex-opencode-spool-'')"

record fs_event =
  ev_access :: bool
  ev_paths :: "str list"
  ev_rescan :: bool

text \<open>\<open>database name path\<close> says that a parser reads the database with this name or path, \<open>excluded\<close>
  is the path excluder.\<close>

record path_filter =
  pf_database :: "str \<Rightarrow> str \<Rightarrow> bool"
  pf_excluded :: "str \<Rightarrow> bool"

definition interesting_path :: "path_filter \<Rightarrow> str \<Rightarrow> str option" where
  "interesting_path flt path =
    (if is_some_and is_checkpoint_artifact_name (file_name path) then None
     else case Option.bind (file_name path) (\<lambda>name. strip_suffix name ''-wal'') of
       Some name \<Rightarrow>
         if pf_database flt name (with_file_name path name)
         then if pf_excluded flt path \<or> pf_excluded flt (with_file_name path name) then None
              else Some (with_file_name path name)
         else if is_some_and ignorable_file_name (file_name path) \<or> pf_excluded flt path then None
         else Some path
     | None \<Rightarrow>
         if is_some_and ignorable_file_name (file_name path) \<or> pf_excluded flt path then None else Some path)"

definition interesting_event_paths :: "path_filter \<Rightarrow> fs_event \<Rightarrow> str list \<times> bool" where
  "interesting_event_paths flt event =
    (if ev_access event then ([], ev_rescan event)
     else (List.map_filter (interesting_path flt) (ev_paths event), ev_rescan event))"

section \<open>Comparing metadata with the checkpoint\<close>

text \<open>Metadata: the length and, when the platform has one after the epoch, the modification time in
  nanoseconds.\<close>

definition capped_ns :: "nat \<Rightarrow> int" where
  "capped_ns ns = min (int ns) (2 ^ 63 - 1)"

definition mtime_secs :: "nat option \<Rightarrow> int" where
  "mtime_secs modified = (case modified of None \<Rightarrow> 0 | Some ns \<Rightarrow> int (ns div 10 ^ 9))"

definition stat_differs :: "u64 \<times> nat option \<Rightarrow> u64 \<Rightarrow> int \<Rightarrow> int option \<Rightarrow> bool" where
  "stat_differs metadata len mtime modified_ns =
    (if fst metadata \<noteq> len then True
     else case (map_option capped_ns (snd metadata), modified_ns) of
       (Some current, Some stored) \<Rightarrow>
         if current \<noteq> stored then True else mtime_secs (snd metadata) \<noteq> mtime
     | _ \<Rightarrow> mtime_secs (snd metadata) \<noteq> mtime)"

text \<open>\<open>fs::metadata\<close>: found, not found, or another error.\<close>

datatype stat_result = Found "u64 \<times> nat option" | NotFound | StatError

definition stat_option :: "stat_result \<Rightarrow> (u64 \<times> nat option) option" where
  "stat_option r = (case r of Found m \<Rightarrow> Some m | _ \<Rightarrow> None)"

fun dirty_differs ::
    "(str \<Rightarrow> stat_result) \<Rightarrow> (str \<times> file_state option) list \<Rightarrow> str list \<Rightarrow> bool option" where
  "dirty_differs stat states [] = Some False"
| "dirty_differs stat states (path # paths) =
    (case map_of states path of
       Some (Some previous) \<Rightarrow>
         if is_some_and (\<lambda>wal. wal \<noteq> wal_identity_read (stat_option (stat (path @ ''-wal''))))
              (fi_sqlite_wal (fl_identity previous)) then Some True
         else (case stat path of
           NotFound \<Rightarrow> Some True
         | StatError \<Rightarrow> None
         | Found metadata \<Rightarrow>
             if stat_differs metadata (fl_size previous) (fl_mtime previous) (fi_modified_ns (fl_identity previous))
             then Some True
             else dirty_differs stat states paths)
     | _ \<Rightarrow> Some True)"

definition dirty_needs_ingest ::
    "('t \<Rightarrow> json option) \<Rightarrow> (str \<Rightarrow> stat_result) \<Rightarrow> 't backend \<Rightarrow> str list \<Rightarrow> bool option" where
  "dirty_needs_ingest parse stat b dirty =
    (if dirty = [] then Some False
     else do {
       states \<leftarrow> load_files parse b dirty Targeted;
       dirty_differs stat states dirty})"

section \<open>Sweep candidates\<close>

definition bob_database_paths :: "('t \<Rightarrow> json option) \<Rightarrow> bool \<Rightarrow> 't backend \<Rightarrow> str list" where
  "bob_database_paths parse indexed b =
    (case b of
       Legacy _ \<Rightarrow> []
     | Sqlite _ t \<Rightarrow>
         if \<not> indexed then []
         else remdups (List.map_filter (\<lambda>(_, t). do {
           v \<leftarrow> parse t; i \<leftarrow> json_get ''identity'' v; d \<leftarrow> json_get ''bob_database'' i; str_json d}) (ct_files t)))"

text \<open>\<open>split\<close> gives the database of a virtual Bob path.\<close>

definition sweep_candidates ::
    "('t \<Rightarrow> nat) \<Rightarrow> ('t \<Rightarrow> json option) \<Rightarrow> (str \<Rightarrow> str option) \<Rightarrow> 't option \<Rightarrow> 't option \<Rightarrow> bool
     \<Rightarrow> 't backend \<Rightarrow> int \<Rightarrow> ((str \<times> file_state) list \<times> str list) option" where
  "sweep_candidates bytes parse split pending_sidecar cache_sidecar indexed b cutoff = do {
     tracked \<leftarrow> hot_files_since parse b cutoff;
     header \<leftarrow> reader_header bytes parse pending_sidecar cache_sidecar b;
     backed \<leftarrow> sqlite_backed_paths parse split b;
     let databases = remdups (map fst (ch_opencode_databases header) @ backed);
     Some (filter (\<lambda>(key, file). fi_sqlite_wal (fl_identity file) = None
         \<and> fi_bob_database (fl_identity file) = None \<and> key \<notin> set databases \<and> split key = None) tracked,
       remdups (databases @ bob_database_paths parse indexed b))}"

section \<open>The service\<close>

record state_snapshot =
  sn_size :: u64
  sn_mtime :: int
  sn_modified_ns :: "int option"

record database_snapshot =
  dn_database :: "state_snapshot option"
  dn_wal :: "state_snapshot option"

definition state_snapshot_read :: "(u64 \<times> nat option) option \<Rightarrow> state_snapshot option" where
  "state_snapshot_read metadata =
    (case metadata of
       Some (len, Some ns) \<Rightarrow>
         Some \<lparr>sn_size = len, sn_mtime = int (ns div 10 ^ 9), sn_modified_ns = Some (capped_ns ns)\<rparr>
     | _ \<Rightarrow> None)"

text \<open>A queued item is an event or an error of the watcher.\<close>

record watch_service =
  wa_queue :: "fs_event option list"
  wa_overflow :: bool
  wa_watched :: "str list"
  wa_pending :: "str list"
  wa_dirty :: "(str \<times> nat) list"
  wa_batch_start :: "nat option"
  wa_last_fire :: "nat option"
  wa_resync_due :: nat
  wa_resync_needed :: bool
  wa_config :: watch_config
  wa_stats :: watch_stats
  wa_hot :: "(str \<times> database_snapshot option) list"

definition event_queue_capacity :: nat where "event_queue_capacity = 8192"

definition enqueue_event :: "fs_event option \<Rightarrow> watch_service \<Rightarrow> watch_service" where
  "enqueue_event e s =
    (if length (wa_queue s) < event_queue_capacity then s\<lparr>wa_queue := wa_queue s @ [e]\<rparr>
     else s\<lparr>wa_overflow := True\<rparr>)"

text \<open>\<open>Path\<close> compares by components.\<close>

fun path_components :: "str \<Rightarrow> str \<Rightarrow> str list" where
  "path_components acc [] = [rev acc]"
| "path_components acc (c # cs) =
    (if c = CHR ''/'' then rev acc # path_components [] cs else path_components (c # acc) cs)"

definition sort_paths :: "str list \<Rightarrow> str list" where
  "sort_paths paths = remdups_adj (sort_key (path_components []) paths)"

text \<open>What the backend does with a root: the directory exists, its canonical form, and whether it can be
  watched.\<close>

record root_probe =
  rp_is_dir :: "str \<Rightarrow> bool"
  rp_canonical :: "str \<Rightarrow> str"
  rp_watch :: "str \<Rightarrow> bool"

definition request_resync :: "watch_service \<Rightarrow> watch_service" where
  "request_resync s =
    (if wa_resync_needed s then s
     else s\<lparr>wa_resync_needed := True,
            wa_stats := (wa_stats s)\<lparr>ws_resync_requests := ws_resync_requests (wa_stats s) + 1\<rparr>\<rparr>)"

definition watcher_error :: "watch_service \<Rightarrow> watch_service" where
  "watcher_error s = s\<lparr>wa_stats := (wa_stats s)\<lparr>ws_watcher_errors := ws_watcher_errors (wa_stats s) + 1\<rparr>\<rparr>"

fun activate_roots :: "root_probe \<Rightarrow> str list \<Rightarrow> watch_service \<Rightarrow> str list \<Rightarrow> watch_service \<times> str list" where
  "activate_roots p [] s still = (s, still)"
| "activate_roots p (root # roots) s still =
    (if \<not> rp_is_dir p root then activate_roots p roots s (still @ [root])
     else if rp_watch p (rp_canonical p root)
     then activate_roots p roots
            (request_resync (s\<lparr>wa_watched := wa_watched s @ [rp_canonical p root]\<rparr>)) still
     else activate_roots p roots (watcher_error s) (still @ [root]))"

definition activate_pending :: "root_probe \<Rightarrow> watch_service \<Rightarrow> watch_service" where
  "activate_pending p s =
    (if wa_pending s = [] then s
     else let (s', still) = activate_roots p (wa_pending s) (s\<lparr>wa_pending := []\<rparr>) []
       in s'\<lparr>wa_pending := still, wa_watched := sort_paths (wa_watched s')\<rparr>)"

definition watch_new :: "root_probe \<Rightarrow> str list \<Rightarrow> watch_config \<Rightarrow> nat \<Rightarrow> watch_service" where
  "watch_new p roots config now =
    activate_pending p
      \<lparr>wa_queue = [], wa_overflow = False, wa_watched = [], wa_pending = sort_paths roots, wa_dirty = [],
       wa_batch_start = None, wa_last_fire = None, wa_resync_due = now + wc_resync_interval config,
       wa_resync_needed = False, wa_config = config, wa_stats = watch_stats_default, wa_hot = []\<rparr>"

text \<open>Adding paths to the dirty set, which \<open>drain\<close> and \<open>note_dirty_at\<close> share: a full set is dropped for
  a resync, and the rest of the list with it.\<close>

fun insert_dirty :: "nat \<Rightarrow> str list \<Rightarrow> watch_service \<Rightarrow> watch_service" where
  "insert_dirty now [] s = s"
| "insert_dirty now (path # paths) s =
    (if wc_dirty_cap (wa_config s) \<le> length (wa_dirty s) \<and> path \<notin> fst ` set (wa_dirty s)
     then request_resync (s\<lparr>wa_dirty := []\<rparr>)
     else insert_dirty now paths (s\<lparr>wa_dirty := AList.update path now (wa_dirty s)\<rparr>))"

definition start_batch :: "nat \<Rightarrow> watch_service \<Rightarrow> watch_service" where
  "start_batch now s =
    (if wa_batch_start s = None \<and> wa_dirty s \<noteq> [] then s\<lparr>wa_batch_start := Some now\<rparr> else s)"

definition note_dirty_at :: "str list \<Rightarrow> nat \<Rightarrow> watch_service \<Rightarrow> watch_service" where
  "note_dirty_at paths now s = start_batch now (insert_dirty now paths s)"

definition receive :: "path_filter \<Rightarrow> nat \<Rightarrow> fs_event option \<Rightarrow> watch_service \<Rightarrow> watch_service" where
  "receive flt now item s =
    (case item of
       None \<Rightarrow> request_resync (watcher_error s)
     | Some event \<Rightarrow>
         let s1 = s\<lparr>wa_stats := (wa_stats s)\<lparr>ws_events_total := ws_events_total (wa_stats s) + 1\<rparr>\<rparr>;
             (paths, rescan) = interesting_event_paths flt event;
             s2 = (if rescan then request_resync s1 else s1)
         in if paths = []
            then s2\<lparr>wa_stats := (wa_stats s2)\<lparr>ws_events_filtered := ws_events_filtered (wa_stats s2) + 1\<rparr>\<rparr>
            else start_batch now (insert_dirty now paths s2))"

text \<open>At most as many events as the queue holds are taken in one tick.\<close>

definition drain :: "path_filter \<Rightarrow> nat \<Rightarrow> watch_service \<Rightarrow> watch_service" where
  "drain flt now s =
    (let s1 = (if wa_overflow s then request_resync (s\<lparr>wa_overflow := False\<rparr>) else s);
         batch = take event_queue_capacity (wa_queue s1)
     in fold (receive flt now) batch (s1\<lparr>wa_queue := drop event_queue_capacity (wa_queue s1)\<rparr>))"

text \<open>\<open>age\<close> is what the file system says of a path: no file, no modification time, or the time since
  it was modified, \<open>None\<close> when that lies in the future.\<close>

datatype settle_stat = NoFile | NoTime | Age "nat option"

definition settled :: "(str \<Rightarrow> settle_stat) \<Rightarrow> watch_service \<Rightarrow> bool" where
  "settled age s =
    list_all (\<lambda>(path, _). case age path of
        NoFile \<Rightarrow> True | NoTime \<Rightarrow> True | Age a \<Rightarrow> is_some_and (\<lambda>a. wc_settle (wa_config s) \<le> a) a)
      (wa_dirty s)"

definition fire_decision :: "(str \<Rightarrow> settle_stat) \<Rightarrow> nat \<Rightarrow> watch_service \<Rightarrow> fire_cause option" where
  "fire_decision age now s =
    (if is_some_and (\<lambda>last. now - last < wc_min_spacing (wa_config s)) (wa_last_fire s) then None
     else if wa_resync_needed s \<or> wa_resync_due s \<le> now then Some Resync
     else if wa_dirty s = [] then None
     else if is_some_and (\<lambda>start. wc_max_batch_age (wa_config s) \<le> now - start) (wa_batch_start s)
     then Some Dirty
     else if now - fold max (map snd (wa_dirty s)) 0 < wc_debounce (wa_config s) then None
     else if \<not> settled age s then None
     else Some Dirty)"

definition watch_poll ::
    "root_probe \<Rightarrow> path_filter \<Rightarrow> (str \<Rightarrow> settle_stat) \<Rightarrow> nat \<Rightarrow> nat \<Rightarrow> watch_service
     \<Rightarrow> fire_cause option \<times> watch_service" where
  "watch_poll p flt age now drained s =
    (let s' = drain flt drained (activate_pending p s) in (fire_decision age now s', s'))"

definition dirty_paths :: "watch_service \<Rightarrow> str list" where
  "dirty_paths s = map fst (wa_dirty s)"

definition mark_complete :: "fire_cause \<Rightarrow> nat \<Rightarrow> watch_service \<Rightarrow> watch_service" where
  "mark_complete cause now s =
    (let s1 = s\<lparr>wa_dirty := [], wa_batch_start := None, wa_last_fire := Some now\<rparr>
     in case cause of
       Dirty \<Rightarrow> s1\<lparr>wa_stats := (wa_stats s1)\<lparr>ws_fires_dirty := ws_fires_dirty (wa_stats s1) + 1\<rparr>\<rparr>
     | Resync \<Rightarrow> s1\<lparr>wa_resync_due := now + wc_resync_interval (wa_config s1), wa_resync_needed := False,
         wa_stats := (wa_stats s1)\<lparr>ws_fires_resync := ws_fires_resync (wa_stats s1) + 1\<rparr>\<rparr>)"

definition mark_skipped :: "watch_service \<Rightarrow> watch_service" where
  "mark_skipped s =
    s\<lparr>wa_dirty := [], wa_batch_start := None,
      wa_stats := (wa_stats s)\<lparr>ws_noop_skips := ws_noop_skips (wa_stats s) + 1\<rparr>\<rparr>"

text \<open>The roots discovery walks; where each source keeps its files comes from the environment.\<close>

record root_options =
  ro_claude_sources :: "str list"
  ro_codex :: bool
  ro_opencode :: bool
  ro_cursor :: bool
  ro_pi :: bool
  ro_omp :: bool
  ro_openclaw :: bool
  ro_copilot :: bool
  ro_grok :: bool
  ro_jcode :: bool
  ro_muse :: bool
  ro_antigravity :: bool
  ro_bob :: bool

record source_homes =
  sh_codex :: "str list"
  sh_opencode :: "str list"
  sh_cursor :: str
  sh_pi_sessions :: str
  sh_pi_agent :: str
  sh_omp :: "str list"
  sh_openclaw :: "str list"
  sh_copilot :: str
  sh_grok :: str
  sh_jcode :: str
  sh_muse :: str
  sh_antigravity :: str
  sh_bob :: "str list"

definition watch_roots :: "source_homes \<Rightarrow> root_options \<Rightarrow> str list" where
  "watch_roots h o' =
    sort_paths (ro_claude_sources o'
      @ (if ro_codex o' then sh_codex h else [])
      @ (if ro_opencode o' then sh_opencode h else [])
      @ (if ro_cursor o' then [sh_cursor h] else [])
      @ (if ro_pi o' then [sh_pi_sessions h, sh_pi_agent h] else [])
      @ (if ro_omp o' then sh_omp h else [])
      @ (if ro_openclaw o' then sh_openclaw h else [])
      @ (if ro_copilot o' then [sh_copilot h] else [])
      @ (if ro_grok o' then [sh_grok h] else [])
      @ (if ro_jcode o' then [sh_jcode h] else [])
      @ (if ro_muse o' then [sh_muse h] else [])
      @ (if ro_antigravity o' then [sh_antigravity h] else [])
      @ (if ro_bob o' then sh_bob h else []))"

lemma set_sort_paths [simp]: "set (sort_paths ps) = set ps"
  by (simp add: sort_paths_def)

lemma watch_roots_mem:
  "r \<in> set (ro_claude_sources o') \<Longrightarrow> r \<in> set (watch_roots h o')"
  "ro_codex o' \<Longrightarrow> r \<in> set (sh_codex h) \<Longrightarrow> r \<in> set (watch_roots h o')"
  "ro_pi o' \<Longrightarrow> sh_pi_agent h \<in> set (watch_roots h o')"
  by (simp_all add: watch_roots_def)

definition ensure_roots :: "root_probe \<Rightarrow> str list \<Rightarrow> watch_service \<Rightarrow> watch_service" where
  "ensure_roots p roots s =
    (let desired = remdups (map (rp_canonical p) roots);
         watched = filter (\<lambda>root. root \<in> set desired) (wa_watched s)
     in s\<lparr>wa_watched := watched,
          wa_pending := sort_paths (wa_pending s
            @ filter (\<lambda>root. root \<notin> set watched \<and> root \<notin> set (wa_pending s)) desired)\<rparr>)"

section \<open>The hot sweep\<close>

fun changed_files :: "(str \<Rightarrow> stat_result) \<Rightarrow> (str \<times> file_state) list \<Rightarrow> str list" where
  "changed_files stat [] = []"
| "changed_files stat ((key, previous) # files) =
    (case stat key of
       NotFound \<Rightarrow> key # changed_files stat files
     | StatError \<Rightarrow> changed_files stat files
     | Found metadata \<Rightarrow>
         if stat_differs metadata (fl_size previous) (fl_mtime previous) (fi_modified_ns (fl_identity previous))
         then key # changed_files stat files
         else changed_files stat files)"

definition database_now :: "(str \<Rightarrow> stat_result) \<Rightarrow> str \<Rightarrow> database_snapshot" where
  "database_now stat path =
    \<lparr>dn_database = state_snapshot_read (stat_option (stat path)),
     dn_wal = state_snapshot_read (stat_option (stat (path @ ''-wal'')))\<rparr>"

text \<open>\<open>candidates\<close> is what \<open>sweep_candidates\<close> found, \<open>configured\<close> the Bob databases that exist under
  a watched root.\<close>

definition hot_sweep_dirty ::
    "(str \<Rightarrow> stat_result) \<Rightarrow> ((str \<times> file_state) list \<times> str list) option \<Rightarrow> str list \<Rightarrow> watch_service
     \<Rightarrow> str list option \<times> watch_service" where
  "hot_sweep_dirty stat candidates configured s =
    (let s1 = s\<lparr>wa_stats := (wa_stats s)\<lparr>ws_hot_sweeps := ws_hot_sweeps (wa_stats s) + 1\<rparr>\<rparr>
     in case candidates of
       None \<Rightarrow> (None, s1)
     | Some (tracked, databases) \<Rightarrow>
         let wanted = remdups (databases @ configured);
             kept = filter (\<lambda>(path, _). path \<in> set wanted) (wa_hot s1);
             hot = kept @ map (\<lambda>path. (path, None)) (filter (\<lambda>path. path \<notin> fst ` set kept) wanted);
             changed = changed_files stat tracked
               @ map fst (filter (\<lambda>(path, previous). previous \<noteq> Some (database_now stat path)) hot)
         in (Some changed,
             s1\<lparr>wa_hot := map (\<lambda>(path, _). (path, Some (database_now stat path))) hot,
                wa_stats := (wa_stats s1)\<lparr>ws_hot_hits := ws_hot_hits (wa_stats s1) + of_nat (length changed)\<rparr>\<rparr>))"

section \<open>The daemon loop\<close>

text \<open>What one turn of \<open>run_event_loop\<close> meets: the file system at the poll, the instants, the events the
  backend delivers while an ingest runs, and how each operation it may call ends. \<open>td_needs\<close> is the
  answer of the no-op check, \<open>td_selection\<close> whether the selective ingest scanned everything.\<close>

record turn =
  td_probe :: root_probe
  td_filter :: path_filter
  td_age :: "str \<Rightarrow> settle_stat"
  td_now :: nat
  td_drained :: nat
  td_during :: "fs_event option list"
  td_done :: nat
  td_roots :: "str list option"
  td_ingest_all :: bool
  td_needs :: "bool option"
  td_selection :: "bool option"
  td_sweep :: "str list option"
  td_swept :: nat

definition refresh_watch_roots :: "turn \<Rightarrow> watch_service \<Rightarrow> watch_service" where
  "refresh_watch_roots t s = (case td_roots t of None \<Rightarrow> s | Some roots \<Rightarrow> ensure_roots (td_probe t) roots s)"

definition turn_poll :: "turn \<Rightarrow> watch_service \<Rightarrow> fire_cause option \<times> watch_service" where
  "turn_poll t s = watch_poll (td_probe t) (td_filter t) (td_age t) (td_now t) (td_drained t) s"

text \<open>Whether the turn ends in a mark, and with what.\<close>

datatype mark = NoMark | Skipped | Completed fire_cause

definition turn_mark :: "turn \<Rightarrow> fire_cause option \<Rightarrow> mark" where
  "turn_mark t cause =
    (case cause of
       None \<Rightarrow> NoMark
     | Some Resync \<Rightarrow> if td_ingest_all t then Completed Resync else NoMark
     | Some Dirty \<Rightarrow> (case td_needs t of
         Some False \<Rightarrow> Skipped
       | Some True \<Rightarrow> (case td_selection t of
           Some full_scan \<Rightarrow> Completed (if full_scan then Resync else Dirty)
         | None \<Rightarrow> NoMark)
       | None \<Rightarrow> if td_ingest_all t then Completed Resync else NoMark))"

definition turn_refreshes :: "turn \<Rightarrow> fire_cause option \<Rightarrow> bool" where
  "turn_refreshes t cause =
    (cause = Some Resync \<or> cause = Some Dirty \<and> td_needs t = Some True \<and> td_selection t = Some True)"

definition daemon_turn :: "turn \<Rightarrow> watch_service \<Rightarrow> watch_service" where
  "daemon_turn t s =
    (let (cause, s1) = turn_poll t s;
         s2 = fold enqueue_event (td_during t) s1;
         s3 = (if turn_refreshes t cause then refresh_watch_roots t s2 else s2);
         s4 = (case turn_mark t cause of
           NoMark \<Rightarrow> s3
         | Skipped \<Rightarrow> mark_skipped s3
         | Completed c \<Rightarrow> mark_complete c (td_done t) s3)
     in case td_sweep t of
       Some (path # paths) \<Rightarrow> note_dirty_at (path # paths) (td_swept t) s4
     | _ \<Rightarrow> s4)"

text \<open>Between turns the backend delivers events.\<close>

datatype watch_label = Deliver "fs_event option" | Turn turn

inductive watch_step :: "watch_service \<Rightarrow> watch_label \<Rightarrow> watch_service \<Rightarrow> bool" where
  deliver: "watch_step s (Deliver e) (enqueue_event e s)"
| turn: "watch_step s (Turn t) (daemon_turn t s)"

inductive_simps watch_step_simps: "watch_step s (Deliver e) s'" "watch_step s (Turn t) s'"

text \<open>A run without a mark: no ingest has completed or was vetoed since it began.\<close>

inductive unmarked :: "watch_service \<Rightarrow> watch_label list \<Rightarrow> watch_service \<Rightarrow> bool" where
  unmarked_refl: "unmarked s [] s"
| unmarked_deliver: "watch_step s (Deliver e) s1 \<Longrightarrow> unmarked s1 ls s' \<Longrightarrow> unmarked s (Deliver e # ls) s'"
| unmarked_turn: "watch_step s (Turn t) s1 \<Longrightarrow> turn_mark t (fst (turn_poll t s)) = NoMark \<Longrightarrow>
    unmarked s1 ls s' \<Longrightarrow> unmarked s (Turn t # ls) s'"

inductive_cases unmarkedE: "unmarked s (Turn t # ls) s'"

section \<open>Hints are kept\<close>

text \<open>The two stages of a hint for the path \<open>p\<close>: queued, and in the dirty set with a batch that began
  by the instant \<open>t\<close>; a pending resync stands for any hint.\<close>

definition queued :: "fs_event \<Rightarrow> watch_service \<Rightarrow> bool" where
  "queued e s \<longleftrightarrow> wa_overflow s \<or> Some e \<in> set (wa_queue s)"

definition noted :: "str \<Rightarrow> nat \<Rightarrow> watch_service \<Rightarrow> bool" where
  "noted p t s \<longleftrightarrow> wa_resync_needed s
    \<or> p \<in> fst ` set (wa_dirty s) \<and> (\<exists>b \<le> t. wa_batch_start s = Some b)"

definition queue_ok :: "watch_service \<Rightarrow> bool" where
  "queue_ok s \<longleftrightarrow> length (wa_queue s) \<le> event_queue_capacity"

lemmas service_defs = request_resync_def watcher_error_def start_batch_def note_dirty_at_def

lemma request_resync_simps [simp]:
  "wa_queue (request_resync s) = wa_queue s" "wa_overflow (request_resync s) = wa_overflow s"
  "wa_dirty (request_resync s) = wa_dirty s" "wa_batch_start (request_resync s) = wa_batch_start s"
  "wa_last_fire (request_resync s) = wa_last_fire s" "wa_config (request_resync s) = wa_config s"
  "wa_resync_needed (request_resync s)"
  by (simp_all add: request_resync_def)

text \<open>Fields an operation leaves alone.\<close>

definition same_timers :: "watch_service \<Rightarrow> watch_service \<Rightarrow> bool" where
  "same_timers s' s \<longleftrightarrow> wa_last_fire s' = wa_last_fire s \<and> wa_config s' = wa_config s"

definition same_queue :: "watch_service \<Rightarrow> watch_service \<Rightarrow> bool" where
  "same_queue s' s \<longleftrightarrow> wa_queue s' = wa_queue s \<and> wa_overflow s' = wa_overflow s"

lemma activate_roots_keeps:
  "activate_roots p roots s still = (s', still') \<Longrightarrow>
    same_timers s' s \<and> same_queue s' s \<and> wa_dirty s' = wa_dirty s \<and> wa_batch_start s' = wa_batch_start s
    \<and> (wa_resync_needed s \<longrightarrow> wa_resync_needed s')"
  by (induction p roots s still rule: activate_roots.induct)
    (auto simp: same_timers_def same_queue_def watcher_error_def split: if_splits)

lemma activate_pending_keeps:
  "same_timers (activate_pending p s) s \<and> same_queue (activate_pending p s) s
    \<and> wa_dirty (activate_pending p s) = wa_dirty s \<and> wa_batch_start (activate_pending p s) = wa_batch_start s
    \<and> (wa_resync_needed s \<longrightarrow> wa_resync_needed (activate_pending p s))"
proof (cases "wa_pending s = []")
  case False
  obtain s' still where r: "activate_roots p (wa_pending s) (s\<lparr>wa_pending := []\<rparr>) [] = (s', still)"
    by (cases "activate_roots p (wa_pending s) (s\<lparr>wa_pending := []\<rparr>) []")
  show ?thesis
    using activate_roots_keeps [OF r] False by (simp add: activate_pending_def r same_timers_def same_queue_def)
qed (simp add: activate_pending_def same_timers_def same_queue_def)

lemma insert_dirty_keeps:
  "same_timers (insert_dirty now paths s) s \<and> same_queue (insert_dirty now paths s) s
    \<and> wa_batch_start (insert_dirty now paths s) = wa_batch_start s
    \<and> (wa_resync_needed s \<longrightarrow> wa_resync_needed (insert_dirty now paths s))
    \<and> (wa_resync_needed (insert_dirty now paths s)
       \<or> fst ` set (wa_dirty s) \<union> set paths \<subseteq> fst ` set (wa_dirty (insert_dirty now paths s)))"
proof (induction now paths s rule: insert_dirty.induct)
  case (2 now path paths s)
  show ?case
  proof (cases "wc_dirty_cap (wa_config s) \<le> length (wa_dirty s) \<and> path \<notin> fst ` set (wa_dirty s)")
    case True
    then show ?thesis by (simp add: same_timers_def same_queue_def)
  next
    case False
    have step: "insert_dirty now (path # paths) s =
        insert_dirty now paths (s\<lparr>wa_dirty := AList.update path now (wa_dirty s)\<rparr>)"
      using False by (simp only: insert_dirty.simps if_False)
    have keys: "fst ` set (AList.update path now (wa_dirty s)) = insert path (fst ` set (wa_dirty s))"
      by (simp add: dom_update)
    show ?thesis unfolding step using "2.IH" [OF False]
      by (simp add: same_timers_def same_queue_def keys)
  qed
qed (simp add: same_timers_def same_queue_def)

lemma start_batch_keeps:
  "same_timers (start_batch now s) s \<and> same_queue (start_batch now s) s \<and> wa_dirty (start_batch now s) = wa_dirty s
    \<and> wa_resync_needed (start_batch now s) = wa_resync_needed s"
  by (simp add: start_batch_def same_timers_def same_queue_def)

lemma keeps_trans:
  "same_timers a b \<Longrightarrow> same_timers b c \<Longrightarrow> same_timers a c"
  "same_queue a b \<Longrightarrow> same_queue b c \<Longrightarrow> same_queue a c"
  by (simp_all add: same_timers_def same_queue_def)

lemma note_dirty_keeps:
  "same_timers (note_dirty_at paths now s) s \<and> same_queue (note_dirty_at paths now s) s"
  using start_batch_keeps [of now "insert_dirty now paths s"] insert_dirty_keeps [of now paths s]
  by (auto simp: note_dirty_at_def intro: keeps_trans)

text \<open>A noted hint survives every addition, and an addition notes its own paths.\<close>

lemma noted_note_dirty: "noted p t s \<Longrightarrow> noted p t (note_dirty_at paths now s)"
  using insert_dirty_keeps [of now paths s]
  by (auto simp: noted_def note_dirty_at_def start_batch_def)

lemma note_dirty_notes:
  assumes "p \<in> set paths" "\<And>b. wa_batch_start s = Some b \<Longrightarrow> b \<le> t" "now \<le> t"
  shows "noted p t (note_dirty_at paths now s)"
proof (cases "wa_resync_needed (insert_dirty now paths s)")
  case False
  then have "p \<in> fst ` set (wa_dirty (insert_dirty now paths s))" "wa_batch_start (insert_dirty now paths s) = wa_batch_start s"
    using insert_dirty_keeps [of now paths s] assms(1) by auto
  then show ?thesis using assms(2,3) by (cases "wa_batch_start s") (auto simp: noted_def note_dirty_at_def start_batch_def)
qed (simp add: noted_def note_dirty_at_def start_batch_def)

text \<open>One event: with its own counters, it is a resync request or an addition to the dirty set.\<close>

definition same_but_stats :: "watch_service \<Rightarrow> watch_service \<Rightarrow> bool" where
  "same_but_stats s' s \<longleftrightarrow> same_timers s' s \<and> same_queue s' s \<and> wa_dirty s' = wa_dirty s
    \<and> wa_batch_start s' = wa_batch_start s \<and> (wa_resync_needed s \<longrightarrow> wa_resync_needed s')"

lemma receive_cases:
  "\<exists>s2. same_but_stats s2 s \<and>
    (receive flt now item s = s2 \<and> (item = None \<longrightarrow> wa_resync_needed s2)
       \<and> (\<forall>e. item = Some e \<longrightarrow> fst (interesting_event_paths flt e) = [])
     \<or> (\<exists>e. item = Some e \<and> receive flt now item s = note_dirty_at (fst (interesting_event_paths flt e)) now s2))"
proof (cases item)
  case None
  then show ?thesis
    by (intro exI [of _ "request_resync (watcher_error s)"])
      (simp add: receive_def same_but_stats_def same_timers_def same_queue_def watcher_error_def)
next
  case (Some e)
  let ?s1 = "s\<lparr>wa_stats := (wa_stats s)\<lparr>ws_events_total := ws_events_total (wa_stats s) + 1\<rparr>\<rparr>"
  obtain paths rescan where pr: "interesting_event_paths flt e = (paths, rescan)"
    by (cases "interesting_event_paths flt e")
  let ?s2 = "if rescan then request_resync ?s1 else ?s1"
  have keep: "same_but_stats ?s2 s"
    by (simp add: same_but_stats_def same_timers_def same_queue_def)
  show ?thesis
  proof (cases "paths = []")
    case True
    let ?s3 = "?s2\<lparr>wa_stats := (wa_stats ?s2)\<lparr>ws_events_filtered := ws_events_filtered (wa_stats ?s2) + 1\<rparr>\<rparr>"
    have "same_but_stats ?s3 s" using keep by (simp add: same_but_stats_def same_timers_def same_queue_def)
    moreover have "receive flt now item s = ?s3" by (simp add: receive_def Some pr True Let_def)
    ultimately show ?thesis using Some pr True by (intro exI [of _ ?s3]) simp
  next
    case False
    then have "receive flt now item s = note_dirty_at paths now ?s2"
      by (simp add: receive_def Some pr Let_def note_dirty_at_def)
    then show ?thesis using keep Some pr by (intro exI [of _ ?s2]) simp
  qed
qed

lemma receive_keeps:
  "same_timers (receive flt now item s) s \<and> same_queue (receive flt now item s) s
    \<and> (noted p t s \<longrightarrow> noted p t (receive flt now item s))"
proof -
  obtain s2 where s2: "same_but_stats s2 s" "receive flt now item s = s2 \<or>
      (\<exists>e. receive flt now item s = note_dirty_at (fst (interesting_event_paths flt e)) now s2)"
    using receive_cases [of s flt now item] by blast
  have "noted p t s \<longrightarrow> noted p t s2" using s2(1) by (auto simp: same_but_stats_def noted_def)
  then show ?thesis
    using s2 note_dirty_keeps noted_note_dirty unfolding same_but_stats_def
    by (metis keeps_trans)
qed

lemma fold_receive_keeps:
  "same_timers (fold (receive flt now) items s) s \<and> same_queue (fold (receive flt now) items s) s
    \<and> (noted p t s \<longrightarrow> noted p t (fold (receive flt now) items s))"
proof (induction items arbitrary: s)
  case (Cons item items)
  show ?case
    using Cons.IH [of "receive flt now item s"] receive_keeps [of flt now item s p t]
    by (auto intro: keeps_trans)
qed (simp add: same_timers_def same_queue_def)

definition batch_by :: "nat \<Rightarrow> watch_service \<Rightarrow> bool" where
  "batch_by t s \<longleftrightarrow> (\<forall>b. wa_batch_start s = Some b \<longrightarrow> b \<le> t)"

lemma note_dirty_batch: "batch_by t s \<Longrightarrow> now \<le> t \<Longrightarrow> batch_by t (note_dirty_at paths now s)"
  using insert_dirty_keeps [of now paths s] by (auto simp: batch_by_def note_dirty_at_def start_batch_def)

lemma receive_batch:
  assumes "batch_by t s" "now \<le> t"
  shows "batch_by t (receive flt now item s)"
proof -
  obtain s2 where s2: "same_but_stats s2 s" "receive flt now item s = s2 \<or>
      (\<exists>e. receive flt now item s = note_dirty_at (fst (interesting_event_paths flt e)) now s2)"
    using receive_cases [of s flt now item] by blast
  have "batch_by t s2" using s2(1) assms(1) by (simp add: same_but_stats_def batch_by_def)
  then show ?thesis using s2(2) note_dirty_batch [OF _ assms(2)] by auto
qed

lemma fold_receive_notes:
  "Some e \<in> set items \<Longrightarrow> p \<in> set (fst (interesting_event_paths flt e)) \<Longrightarrow> batch_by t s \<Longrightarrow> now \<le> t \<Longrightarrow>
    noted p t (fold (receive flt now) items s)"
proof (induction items arbitrary: s)
  case (Cons item items)
  show ?case
  proof (cases "item = Some e")
    case True
    obtain s2 where s2: "same_but_stats s2 s" "receive flt now item s = note_dirty_at (fst (interesting_event_paths flt e)) now s2"
      using receive_cases [of s flt now item] Cons.prems(2) True by auto
    have "batch_by t s2" using s2(1) Cons.prems(3) by (simp add: same_but_stats_def batch_by_def)
    then have "noted p t (receive flt now item s)"
      unfolding s2(2) using note_dirty_notes [OF Cons.prems(2)] Cons.prems(4) by (simp add: batch_by_def)
    then show ?thesis using fold_receive_keeps by simp
  next
    case False
    then show ?thesis using Cons.IH [of "receive flt now item s"] Cons.prems receive_batch by simp
  qed
qed simp

lemma fold_receive_batch:
  "batch_by t s \<Longrightarrow> now \<le> t \<Longrightarrow> batch_by t (fold (receive flt now) items s)"
  by (induction items arbitrary: s) (simp_all add: receive_batch)

text \<open>The state \<open>drain\<close> starts its loop from.\<close>

definition drain_start :: "watch_service \<Rightarrow> watch_service" where
  "drain_start s =
    (let s1 = (if wa_overflow s then request_resync (s\<lparr>wa_overflow := False\<rparr>) else s)
     in s1\<lparr>wa_queue := drop event_queue_capacity (wa_queue s1)\<rparr>)"

lemma drain_fold:
  "drain flt now s = fold (receive flt now) (take event_queue_capacity (wa_queue s)) (drain_start s)"
  by (simp add: drain_def drain_start_def Let_def)

lemma drain_start_keeps:
  "same_timers (drain_start s) s \<and> (noted p t s \<longrightarrow> noted p t (drain_start s)) \<and> (batch_by t s \<longrightarrow> batch_by t (drain_start s))
    \<and> wa_queue (drain_start s) = drop event_queue_capacity (wa_queue s)
    \<and> (wa_overflow s \<longrightarrow> wa_resync_needed (drain_start s))"
  by (simp add: drain_start_def Let_def same_timers_def noted_def batch_by_def)

lemma drain_keeps:
  "same_timers (drain flt now s) s \<and> (noted p t s \<longrightarrow> noted p t (drain flt now s))
    \<and> wa_queue (drain flt now s) = drop event_queue_capacity (wa_queue s)"
  unfolding drain_fold
  using drain_start_keeps [of s p t]
    fold_receive_keeps [of flt now "take event_queue_capacity (wa_queue s)" "drain_start s" p t]
  by (auto simp: same_timers_def same_queue_def)

lemma drain_notes:
  assumes "queue_ok s" "queued e s" "p \<in> set (fst (interesting_event_paths flt e))" "batch_by t s" "now \<le> t"
  shows "noted p t (drain flt now s)"
proof (cases "wa_overflow s")
  case True
  then have "noted p t (drain_start s)" using drain_start_keeps [of s] by (simp add: noted_def)
  then show ?thesis unfolding drain_fold using fold_receive_keeps by blast
next
  case False
  then have "Some e \<in> set (take event_queue_capacity (wa_queue s))"
    using assms(1,2) by (simp add: queued_def queue_ok_def)
  then show ?thesis unfolding drain_fold
    using fold_receive_notes assms(3,4,5) drain_start_keeps [of s] by blast
qed

lemma poll_keeps:
  "same_timers (snd (watch_poll pr flt age now drained s)) s
    \<and> (noted p t s \<longrightarrow> noted p t (snd (watch_poll pr flt age now drained s)))
    \<and> wa_queue (snd (watch_poll pr flt age now drained s)) = drop event_queue_capacity (wa_queue s)"
  using activate_pending_keeps [of pr s] drain_keeps [of flt drained "activate_pending pr s" p t]
  by (auto simp: watch_poll_def Let_def noted_def same_queue_def intro: keeps_trans)

lemma poll_notes:
  assumes "queue_ok s" "queued e s" "p \<in> set (fst (interesting_event_paths flt e))" "batch_by t s" "drained \<le> t"
  shows "noted p t (snd (watch_poll pr flt age now drained s))"
  using activate_pending_keeps [of pr s] drain_notes [of "activate_pending pr s" e p flt t drained] assms
  by (simp add: watch_poll_def Let_def queue_ok_def queued_def batch_by_def same_queue_def)

lemma enqueue_keeps:
  "same_timers (enqueue_event e s) s \<and> (noted p t s \<longrightarrow> noted p t (enqueue_event e s))
    \<and> (queue_ok s \<longrightarrow> queue_ok (enqueue_event e s)) \<and> (queued x s \<longrightarrow> queued x (enqueue_event e s))
    \<and> (batch_by t s \<longrightarrow> batch_by t (enqueue_event e s)) \<and> wa_dirty (enqueue_event e s) = wa_dirty s"
  by (simp add: enqueue_event_def same_timers_def noted_def queue_ok_def queued_def batch_by_def)

lemma fold_enqueue_keeps:
  "same_timers (fold enqueue_event es s) s \<and> (noted p t s \<longrightarrow> noted p t (fold enqueue_event es s))
    \<and> (queue_ok s \<longrightarrow> queue_ok (fold enqueue_event es s))"
proof (induction es arbitrary: s)
  case (Cons e es)
  show ?case using Cons.IH [of "enqueue_event e s"] enqueue_keeps [of e s p t] by (auto intro: keeps_trans)
qed (simp add: same_timers_def)

lemma ensure_roots_keeps:
  "same_timers (ensure_roots pr roots s) s \<and> (noted p t s \<longrightarrow> noted p t (ensure_roots pr roots s))
    \<and> (queue_ok s \<longrightarrow> queue_ok (ensure_roots pr roots s))"
  by (simp add: ensure_roots_def Let_def same_timers_def noted_def queue_ok_def)

lemma refresh_keeps:
  "same_timers (refresh_watch_roots tn s) s \<and> (noted p t s \<longrightarrow> noted p t (refresh_watch_roots tn s))
    \<and> (queue_ok s \<longrightarrow> queue_ok (refresh_watch_roots tn s))"
  using ensure_roots_keeps [of _ _ s p t]
  by (simp add: refresh_watch_roots_def same_timers_def split: option.splits)

text \<open>A turn without a mark keeps hints; the part after the poll is the same for every turn.\<close>

definition turn_rest :: "turn \<Rightarrow> fire_cause option \<Rightarrow> watch_service \<Rightarrow> watch_service" where
  "turn_rest tn cause s =
    (let s2 = fold enqueue_event (td_during tn) s;
         s3 = (if turn_refreshes tn cause then refresh_watch_roots tn s2 else s2)
     in case td_sweep tn of Some (path # paths) \<Rightarrow> note_dirty_at (path # paths) (td_swept tn) s3 | _ \<Rightarrow> s3)"

lemma unmarked_turn_rest:
  assumes "turn_mark tn (fst (turn_poll tn s)) = NoMark"
  shows "daemon_turn tn s = turn_rest tn (fst (turn_poll tn s)) (snd (turn_poll tn s))"
proof (cases "turn_poll tn s")
  case (Pair cause s1)
  then have m: "turn_mark tn cause = NoMark" using assms by simp
  show ?thesis unfolding daemon_turn_def turn_rest_def Pair Let_def fst_conv snd_conv prod.case m mark.case ..
qed

lemma turn_rest_keeps:
  "same_timers (turn_rest tn cause s) s \<and> (noted p t s \<longrightarrow> noted p t (turn_rest tn cause s))
    \<and> (queue_ok s \<longrightarrow> queue_ok (turn_rest tn cause s))"
proof -
  let ?s2 = "fold enqueue_event (td_during tn) s"
  let ?s3 = "if turn_refreshes tn cause then refresh_watch_roots tn ?s2 else ?s2"
  have s3: "same_timers ?s3 s \<and> (noted p t s \<longrightarrow> noted p t ?s3) \<and> (queue_ok s \<longrightarrow> queue_ok ?s3)"
    using fold_enqueue_keeps [of "td_during tn" s p t] refresh_keeps [of tn ?s2 p t] by (auto intro: keeps_trans)
  have "same_timers (note_dirty_at ps n ?s3) s \<and> (noted p t s \<longrightarrow> noted p t (note_dirty_at ps n ?s3))
      \<and> (queue_ok s \<longrightarrow> queue_ok (note_dirty_at ps n ?s3))" for ps n
    using s3 note_dirty_keeps [of ps n ?s3] noted_note_dirty [of p t ?s3 ps n]
    by (auto intro: keeps_trans simp: queue_ok_def same_queue_def)
  moreover have "turn_rest tn cause s = ?s3 \<or> (\<exists>ps n. turn_rest tn cause s = note_dirty_at ps n ?s3)"
    unfolding turn_rest_def Let_def by (simp split: option.split list.split) blast
  ultimately show ?thesis using s3 by (elim disjE exE) simp_all
qed

lemma unmarked_turn_keeps:
  assumes "turn_mark tn (fst (turn_poll tn s)) = NoMark" "queue_ok s"
  shows "same_timers (daemon_turn tn s) s \<and> (noted p t s \<longrightarrow> noted p t (daemon_turn tn s))
    \<and> (noted p t (snd (turn_poll tn s)) \<longrightarrow> noted p t (daemon_turn tn s)) \<and> queue_ok (daemon_turn tn s)"
  unfolding unmarked_turn_rest [OF assms(1)]
  using turn_rest_keeps [of tn "fst (turn_poll tn s)" "snd (turn_poll tn s)" p t]
    poll_keeps [of "td_probe tn" "td_filter tn" "td_age tn" "td_now tn" "td_drained tn" s p t] assms(2)
  by (auto simp: turn_poll_def queue_ok_def intro: keeps_trans)

lemma noted_run:
  "unmarked s ls s' \<Longrightarrow> queue_ok s \<Longrightarrow> noted p t s \<Longrightarrow> queue_ok s' \<and> noted p t s' \<and> same_timers s' s"
proof (induction rule: unmarked.induct)
  case (unmarked_deliver s e s1 ls s')
  then show ?case using enqueue_keeps [of e s p t] by (auto simp: watch_step_simps intro: keeps_trans)
next
  case (unmarked_turn s tn s1 ls s')
  have s1: "s1 = daemon_turn tn s" using unmarked_turn.hyps(1) by (simp add: watch_step_simps)
  have k: "same_timers s1 s" "noted p t s1" "queue_ok s1"
    using unmarked_turn_keeps [OF unmarked_turn.hyps(2) unmarked_turn.prems(1), of p t] unmarked_turn.prems(2)
    by (simp_all add: s1)
  show ?case using unmarked_turn.IH [OF k(3,2)] k(1) by (auto intro: keeps_trans)
qed (simp add: same_timers_def)

lemma batch_by_ex: "\<exists>t \<ge> m. batch_by t s"
proof (cases "wa_batch_start s")
  case (Some b)
  then show ?thesis by (intro exI [of _ "max m b"]) (simp add: batch_by_def)
qed (auto simp: batch_by_def)

lemma turn_poll_notes:
  assumes "queue_ok s" "queued e s" "p \<in> set (fst (interesting_event_paths (td_filter tn) e))"
    and "batch_by t s" "td_drained tn \<le> t"
  shows "noted p t (snd (turn_poll tn s))"
  unfolding turn_poll_def using assms by (rule poll_notes)

lemma hint_stage:
  assumes p: "p \<in> set (fst (interesting_event_paths flt e))"
  shows "unmarked s ls s' \<Longrightarrow> queue_ok s \<Longrightarrow> queued e s \<Longrightarrow> \<forall>tn. Turn tn \<in> set ls \<longrightarrow> td_filter tn = flt \<Longrightarrow>
    queue_ok s' \<and> (queued e s' \<or> (\<exists>t. noted p t s'))"
proof (induction rule: unmarked.induct)
  case (unmarked_deliver s e' s1 ls s')
  then show ?case using enqueue_keeps [of e' s] by (simp add: watch_step_simps)
next
  case (unmarked_turn s tn s1 ls s')
  obtain t where t: "td_drained tn \<le> t" "batch_by t s" using batch_by_ex by blast
  have "noted p t (snd (turn_poll tn s))"
    by (rule turn_poll_notes [OF unmarked_turn.prems(1,2) _ t(2,1)]) (simp add: p unmarked_turn.prems(3))
  then have s1: "noted p t s1" "queue_ok s1"
    using unmarked_turn_keeps [OF unmarked_turn.hyps(2) unmarked_turn.prems(1), of p t] unmarked_turn.hyps(1)
    by (simp_all add: watch_step_simps)
  show ?case using noted_run [OF unmarked_turn.hyps(3) s1(2,1)] by blast
qed simp

text \<open>
  C29: No change is lost: when the backend has delivered an event for a path the filter keeps, then
  whatever is delivered and however many turns fail or wait afterwards, the first ingest or veto that
  follows either is a full resync or has that path in its dirty set, also when the queue or the dirty
  set overflowed.
\<close>

theorem hint_reaches_ingest:
  assumes "queue_ok s" "p \<in> set (fst (interesting_event_paths flt e))"
    and "unmarked (enqueue_event (Some e) s) ls s'" "\<forall>t. Turn t \<in> set (ls @ [Turn tn]) \<longrightarrow> td_filter t = flt"
    and "turn_mark tn (fst (turn_poll tn s')) \<noteq> NoMark"
  shows "fst (turn_poll tn s') = Some Resync \<or> p \<in> set (dirty_paths (snd (turn_poll tn s')))"
proof -
  have "queue_ok (enqueue_event (Some e) s)" "queued e (enqueue_event (Some e) s)"
    using assms(1) enqueue_keeps [of "Some e" s] by (simp_all add: queued_def enqueue_event_def)
  then have s': "queue_ok s'" "queued e s' \<or> (\<exists>t. noted p t s')"
    using hint_stage [OF assms(2,3)] assms(4) by auto
  obtain t where t: "td_drained tn \<le> t" "batch_by t s'" using batch_by_ex by blast
  have "\<exists>t. noted p t (snd (turn_poll tn s'))"
    using s'(2)
  proof
    assume "queued e s'"
    then have "noted p t (snd (turn_poll tn s'))"
      using turn_poll_notes [OF s'(1) _ _ t(2,1)] assms(2,4) by auto
    then show ?thesis by blast
  next
    assume "\<exists>t. noted p t s'"
    then show ?thesis using poll_keeps unfolding turn_poll_def by blast
  qed
  then have "wa_resync_needed (snd (turn_poll tn s')) \<or> p \<in> set (dirty_paths (snd (turn_poll tn s')))"
    by (auto simp: noted_def dirty_paths_def)
  moreover have "fst (turn_poll tn s') \<noteq> None" using assms(5) by (cases "fst (turn_poll tn s')") (simp_all add: turn_mark_def)
  ultimately show ?thesis
    by (auto simp: turn_poll_def watch_poll_def Let_def fire_decision_def split: if_splits)
qed

lemma noted_fires:
  assumes "noted p t s" "is_none_or (\<lambda>l. l + wc_min_spacing (wa_config s) \<le> now) (wa_last_fire s)"
    and "t + wc_max_batch_age (wa_config s) \<le> now"
  shows "fire_decision age now s \<noteq> None"
  using assms by (auto simp: fire_decision_def noted_def is_none_or_def is_some_and_def split: option.splits)

lemma noted_fires_in_time:
  assumes "queue_ok s" "p \<in> set (fst (interesting_event_paths (td_filter t1) e))" "queued e s"
    and "batch_by (td_drained t1) s" "unmarked s (Turn t1 # ls) s'"
    and "is_none_or (\<lambda>l. l + wc_min_spacing (wa_config s) \<le> td_now tn) (wa_last_fire s)"
    and "td_drained t1 + wc_max_batch_age (wa_config s) \<le> td_now tn"
  shows "fst (turn_poll tn s') \<noteq> None"
proof -
  let ?t = "td_drained t1"
  obtain s1 where s1: "s1 = daemon_turn t1 s" "turn_mark t1 (fst (turn_poll t1 s)) = NoMark" "unmarked s1 ls s'"
    using assms(5) by (auto elim: unmarkedE simp: watch_step_simps)
  have "noted p ?t (snd (turn_poll t1 s))"
    using turn_poll_notes [OF assms(1,3,2,4)] by simp
  then have k1: "noted p ?t s1" "queue_ok s1" "same_timers s1 s"
    using unmarked_turn_keeps [OF s1(2) assms(1), of p ?t] by (auto simp: s1(1))
  then have k2: "noted p ?t s'" "same_timers s' s"
    using noted_run [OF s1(3) k1(2,1)] by (auto intro: keeps_trans)
  let ?p = "snd (turn_poll tn s')"
  have "noted p ?t ?p" "same_timers ?p s"
    using poll_keeps [of "td_probe tn" "td_filter tn" "td_age tn" "td_now tn" "td_drained tn" s' p ?t] k2
    by (auto simp: turn_poll_def intro: keeps_trans)
  then have "fire_decision (td_age tn) (td_now tn) ?p \<noteq> None"
    using assms(6,7) by (intro noted_fires [of p ?t]) (simp_all add: same_timers_def)
  then show ?thesis by (simp add: turn_poll_def watch_poll_def Let_def)
qed

text \<open>
  C30: A change is acted on in bounded time: once a turn has polled after an event was delivered, any
  turn that begins at least the maximal batch age after that poll's drain, and the minimal spacing after
  the last ingest, fires, whatever the debounce, the settle check, other events and failing ingests
  between them did, unless an ingest or veto already ended the batch.
\<close>

theorem hint_fires_in_time:
  assumes "queue_ok s" "p \<in> set (fst (interesting_event_paths (td_filter t1) e))" "queued e s"
    and "batch_by (td_drained t1) s" "unmarked s (Turn t1 # ls) s'"
    and "is_none_or (\<lambda>l. l + wc_min_spacing (wa_config s) \<le> td_now tn) (wa_last_fire s)"
    and "td_drained t1 + wc_max_batch_age (wa_config s) \<le> td_now tn"
  shows "fst (turn_poll tn s') \<noteq> None"
  by (rule noted_fires_in_time [OF assms])

section \<open>A concrete run\<close>

definition sample_filter :: path_filter where
  "sample_filter = \<lparr>pf_database = (\<lambda>_ _. False), pf_excluded = (\<lambda>_. False)\<rparr>"

definition sample_probe :: root_probe where
  "sample_probe = \<lparr>rp_is_dir = (\<lambda>_. True), rp_canonical = (\<lambda>r. r), rp_watch = (\<lambda>_. True)\<rparr>"

definition sample_event :: fs_event where
  "sample_event = \<lparr>ev_access = False, ev_paths = [''/a/s.jsonl''], ev_rescan = False\<rparr>"

definition sample_turn :: "nat \<Rightarrow> turn" where
  "sample_turn now = \<lparr>td_probe = sample_probe, td_filter = sample_filter, td_age = (\<lambda>_. Age (Some 0)),
     td_now = now, td_drained = now, td_during = [], td_done = now, td_roots = None, td_ingest_all = True,
     td_needs = Some True, td_selection = Some False, td_sweep = None, td_swept = now\<rparr>"

definition sample_service :: watch_service where
  "sample_service = watch_new sample_probe [] watch_config_default 0"

lemma sample_interesting: "interesting_event_paths sample_filter sample_event = ([''/a/s.jsonl''], False)"
  by code_simp

lemma sample_service_fields:
  "wa_queue sample_service = []" "wa_overflow sample_service = False" "wa_pending sample_service = []"
  "wa_dirty sample_service = []" "wa_batch_start sample_service = None" "wa_last_fire sample_service = None"
  "wa_resync_due sample_service = 600000" "wa_resync_needed sample_service = False"
  "wa_config sample_service = watch_config_default"
  by (simp_all add: sample_service_def watch_new_def activate_pending_def sort_paths_def watch_config_default_def)

text \<open>The first turn takes the event and waits for the debounce.\<close>

lemma sample_first_turn:
  "fst (turn_poll (sample_turn 1000) (enqueue_event (Some sample_event) sample_service)) = None
    \<and> unmarked (enqueue_event (Some sample_event) sample_service) [Turn (sample_turn 1000)]
        (daemon_turn (sample_turn 1000) (enqueue_event (Some sample_event) sample_service))"
proof -
  let ?s = "enqueue_event (Some sample_event) sample_service"
  have "fst (turn_poll (sample_turn 1000) ?s) = None"
    by (simp add: turn_poll_def watch_poll_def sample_turn_def Let_def enqueue_event_def sample_service_fields
        event_queue_capacity_def activate_pending_def drain_def receive_def sample_interesting start_batch_def
        fire_decision_def watch_config_default_def)
  moreover from this have "turn_mark (sample_turn 1000) (fst (turn_poll (sample_turn 1000) ?s)) = NoMark"
    by (simp add: turn_mark_def)
  ultimately show ?thesis by (blast intro: unmarked.intros watch_step.intros)
qed

lemma sample_queue: "queue_ok sample_service" "batch_by t sample_service"
  by (simp_all add: queue_ok_def batch_by_def sample_service_fields)

lemma sample_turn_event:
  fixes s defines "s \<equiv> enqueue_event (Some sample_event) sample_service"
  shows "queue_ok s" "queued sample_event s" "batch_by 1000 s"
    "wa_config s = watch_config_default" "wa_last_fire s = None"
    "''/a/s.jsonl'' \<in> set (fst (interesting_event_paths (td_filter (sample_turn n)) sample_event))"
    "td_drained (sample_turn n) = n" "td_now (sample_turn n) = n"
  using sample_queue enqueue_keeps [of "Some sample_event" sample_service]
  by (simp_all add: s_def queued_def enqueue_event_def sample_service_fields event_queue_capacity_def
      sample_interesting sample_turn_def)

lemma hint_fires_in_time_witness:
  "fst (turn_poll (sample_turn 9000)
      (daemon_turn (sample_turn 1000) (enqueue_event (Some sample_event) sample_service))) \<noteq> None"
  by (rule hint_fires_in_time [OF sample_turn_event(1) sample_turn_event(6) sample_turn_event(2) _
        conjunct2 [OF sample_first_turn]])
    (simp_all add: sample_turn_event watch_config_default_def)

lemma hint_reaches_ingest_witness:
  "fst (turn_poll (sample_turn 9000)
        (daemon_turn (sample_turn 1000) (enqueue_event (Some sample_event) sample_service))) = Some Resync
   \<or> ''/a/s.jsonl'' \<in> set (dirty_paths (snd (turn_poll (sample_turn 9000)
        (daemon_turn (sample_turn 1000) (enqueue_event (Some sample_event) sample_service)))))"
proof -
  let ?s = "daemon_turn (sample_turn 1000) (enqueue_event (Some sample_event) sample_service)"
  have "fst (turn_poll (sample_turn 9000) ?s) \<noteq> None"
    by (rule noted_fires_in_time [OF sample_turn_event(1) sample_turn_event(6) sample_turn_event(2) _
          conjunct2 [OF sample_first_turn]])
      (simp_all add: sample_turn_event watch_config_default_def)
  then obtain c where "fst (turn_poll (sample_turn 9000) ?s) = Some c" by blast
  then have m: "turn_mark (sample_turn 9000) (fst (turn_poll (sample_turn 9000) ?s)) \<noteq> NoMark"
    by (cases c) (simp_all add: turn_mark_def sample_turn_def)
  have f: "td_filter (sample_turn n) = sample_filter" for n by (simp add: sample_turn_def)
  show ?thesis
    by (rule hint_reaches_ingest [OF sample_queue(1) _ conjunct2 [OF sample_first_turn] _ m,
          where flt = sample_filter and p = "''/a/s.jsonl''"])
      (auto simp: sample_interesting f)
qed

end
