(* ===== verification/Retrieval.thy ===== *)
theory Retrieval
  imports Types Decimal
begin

text \<open>
  Record identity and context retrieval of \<open>src/retrieval.rs\<close>: the canonical id of a record, collapsing
  the projections of one record, resolving a selector, and the bounded neighbourhood of an anchor. The
  hash is a parameter; so are the reads of the search index and the order in which a hash map gives up
  its entries.
\<close>

section \<open>Canonical ids\<close>

definition id_version :: str where "id_version = ''rid1''"

text \<open>\<open>hash_field\<close>: the label and the value, each behind its length in eight bytes.\<close>

definition hash_field :: "str \<Rightarrow> str \<Rightarrow> str list" where
  "hash_field label text = [label, text]"

definition has_native_event :: "mrecord \<Rightarrow> bool" where
  "has_native_event r = (lk_event_id (rec_links r) \<noteq> None)"

definition has_native_tool :: "mrecord \<Rightarrow> bool" where
  "has_native_tool r = (rec_role r = ''tool_use'' \<and> lk_source_tool_use_id (rec_links r) \<noteq> None)"

definition identity_fields :: "mrecord \<Rightarrow> str list" where
  "identity_fields r =
    hash_field ''version'' id_version
    @ hash_field ''source'' (source_storage_label (rec_source r))
    @ (case lk_source_record_offset (rec_links r) of
         Some offset \<Rightarrow>
           hash_field ''session'' (rec_session_id r) @ hash_field ''source-path'' (rec_source_path r)
           @ hash_field ''source-record-offset'' (decimal (unat offset))
       | None \<Rightarrow>
           if has_native_event r \<or> has_native_tool r
           then hash_field ''session'' (if rec_session_id r = '''' then rec_source_path r else rec_session_id r)
             @ (case lk_event_id (rec_links r) of Some e \<Rightarrow> hash_field ''event'' e | None \<Rightarrow> [])
             @ (if has_native_event r then []
                else case lk_source_tool_use_id (rec_links r) of
                  Some t \<Rightarrow> hash_field ''source-tool-use'' t | None \<Rightarrow> [])
           else hash_field ''session'' (rec_session_id r) @ hash_field ''source-path'' (rec_source_path r)
             @ hash_field ''turn'' (decimal (unat (unwrap_or (rec_turn_id r) (lk_legacy_turn_id (rec_links r))))))
    @ hash_field ''role'' (rec_role r)
    @ hash_field ''tool'' (unwrap_or '''' (rec_tool_name r))"

definition hashed_bytes :: "mrecord \<Rightarrow> str" where
  "hashed_bytes r = concat (map (prefixed 8) (identity_fields r))"

definition canonical_record_id :: "(str \<Rightarrow> str) \<Rightarrow> mrecord \<Rightarrow> str" where
  "canonical_record_id hex r = id_version @ ''_'' @ hex (hashed_bytes r)"

section \<open>Collapsing projections\<close>

text \<open>One entry per key: a later one replaces the held one unless that is at least as new.\<close>

fun latest :: "('a \<Rightarrow> str) \<Rightarrow> ('a \<Rightarrow> 'p :: linorder) \<Rightarrow> 'a list \<Rightarrow> (str \<times> 'a) list \<Rightarrow> (str \<times> 'a) list" where
  "latest key proj [] unique = unique"
| "latest key proj (x # xs) unique =
    (case map_of unique (key x) of
       Some previous \<Rightarrow>
         if proj x \<le> proj previous then latest key proj xs unique
         else latest key proj xs (AList.update (key x) x unique)
     | None \<Rightarrow> latest key proj xs (AList.update (key x) x unique))"

definition projection_key :: "mrecord \<Rightarrow> u64 \<times> u32 \<times> u64" where
  "projection_key r = (rec_ts r, rec_turn_id r, rec_doc_id r)"

text \<open>A record with its id and its address in the index.\<close>

record 'a context_entry =
  ce_id :: str
  ce_record :: mrecord
  ce_address :: 'a

definition entry_order :: "'a context_entry \<Rightarrow> u32 \<times> u64 \<times> u64 \<times> str" where
  "entry_order e = (rec_turn_id (ce_record e), rec_ts (ce_record e), rec_doc_id (ce_record e), ce_id e)"

definition deduplicate_entries ::
    "('a context_entry list \<Rightarrow> 'a context_entry list) \<Rightarrow> 'a context_entry list \<Rightarrow> 'a context_entry list" where
  "deduplicate_entries vals es =
    sort_key entry_order (vals (map snd (latest ce_id (projection_key \<circ> ce_record) es [])))"

definition record_order :: "(str \<Rightarrow> str) \<Rightarrow> mrecord \<Rightarrow> u32 \<times> u64 \<times> u64 \<times> str" where
  "record_order hex r = (rec_turn_id r, rec_ts r, rec_doc_id r, canonical_record_id hex r)"

definition deduplicate_records ::
    "(str \<Rightarrow> str) \<Rightarrow> (mrecord list \<Rightarrow> mrecord list) \<Rightarrow> mrecord list \<Rightarrow> mrecord list" where
  "deduplicate_records hex vals rs =
    sort_key (record_order hex) (vals (map snd (latest (canonical_record_id hex) projection_key rs [])))"

section \<open>Selectors\<close>

datatype context_selector =
    RecordId str "str option" "source_kind option"
  | DocId u64 "str option" "source_kind option"
  | EventId str "str option" "source_kind option"

definition with_scope :: "context_selector \<Rightarrow> str option \<Rightarrow> source_kind option \<Rightarrow> context_selector" where
  "with_scope sel session source =
    (case sel of
       RecordId i _ _ \<Rightarrow> RecordId i session source
     | DocId i _ _ \<Rightarrow> DocId i session source
     | EventId i _ _ \<Rightarrow> EventId i session source)"

definition selector_matches :: "(str \<Rightarrow> str) \<Rightarrow> mrecord \<Rightarrow> context_selector \<Rightarrow> bool" where
  "selector_matches hex r sel =
    (let (session, source, matches) =
       (case sel of
          RecordId i session source \<Rightarrow> (session, source, canonical_record_id hex r = i)
        | DocId i session source \<Rightarrow> (session, source, rec_doc_id r = i)
        | EventId i session source \<Rightarrow> (session, source, lk_event_id (rec_links r) = Some i))
     in matches \<and> is_none_or (\<lambda>s. rec_session_id r = s) session
        \<and> is_none_or (\<lambda>s. rec_source r = s) source)"

datatype context_error =
    BeforeTooLarge | AfterTooLarge | AnchorNotFound | Ambiguous "str list" | NotInSession
  | TooManyInteractions nat | ReadFailed

text \<open>The lookups of \<open>SearchIndex\<close>; \<open>None\<close> of \<open>rs_by_canonical\<close> is an index without the field.\<close>

record record_source =
  rs_by_canonical :: "str \<Rightarrow> mrecord list option option"
  rs_by_scope :: "str option \<Rightarrow> source_kind option \<Rightarrow> mrecord list option"
  rs_by_doc :: "u64 \<Rightarrow> mrecord list option"
  rs_by_event :: "str \<Rightarrow> mrecord list option"

definition raw_candidates :: "record_source \<Rightarrow> context_selector \<Rightarrow> mrecord list option" where
  "raw_candidates src sel =
    (case sel of
       RecordId i session source \<Rightarrow> (case rs_by_canonical src i of
         None \<Rightarrow> None
       | Some (Some rs) \<Rightarrow> Some rs
       | Some None \<Rightarrow> rs_by_scope src session source)
     | DocId i _ _ \<Rightarrow> rs_by_doc src i
     | EventId i _ _ \<Rightarrow> rs_by_event src i)"

definition resolve_record ::
    "(str \<Rightarrow> str) \<Rightarrow> (mrecord list \<Rightarrow> mrecord list) \<Rightarrow> record_source \<Rightarrow> context_selector
     \<Rightarrow> context_error + mrecord" where
  "resolve_record hex vals src sel =
    (case raw_candidates src sel of
       None \<Rightarrow> Inl ReadFailed
     | Some raw \<Rightarrow>
         (case deduplicate_records hex vals (filter (\<lambda>r. selector_matches hex r sel) raw) of
            [] \<Rightarrow> Inl AnchorNotFound
          | [anchor] \<Rightarrow> Inr anchor
          | candidates \<Rightarrow> Inl (Ambiguous (map (canonical_record_id hex) candidates))))"

section \<open>Context\<close>

definition max_context_window :: nat where "max_context_window = 1000"
definition max_interaction_expansion :: nat where "max_interaction_expansion = 100"

record context_options =
  co_before :: nat
  co_after :: nat
  co_expand :: bool

definition context_options_default :: context_options where
  "context_options_default = \<lparr>co_before = 5, co_after = 5, co_expand = False\<rparr>"

definition validate_options :: "context_options \<Rightarrow> context_error option" where
  "validate_options o' =
    (if max_context_window < co_before o' then Some BeforeTooLarge
     else if max_context_window < co_after o' then Some AfterTooLarge else None)"

datatype context_relation = Before | Anchor | After | Interaction

record context_record =
  cr_record_id :: str
  cr_relation :: context_relation
  cr_distance :: int
  cr_record :: mrecord

definition tool_interaction_id :: "mrecord \<Rightarrow> str option" where
  "tool_interaction_id r =
    (if rec_role r = ''tool_use'' then lk_event_id (rec_links r)
     else if rec_role r = ''tool_result'' \<or> rec_role r = ''tool'' then lk_parent_tool_use_id (rec_links r)
     else None)"

text \<open>The reads of \<open>ContextReader\<close> over one snapshot of the index.\<close>

record 'a context_reader =
  rd_candidates :: "context_selector \<Rightarrow> 'a context_entry list option"
  rd_session :: "'a context_entry \<Rightarrow> bool \<Rightarrow> 'a context_entry list option"
  rd_hydrate :: "'a context_entry \<Rightarrow> mrecord option"

definition position_of :: "str \<Rightarrow> 'a context_entry list \<Rightarrow> nat option" where
  "position_of i es =
    (let n = length (takeWhile (\<lambda>e. ce_id e \<noteq> i) es) in if n < length es then Some n else None)"

text \<open>Whether the record at a position of the session is shown, and as what.\<close>

definition shown_as ::
    "str set \<Rightarrow> nat \<Rightarrow> nat \<Rightarrow> nat \<Rightarrow> nat \<Rightarrow> mrecord \<Rightarrow> (context_relation \<times> int) option" where
  "shown_as ids lo hi anchor position r =
    (if lo \<le> position \<and> position < hi
     then let distance = int position - int anchor
       in Some (if distance < 0 then Before else if distance = 0 then Anchor else After, distance)
     else if is_some_and (\<lambda>i. i \<in> ids) (tool_interaction_id r) then Some (Interaction, 0)
     else None)"

fun collect_shown ::
    "('a context_entry \<Rightarrow> mrecord option) \<Rightarrow> (nat \<Rightarrow> mrecord \<Rightarrow> (context_relation \<times> int) option)
     \<Rightarrow> nat \<Rightarrow> 'a context_entry list \<Rightarrow> context_record list option" where
  "collect_shown hydrate disp position [] = Some []"
| "collect_shown hydrate disp position (e # es) =
    (case disp position (ce_record e) of
       None \<Rightarrow> collect_shown hydrate disp (Suc position) es
     | Some (relation, distance) \<Rightarrow>
         (case hydrate e of
            None \<Rightarrow> None
          | Some r \<Rightarrow> map_option (\<lambda>rest. \<lparr>cr_record_id = ce_id e, cr_relation = relation,
              cr_distance = distance, cr_record = r\<rparr> # rest) (collect_shown hydrate disp (Suc position) es)))"

definition interaction_ids :: "bool \<Rightarrow> 'a context_entry list \<Rightarrow> str list" where
  "interaction_ids expand window =
    (if expand then remdups (List.map_filter (\<lambda>e. tool_interaction_id (ce_record e)) window) else [])"

definition expanded_positions :: "str set \<Rightarrow> nat \<Rightarrow> nat \<Rightarrow> 'a context_entry list \<Rightarrow> nat list" where
  "expanded_positions ids lo hi es =
    filter (\<lambda>position. \<not> (lo \<le> position \<and> position < hi)
        \<and> is_some_and (\<lambda>i. i \<in> ids) (tool_interaction_id (ce_record (es ! position)))) [0..<length es]"

definition context_window ::
    "('a context_entry \<Rightarrow> mrecord option) \<Rightarrow> context_options \<Rightarrow> str \<Rightarrow> nat \<Rightarrow> 'a context_entry list
     \<Rightarrow> context_error + (str \<times> context_record list)" where
  "context_window hydrate o' anchor_id anchor es =
    (let lo = anchor - co_before o';
         hi = min (anchor + co_after o' + 1) (length es);
         ids = set (interaction_ids (co_expand o') (take (hi - lo) (drop lo es)));
         expanded = length (expanded_positions ids lo hi es)
     in if max_interaction_expansion < expanded then Inl (TooManyInteractions expanded)
        else case collect_shown hydrate (shown_as ids lo hi anchor) 0 es of
          None \<Rightarrow> Inl ReadFailed
        | Some records \<Rightarrow> Inr (anchor_id, records))"

definition context_records ::
    "('a context_entry list \<Rightarrow> 'a context_entry list) \<Rightarrow> 'a context_reader \<Rightarrow> context_selector
     \<Rightarrow> context_options \<Rightarrow> context_error + (str \<times> context_record list)" where
  "context_records vals reader sel o' =
    (case validate_options o' of
       Some e \<Rightarrow> Inl e
     | None \<Rightarrow> (case rd_candidates reader sel of
         None \<Rightarrow> Inl ReadFailed
       | Some cs \<Rightarrow> (case deduplicate_entries vals cs of
           [] \<Rightarrow> Inl AnchorNotFound
         | [anchor] \<Rightarrow> (case rd_session reader anchor (co_expand o') of
             None \<Rightarrow> Inl ReadFailed
           | Some session \<Rightarrow>
               let es = deduplicate_entries vals session
               in case position_of (ce_id anchor) es of
                 None \<Rightarrow> Inl NotInSession
               | Some p \<Rightarrow> context_window (rd_hydrate reader) o' (ce_id anchor) p es)
         | candidates \<Rightarrow> Inl (Ambiguous (map ce_id candidates)))))"

section \<open>One projection per id\<close>

locale newest =
  fixes key :: "'a \<Rightarrow> str"
    and proj :: "'a \<Rightarrow> 'p :: linorder"
    and order :: "'a \<Rightarrow> 'o :: linorder"
  assumes order_key: "order x = order y \<Longrightarrow> key x = key y"
begin

definition holds_newest :: "'a list \<Rightarrow> (str \<times> 'a) list \<Rightarrow> bool" where
  "holds_newest xs m \<longleftrightarrow> distinct (map fst m) \<and> (\<forall>(k, x) \<in> set m. key x = k \<and> x \<in> set xs)
    \<and> (\<forall>x \<in> set xs. \<exists>y. map_of m (key x) = Some y \<and> proj x \<le> proj y)"

lemma holds_newest_update:
  assumes "holds_newest xs m" "\<And>y. map_of m (key x) = Some y \<Longrightarrow> proj y \<le> proj x"
  shows "holds_newest (xs @ [x]) (AList.update (key x) x m)"
proof -
  have "\<exists>z. map_of (AList.update (key x) x m) (key y) = Some z \<and> proj y \<le> proj z" if y: "y \<in> set (xs @ [x])" for y
  proof (cases "key y = key x")
    case True
    then have "y = x \<or> (\<exists>z. map_of m (key x) = Some z \<and> proj y \<le> proj z)"
      using y assms(1) by (auto simp: holds_newest_def)
    then show ?thesis using assms(2) True by (auto simp: update_conv' intro: order_trans)
  next
    case False
    then show ?thesis using y assms(1) by (auto simp: holds_newest_def update_conv')
  qed
  moreover have "distinct (map fst (AList.update (key x) x m))"
    using assms(1) by (simp add: holds_newest_def distinct_update)
  moreover have "\<forall>(k, y) \<in> set (AList.update (key x) x m). key y = k \<and> y \<in> set (xs @ [x])"
    using assms(1) by (auto simp: holds_newest_def dest!: set_updateD)
  ultimately show ?thesis unfolding holds_newest_def by blast
qed

lemma holds_newest_keep:
  "holds_newest xs m \<Longrightarrow> map_of m (key x) = Some y \<Longrightarrow> proj x \<le> proj y \<Longrightarrow> holds_newest (xs @ [x]) m"
  by (fastforce simp: holds_newest_def)

lemma latest_holds: "holds_newest seen m \<Longrightarrow> holds_newest (seen @ xs) (latest key proj xs m)"
proof (induction xs arbitrary: seen m)
  case (Cons x xs)
  have step: "holds_newest (seen @ [x]) m' \<Longrightarrow> holds_newest (seen @ x # xs) (latest key proj xs m')" for m'
    using Cons.IH [of "seen @ [x]" m'] by simp
  show ?case
  proof (cases "map_of m (key x)")
    case None
    then show ?thesis using step holds_newest_update [OF Cons.prems, of x] by simp
  next
    case (Some y)
    then show ?thesis
      using step holds_newest_update [OF Cons.prems, of x] holds_newest_keep [OF Cons.prems Some] by simp
  qed
qed simp

definition survivors :: "('a list \<Rightarrow> 'a list) \<Rightarrow> 'a list \<Rightarrow> 'a list" where
  "survivors vals xs = sort_key order (vals (map snd (latest key proj xs [])))"

lemma survivors_spec:
  assumes "\<And>ys. mset (vals ys) = mset ys"
  shows "sorted (map order (survivors vals xs)) \<and> distinct (map key (survivors vals xs))
    \<and> set (survivors vals xs) \<subseteq> set xs
    \<and> (\<forall>x \<in> set xs. \<exists>y \<in> set (survivors vals xs). key y = key x \<and> proj x \<le> proj y)"
proof -
  let ?m = "latest key proj xs []"
  have m: "distinct (map fst ?m)" "\<forall>(k, x) \<in> set ?m. key x = k \<and> x \<in> set xs"
    "\<forall>x \<in> set xs. \<exists>y. map_of ?m (key x) = Some y \<and> proj x \<le> proj y"
    using latest_holds [of "[]" "[]" xs] by (auto simp: holds_newest_def)
  have same: "mset (survivors vals xs) = mset (map snd ?m)" by (simp add: survivors_def assms)
  then have mem: "set (survivors vals xs) = snd ` set ?m" by (metis set_map set_mset_mset)
  have "map key (map snd ?m) = map fst ?m" using m(2) by (auto intro!: map_cong)
  then have "mset (map key (survivors vals xs)) = mset (map fst ?m)" using same by (metis mset_map)
  then have "distinct (map key (survivors vals xs))" using m(1) by (metis mset_eq_imp_distinct_iff)
  moreover have "\<exists>y \<in> snd ` set ?m. key y = key x \<and> proj x \<le> proj y" if x: "x \<in> set xs" for x
  proof -
    obtain y where y: "map_of ?m (key x) = Some y" "proj x \<le> proj y" using m(3) x by blast
    have "(key x, y) \<in> set ?m" using y(1) by (rule map_of_SomeD)
    then have "y \<in> snd ` set ?m" "key y = key x" using m(2) by (auto intro: rev_image_eqI)
    then show ?thesis using y(2) by blast
  qed
  moreover have "set (survivors vals xs) \<subseteq> set xs" using m(2) by (auto simp: mem)
  moreover have "sorted (map order (survivors vals xs))" by (simp add: survivors_def)
  ultimately show ?thesis by (simp add: mem)
qed

text \<open>Without ties neither the order of the candidates nor that of the hash map matters.\<close>

lemma survivors_determined:
  assumes vals: "\<And>ys. mset (vals ys) = mset ys" "\<And>ys. mset (vals' ys) = mset ys"
    and same: "set xs = set xs'"
    and ties: "\<And>x y. x \<in> set xs \<Longrightarrow> y \<in> set xs \<Longrightarrow> key x = key y \<Longrightarrow> proj x = proj y \<Longrightarrow> x = y"
  shows "survivors vals xs = survivors vals' xs'"
proof -
  let ?s = "survivors vals xs" and ?t = "survivors vals' xs'"
  have s: "sorted (map order ?s)" "distinct (map key ?s)" "set ?s \<subseteq> set xs"
    "\<forall>x \<in> set xs. \<exists>y \<in> set ?s. key y = key x \<and> proj x \<le> proj y"
    using survivors_spec [of vals xs, OF vals(1)] by blast+
  have t: "sorted (map order ?t)" "distinct (map key ?t)" "set ?t \<subseteq> set xs"
    "\<forall>x \<in> set xs. \<exists>y \<in> set ?t. key y = key x \<and> proj x \<le> proj y"
    using survivors_spec [of vals' xs', OF vals(2)] unfolding same by blast+
  have once: "x = y" if "x \<in> set ds" "y \<in> set ds" "key x = key y" "distinct (map key ds)" for x y ds
    using that by (meson distinct_map inj_onD)
  have sub: "set ds \<subseteq> set ds'"
    if h: "set ds \<subseteq> set xs" "\<forall>x \<in> set xs. \<exists>y \<in> set ds. key y = key x \<and> proj x \<le> proj y" "distinct (map key ds)"
      "set ds' \<subseteq> set xs" "\<forall>x \<in> set xs. \<exists>y \<in> set ds'. key y = key x \<and> proj x \<le> proj y" for ds ds'
  proof
    fix x assume x: "x \<in> set ds"
    then obtain y where y: "y \<in> set ds'" "key y = key x" "proj x \<le> proj y" using h(1,5) by blast
    then obtain z where z: "z \<in> set ds" "key z = key y" "proj y \<le> proj z" using h(2,4) by blast
    have "z = x" using once [OF z(1) x] z(2) y(2) h(3) by simp
    then have "proj x = proj y" using y(3) z(3) by simp
    then have "x = y" using ties [of x y] x y(1,2) h(1,4) by auto
    then show "x \<in> set ds'" using y(1) by simp
  qed
  have eq: "set ?s = set ?t" using sub [OF s(3,4,2) t(3,4)] sub [OF t(3,4,2) s(3,4)] by (rule subset_antisym)
  have inj: "inj_on order (set ?s)" using once [OF _ _ order_key s(2)] by (rule inj_onI)
  have "distinct (map order ds)" if "distinct (map key ds)" for ds
    using that order_key unfolding distinct_conv_nth by (metis length_map nth_map)
  then have "map order ?s = map order ?t"
    using s(1,2) t(1,2) eq by (intro sorted_distinct_set_unique) simp_all
  then show ?thesis using inj eq by (intro map_inj_on [of order]) simp_all
qed

end

interpretation entries: newest ce_id "projection_key \<circ> ce_record" entry_order
  by unfold_locales (simp add: entry_order_def)

interpretation records: newest "canonical_record_id hex" projection_key "record_order hex"
  by unfold_locales (simp add: record_order_def)

lemma deduplicate_entries_survivors: "deduplicate_entries vals es = entries.survivors vals es"
  by (simp add: deduplicate_entries_def entries.survivors_def)

lemma deduplicate_records_survivors: "deduplicate_records hex vals rs = records.survivors hex vals rs"
  by (simp add: deduplicate_records_def records.survivors_def)

section \<open>What a canonical id identifies\<close>

text \<open>The source-native identity of a record: a physical offset, an event, a tool use or a turn.\<close>

datatype native_identity =
    Offset str str u64
  | NativeEvent str str
  | NativeToolUse str str
  | Turn str str u32

definition event_scope :: "mrecord \<Rightarrow> str" where
  "event_scope r = (if rec_session_id r = '''' then rec_source_path r else rec_session_id r)"

definition native_identity :: "mrecord \<Rightarrow> native_identity" where
  "native_identity r =
    (case (lk_source_record_offset (rec_links r), lk_event_id (rec_links r), lk_source_tool_use_id (rec_links r)) of
       (Some offset, _, _) \<Rightarrow> Offset (rec_session_id r) (rec_source_path r) offset
     | (None, Some e, _) \<Rightarrow> NativeEvent (event_scope r) e
     | (None, None, t) \<Rightarrow>
         (if rec_role r = ''tool_use'' \<and> t \<noteq> None then NativeToolUse (event_scope r) (the t)
          else Turn (rec_session_id r) (rec_source_path r)
            (unwrap_or (rec_turn_id r) (lk_legacy_turn_id (rec_links r)))))"

definition record_identity :: "mrecord \<Rightarrow> str \<times> native_identity \<times> str \<times> str" where
  "record_identity r =
    (source_storage_label (rec_source r), native_identity r, rec_role r, unwrap_or '''' (rec_tool_name r))"

fun native_fields :: "native_identity \<Rightarrow> str list" where
  "native_fields (Offset s p n) = [''session'', s, ''source-path'', p, ''source-record-offset'', decimal (unat n)]"
| "native_fields (NativeEvent s e) = [''session'', s, ''event'', e]"
| "native_fields (NativeToolUse s t) = [''session'', s, ''source-tool-use'', t]"
| "native_fields (Turn s p n) = [''session'', s, ''source-path'', p, ''turn'', decimal (unat n)]"

lemma identity_fields_native:
  "identity_fields r = [''version'', id_version, ''source'', source_storage_label (rec_source r)]
    @ native_fields (native_identity r) @ [''role'', rec_role r, ''tool'', unwrap_or '''' (rec_tool_name r)]"
proof (cases "lk_source_record_offset (rec_links r)")
  case None
  then show ?thesis
    by (cases "lk_event_id (rec_links r)"; cases "lk_source_tool_use_id (rec_links r)")
      (simp_all add: identity_fields_def hash_field_def native_identity_def has_native_event_def
        has_native_tool_def event_scope_def)
qed (simp add: identity_fields_def hash_field_def native_identity_def)

lemma native_fields_inject:
  "native_fields x @ [''role'', r, ''tool'', t] = native_fields y @ [''role'', r', ''tool'', t'] \<longleftrightarrow>
    x = y \<and> r = r' \<and> t = t'"
proof -
  have unat: "unat a = unat b \<Longrightarrow> a = b" for a b :: "'w :: len word" by (rule word_unat_eq_iff [THEN iffD2])
  show ?thesis by (cases x; cases y) (auto intro: unat)
qed

lemma identity_fields_iff: "identity_fields r = identity_fields r' \<longleftrightarrow> record_identity r = record_identity r'"
  by (auto simp: identity_fields_native record_identity_def native_fields_inject)

lemma hashed_bytes_iff:
  assumes "\<forall>b \<in> set (identity_fields r) \<union> set (identity_fields r'). length b < 2 ^ 64"
  shows "hashed_bytes r = hashed_bytes r' \<longleftrightarrow> record_identity r = record_identity r'"
proof -
  have "hashed_bytes r = hashed_bytes r' \<longleftrightarrow> identity_fields r = identity_fields r'"
  proof
    assume "hashed_bytes r = hashed_bytes r'"
    then show "identity_fields r = identity_fields r'"
      unfolding hashed_bytes_def by (rule concat_prefixed_inject) (use assms in simp_all)
  qed (simp add: hashed_bytes_def)
  then show ?thesis by (simp add: identity_fields_iff)
qed

text \<open>
  C31: The canonical id identifies a record and nothing else: two records have the same id exactly when
  they agree on source, role, tool name and their native identity, which is the physical offset with
  session and file when the parser has one, else the native event or tool use within its session, else
  the turn within session and file. No text runs over into a neighbouring field. The hash must separate
  the two byte strings.
\<close>

theorem canonical_id_identity:
  assumes "inj_on hex {hashed_bytes r, hashed_bytes r'}"
    and "\<forall>b \<in> set (identity_fields r) \<union> set (identity_fields r'). length b < 2 ^ 64"
  shows "canonical_record_id hex r = canonical_record_id hex r' \<longleftrightarrow>
    source_storage_label (rec_source r) = source_storage_label (rec_source r')
    \<and> native_identity r = native_identity r' \<and> rec_role r = rec_role r'
    \<and> unwrap_or '''' (rec_tool_name r) = unwrap_or '''' (rec_tool_name r')"
proof -
  have "canonical_record_id hex r = canonical_record_id hex r' \<longleftrightarrow> hashed_bytes r = hashed_bytes r'"
    using inj_on_eq_iff [OF assms(1), of "hashed_bytes r" "hashed_bytes r'"] by (simp add: canonical_record_id_def)
  then show ?thesis using hashed_bytes_iff [OF assms(2)] by (simp add: record_identity_def)
qed

text \<open>A record to instantiate the properties with.\<close>

definition sample_record :: "u32 \<Rightarrow> str \<Rightarrow> mrecord" where
  "sample_record turn role = \<lparr>rec_source = Codex, rec_doc_id = ucast turn, rec_ts = 7, rec_project = ''p'',
     rec_session_id = ''s'', rec_turn_id = turn, rec_role = role, rec_text = ''t'', rec_tool_name = None,
     rec_tool_input = None, rec_tool_output = None, rec_links = default_links, rec_source_path = ''f''\<rparr>"

lemma canonical_id_identity_witness:
  "canonical_record_id (\<lambda>b. b) (sample_record 1 ''user'') \<noteq> canonical_record_id (\<lambda>b. b) (sample_record 2 ''user'')"
proof -
  have short: "\<forall>b \<in> set (identity_fields (sample_record 1 ''user'')) \<union> set (identity_fields (sample_record 2 ''user'')).
      length b < 2 ^ 64"
    by (simp add: identity_fields_native native_identity_def sample_record_def default_links_def unwrap_or_def
      id_version_def decimal.simps)
  have differ: "native_identity (sample_record 1 ''user'') \<noteq> native_identity (sample_record 2 ''user'')"
    by (simp add: native_identity_def sample_record_def default_links_def unwrap_or_def)
  show ?thesis
    using canonical_id_identity [of "\<lambda>b. b" "sample_record 1 ''user''" "sample_record 2 ''user''", OF _ short] differ
    by simp
qed

section \<open>Resolving a selector\<close>

lemma length_one: "length xs = 1 \<Longrightarrow> \<exists>x. xs = [x]"
  by (cases xs) auto

text \<open>
  C32: A selector resolves to one record or says why not: it finds nothing exactly when no candidate
  matches, it is ambiguous exactly when the matching candidates have several canonical ids, which it
  lists once each, and otherwise it gives the newest projection of the one record they are. The hash
  map's order is arbitrary.
\<close>

theorem resolve_record_cases:
  assumes "\<And>ys. mset (vals ys) = mset ys" "raw_candidates src sel = Some raw"
  shows "(let ms = filter (\<lambda>r. selector_matches hex r sel) raw
    in case resolve_record hex vals src sel of
      Inr r \<Rightarrow> r \<in> set ms \<and> (\<forall>x \<in> set ms. canonical_record_id hex x = canonical_record_id hex r
          \<and> projection_key x \<le> projection_key r)
    | Inl e \<Rightarrow> e = AnchorNotFound \<and> ms = []
        \<or> (\<exists>ids. e = Ambiguous ids \<and> 2 \<le> length ids \<and> distinct ids \<and> set ids = canonical_record_id hex ` set ms))"
proof -
  let ?ms = "filter (\<lambda>r. selector_matches hex r sel) raw"
  let ?ds = "deduplicate_records hex vals ?ms"
  have ds: "distinct (map (canonical_record_id hex) ?ds)" "set ?ds \<subseteq> set ?ms"
    "\<forall>x \<in> set ?ms. \<exists>y \<in> set ?ds. canonical_record_id hex y = canonical_record_id hex x
        \<and> projection_key x \<le> projection_key y"
    using records.survivors_spec [of vals hex ?ms, OF assms(1)]
    unfolding deduplicate_records_survivors by blast+
  have r: "resolve_record hex vals src sel =
      (case ?ds of [] \<Rightarrow> Inl AnchorNotFound | [anchor] \<Rightarrow> Inr anchor
       | candidates \<Rightarrow> Inl (Ambiguous (map (canonical_record_id hex) candidates)))"
    by (simp add: resolve_record_def assms(2))
  consider "?ds = []" | x where "?ds = [x]" | x y zs where "?ds = x # y # zs"
    by (metis list.exhaust)
  then show ?thesis
  proof cases
    case 1
    have "\<forall>x \<in> set ?ms. False" using ds(3) unfolding 1 by simp
    then have "?ms = []" by (metis list.set_intros(1) neq_Nil_conv)
    moreover have "resolve_record hex vals src sel = Inl AnchorNotFound" unfolding r 1 by simp
    ultimately show ?thesis by (simp only: Let_def) simp
  next
    case (2 x)
    have mem: "x \<in> set ?ms" using ds(2) unfolding 2 by simp
    have newest: "\<forall>z \<in> set ?ms. canonical_record_id hex z = canonical_record_id hex x
        \<and> projection_key z \<le> projection_key x"
    proof
      fix z assume "z \<in> set ?ms"
      then obtain y where "y \<in> set [x]" "canonical_record_id hex y = canonical_record_id hex z"
        "projection_key z \<le> projection_key y" using ds(3) unfolding 2 by blast
      then show "canonical_record_id hex z = canonical_record_id hex x \<and> projection_key z \<le> projection_key x"
        by simp
    qed
    have res: "resolve_record hex vals src sel = Inr x" unfolding r 2 by simp
    show ?thesis unfolding Let_def res sum.case using mem newest by (rule conjI)
  next
    case (3 x y zs)
    have ids: "canonical_record_id hex ` set ?ds = canonical_record_id hex ` set ?ms"
    proof (rule subset_antisym)
      show "canonical_record_id hex ` set ?ds \<subseteq> canonical_record_id hex ` set ?ms" using ds(2) by (rule image_mono)
      show "canonical_record_id hex ` set ?ms \<subseteq> canonical_record_id hex ` set ?ds"
      proof
        fix i assume "i \<in> canonical_record_id hex ` set ?ms"
        then obtain x where x: "x \<in> set ?ms" "i = canonical_record_id hex x" by (rule imageE)
        then obtain y where "y \<in> set ?ds" "canonical_record_id hex y = i" using ds(3) by blast
        then show "i \<in> canonical_record_id hex ` set ?ds" by (metis imageI)
      qed
    qed
    have res: "resolve_record hex vals src sel = Inl (Ambiguous (map (canonical_record_id hex) ?ds))"
      unfolding r 3 by simp
    have two: "2 \<le> length (map (canonical_record_id hex) ?ds)" unfolding 3 by simp
    show ?thesis unfolding Let_def res sum.case using two ds(1) ids
      by (intro disjI2 exI [of _ "map (canonical_record_id hex) ?ds"] conjI) (simp_all only: set_map)
  qed
qed

lemma resolve_record_cases_witness:
  "let src = \<lparr>rs_by_canonical = \<lambda>_. None, rs_by_scope = \<lambda>_ _. None,
       rs_by_doc = \<lambda>_. Some [sample_record 1 ''user'', sample_record 1 ''user''], rs_by_event = \<lambda>_. None\<rparr>;
     ms = filter (\<lambda>r. selector_matches (\<lambda>b. b) r (DocId 1 None None)) [sample_record 1 ''user'', sample_record 1 ''user'']
   in case resolve_record (\<lambda>b. b) (\<lambda>ys. ys) src (DocId 1 None None) of
      Inr r \<Rightarrow> r \<in> set ms \<and> (\<forall>x \<in> set ms. canonical_record_id (\<lambda>b. b) x = canonical_record_id (\<lambda>b. b) r
          \<and> projection_key x \<le> projection_key r)
    | Inl e \<Rightarrow> e = AnchorNotFound \<and> ms = []
        \<or> (\<exists>ids. e = Ambiguous ids \<and> 2 \<le> length ids \<and> distinct ids \<and> set ids = canonical_record_id (\<lambda>b. b) ` set ms)"
  unfolding Let_def
  by (rule resolve_record_cases [unfolded Let_def]) (simp_all add: raw_candidates_def)

section \<open>The neighbourhood\<close>

lemma map_filter_cong: "(\<And>x. x \<in> set xs \<Longrightarrow> f x = g x) \<Longrightarrow> List.map_filter f xs = List.map_filter g xs"
  by (induction xs) (simp_all add: map_filter_simps split: option.splits)

lemma collect_shown_positions:
  "collect_shown hydrate disp k es = Some rs \<Longrightarrow>
    map (\<lambda>c. (cr_record_id c, cr_relation c, cr_distance c)) rs =
    List.map_filter (\<lambda>j. map_option (Pair (ce_id (es ! (j - k)))) (disp j (ce_record (es ! (j - k)))))
      [k..<k + length es]"
proof (induction hydrate disp k es arbitrary: rs rule: collect_shown.induct)
  case (2 hydrate disp k e es)
  let ?f = "\<lambda>j. map_option (Pair (ce_id ((e # es) ! (j - k)))) (disp j (ce_record ((e # es) ! (j - k))))"
  let ?g = "\<lambda>j. map_option (Pair (ce_id (es ! (j - Suc k)))) (disp j (ce_record (es ! (j - Suc k))))"
  define later where "later = [Suc k..<Suc k + length es]"
  have upt: "[k..<k + length (e # es)] = k # later"
    using upt_conv_Cons [of k "k + length (e # es)"] by (simp add: later_def)
  have same: "List.map_filter ?f later = List.map_filter ?g later"
    by (rule map_filter_cong) (auto simp: later_def nth_Cons')
  have split: "List.map_filter ?f [k..<k + length (e # es)] =
      (case disp k (ce_record e) of Some d \<Rightarrow> (ce_id e, d) # List.map_filter ?g later
        | None \<Rightarrow> List.map_filter ?g later)"
    unfolding upt using same by (cases "disp k (ce_record e)") (simp_all add: map_filter_simps)
  show ?case
  proof (cases "disp k (ce_record e)")
    case None
    then show ?thesis unfolding split using "2.IH"(1) "2.prems" by (simp add: later_def del: upt_Suc)
  next
    case (Some x)
    obtain relation distance where x: "x = (relation, distance)" by (cases x)
    from "2.prems" Some x obtain r rest where h: "hydrate e = Some r"
      "collect_shown hydrate disp (Suc k) es = Some rest"
      "rs = \<lparr>cr_record_id = ce_id e, cr_relation = relation, cr_distance = distance, cr_record = r\<rparr> # rest"
      by (auto split: option.splits)
    show ?thesis unfolding split using "2.IH"(2) [OF Some x [symmetric] h(1,2)] Some x h(3)
      by (simp add: later_def del: upt_Suc)
  qed
qed (simp add: map_filter_simps)

lemma map_filter_filter: "filter P (List.map_filter f xs) =
    List.map_filter (\<lambda>x. case f x of Some y \<Rightarrow> if P y then Some y else None | None \<Rightarrow> None) xs"
  by (induction xs) (simp_all add: map_filter_simps split: option.splits)

lemma map_filter_if: "List.map_filter (\<lambda>x. if P x then Some (g x) else None) xs = map g (filter P xs)"
  by (induction xs) (simp_all add: map_filter_simps)

lemma filter_interval: "hi \<le> n \<Longrightarrow> filter (\<lambda>j. lo \<le> j \<and> j < hi) [0..<n] = [lo..<hi]"
proof -
  assume "hi \<le> n"
  then have "[0..<n] = [0..<hi] @ [hi..<n]" using upt_add_eq_append [of 0 hi "n - hi"] by simp
  moreover have "filter (\<lambda>j. lo \<le> j \<and> j < hi) [hi..<n] = []" by (simp add: filter_empty_conv)
  moreover have "filter (\<lambda>j. lo \<le> j \<and> j < hi) [0..<hi] = [lo..<hi]"
  proof (cases "lo \<le> hi")
    case True
    then have "[0..<hi] = [0..<lo] @ [lo..<hi]" using upt_add_eq_append [of 0 lo "hi - lo"] by simp
    then show ?thesis by (simp add: filter_empty_conv filter_id_conv)
  qed (auto simp: filter_empty_conv)
  ultimately show ?thesis by simp
qed

text \<open>The records in the window, and the ones interactions add, position by position.\<close>

lemma window_records:
  assumes "context_window hydrate o' i p es = Inr (i', records)" "p < length es"
  defines "lo \<equiv> p - co_before o'" and "hi \<equiv> min (p + co_after o' + 1) (length es)"
  shows "i' = i
    \<and> map (\<lambda>c. (cr_record_id c, cr_distance c)) (filter (\<lambda>c. cr_relation c \<noteq> Interaction) records) =
        map (\<lambda>j. (ce_id (es ! j), int j - int p)) [lo..<hi]
    \<and> map cr_record_id (filter (\<lambda>c. cr_relation c = Interaction) records) =
        map (\<lambda>j. ce_id (es ! j)) (expanded_positions
          (set (interaction_ids (co_expand o') (take (hi - lo) (drop lo es)))) lo hi es)
    \<and> length (filter (\<lambda>c. cr_relation c = Interaction) records) \<le> max_interaction_expansion
    \<and> (\<forall>c \<in> set records. cr_relation c = Anchor \<longrightarrow> cr_distance c = 0)"
proof -
  let ?ids = "set (interaction_ids (co_expand o') (take (hi - lo) (drop lo es)))"
  let ?show = "shown_as ?ids lo hi p"
  have few: "length (expanded_positions ?ids lo hi es) \<le> max_interaction_expansion"
    and c: "collect_shown hydrate ?show 0 es = Some records" "i' = i"
    using assms(1) by (auto simp: context_window_def Let_def lo_def hi_def split: if_splits option.splits)
  let ?t = "map (\<lambda>c. (cr_record_id c, cr_relation c, cr_distance c)) records"
  let ?f = "\<lambda>j. map_option (Pair (ce_id (es ! j))) (?show j (ce_record (es ! j)))"
  have t: "?t = List.map_filter ?f [0..<length es]"
    using collect_shown_positions [OF c(1)] by simp
  have in_window: "(case ?f j of Some y \<Rightarrow> if fst (snd y) \<noteq> Interaction then Some y else None | None \<Rightarrow> None) =
      (if lo \<le> j \<and> j < hi then Some (ce_id (es ! j), if int j < int p then Before else if j = p then Anchor else After, int j - int p)
       else None)" for j
    by (auto simp: shown_as_def Let_def split: option.splits if_splits)
  have outside: "(case ?f j of Some y \<Rightarrow> if fst (snd y) = Interaction then Some y else None | None \<Rightarrow> None) =
      (if \<not> (lo \<le> j \<and> j < hi) \<and> is_some_and (\<lambda>i. i \<in> ?ids) (tool_interaction_id (ce_record (es ! j)))
       then Some (ce_id (es ! j), Interaction, 0) else None)" for j
    by (auto simp: shown_as_def Let_def split: option.splits if_splits)
  have hi: "hi \<le> length es" by (simp add: hi_def)
  have linear: "filter (\<lambda>y. fst (snd y) \<noteq> Interaction) ?t = map (\<lambda>j. (ce_id (es ! j),
      if int j < int p then Before else if j = p then Anchor else After, int j - int p)) [lo..<hi]"
    unfolding t map_filter_filter in_window map_filter_if filter_interval [OF hi] ..
  have added: "filter (\<lambda>y. fst (snd y) = Interaction) ?t =
      map (\<lambda>j. (ce_id (es ! j), Interaction, 0)) (expanded_positions ?ids lo hi es)"
    unfolding t map_filter_filter outside map_filter_if expanded_positions_def ..
  have "map (\<lambda>c. (cr_record_id c, cr_distance c)) (filter (\<lambda>c. cr_relation c \<noteq> Interaction) records) =
      map (\<lambda>y. (fst y, snd (snd y))) (filter (\<lambda>y. fst (snd y) \<noteq> Interaction) ?t)"
    by (simp add: filter_map comp_def)
  moreover have "map cr_record_id (filter (\<lambda>c. cr_relation c = Interaction) records) =
      map fst (filter (\<lambda>y. fst (snd y) = Interaction) ?t)"
    by (simp add: filter_map comp_def)
  moreover have "length (filter (\<lambda>c. cr_relation c = Interaction) records) = length (filter (\<lambda>y. fst (snd y) = Interaction) ?t)"
    by (simp add: filter_map comp_def)
  moreover have "cr_distance c = 0" if "c \<in> set records" "cr_relation c = Anchor" for c
  proof -
    have "(cr_record_id c, cr_relation c, cr_distance c) \<in> set (filter (\<lambda>y. fst (snd y) \<noteq> Interaction) ?t)"
      using that by force
    then show ?thesis unfolding linear using that(2) by (auto split: if_splits)
  qed
  ultimately show ?thesis using few c(2) unfolding linear added by (simp add: comp_def)
qed

lemma deduplicated_position:
  assumes "\<And>ys. mset (vals ys) = mset ys" "position_of i (deduplicate_entries vals es) = Some p"
  shows "p < length (deduplicate_entries vals es) \<and> ce_id (deduplicate_entries vals es ! p) = i
    \<and> (\<forall>j < length (deduplicate_entries vals es). ce_id (deduplicate_entries vals es ! j) = i \<longrightarrow> j = p)"
proof -
  let ?ds = "deduplicate_entries vals es"
  have p: "p < length ?ds" "p = length (takeWhile (\<lambda>e. ce_id e \<noteq> i) ?ds)"
    using assms(2) by (auto simp: position_of_def Let_def split: if_splits)
  then have i: "ce_id (?ds ! p) = i" using nth_length_takeWhile [of "\<lambda>e. ce_id e \<noteq> i" ?ds] by simp
  have "distinct (map ce_id ?ds)"
    using entries.survivors_spec [of vals es, OF assms(1)] unfolding deduplicate_entries_survivors by blast
  then have "j = p" if "j < length ?ds" "ce_id (?ds ! j) = i" for j
    using that p(1) i by (metis distinct_conv_nth length_map nth_map)
  then show ?thesis using p(1) i by blast
qed

lemma deduplicate_entries_ids:
  assumes "\<And>ys. mset (vals ys) = mset ys"
  shows "set (deduplicate_entries vals cs) \<subseteq> set cs
    \<and> ce_id ` set cs = ce_id ` set (deduplicate_entries vals cs)"
proof -
  note spec = entries.survivors_spec [of vals cs, OF assms, folded deduplicate_entries_survivors]
  have sub: "set (deduplicate_entries vals cs) \<subseteq> set cs" using spec by blast
  moreover have "ce_id x \<in> ce_id ` set (deduplicate_entries vals cs)" if "x \<in> set cs" for x
    using spec that by (metis imageI)
  ultimately show ?thesis by blast
qed

lemma context_records_inr:
  assumes "context_records vals reader sel o' = Inr (i, records)"
  shows "\<exists>cs anchor session p. rd_candidates reader sel = Some cs \<and> deduplicate_entries vals cs = [anchor]
    \<and> rd_session reader anchor (co_expand o') = Some session
    \<and> position_of (ce_id anchor) (deduplicate_entries vals session) = Some p
    \<and> context_window (rd_hydrate reader) o' (ce_id anchor) p (deduplicate_entries vals session) = Inr (i, records)"
  using assms by (auto simp: context_records_def Let_def split: option.splits list.splits)

text \<open>
  C33: A context answer is exact and bounded. Its anchor is the only candidate id; the linear part is
  precisely the records of the anchor's session, one per id and in order, from at most \<open>before\<close> before
  it to at most \<open>after\<close> after it, each with its signed distance; what interaction expansion adds is
  exactly the records outside that window that belong to a tool call in it, never more than a hundred;
  so no answer has more than 2101 records.
\<close>

theorem context_records_exact:
  assumes "\<And>ys. mset (vals ys) = mset ys" "context_records vals reader sel o' = Inr (i, records)"
  shows "\<exists>cs anchor session p.
    rd_candidates reader sel = Some cs \<and> ce_id ` set cs = {i} \<and> anchor \<in> set cs
    \<and> rd_session reader anchor (co_expand o') = Some session
    \<and> (let es = deduplicate_entries vals session; lo = p - co_before o'; hi = min (p + co_after o' + 1) (length es);
           expanded = expanded_positions (set (interaction_ids (co_expand o') (take (hi - lo) (drop lo es)))) lo hi es
       in p < length es \<and> ce_id (es ! p) = i
        \<and> map (\<lambda>c. (cr_record_id c, cr_distance c)) (filter (\<lambda>c. cr_relation c \<noteq> Interaction) records) =
            map (\<lambda>j. (ce_id (es ! j), int j - int p)) [lo..<hi]
        \<and> map cr_record_id (filter (\<lambda>c. cr_relation c = Interaction) records) = map (\<lambda>j. ce_id (es ! j)) expanded
        \<and> length expanded \<le> 100)
    \<and> length records \<le> 2101"
proof -
  have bounds: "co_before o' \<le> 1000" "co_after o' \<le> 1000"
    using assms(2) by (auto simp: context_records_def validate_options_def max_context_window_def split: if_splits)
  obtain cs anchor session p where x: "rd_candidates reader sel = Some cs" "deduplicate_entries vals cs = [anchor]"
    "rd_session reader anchor (co_expand o') = Some session"
    "position_of (ce_id anchor) (deduplicate_entries vals session) = Some p"
    "context_window (rd_hydrate reader) o' (ce_id anchor) p (deduplicate_entries vals session) = Inr (i, records)"
    using context_records_inr [OF assms(2)] by blast
  have "set (deduplicate_entries vals cs) \<subseteq> set cs \<and> ce_id ` set cs = ce_id ` set (deduplicate_entries vals cs)"
    by (rule deduplicate_entries_ids [OF assms(1)])
  then have one: "anchor \<in> set cs" "ce_id ` set cs = {ce_id anchor}" unfolding x(2) by simp_all
  let ?es = "deduplicate_entries vals session"
  note p = deduplicated_position [OF assms(1) x(4)]
  then have lt: "p < length ?es" by blast
  note w = window_records [OF x(5) lt]
  then have i: "i = ce_id anchor" by blast
  have "length records = length (filter (\<lambda>c. cr_relation c \<noteq> Interaction) records)
      + length (filter (\<lambda>c. cr_relation c = Interaction) records)"
    using sum_length_filter_compl [of "\<lambda>c. cr_relation c = Interaction" records] by simp
  moreover have "length (filter (\<lambda>c. cr_relation c \<noteq> Interaction) records) \<le> 2001"
  proof -
    have "length (filter (\<lambda>c. cr_relation c \<noteq> Interaction) records) =
        min (p + co_after o' + 1) (length ?es) - (p - co_before o')"
      using arg_cong [OF conjunct1 [OF conjunct2 [OF w]], of length] by simp
    then show ?thesis using bounds by linarith
  qed
  moreover have few: "length (filter (\<lambda>c. cr_relation c = Interaction) records) \<le> 100"
    using w by (simp add: max_interaction_expansion_def)
  ultimately have "length records \<le> 2101" by linarith
  moreover have "ce_id ` set cs = {i}" using one(2) i by simp
  ultimately have ends: "length records \<le> 2101" "ce_id ` set cs = {i}" by (blast, blast)
  have added: "length (expanded_positions (set (interaction_ids (co_expand o') (take
        (min (p + co_after o' + 1) (length ?es) - (p - co_before o')) (drop (p - co_before o') ?es))))
        (p - co_before o') (min (p + co_after o' + 1) (length ?es)) ?es) \<le> 100"
    using few arg_cong [OF conjunct1 [OF conjunct2 [OF conjunct2 [OF w]]], of length] by simp
  show ?thesis
    unfolding Let_def
    by (rule exI [of _ cs], rule exI [of _ anchor], rule exI [of _ session], rule exI [of _ p])
      (intro conjI x(1,3) one(1) ends lt added conjunct1 [OF conjunct2 [OF w]]
        conjunct1 [OF conjunct2 [OF conjunct2 [OF w]]], simp add: p i)
qed

definition sample_reader :: "nat context_reader" where
  "sample_reader =
    (let e = \<lparr>ce_id = ''rid'', ce_record = sample_record 1 ''user'', ce_address = 0\<rparr>
     in \<lparr>rd_candidates = \<lambda>_. Some [e, e], rd_session = \<lambda>_ _. Some [e, e], rd_hydrate = \<lambda>e. Some (ce_record e)\<rparr>)"

lemma context_records_exact_witness:
  "\<exists>i records. context_records (\<lambda>ys. ys) sample_reader (RecordId ''rid'' None None) context_options_default = Inr (i, records)
    \<and> map cr_distance records = [0] \<and> length records \<le> 2101"
proof -
  have "\<exists>r. context_records (\<lambda>ys. ys) sample_reader (RecordId ''rid'' None None) context_options_default =
      Inr (''rid'', [r]) \<and> cr_distance r = 0"
    by (simp add: context_records_def sample_reader_def validate_options_def context_options_default_def
      max_context_window_def deduplicate_entries_def position_of_def context_window_def Let_def
      expanded_positions_def interaction_ids_def shown_as_def max_interaction_expansion_def)
  then obtain r where r: "cr_distance r = 0"
    "context_records (\<lambda>ys. ys) sample_reader (RecordId ''rid'' None None) context_options_default = Inr (''rid'', [r])"
    by blast
  have "length [r] \<le> 2101"
    using context_records_exact [of "\<lambda>ys. ys", OF refl r(2)] by blast
  then show ?thesis using r by (intro exI [of _ "''rid''"] exI [of _ "[r]"]) simp
qed

end
