(* ===== verification/OAuth.thy ===== *)
theory OAuth
  imports WebAuth
begin

text \<open>
  The OAuth authorization server of \<open>src/mcp/oauth.rs\<close>: its SQLite tables as lists of rows with the
  constraints the schema declares, the pending approvals kept in memory, and one definition per request
  handler. A transaction that returns early is rolled back, so a refused request leaves the tables as they
  were. URLs are parsed by the crate \<open>url\<close>, a parameter; random tokens and clocks are arguments.
\<close>

section \<open>Constants\<close>

definition resource_path :: str where "resource_path = ''/mcp''"
definition read_scope :: str where "read_scope = ''memex:read''"
definition scope_offline :: str where "scope_offline = ''offline_access''"
definition code_ttl_seconds :: int where "code_ttl_seconds = 5 * 60"
definition access_ttl_seconds :: int where "access_ttl_seconds = 60 * 60"
definition refresh_ttl_seconds :: int where "refresh_ttl_seconds = 30 * 24 * 60 * 60"
definition unapproved_client_ttl_seconds :: int where "unapproved_client_ttl_seconds = 24 * 60 * 60"
definition pending_ttl :: nat where "pending_ttl = 10 * 60 * 10 ^ 9"
definition max_clients :: nat where "max_clients = 256"
definition max_pending :: nat where "max_pending = 256"
definition max_grants :: nat where "max_grants = 256"
definition max_refresh_tokens_per_family :: nat where
  "max_refresh_tokens_per_family = nat (refresh_ttl_seconds div (5 * 60)) + 2"
definition max_failed_approvals :: nat where "max_failed_approvals = 8"
definition failed_approval_window :: nat where "failed_approval_window = 60 * 10 ^ 9"

section \<open>URLs and scopes\<close>

datatype url_host = HostIpv4 nat | HostIpv6 nat | HostDomain str

text \<open>What the code reads of a parsed URL.\<close>

record url =
  url_scheme :: str
  url_username :: str
  url_password :: "str option"
  url_host :: "url_host option"
  url_path :: str
  url_query :: "str option"
  url_fragment :: "str option"
  url_text :: str
  url_origin :: str

definition is_loopback_host :: "url \<Rightarrow> bool" where
  "is_loopback_host u =
    (case url_host u of
       Some (HostIpv4 address) \<Rightarrow> address div 2 ^ 24 = 127
     | Some (HostIpv6 address) \<Rightarrow> address = 1
     | Some (HostDomain domain) \<Rightarrow> eq_ignore_ascii_case domain ''localhost''
     | None \<Rightarrow> False)"

definition secure_scheme :: "url \<Rightarrow> bool" where
  "secure_scheme u = (url_scheme u = ''https'' \<or> (url_scheme u = ''http'' \<and> is_loopback_host u))"

definition no_userinfo :: "url \<Rightarrow> bool" where
  "no_userinfo u = (url_username u = '''' \<and> url_password u = None)"

definition validate_public_origin :: "(str \<Rightarrow> url option) \<Rightarrow> str \<Rightarrow> str option" where
  "validate_public_origin parse v =
    (case parse v of
       None \<Rightarrow> None
     | Some u \<Rightarrow>
         if secure_scheme u \<and> no_userinfo u \<and> url_host u \<noteq> None
            \<and> (url_path u = ''/'' \<and> url_query u = None \<and> url_fragment u = None)
         then Some (url_origin u) else None)"

definition validate_redirect_uri :: "(str \<Rightarrow> url option) \<Rightarrow> str \<Rightarrow> str option" where
  "validate_redirect_uri parse v =
    (case parse v of
       None \<Rightarrow> None
     | Some u \<Rightarrow>
         if secure_scheme u \<and> url_host u \<noteq> None \<and> no_userinfo u \<and> url_fragment u = None
         then Some (url_text u) else None)"

definition public_authority :: "str \<Rightarrow> str" where
  "public_authority origin =
    (case find_sub origin ''://'' of Some i \<Rightarrow> drop (i + 3) origin | None \<Rightarrow> origin)"

definition is_loopback_authority :: "(str \<Rightarrow> url option) \<Rightarrow> str \<Rightarrow> bool" where
  "is_loopback_authority parse authority =
    is_some_and (\<lambda>u. is_loopback_host u \<and> no_userinfo u \<and> url_path u = ''/'' \<and> url_query u = None
      \<and> url_fragment u = None) (parse (''http://'' @ authority))"

text \<open>Headers whose bytes are not visible ASCII read as \<open>None\<close>.\<close>

definition host_allowed :: "(str \<Rightarrow> url option) \<Rightarrow> str \<Rightarrow> str option list \<Rightarrow> bool" where
  "host_allowed parse origin hosts =
    (length hosts = 1
     \<and> is_some_and (\<lambda>host. host = public_authority origin \<or> is_loopback_authority parse host) (hd hosts))"

definition valid_request_origin :: "str option list \<Rightarrow> str \<Rightarrow> bool" where
  "valid_request_origin origins expected =
    (length origins \<le> 1 \<and> (case origins of [] \<Rightarrow> True | origin # _ \<Rightarrow> origin = Some expected))"

definition ascii_whitespace :: "char \<Rightarrow> bool" where
  "ascii_whitespace c = ((of_char c :: nat) \<in> {9, 10, 12, 13, 32})"

function split_ascii_whitespace :: "str \<Rightarrow> str list" where
  "split_ascii_whitespace s =
    (let t = dropWhile ascii_whitespace s
     in if t = [] then []
        else takeWhile (Not \<circ> ascii_whitespace) t # split_ascii_whitespace (dropWhile (Not \<circ> ascii_whitespace) t))"
  by auto
termination
proof (relation "measure length")
  fix s t :: str
  assume t: "t = dropWhile ascii_whitespace s" "t \<noteq> []"
  then have "dropWhile ascii_whitespace s \<noteq> []" by simp
  then have "\<not> ascii_whitespace (hd t)" unfolding t(1) by (rule hd_dropWhile)
  then have "dropWhile (Not \<circ> ascii_whitespace) t = dropWhile (Not \<circ> ascii_whitespace) (tl t)"
    using t(2) by (cases t) simp_all
  then have "length (dropWhile (Not \<circ> ascii_whitespace) t) \<le> length (tl t)" by (metis length_dropWhile_le)
  moreover have "length t \<le> length s" unfolding t(1) by (rule length_dropWhile_le)
  moreover have "0 < length t" using t(2) by simp
  ultimately have "length (dropWhile (Not \<circ> ascii_whitespace) t) < length s" unfolding length_tl by linarith
  then show "(dropWhile (Not \<circ> ascii_whitespace) t, s) \<in> measure length" by simp
qed simp

declare split_ascii_whitespace.simps [simp del]

definition has_scope :: "str \<Rightarrow> str \<Rightarrow> bool" where
  "has_scope scopes expected = (expected \<in> set (split_ascii_whitespace scopes))"

definition scope_is_subset :: "str \<Rightarrow> str \<Rightarrow> bool" where
  "scope_is_subset requested available = list_all (has_scope available) (split_ascii_whitespace requested)"

fun join_spaced :: "str list \<Rightarrow> str" where
  "join_spaced [] = ''''"
| "join_spaced [x] = x"
| "join_spaced (x # xs) = x @ '' '' @ join_spaced xs"

definition normalize_scope :: "str option \<Rightarrow> str option" where
  "normalize_scope v =
    (let pieces = split_ascii_whitespace (unwrap_or read_scope v);
         scopes = rev (remdups (rev pieces))
     in if list_all (\<lambda>s. s = read_scope \<or> s = scope_offline) pieces \<and> scopes \<noteq> [] \<and> read_scope \<in> set scopes
        then Some (join_spaced scopes) else None)"

definition ascii_alphanumeric :: "char \<Rightarrow> bool" where
  "ascii_alphanumeric c =
    (is_ascii_digit c \<or> 65 \<le> (of_char c :: nat) \<and> (of_char c :: nat) \<le> 90
     \<or> 97 \<le> (of_char c :: nat) \<and> (of_char c :: nat) \<le> 122)"

definition valid_code_challenge :: "str \<Rightarrow> bool" where
  "valid_code_challenge v =
    (length v = 43 \<and> list_all (\<lambda>c. ascii_alphanumeric c \<or> c = CHR ''-'' \<or> c = CHR ''_'') v)"

definition valid_code_verifier :: "str \<Rightarrow> bool" where
  "valid_code_verifier v =
    (43 \<le> length v \<and> length v \<le> 128
     \<and> list_all (\<lambda>c. ascii_alphanumeric c \<or> c \<in> {CHR ''-'', CHR ''.'', CHR ''_'', CHR ''~''}) v)"

section \<open>Tables\<close>

record client_row =
  ocl_id :: str
  ocl_name :: str
  ocl_redirects :: "str list"
  ocl_created :: int
  ocl_approved :: "int option"

record code_row =
  oco_hash :: str
  oco_client :: str
  oco_redirect :: str
  oco_resource :: str
  oco_challenge :: str
  oco_scope :: str
  oco_expires :: int

record grant_row =
  ogr_id :: str
  ogr_family :: str
  ogr_client :: str
  ogr_resource :: str
  ogr_scope :: str
  ogr_created :: int
  ogr_revoked :: "int option"

record access_row =
  oac_hash :: str
  oac_grant :: str
  oac_expires :: int

record refresh_row =
  orf_hash :: str
  orf_grant :: str
  orf_family :: str
  orf_client :: str
  orf_resource :: str
  orf_scope :: str
  orf_expires :: int
  orf_used :: "int option"

record oauth_db =
  db_clients :: "client_row list"
  db_codes :: "code_row list"
  db_grants :: "grant_row list"
  db_access :: "access_row list"
  db_refresh :: "refresh_row list"

definition empty_db :: oauth_db where
  "empty_db = \<lparr>db_clients = [], db_codes = [], db_grants = [], db_access = [], db_refresh = []\<rparr>"

text \<open>An insertion fails on a duplicate key or a missing referenced row.\<close>

definition insert_client :: "client_row \<Rightarrow> oauth_db \<Rightarrow> oauth_db option" where
  "insert_client r db =
    (if ocl_id r \<in> ocl_id ` set (db_clients db) then None
     else Some (db\<lparr>db_clients := db_clients db @ [r]\<rparr>))"

definition insert_code :: "code_row \<Rightarrow> oauth_db \<Rightarrow> oauth_db option" where
  "insert_code r db =
    (if oco_hash r \<in> oco_hash ` set (db_codes db) \<or> oco_client r \<notin> ocl_id ` set (db_clients db) then None
     else Some (db\<lparr>db_codes := db_codes db @ [r]\<rparr>))"

definition insert_grant :: "grant_row \<Rightarrow> oauth_db \<Rightarrow> oauth_db option" where
  "insert_grant r db =
    (if ogr_id r \<in> ogr_id ` set (db_grants db) \<or> ogr_family r \<in> ogr_family ` set (db_grants db)
        \<or> ogr_client r \<notin> ocl_id ` set (db_clients db) then None
     else Some (db\<lparr>db_grants := db_grants db @ [r]\<rparr>))"

definition insert_access :: "access_row \<Rightarrow> oauth_db \<Rightarrow> oauth_db option" where
  "insert_access r db =
    (if oac_hash r \<in> oac_hash ` set (db_access db) \<or> oac_grant r \<notin> ogr_id ` set (db_grants db) then None
     else Some (db\<lparr>db_access := db_access db @ [r]\<rparr>))"

definition insert_refresh :: "refresh_row \<Rightarrow> oauth_db \<Rightarrow> oauth_db option" where
  "insert_refresh r db =
    (if orf_hash r \<in> orf_hash ` set (db_refresh db) \<or> orf_grant r \<notin> ogr_id ` set (db_grants db) then None
     else Some (db\<lparr>db_refresh := db_refresh db @ [r]\<rparr>))"

text \<open>Deleting a grant deletes its tokens; deleting a client its codes, unless a grant still refers to it.\<close>

definition delete_grants :: "(grant_row \<Rightarrow> bool) \<Rightarrow> oauth_db \<Rightarrow> oauth_db" where
  "delete_grants P db =
    (let gone = ogr_id ` set (filter P (db_grants db))
     in db\<lparr>db_grants := filter (\<lambda>g. \<not> P g) (db_grants db),
           db_access := filter (\<lambda>a. oac_grant a \<notin> gone) (db_access db),
           db_refresh := filter (\<lambda>r. orf_grant r \<notin> gone) (db_refresh db)\<rparr>)"

definition delete_clients :: "(client_row \<Rightarrow> bool) \<Rightarrow> oauth_db \<Rightarrow> oauth_db option" where
  "delete_clients P db =
    (let gone = ocl_id ` set (filter P (db_clients db))
     in if list_ex (\<lambda>g. ogr_client g \<in> gone) (db_grants db) then None
        else Some (db\<lparr>db_clients := filter (\<lambda>c. \<not> P c) (db_clients db),
                      db_codes := filter (\<lambda>c. oco_client c \<notin> gone) (db_codes db)\<rparr>))"

section \<open>Pruning\<close>

definition prune_database_tx :: "int \<Rightarrow> oauth_db \<Rightarrow> oauth_db" where
  "prune_database_tx now db =
    (let live = db\<lparr>db_codes := filter (\<lambda>c. \<not> oco_expires c \<le> now) (db_codes db),
                   db_access := filter (\<lambda>a. \<not> oac_expires a \<le> now) (db_access db),
                   db_refresh := filter (\<lambda>r. \<not> orf_expires r \<le> now) (db_refresh db)\<rparr>
     in delete_grants (\<lambda>g. is_some_and (\<lambda>t. t \<le> now - refresh_ttl_seconds) (ogr_revoked g)
            \<or> \<not> list_ex (\<lambda>a. oac_grant a = ogr_id g) (db_access live)
              \<and> \<not> list_ex (\<lambda>r. orf_grant r = ogr_id g) (db_refresh live)) live)"

definition prune_unapproved_clients_tx :: "int \<Rightarrow> oauth_db \<Rightarrow> oauth_db option" where
  "prune_unapproved_clients_tx now db =
    delete_clients (\<lambda>c. ocl_created c \<le> now - unapproved_client_ttl_seconds \<and> ocl_approved c = None
      \<and> \<not> list_ex (\<lambda>x. oco_client x = ocl_id c) (db_codes db)) db"

text \<open>At start-up the same statements run outside a transaction.\<close>

definition prune_database :: "int \<Rightarrow> oauth_db \<Rightarrow> bool \<times> oauth_db" where
  "prune_database now db =
    (let db' = prune_database_tx now db
     in case prune_unapproved_clients_tx now db' of None \<Rightarrow> (False, db') | Some db'' \<Rightarrow> (True, db''))"

text \<open>\<open>initialize_schema\<close> on a database of an older version marks the clients that hold a grant.\<close>

definition initialize_schema :: "bool \<Rightarrow> oauth_db \<Rightarrow> oauth_db" where
  "initialize_schema has_approved_at db =
    (if has_approved_at then db
     else db\<lparr>db_clients := map (\<lambda>c. c\<lparr>ocl_approved :=
       (if list_ex (\<lambda>g. ogr_client g = ocl_id c) (db_grants db) then Some (ocl_created c) else None)\<rparr>) (db_clients db)\<rparr>)"

section \<open>Server and responses\<close>

text \<open>The parts of a server that never change. \<open>sv_extend\<close> appends query pairs to a URL.\<close>

record oauth_server =
  sv_crypto :: crypto
  sv_owner :: web_auth
  sv_parse :: "str \<Rightarrow> url option"
  sv_extend :: "str \<Rightarrow> (str \<times> str) list \<Rightarrow> str option"
  sv_origin :: str
  sv_resource :: str

definition server_new ::
    "crypto \<Rightarrow> web_auth \<Rightarrow> (str \<Rightarrow> url option) \<Rightarrow> (str \<Rightarrow> (str \<times> str) list \<Rightarrow> str option) \<Rightarrow> str \<Rightarrow> bool \<Rightarrow> int
     \<Rightarrow> oauth_db \<Rightarrow> oauth_server option \<times> oauth_db" where
  "server_new c owner parse extender public_url has_approved_at now db =
    (case validate_public_origin parse public_url of
       None \<Rightarrow> (None, db)
     | Some origin \<Rightarrow>
         (case prune_database now (initialize_schema has_approved_at db) of
            (False, db') \<Rightarrow> (None, db')
          | (True, db') \<Rightarrow> (Some \<lparr>sv_crypto = c, sv_owner = owner, sv_parse = parse, sv_extend = extender,
              sv_origin = origin, sv_resource = origin @ resource_path\<rparr>, db')))"

definition token_hash :: "oauth_server \<Rightarrow> str \<Rightarrow> str" where
  "token_hash srv token = cr_digest (sv_crypto srv) token"

definition s256_challenge :: "oauth_server \<Rightarrow> str \<Rightarrow> str" where
  "s256_challenge srv verifier = cr_encode (sv_crypto srv) (cr_digest (sv_crypto srv) verifier)"

text \<open>An approval that waits for the owner.\<close>

record pending_request =
  prq_created :: nat
  prq_client :: str
  prq_name :: str
  prq_redirect :: str
  prq_challenge :: str
  prq_resource :: str
  prq_scope :: str
  prq_state :: "str option"

record pending_state =
  pn_requests :: "(str \<times> pending_request) list"
  pn_failed :: "nat list"

record token_response =
  tr_access :: str
  tr_scope :: str
  tr_refresh :: str

datatype oauth_response =
    ErrorJson nat str str
  | Plain nat str
  | Registered str str "str list"
  | ApprovalPage nat pending_request str "str option" str
  | RedirectTo str
  | Tokens token_response
  | Done

definition authorization_error :: "str \<Rightarrow> oauth_response" where
  "authorization_error description = ErrorJson 400 ''invalid_request'' description"

definition database_busy :: oauth_response where
  "database_busy =
    ErrorJson 429 ''temporarily_unavailable'' ''too many concurrent OAuth storage operations''"

definition internal_error :: oauth_response where
  "internal_error = ErrorJson 500 ''server_error'' ''OAuth request could not be completed''"

fun with_status :: "nat \<Rightarrow> oauth_response \<Rightarrow> oauth_response" where
  "with_status n (ErrorJson _ e d) = ErrorJson n e d"
| "with_status n (Plain _ b) = Plain n b"
| "with_status n (ApprovalPage _ r i e p) = ApprovalPage n r i e p"
| "with_status n r = r"

text \<open>Whether the permits, the file and the statements of a request's storage work.\<close>

datatype storage = Busy | Broken | Ready

section \<open>Pending approvals\<close>

text \<open>The policy is a header value, which must be visible ASCII.\<close>

definition header_value_ok :: "str \<Rightarrow> bool" where
  "header_value_ok v = list_all (\<lambda>c. 32 \<le> (of_char c :: nat) \<and> (of_char c :: nat) < 127 \<or> (of_char c :: nat) = 9) v"

definition quoted :: "str \<Rightarrow> str" where
  "quoted v = CHR 0x27 # v @ [CHR 0x27]"

definition approval_policy :: "str \<Rightarrow> str" where
  "approval_policy callback =
    ''default-src '' @ quoted ''none'' @ ''; style-src '' @ quoted ''unsafe-inline''
    @ ''; form-action '' @ quoted ''self'' @ '' '' @ callback
    @ ''; frame-ancestors '' @ quoted ''none'' @ ''; base-uri '' @ quoted ''none''"

definition approval_response :: "oauth_server \<Rightarrow> pending_request \<Rightarrow> str \<Rightarrow> str option \<Rightarrow> oauth_response" where
  "approval_response srv request request_id err =
    (case sv_parse srv (prq_redirect request) of
       None \<Rightarrow> authorization_error ''stored redirect URI is invalid''
     | Some callback \<Rightarrow>
         if header_value_ok (approval_policy (url_origin callback))
         then ApprovalPage 200 request request_id err (approval_policy (url_origin callback))
         else authorization_error ''stored redirect origin is invalid'')"

definition authorization_redirect ::
    "oauth_server \<Rightarrow> str \<Rightarrow> str option \<Rightarrow> (str \<times> str) list \<Rightarrow> oauth_response" where
  "authorization_redirect srv redirect_uri state pairs =
    (case sv_extend srv redirect_uri
        (pairs @ (case state of Some v \<Rightarrow> [(''state'', v)] | None \<Rightarrow> []) @ [(''iss'', sv_origin srv)]) of
       None \<Rightarrow> authorization_error ''stored redirect URI is invalid''
     | Some location \<Rightarrow> RedirectTo location)"

definition retain_pending :: "nat \<Rightarrow> pending_state \<Rightarrow> pending_state" where
  "retain_pending now ps =
    ps\<lparr>pn_requests := filter (\<lambda>(_, r). now - prq_created r \<le> pending_ttl) (pn_requests ps)\<rparr>"

text \<open>A full table gives up its oldest request; \<open>iter\<close> is the order the hash map is scanned in.\<close>

definition insert_pending ::
    "oauth_server \<Rightarrow> ((str \<times> pending_request) list \<Rightarrow> (str \<times> pending_request) list) \<Rightarrow> nat \<Rightarrow> str option
     \<Rightarrow> pending_request \<Rightarrow> pending_state \<Rightarrow> oauth_response option \<times> pending_state" where
  "insert_pending srv iter now random request ps =
    (let ps1 = retain_pending now ps;
         ps2 = (if max_pending \<le> length (pn_requests ps1)
                then (case sort_key (prq_created \<circ> snd) (iter (pn_requests ps1)) of
                        [] \<Rightarrow> ps1
                      | (oldest, _) # _ \<Rightarrow> ps1\<lparr>pn_requests := AList.delete oldest (pn_requests ps1)\<rparr>)
                else ps1)
     in case random of
          None \<Rightarrow> (None, ps2)
        | Some request_id \<Rightarrow>
            (Some (approval_response srv request request_id None),
             ps2\<lparr>pn_requests := AList.update request_id request (pn_requests ps2)\<rparr>))"

definition take_pending :: "nat \<Rightarrow> str \<Rightarrow> pending_state \<Rightarrow> pending_request option \<times> pending_state" where
  "take_pending now request_id ps =
    (let ps1 = retain_pending now ps
     in (map_of (pn_requests ps1) request_id,
         ps1\<lparr>pn_requests := AList.delete request_id (pn_requests ps1)\<rparr>))"

definition pending_approval_response ::
    "oauth_server \<Rightarrow> nat \<Rightarrow> str \<Rightarrow> str \<Rightarrow> pending_state \<Rightarrow> oauth_response option \<times> pending_state" where
  "pending_approval_response srv now request_id err ps =
    (let ps1 = retain_pending now ps
     in (map_option (\<lambda>request. approval_response srv request request_id (Some err))
           (map_of (pn_requests ps1) request_id), ps1))"

definition approval_allowed :: "nat \<Rightarrow> pending_state \<Rightarrow> bool \<times> pending_state" where
  "approval_allowed now ps =
    (let failed = dropWhile (\<lambda>attempt. failed_approval_window < now - attempt) (pn_failed ps)
     in (length failed < max_failed_approvals, ps\<lparr>pn_failed := failed\<rparr>))"

definition record_failed_approval :: "nat \<Rightarrow> pending_state \<Rightarrow> pending_state" where
  "record_failed_approval now ps =
    (let failed = pn_failed ps @ [now]
     in ps\<lparr>pn_failed := drop (length failed - max_failed_approvals) failed\<rparr>)"

section \<open>Registration and authorization\<close>

text \<open>How a transaction ends without a commit.\<close>

datatype tx_error = LimitReached | StorageFailed

record registration_request =
  rr_redirects :: "str list"
  rr_name :: "str option"
  rr_method :: "str option"

fun collect_redirects ::
    "(str \<Rightarrow> url option) \<Rightarrow> str list \<Rightarrow> str list \<Rightarrow> oauth_response + str list" where
  "collect_redirects parse [] redirects = Inr redirects"
| "collect_redirects parse (redirect # rest) redirects =
    (if 2048 < length redirect
     then Inl (ErrorJson 400 ''invalid_redirect_uri'' ''redirect_uri is too long'')
     else case validate_redirect_uri parse redirect of
       None \<Rightarrow> Inl (ErrorJson 400 ''invalid_redirect_uri''
         ''redirect_uris must contain absolute URLs without fragments or userinfo'')
     | Some valid \<Rightarrow>
         collect_redirects parse rest (if valid \<in> set redirects then redirects else redirects @ [valid]))"

text \<open>The oldest client that may go; \<open>scan\<close> is the order the table is read in.\<close>

definition evict_client :: "(client_row list \<Rightarrow> client_row list) \<Rightarrow> oauth_db \<Rightarrow> oauth_db option" where
  "evict_client scan db =
    (case sort_key ocl_created (scan (filter (\<lambda>c. ocl_approved c = None
         \<and> \<not> list_ex (\<lambda>x. oco_client x = ocl_id c) (db_codes db)) (db_clients db))) of
       [] \<Rightarrow> Some db
     | oldest # _ \<Rightarrow> delete_clients (\<lambda>c. ocl_id c = ocl_id oldest) db)"

definition register_tx ::
    "(client_row list \<Rightarrow> client_row list) \<Rightarrow> int \<Rightarrow> client_row \<Rightarrow> oauth_db \<Rightarrow> tx_error + oauth_db" where
  "register_tx scan now client db =
    (case prune_unapproved_clients_tx now (prune_database_tx now db) of
       None \<Rightarrow> Inl StorageFailed
     | Some db1 \<Rightarrow>
         (case (if max_clients \<le> length (db_clients db1) then evict_client scan db1 else Some db1) of
            None \<Rightarrow> Inl StorageFailed
          | Some db2 \<Rightarrow>
              if max_clients \<le> length (db_clients db2) then Inl LimitReached
              else case insert_client client db2 of None \<Rightarrow> Inl StorageFailed | Some db3 \<Rightarrow> Inr db3))"

definition register ::
    "oauth_server \<Rightarrow> (client_row list \<Rightarrow> client_row list) \<Rightarrow> storage \<Rightarrow> int \<Rightarrow> str option
     \<Rightarrow> registration_request \<Rightarrow> oauth_db \<Rightarrow> oauth_response \<times> oauth_db" where
  "register srv scan storage now random request db =
    (if rr_redirects request = [] \<or> 16 < length (rr_redirects request)
        \<or> unwrap_or ''none'' (rr_method request) \<noteq> ''none''
     then (ErrorJson 400 ''invalid_client_metadata''
       ''public clients with redirect_uris and token_endpoint_auth_method none are required'', db)
     else case collect_redirects (sv_parse srv) (rr_redirects request) [] of
       Inl response \<Rightarrow> (response, db)
     | Inr redirects \<Rightarrow>
         let client_name = unwrap_or ''OAuth client'' (rr_name request)
         in if redirects = []
            then (ErrorJson 400 ''invalid_redirect_uri'' ''at least one redirect_uri is required'', db)
            else if trim client_name = [] \<or> 200 < length (utf8_chars client_name)
            then (ErrorJson 400 ''invalid_client_metadata''
              ''client_name must be between 1 and 200 characters'', db)
            else case random of
              None \<Rightarrow> (internal_error, db)
            | Some v \<Rightarrow>
                let client_id = ''memex_'' @ v;
                    client = \<lparr>ocl_id = client_id, ocl_name = client_name, ocl_redirects = redirects,
                      ocl_created = now, ocl_approved = None\<rparr>
                in case storage of
                  Busy \<Rightarrow> (database_busy, db)
                | Broken \<Rightarrow> (internal_error, db)
                | Ready \<Rightarrow> (case register_tx scan now client db of
                    Inr db' \<Rightarrow> (Registered client_id client_name redirects, db')
                  | Inl LimitReached \<Rightarrow> (ErrorJson 503 ''temporarily_unavailable''
                      ''client registration limit reached'', db)
                  | Inl StorageFailed \<Rightarrow> (internal_error, db)))"

record authorize_query =
  aq_response_type :: str
  aq_client :: str
  aq_redirect :: str
  aq_challenge :: str
  aq_method :: str
  aq_resource :: str
  aq_scope :: "str option"
  aq_state :: "str option"

text \<open>The checks of \<open>authorize_get\<close> that need no storage, with the normalised scope.\<close>

definition authorize_checks :: "oauth_server \<Rightarrow> str option list \<Rightarrow> authorize_query \<Rightarrow> oauth_response + str" where
  "authorize_checks srv origins q =
    (if \<not> valid_request_origin origins (sv_origin srv) then Inl (Plain 403 ''origin is not allowed'')
     else if 128 < length (aq_client q) \<or> 2048 < length (aq_redirect q) \<or> 2048 < length (aq_resource q)
        \<or> is_some_and (\<lambda>s. 256 < length s) (aq_scope q) \<or> is_some_and (\<lambda>s. 2048 < length s) (aq_state q)
     then Inl (authorization_error ''authorization parameter is too long'')
     else if aq_response_type q \<noteq> ''code'' \<or> aq_method q \<noteq> ''S256'' \<or> \<not> valid_code_challenge (aq_challenge q)
        \<or> aq_resource q \<noteq> sv_resource srv
     then Inl (authorization_error ''invalid authorization request'')
     else case normalize_scope (aq_scope q) of
       None \<Rightarrow> Inl (authorization_error ''unsupported scope'')
     | Some s \<Rightarrow> Inr s)"

definition find_client :: "str \<Rightarrow> oauth_db \<Rightarrow> (str \<times> str list) option" where
  "find_client client_id db =
    map_option (\<lambda>c. (ocl_name c, ocl_redirects c)) (List.find (\<lambda>c. ocl_id c = client_id) (db_clients db))"

definition authorize_get ::
    "oauth_server \<Rightarrow> str option list \<Rightarrow> storage \<Rightarrow> ((str \<times> pending_request) list \<Rightarrow> (str \<times> pending_request) list)
     \<Rightarrow> nat \<Rightarrow> str option \<Rightarrow> authorize_query \<Rightarrow> oauth_db \<Rightarrow> pending_state \<Rightarrow> oauth_response \<times> pending_state" where
  "authorize_get srv origins storage iter instant random q db ps =
    (case authorize_checks srv origins q of
       Inl response \<Rightarrow> (response, ps)
     | Inr s \<Rightarrow>
         (case storage of
            Busy \<Rightarrow> (database_busy, ps)
          | Broken \<Rightarrow> (internal_error, ps)
          | Ready \<Rightarrow> (case find_client (aq_client q) db of
              None \<Rightarrow> (authorization_error ''unknown client_id'', ps)
            | Some (client_name, redirects) \<Rightarrow>
                if aq_redirect q \<notin> set redirects
                then (authorization_error ''redirect_uri is not registered'', ps)
                else
                  let request = \<lparr>prq_created = instant, prq_client = aq_client q, prq_name = client_name,
                        prq_redirect = aq_redirect q, prq_challenge = aq_challenge q,
                        prq_resource = aq_resource q, prq_scope = s, prq_state = aq_state q\<rparr>
                  in case insert_pending srv iter instant random request ps of
                       (None, ps') \<Rightarrow> (internal_error, ps')
                     | (Some response, ps') \<Rightarrow> (response, ps'))))"

record approval_form =
  af_request_id :: str
  af_owner_key :: str
  af_decision :: str

text \<open>The owner's decision. An approved request still has to be stored as a code.\<close>

definition decide_approval ::
    "oauth_server \<Rightarrow> str option list \<Rightarrow> nat \<Rightarrow> approval_form \<Rightarrow> pending_state
     \<Rightarrow> (oauth_response + pending_request) \<times> pending_state" where
  "decide_approval srv origins instant form ps =
    (if \<not> valid_request_origin origins (sv_origin srv) then (Inl (Plain 403 ''origin is not allowed''), ps)
     else if length (af_request_id form) \<noteq> 43 \<or> 16 < length (af_decision form) \<or> 256 < length (af_owner_key form)
     then (Inl (authorization_error ''approval parameter is invalid''), ps)
     else if af_decision form \<noteq> ''approve'' \<and> af_decision form \<noteq> ''deny''
     then (Inl (authorization_error ''approval decision is invalid''), ps)
     else if af_decision form = ''approve''
        \<and> \<not> authorize_bearer (sv_crypto srv) (sv_owner srv) (trim (af_owner_key form))
     then
       let (allowed, ps1) = approval_allowed instant ps;
           (status, message, ps2) =
             (if allowed
              then (401, ''Owner key is invalid. Correct the key and try again.'', record_failed_approval instant ps1)
              else (429, ''Too many failed attempts. Check your owner key and try again shortly.'', ps1))
       in (case pending_approval_response srv instant (af_request_id form) message ps2 of
             (Some response, ps3) \<Rightarrow> (Inl (with_status status response), ps3)
           | (None, ps3) \<Rightarrow> (Inl (authorization_error ''authorization request is invalid or expired''), ps3))
     else case take_pending instant (af_request_id form) ps of
       (None, ps1) \<Rightarrow> (Inl (authorization_error ''authorization request is invalid or expired''), ps1)
     | (Some request, ps1) \<Rightarrow>
         if af_decision form = ''deny''
         then (Inl (authorization_redirect srv (prq_redirect request) (prq_state request)
           [(''error'', ''access_denied'')]), ps1)
         else (Inr request, ps1))"

definition store_code_tx :: "int \<Rightarrow> code_row \<Rightarrow> oauth_db \<Rightarrow> oauth_db option" where
  "store_code_tx now code db =
    (let db1 = prune_database_tx now db
     in if max_pending \<le> length (db_codes db1) then None else insert_code code db1)"

definition store_code ::
    "oauth_server \<Rightarrow> storage \<Rightarrow> int \<Rightarrow> str option \<Rightarrow> pending_request \<Rightarrow> oauth_db \<Rightarrow> oauth_response \<times> oauth_db" where
  "store_code srv storage now random request db =
    (case random of
       None \<Rightarrow> (internal_error, db)
     | Some code \<Rightarrow>
         (case storage of
            Busy \<Rightarrow> (database_busy, db)
          | Broken \<Rightarrow> (internal_error, db)
          | Ready \<Rightarrow>
              (case store_code_tx now \<lparr>oco_hash = token_hash srv code, oco_client = prq_client request,
                  oco_redirect = prq_redirect request, oco_resource = prq_resource request,
                  oco_challenge = prq_challenge request, oco_scope = prq_scope request,
                  oco_expires = now + code_ttl_seconds\<rparr> db of
                 None \<Rightarrow> (internal_error, db)
               | Some db' \<Rightarrow>
                   (authorization_redirect srv (prq_redirect request) (prq_state request) [(''code'', code)], db'))))"

definition authorize_post ::
    "oauth_server \<Rightarrow> str option list \<Rightarrow> storage \<Rightarrow> nat \<Rightarrow> int \<Rightarrow> str option \<Rightarrow> approval_form
     \<Rightarrow> oauth_db \<Rightarrow> pending_state \<Rightarrow> oauth_response \<times> oauth_db \<times> pending_state" where
  "authorize_post srv origins storage instant now random form db ps =
    (case decide_approval srv origins instant form ps of
       (Inl response, ps') \<Rightarrow> (response, db, ps')
     | (Inr request, ps') \<Rightarrow>
         (let (response, db') = store_code srv storage now random request db in (response, db', ps')))"

section \<open>Tokens\<close>

record token_form =
  tf_grant_type :: str
  tf_client :: str
  tf_code :: "str option"
  tf_redirect :: "str option"
  tf_verifier :: "str option"
  tf_refresh :: "str option"
  tf_resource :: "str option"
  tf_scope :: "str option"

datatype token_failure = OAuthFailure str str | StorageFailure

definition invalid_grant :: "str \<Rightarrow> token_failure" where
  "invalid_grant description = OAuthFailure ''invalid_grant'' description"

definition failure_response :: "token_failure \<Rightarrow> oauth_response" where
  "failure_response f =
    (case f of OAuthFailure e d \<Rightarrow> ErrorJson 400 e d | StorageFailure \<Rightarrow> internal_error)"

definition active_grants :: "oauth_db \<Rightarrow> nat" where
  "active_grants db = length (filter (\<lambda>g. ogr_revoked g = None) (db_grants db))"

text \<open>The grant revoked first makes room; \<open>scan\<close> is the order the table is read in.\<close>

definition evict_grant :: "(grant_row list \<Rightarrow> grant_row list) \<Rightarrow> oauth_db \<Rightarrow> oauth_db" where
  "evict_grant scan db =
    (case sort_key (the \<circ> ogr_revoked) (scan (filter (\<lambda>g. ogr_revoked g \<noteq> None) (db_grants db))) of
       [] \<Rightarrow> db
     | oldest # _ \<Rightarrow> delete_grants (\<lambda>g. ogr_id g = ogr_id oldest) db)"

definition mark_approved :: "int \<Rightarrow> str \<Rightarrow> client_row \<Rightarrow> client_row" where
  "mark_approved now client c =
    (if ocl_id c = client then c\<lparr>ocl_approved := Some (unwrap_or now (ocl_approved c))\<rparr> else c)"

definition approve_client :: "int \<Rightarrow> str \<Rightarrow> oauth_db \<Rightarrow> oauth_db" where
  "approve_client now client db = db\<lparr>db_clients := map (mark_approved now client) (db_clients db)\<rparr>"

text \<open>The four random tokens of an exchange: access token, refresh token, grant and family.\<close>

record exchange_secrets =
  xs_access :: str
  xs_refresh :: str
  xs_grant :: str
  xs_family :: str

text \<open>The statements after the code has been accepted.\<close>

definition issue_grant ::
    "oauth_server \<Rightarrow> exchange_secrets \<Rightarrow> int \<Rightarrow> str \<Rightarrow> code_row \<Rightarrow> oauth_db \<Rightarrow> oauth_db option" where
  "issue_grant srv xs now resource stored db =
    (let db1 = approve_client now (oco_client stored)
           (db\<lparr>db_codes := filter (\<lambda>c. oco_hash c \<noteq> oco_hash stored) (db_codes db)\<rparr>)
     in Option.bind (insert_grant \<lparr>ogr_id = xs_grant xs, ogr_family = xs_family xs, ogr_client = oco_client stored,
            ogr_resource = resource, ogr_scope = oco_scope stored, ogr_created = now, ogr_revoked = None\<rparr> db1)
        (\<lambda>db2. Option.bind (insert_access \<lparr>oac_hash = token_hash srv (xs_access xs), oac_grant = xs_grant xs,
            oac_expires = now + access_ttl_seconds\<rparr> db2)
        (\<lambda>db3. insert_refresh \<lparr>orf_hash = token_hash srv (xs_refresh xs), orf_grant = xs_grant xs,
            orf_family = xs_family xs, orf_client = oco_client stored, orf_resource = resource,
            orf_scope = oco_scope stored, orf_expires = now + refresh_ttl_seconds, orf_used = None\<rparr> db3)))"

definition exchange_tx ::
    "oauth_server \<Rightarrow> (grant_row list \<Rightarrow> grant_row list) \<Rightarrow> exchange_secrets \<Rightarrow> int \<Rightarrow> str \<Rightarrow> str \<Rightarrow> str \<Rightarrow> str
     \<Rightarrow> str \<Rightarrow> oauth_db \<Rightarrow> token_failure + (token_response \<times> oauth_db)" where
  "exchange_tx srv scan xs now client redirect resource code verifier db0 =
    (let db = prune_database_tx now db0
     in case List.find (\<lambda>c. oco_hash c = token_hash srv code) (db_codes db) of
          None \<Rightarrow> Inl (invalid_grant ''authorization code is invalid'')
        | Some stored \<Rightarrow>
            if oco_client stored \<noteq> client \<or> oco_redirect stored \<noteq> redirect \<or> oco_resource stored \<noteq> resource
               \<or> oco_challenge stored \<noteq> s256_challenge srv verifier \<or> oco_expires stored \<le> now
            then Inl (invalid_grant ''authorization code is invalid'')
            else if max_grants \<le> active_grants db
            then Inl (OAuthFailure ''temporarily_unavailable'' ''active grant limit reached'')
            else
              let db1 = (if max_grants \<le> length (db_grants db) then evict_grant scan db else db)
              in if max_grants \<le> length (db_grants db1)
                 then Inl (OAuthFailure ''temporarily_unavailable'' ''grant storage limit reached'')
                 else case issue_grant srv xs now resource stored db1 of
                   None \<Rightarrow> Inl StorageFailure
                 | Some db2 \<Rightarrow> Inr (\<lparr>tr_access = xs_access xs, tr_scope = oco_scope stored,
                     tr_refresh = xs_refresh xs\<rparr>, db2))"

definition exchange_code ::
    "oauth_server \<Rightarrow> (grant_row list \<Rightarrow> grant_row list) \<Rightarrow> storage \<Rightarrow> exchange_secrets option \<Rightarrow> int
     \<Rightarrow> token_form \<Rightarrow> oauth_db \<Rightarrow> (token_failure + token_response) \<times> oauth_db" where
  "exchange_code srv scan storage secrets now form db =
    (case tf_code form of None \<Rightarrow> (Inl (OAuthFailure ''invalid_request'' ''code is required''), db)
     | Some code \<Rightarrow> (case tf_redirect form of
         None \<Rightarrow> (Inl (OAuthFailure ''invalid_request'' ''redirect_uri is required''), db)
       | Some redirect \<Rightarrow> (case tf_verifier form of
           None \<Rightarrow> (Inl (OAuthFailure ''invalid_request'' ''code_verifier is required''), db)
         | Some verifier \<Rightarrow> (case tf_resource form of
             None \<Rightarrow> (Inl (OAuthFailure ''invalid_target'' ''resource is required''), db)
           | Some resource \<Rightarrow>
               if resource \<noteq> sv_resource srv \<or> \<not> valid_code_verifier verifier
               then (Inl (invalid_grant ''authorization code is invalid''), db)
               else case secrets of
                 None \<Rightarrow> (Inl StorageFailure, db)
               | Some xs \<Rightarrow>
                   if storage \<noteq> Ready then (Inl StorageFailure, db)
                   else case exchange_tx srv scan xs now (tf_client form) redirect resource code verifier db of
                     Inl f \<Rightarrow> (Inl f, db)
                   | Inr (response, db') \<Rightarrow> (Inr response, db')))))"

text \<open>A reused refresh token takes its whole family with it.\<close>

definition revoke_family :: "int \<Rightarrow> str \<Rightarrow> oauth_db \<Rightarrow> oauth_db" where
  "revoke_family now family db =
    (let gs = map (\<lambda>g. if ogr_family g = family then g\<lparr>ogr_revoked := Some now\<rparr> else g) (db_grants db);
         members = ogr_id ` set (filter (\<lambda>g. ogr_family g = family) gs)
     in db\<lparr>db_grants := gs, db_access := filter (\<lambda>a. oac_grant a \<notin> members) (db_access db),
           db_refresh := filter (\<lambda>r. orf_family r \<noteq> family) (db_refresh db)\<rparr>)"

definition mark_used :: "int \<Rightarrow> str \<Rightarrow> refresh_row \<Rightarrow> refresh_row" where
  "mark_used now h r = (if orf_hash r = h \<and> orf_used r = None then r\<lparr>orf_used := Some now\<rparr> else r)"

definition use_refresh :: "int \<Rightarrow> str \<Rightarrow> oauth_db \<Rightarrow> oauth_db" where
  "use_refresh now h db = db\<lparr>db_refresh := map (mark_used now h) (db_refresh db)\<rparr>"

definition rotate_tx ::
    "oauth_server \<Rightarrow> str \<times> str \<Rightarrow> int \<Rightarrow> refresh_row \<Rightarrow> str \<Rightarrow> oauth_db \<Rightarrow> oauth_db option" where
  "rotate_tx srv tokens now stored requested db =
    (let db1 = use_refresh now (orf_hash stored) db;
         db2 = db1\<lparr>db_access := filter (\<lambda>a. oac_grant a \<noteq> orf_grant stored) (db_access db1)\<rparr>
     in Option.bind (insert_access \<lparr>oac_hash = token_hash srv (fst tokens), oac_grant = orf_grant stored,
            oac_expires = now + access_ttl_seconds\<rparr> db2)
        (insert_refresh \<lparr>orf_hash = token_hash srv (snd tokens), orf_grant = orf_grant stored,
            orf_family = orf_family stored, orf_client = orf_client stored, orf_resource = orf_resource stored,
            orf_scope = requested, orf_expires = now + refresh_ttl_seconds, orf_used = None\<rparr>))"

definition requested_scope :: "refresh_row \<Rightarrow> str option \<Rightarrow> str option" where
  "requested_scope stored wanted =
    (case wanted of Some s \<Rightarrow> normalize_scope (Some s) | None \<Rightarrow> Some (orf_scope stored))"

definition rotate_refresh ::
    "oauth_server \<Rightarrow> storage \<Rightarrow> (str \<times> str) option \<Rightarrow> int \<Rightarrow> token_form \<Rightarrow> oauth_db
     \<Rightarrow> (token_failure + token_response) \<times> oauth_db" where
  "rotate_refresh srv storage secrets now form db0 =
    (case tf_refresh form of
       None \<Rightarrow> (Inl (OAuthFailure ''invalid_request'' ''refresh_token is required''), db0)
     | Some given \<Rightarrow>
    (case secrets of None \<Rightarrow> (Inl StorageFailure, db0)
     | Some tokens \<Rightarrow>
         if storage \<noteq> Ready then (Inl StorageFailure, db0)
         else
           let h = token_hash srv given; db = prune_database_tx now db0
           in case List.find (\<lambda>r. orf_hash r = h) (db_refresh db) of
                None \<Rightarrow> (Inl (invalid_grant ''refresh token is invalid''), db0)
              | Some stored \<Rightarrow>
                  (case List.find (\<lambda>g. ogr_id g = orf_grant stored) (db_grants db) of
                     None \<Rightarrow> (Inl (invalid_grant ''refresh token is invalid''), db0)
                   | Some g \<Rightarrow>
                       if orf_client stored \<noteq> tf_client form \<or> orf_resource stored \<noteq> sv_resource srv
                          \<or> tf_resource form \<noteq> Some (orf_resource stored)
                       then (Inl (invalid_grant ''refresh token is invalid''), db0)
                       else if orf_used stored \<noteq> None
                       then (Inl (invalid_grant ''refresh token reuse detected''),
                             revoke_family now (orf_family stored) db)
                       else if ogr_revoked g \<noteq> None \<or> orf_expires stored \<le> now
                       then (Inl (invalid_grant ''refresh token is invalid or expired''), db0)
                       else if max_refresh_tokens_per_family
                            \<le> length (filter (\<lambda>r. orf_family r = orf_family stored) (db_refresh db))
                       then (Inl (OAuthFailure ''temporarily_unavailable''
                         ''refresh rotation limit reached; reconnect this client''), db0)
                       else (case requested_scope stored (tf_scope form) of
                         None \<Rightarrow> (Inl (OAuthFailure ''invalid_scope'' ''scope is invalid''), db0)
                       | Some requested \<Rightarrow>
                           if \<not> scope_is_subset requested (orf_scope stored)
                           then (Inl (OAuthFailure ''invalid_scope'' ''scope cannot be expanded''), db0)
                           else case rotate_tx srv tokens now stored requested db of
                             None \<Rightarrow> (Inl StorageFailure, db0)
                           | Some db' \<Rightarrow> (Inr \<lparr>tr_access = fst tokens, tr_scope = requested,
                               tr_refresh = snd tokens\<rparr>, db')))))"

definition token ::
    "oauth_server \<Rightarrow> (grant_row list \<Rightarrow> grant_row list) \<Rightarrow> storage \<Rightarrow> exchange_secrets option
     \<Rightarrow> (str \<times> str) option \<Rightarrow> int \<Rightarrow> token_form \<Rightarrow> oauth_db \<Rightarrow> oauth_response \<times> oauth_db" where
  "token srv scan storage secrets tokens now form db =
    (if storage = Busy then (database_busy, db)
     else
       let (result, db') =
         (if tf_grant_type form = ''authorization_code'' then exchange_code srv scan storage secrets now form db
          else if tf_grant_type form = ''refresh_token'' then rotate_refresh srv storage tokens now form db
          else (Inl (OAuthFailure ''unsupported_grant_type''
            ''grant_type must be authorization_code or refresh_token''), db))
       in (case result of Inr response \<Rightarrow> Tokens response | Inl f \<Rightarrow> failure_response f, db'))"

section \<open>Revocation and access\<close>

text \<open>The grant a token belongs to, access tokens first.\<close>

definition grant_of_token :: "str \<Rightarrow> oauth_db \<Rightarrow> grant_row option" where
  "grant_of_token h db =
    (let owner = (\<lambda>i. List.find (\<lambda>g. ogr_id g = i) (db_grants db));
         of_access = Option.bind (List.find (\<lambda>a. oac_hash a = h) (db_access db)) (\<lambda>a. owner (oac_grant a));
         of_refresh = Option.bind (List.find (\<lambda>r. orf_hash r = h) (db_refresh db)) (\<lambda>r. owner (orf_grant r))
     in or_else of_access of_refresh)"

definition revoke_grant :: "int \<Rightarrow> str \<Rightarrow> oauth_db \<Rightarrow> oauth_db" where
  "revoke_grant now i db =
    db\<lparr>db_grants := map (\<lambda>g. if ogr_id g = i then g\<lparr>ogr_revoked := Some now\<rparr> else g) (db_grants db),
       db_access := filter (\<lambda>a. oac_grant a \<noteq> i) (db_access db),
       db_refresh := filter (\<lambda>r. orf_grant r \<noteq> i) (db_refresh db)\<rparr>"

definition revoke ::
    "oauth_server \<Rightarrow> storage \<Rightarrow> int \<Rightarrow> str \<Rightarrow> str \<Rightarrow> oauth_db \<Rightarrow> oauth_response \<times> oauth_db" where
  "revoke srv storage now given client db =
    (case storage of
       Busy \<Rightarrow> (database_busy, db)
     | Broken \<Rightarrow> (internal_error, db)
     | Ready \<Rightarrow> (case grant_of_token (token_hash srv given) db of
         None \<Rightarrow> (Done, db)
       | Some g \<Rightarrow> if ogr_client g = client then (Done, revoke_grant now (ogr_id g) db) else (Done, db)))"

definition revoke_all :: "int \<Rightarrow> bool \<Rightarrow> oauth_db \<Rightarrow> nat \<times> oauth_db" where
  "revoke_all now has_approved_at db0 =
    (let db = initialize_schema has_approved_at db0
     in (active_grants db, db\<lparr>db_grants := map (\<lambda>g. if ogr_revoked g = None then g\<lparr>ogr_revoked := Some now\<rparr> else g)
           (db_grants db), db_access := [], db_refresh := [], db_codes := []\<rparr>))"

text \<open>\<open>LIKE\<close> ignores the case of ASCII letters.\<close>

definition scope_allows_read :: "str \<Rightarrow> bool" where
  "scope_allows_read s =
    contains_sub (to_ascii_lowercase ('' '' @ s @ '' '')) (to_ascii_lowercase '' memex:read '')"

definition authorize_access :: "oauth_server \<Rightarrow> int \<Rightarrow> str \<Rightarrow> oauth_db \<Rightarrow> bool" where
  "authorize_access srv now given db =
    list_ex (\<lambda>a. oac_hash a = token_hash srv given \<and> now < oac_expires a
      \<and> list_ex (\<lambda>g. ogr_id g = oac_grant a \<and> ogr_revoked g = None \<and> ogr_resource g = sv_resource srv
          \<and> scope_allows_read (ogr_scope g)) (db_grants db)) (db_access db)"

end
