(* ===== verification/OAuthTables.thy ===== *)
theory OAuthTables
  imports OAuth
begin

text \<open>
  The tables of theory \<open>OAuth\<close> keep their keys, references and limits: the invariant, that every
  statement and every handler preserves it, and what the successful exchanges and rotations write.
\<close>

section \<open>Well-formed tables\<close>

definition keys_ok :: "oauth_db \<Rightarrow> bool" where
  "keys_ok db \<longleftrightarrow> distinct (map ocl_id (db_clients db)) \<and> distinct (map oco_hash (db_codes db))
    \<and> distinct (map ogr_id (db_grants db)) \<and> distinct (map ogr_family (db_grants db))
    \<and> distinct (map oac_hash (db_access db)) \<and> distinct (map orf_hash (db_refresh db))"

text \<open>Every reference is met, and a client that holds a grant is an approved one.\<close>

definition refs_ok :: "oauth_db \<Rightarrow> bool" where
  "refs_ok db \<longleftrightarrow> (\<forall>c \<in> set (db_codes db). oco_client c \<in> ocl_id ` set (db_clients db))
    \<and> (\<forall>g \<in> set (db_grants db). \<exists>c \<in> set (db_clients db). ocl_id c = ogr_client g \<and> ocl_approved c \<noteq> None)
    \<and> (\<forall>a \<in> set (db_access db). oac_grant a \<in> ogr_id ` set (db_grants db))
    \<and> (\<forall>r \<in> set (db_refresh db). \<exists>g \<in> set (db_grants db). ogr_id g = orf_grant r \<and> ogr_family g = orf_family r)"

definition family_size :: "str \<Rightarrow> oauth_db \<Rightarrow> nat" where
  "family_size f db = length (filter (\<lambda>r. orf_family r = f) (db_refresh db))"

definition caps_ok :: "oauth_db \<Rightarrow> bool" where
  "caps_ok db \<longleftrightarrow> length (db_clients db) \<le> max_clients \<and> length (db_codes db) \<le> max_pending
    \<and> length (db_grants db) \<le> max_grants \<and> (\<forall>f. family_size f db \<le> max_refresh_tokens_per_family)"

definition db_wf :: "oauth_db \<Rightarrow> bool" where
  "db_wf db \<longleftrightarrow> keys_ok db \<and> refs_ok db \<and> caps_ok db"

lemmas wf_defs = keys_ok_def refs_ok_def caps_ok_def

lemma db_wfI: "keys_ok db \<Longrightarrow> refs_ok db \<Longrightarrow> caps_ok db \<Longrightarrow> db_wf db"
  by (simp add: db_wf_def)

lemma db_wfD: "db_wf db \<Longrightarrow> keys_ok db" "db_wf db \<Longrightarrow> refs_ok db" "db_wf db \<Longrightarrow> caps_ok db"
  by (simp_all add: db_wf_def)

lemma refs_okD:
  assumes "refs_ok db"
  shows "c \<in> set (db_codes db) \<Longrightarrow> oco_client c \<in> ocl_id ` set (db_clients db)"
    and "g \<in> set (db_grants db) \<Longrightarrow> \<exists>c \<in> set (db_clients db). ocl_id c = ogr_client g \<and> ocl_approved c \<noteq> None"
    and "a \<in> set (db_access db) \<Longrightarrow> oac_grant a \<in> ogr_id ` set (db_grants db)"
    and "r \<in> set (db_refresh db) \<Longrightarrow> \<exists>g \<in> set (db_grants db). ogr_id g = orf_grant r \<and> ogr_family g = orf_family r"
  using assms by (simp_all add: refs_ok_def)

lemma key_unique: "distinct (map f xs) \<Longrightarrow> x \<in> set xs \<Longrightarrow> y \<in> set xs \<Longrightarrow> f x = f y \<Longrightarrow> x = y"
  by (meson distinct_map inj_onD)

lemma empty_db_wf: "db_wf empty_db"
  by (simp add: db_wf_def wf_defs empty_db_def family_size_def)

text \<open>Removing rows keeps keys and limits.\<close>

definition rows_of :: "'a list \<Rightarrow> 'a list \<Rightarrow> bool" where
  "rows_of xs ys \<longleftrightarrow> (\<exists>P. xs = filter P ys)"

lemma rows_of_refl [simp]: "rows_of xs xs"
  unfolding rows_of_def by (rule exI [of _ "\<lambda>_. True"]) simp

lemma rows_of_filter [simp]: "rows_of (filter P xs) xs"
  unfolding rows_of_def by blast

lemma rows_of_trans: "rows_of xs ys \<Longrightarrow> rows_of ys zs \<Longrightarrow> rows_of xs zs"
  unfolding rows_of_def by (metis filter_filter)

lemma rows_of_set: "rows_of xs ys \<Longrightarrow> set xs \<subseteq> set ys"
  unfolding rows_of_def by auto

lemma rows_of_length: "rows_of xs ys \<Longrightarrow> length xs \<le> length ys"
  unfolding rows_of_def by auto

lemma rows_of_distinct: "rows_of xs ys \<Longrightarrow> distinct (map f ys) \<Longrightarrow> distinct (map f xs)"
  unfolding rows_of_def by (auto simp: distinct_map_filter)

lemma rows_of_filtered: "rows_of xs ys \<Longrightarrow> rows_of (filter P xs) (filter P ys)"
  unfolding rows_of_def by (auto simp: conj_commute)

definition fewer_rows :: "oauth_db \<Rightarrow> oauth_db \<Rightarrow> bool" where
  "fewer_rows db' db \<longleftrightarrow> rows_of (db_clients db') (db_clients db) \<and> rows_of (db_codes db') (db_codes db)
    \<and> rows_of (db_grants db') (db_grants db) \<and> rows_of (db_access db') (db_access db)
    \<and> rows_of (db_refresh db') (db_refresh db)"

lemma fewer_rows_refl: "fewer_rows db db"
  by (simp add: fewer_rows_def)

lemma fewer_rows_trans: "fewer_rows a b \<Longrightarrow> fewer_rows b c \<Longrightarrow> fewer_rows a c"
  unfolding fewer_rows_def by (blast intro: rows_of_trans)

lemma fewer_rows_set:
  assumes "fewer_rows db' db"
  shows "set (db_clients db') \<subseteq> set (db_clients db)" "set (db_codes db') \<subseteq> set (db_codes db)"
    "set (db_grants db') \<subseteq> set (db_grants db)" "set (db_access db') \<subseteq> set (db_access db)"
    "set (db_refresh db') \<subseteq> set (db_refresh db)"
  using assms unfolding fewer_rows_def by (blast dest: rows_of_set)+

lemma fewer_rows_keys: "fewer_rows db' db \<Longrightarrow> keys_ok db \<Longrightarrow> keys_ok db'"
  unfolding fewer_rows_def keys_ok_def by (blast intro: rows_of_distinct)

lemma fewer_rows_caps: "fewer_rows db' db \<Longrightarrow> caps_ok db \<Longrightarrow> caps_ok db'"
  unfolding fewer_rows_def caps_ok_def family_size_def
  by (meson order_trans rows_of_length rows_of_filtered)

lemma delete_grants_fewer: "fewer_rows (delete_grants P db) db"
  by (simp add: fewer_rows_def delete_grants_def Let_def)

lemma delete_clients_fewer: "delete_clients P db = Some db' \<Longrightarrow> fewer_rows db' db"
  by (auto simp: fewer_rows_def delete_clients_def Let_def split: if_splits)

lemma delete_grants_refs:
  assumes "refs_ok db"
  shows "refs_ok (delete_grants P db)"
proof -
  let ?gone = "ogr_id ` set (filter P (db_grants db))"
  have live: "\<not> P g" if "g \<in> set (db_grants db)" "ogr_id g \<notin> ?gone" for g using that by auto
  have "oac_grant a \<in> ogr_id ` set (filter (\<lambda>g. \<not> P g) (db_grants db))"
    if "a \<in> set (db_access db)" "oac_grant a \<notin> ?gone" for a
  proof -
    obtain g where "g \<in> set (db_grants db)" "oac_grant a = ogr_id g" using assms \<open>a \<in> _\<close> unfolding refs_ok_def by blast
    then show ?thesis using live \<open>oac_grant a \<notin> _\<close> by auto
  qed
  moreover have "\<exists>g \<in> set (filter (\<lambda>g. \<not> P g) (db_grants db)). ogr_id g = orf_grant r \<and> ogr_family g = orf_family r"
    if "r \<in> set (db_refresh db)" "orf_grant r \<notin> ?gone" for r
  proof -
    obtain g where g: "g \<in> set (db_grants db)" "ogr_id g = orf_grant r" "ogr_family g = orf_family r"
      using assms \<open>r \<in> _\<close> unfolding refs_ok_def by blast
    have "\<not> P g" using live [OF g(1)] g(2) that(2) by simp
    then show ?thesis using g by (intro bexI [of _ g]) simp_all
  qed
  ultimately show ?thesis using assms unfolding refs_ok_def delete_grants_def Let_def by simp
qed

lemma delete_clients_refs:
  assumes refs: "refs_ok db" and some: "delete_clients P db = Some db'"
  shows "refs_ok db'"
proof -
  let ?gone = "ocl_id ` set (filter P (db_clients db))"
  have none: "\<not> list_ex (\<lambda>g. ogr_client g \<in> ?gone) (db_grants db)"
    and db': "db' = db\<lparr>db_clients := filter (\<lambda>c. \<not> P c) (db_clients db),
      db_codes := filter (\<lambda>c. oco_client c \<notin> ?gone) (db_codes db)\<rparr>"
    using some unfolding delete_clients_def Let_def by (simp_all only: option.inject option.distinct not_False_eq_True split: if_split_asm)
  then have kept: "\<And>g. g \<in> set (db_grants db) \<Longrightarrow> ogr_client g \<notin> ?gone" unfolding list_ex_iff by blast
  have live: "\<not> P c" if "c \<in> set (db_clients db)" "ocl_id c \<notin> ?gone" for c using that by auto
  have "oco_client c \<in> ocl_id ` set (filter (\<lambda>c. \<not> P c) (db_clients db))"
    if "c \<in> set (db_codes db)" "oco_client c \<notin> ?gone" for c
  proof -
    obtain x where "x \<in> set (db_clients db)" "oco_client c = ocl_id x" using refs \<open>c \<in> _\<close> unfolding refs_ok_def by blast
    then show ?thesis using live \<open>oco_client c \<notin> _\<close> by auto
  qed
  moreover have "\<exists>c \<in> set (filter (\<lambda>c. \<not> P c) (db_clients db)). ocl_id c = ogr_client g \<and> ocl_approved c \<noteq> None"
    if "g \<in> set (db_grants db)" for g
  proof -
    obtain c where c: "c \<in> set (db_clients db)" "ocl_id c = ogr_client g" "ocl_approved c \<noteq> None"
      using refs \<open>g \<in> _\<close> unfolding refs_ok_def by blast
    have "\<not> P c" using live [OF c(1)] kept [OF that] c(2) by simp
    then show ?thesis using c by (intro bexI [of _ c]) simp_all
  qed
  ultimately show ?thesis using refs unfolding refs_ok_def db' by simp
qed

text \<open>A client without approval holds no grant, so deleting such clients never fails.\<close>

lemma delete_unapproved:
  assumes "db_wf db" "\<And>c. c \<in> set (db_clients db) \<Longrightarrow> P c \<Longrightarrow> ocl_approved c = None"
  shows "delete_clients P db \<noteq> None"
proof
  assume "delete_clients P db = None"
  then have "list_ex (\<lambda>g. ogr_client g \<in> ocl_id ` set (filter P (db_clients db))) (db_grants db)"
    by (simp only: delete_clients_def Let_def option.distinct split: if_split_asm)
  then obtain g where "g \<in> set (db_grants db)" "ogr_client g \<in> ocl_id ` set (filter P (db_clients db))"
    unfolding list_ex_iff by blast
  then obtain c where g: "g \<in> set (db_grants db)" "c \<in> set (db_clients db)" "P c" "ogr_client g = ocl_id c"
    unfolding set_filter by blast
  obtain c' where c': "c' \<in> set (db_clients db)" "ocl_id c' = ogr_client g" "ocl_approved c' \<noteq> None"
    using db_wfD(2) [OF assms(1)] g(1) unfolding refs_ok_def by blast
  have "distinct (map ocl_id (db_clients db))" using db_wfD(1) [OF assms(1)] unfolding keys_ok_def by blast
  then have "c' = c" by (rule key_unique [OF _ c'(1) g(2)]) (simp add: c'(2) g(4))
  then show False using assms(2) [OF g(2,3)] c'(3) by simp
qed

section \<open>Statements\<close>

lemma expire_refs:
  "refs_ok db \<Longrightarrow> refs_ok (db\<lparr>db_codes := filter P (db_codes db), db_access := filter Q (db_access db),
    db_refresh := filter R (db_refresh db)\<rparr>)"
  by (simp add: refs_ok_def)

lemma prune_tx_fewer: "fewer_rows (prune_database_tx now db) db"
proof -
  define live where "live = db\<lparr>db_codes := filter (\<lambda>c. \<not> oco_expires c \<le> now) (db_codes db),
    db_access := filter (\<lambda>a. \<not> oac_expires a \<le> now) (db_access db),
    db_refresh := filter (\<lambda>r. \<not> orf_expires r \<le> now) (db_refresh db)\<rparr>"
  have "fewer_rows live db" by (simp add: live_def fewer_rows_def)
  then show ?thesis
    unfolding prune_database_tx_def Let_def live_def [symmetric]
    by (rule fewer_rows_trans [OF delete_grants_fewer])
qed

lemma prune_tx_wf: "db_wf db \<Longrightarrow> db_wf (prune_database_tx now db)"
proof (rule db_wfI)
  assume wf: "db_wf db"
  show "keys_ok (prune_database_tx now db)" by (rule fewer_rows_keys [OF prune_tx_fewer db_wfD(1) [OF wf]])
  show "caps_ok (prune_database_tx now db)" by (rule fewer_rows_caps [OF prune_tx_fewer db_wfD(3) [OF wf]])
  show "refs_ok (prune_database_tx now db)"
    unfolding prune_database_tx_def Let_def by (intro delete_grants_refs expire_refs db_wfD(2) [OF wf])
qed

lemma delete_grants_wf: "db_wf db \<Longrightarrow> db_wf (delete_grants P db)"
  by (meson db_wfI db_wfD delete_grants_fewer delete_grants_refs fewer_rows_keys fewer_rows_caps)

lemma delete_clients_wf: "db_wf db \<Longrightarrow> delete_clients P db = Some db' \<Longrightarrow> db_wf db'"
  by (meson db_wfI db_wfD delete_clients_fewer delete_clients_refs fewer_rows_keys fewer_rows_caps)

lemma prune_unapproved_some: "db_wf db \<Longrightarrow> prune_unapproved_clients_tx now db \<noteq> None"
  unfolding prune_unapproved_clients_tx_def by (rule delete_unapproved) simp_all

lemma prune_unapproved_wf: "db_wf db \<Longrightarrow> prune_unapproved_clients_tx now db = Some db' \<Longrightarrow> db_wf db'"
  unfolding prune_unapproved_clients_tx_def by (rule delete_clients_wf)

lemma prune_database_wf:
  assumes "db_wf db"
  shows "fst (prune_database now db) \<and> db_wf (snd (prune_database now db))"
proof -
  note wf = prune_tx_wf [OF assms, of now]
  obtain db' where some: "prune_unapproved_clients_tx now (prune_database_tx now db) = Some db'"
    using prune_unapproved_some [OF wf] by blast
  show ?thesis using prune_unapproved_wf [OF wf some] by (simp add: prune_database_def some)
qed

text \<open>The clients that may be evicted are unapproved, whatever order the table is read in.\<close>

lemma evict_client_some:
  assumes "db_wf db" "set (scan (filter Q (db_clients db))) \<subseteq> set (filter Q (db_clients db))"
    "Q = (\<lambda>c. ocl_approved c = None \<and> \<not> list_ex (\<lambda>x. oco_client x = ocl_id c) (db_codes db))"
  shows "evict_client scan db \<noteq> None"
proof (cases "sort_key ocl_created (scan (filter Q (db_clients db)))")
  case Nil
  then show ?thesis by (simp add: evict_client_def assms(3))
next
  case (Cons c cs)
  then have "c \<in> set (scan (filter Q (db_clients db)))" by (metis list.set_intros(1) set_sort)
  then have c: "c \<in> set (db_clients db)" "ocl_approved c = None" using assms(2,3) by auto
  have "distinct (map ocl_id (db_clients db))" using db_wfD(1) [OF assms(1)] unfolding keys_ok_def by blast
  then have "x = c" if "x \<in> set (db_clients db)" "ocl_id x = ocl_id c" for x
    by (rule key_unique [OF _ that(1) c(1) that(2)])
  then have "delete_clients (\<lambda>x. ocl_id x = ocl_id c) db \<noteq> None"
    using assms(1) c(2) by (intro delete_unapproved) blast+
  then show ?thesis using Cons by (simp add: evict_client_def assms(3))
qed

lemma evict_client_wf: "db_wf db \<Longrightarrow> evict_client scan db = Some db' \<Longrightarrow> db_wf db'"
  unfolding evict_client_def by (auto split: list.splits intro: delete_clients_wf)

lemma evict_grant_wf: "db_wf db \<Longrightarrow> db_wf (evict_grant scan db)"
  unfolding evict_grant_def by (auto split: list.splits intro: delete_grants_wf)

lemma evict_grant_fewer: "fewer_rows (evict_grant scan db) db"
  unfolding evict_grant_def by (auto split: list.splits intro: delete_grants_fewer fewer_rows_refl)

lemma insert_client_wf:
  "db_wf db \<Longrightarrow> length (db_clients db) < max_clients \<Longrightarrow> insert_client r db = Some db' \<Longrightarrow> db_wf db'"
  by (auto simp: db_wf_def wf_defs insert_client_def family_size_def split: if_splits)

lemma insert_code_wf:
  "db_wf db \<Longrightarrow> length (db_codes db) < max_pending \<Longrightarrow> insert_code r db = Some db' \<Longrightarrow> db_wf db'"
  by (auto simp: db_wf_def wf_defs insert_code_def family_size_def split: if_splits)

lemma insert_access_wf: "db_wf db \<Longrightarrow> insert_access r db = Some db' \<Longrightarrow> db_wf db'"
  by (auto simp: db_wf_def wf_defs insert_access_def family_size_def split: if_splits)

lemma insert_grant_wf:
  assumes wf: "db_wf db" and room: "length (db_grants db) < max_grants"
    and approved: "\<exists>c \<in> set (db_clients db). ocl_id c = ogr_client r \<and> ocl_approved c \<noteq> None"
    and some: "insert_grant r db = Some db'"
  shows "db_wf db'"
proof -
  have db': "db' = db\<lparr>db_grants := db_grants db @ [r]\<rparr>"
    and new: "ogr_id r \<notin> ogr_id ` set (db_grants db)" "ogr_family r \<notin> ogr_family ` set (db_grants db)"
    using some by (auto simp: insert_grant_def split: if_splits)
  have "keys_ok db'" using db_wfD(1) [OF wf] new by (simp add: keys_ok_def db')
  moreover have "refs_ok db'" using db_wfD(2) [OF wf] approved unfolding refs_ok_def db' by simp
  moreover have "caps_ok db'" using db_wfD(3) [OF wf] room by (simp add: caps_ok_def family_size_def db')
  ultimately show ?thesis by (rule db_wfI)
qed

lemma insert_refresh_wf:
  assumes wf: "db_wf db" and room: "family_size (orf_family r) db < max_refresh_tokens_per_family"
    and grant: "\<exists>g \<in> set (db_grants db). ogr_id g = orf_grant r \<and> ogr_family g = orf_family r"
    and some: "insert_refresh r db = Some db'"
  shows "db_wf db'"
proof -
  have db': "db' = db\<lparr>db_refresh := db_refresh db @ [r]\<rparr>" and new: "orf_hash r \<notin> orf_hash ` set (db_refresh db)"
    using some by (auto simp: insert_refresh_def split: if_splits)
  have "keys_ok db'" using db_wfD(1) [OF wf] new by (simp add: keys_ok_def db')
  moreover have "refs_ok db'" using db_wfD(2) [OF wf] grant unfolding refs_ok_def db' by simp
  moreover have "family_size f db' \<le> max_refresh_tokens_per_family" for f
  proof -
    have "family_size f db' = family_size f db + (if orf_family r = f then 1 else 0)"
      by (simp add: family_size_def db')
    then show ?thesis using db_wfD(3) [OF wf] room by (auto simp: caps_ok_def)
  qed
  then have "caps_ok db'" using db_wfD(3) [OF wf] by (simp add: caps_ok_def db')
  ultimately show ?thesis by (blast intro: db_wfI)
qed

text \<open>Updates that change no key and keep every reference.\<close>

lemma mark_approved_simps [simp]:
  "ocl_id (mark_approved now client c) = ocl_id c"
  "ocl_approved (mark_approved now client c) = None \<longleftrightarrow> ocl_approved c = None \<and> ocl_id c \<noteq> client"
  by (simp_all add: mark_approved_def)

lemma mark_used_simps [simp]:
  "orf_hash (mark_used now h r) = orf_hash r" "orf_grant (mark_used now h r) = orf_grant r"
  "orf_family (mark_used now h r) = orf_family r"
  by (simp_all add: mark_used_def)

lemma approve_client_wf:
  assumes "db_wf db"
  shows "db_wf (approve_client now client db)"
proof (rule db_wfI)
  have ids: "ocl_id \<circ> mark_approved now client = ocl_id" by (rule ext) simp
  then have ids': "ocl_id ` mark_approved now client ` set (db_clients db) = ocl_id ` set (db_clients db)"
    by (simp only: image_comp)
  show "keys_ok (approve_client now client db)"
    using db_wfD(1) [OF assms] unfolding keys_ok_def approve_client_def by (simp add: ids)
  show "caps_ok (approve_client now client db)"
    using db_wfD(3) [OF assms] by (simp add: caps_ok_def approve_client_def family_size_def)
  have "\<exists>c \<in> mark_approved now client ` set (db_clients db). ocl_id c = ogr_client g \<and> ocl_approved c \<noteq> None"
    if g: "g \<in> set (db_grants db)" for g
  proof -
    obtain c where c: "c \<in> set (db_clients db)" "ocl_id c = ogr_client g" "ocl_approved c \<noteq> None"
      using refs_okD(2) [OF db_wfD(2) [OF assms] g] by blast
    show ?thesis by (rule rev_bexI [OF imageI [OF c(1)]]) (simp add: c(2,3) del: not_None_eq)
  qed
  then show "refs_ok (approve_client now client db)"
    using db_wfD(2) [OF assms] ids' unfolding refs_ok_def approve_client_def by simp
qed

lemma approve_client_approves:
  assumes "client \<in> ocl_id ` set (db_clients db)"
  shows "\<exists>c \<in> set (db_clients (approve_client now client db)). ocl_id c = client \<and> ocl_approved c \<noteq> None"
proof -
  obtain c where c: "c \<in> set (db_clients db)" "ocl_id c = client" using assms by blast
  then have "mark_approved now client c \<in> set (db_clients (approve_client now client db))"
    by (simp add: approve_client_def)
  then show ?thesis by (rule rev_bexI) (simp add: c(2) del: not_None_eq)
qed

lemma map_grants_wf:
  assumes wf: "db_wf db"
    and same: "\<And>g. ogr_id (u g) = ogr_id g \<and> ogr_family (u g) = ogr_family g \<and> ogr_client (u g) = ogr_client g"
  shows "db_wf (db\<lparr>db_grants := map u (db_grants db), db_access := filter P (db_access db),
    db_refresh := filter Q (db_refresh db)\<rparr>)"
proof (rule db_wfI)
  let ?db = "db\<lparr>db_grants := map u (db_grants db), db_access := filter P (db_access db),
    db_refresh := filter Q (db_refresh db)\<rparr>"
  have ids: "ogr_id \<circ> u = ogr_id" "ogr_family \<circ> u = ogr_family" using same by auto
  show "keys_ok ?db" using db_wfD(1) [OF wf] by (simp add: keys_ok_def ids distinct_map_filter)
  have "family_size f ?db \<le> family_size f db" for f
    unfolding family_size_def by (simp del: filter_filter) (rule rows_of_length [OF rows_of_filtered [OF rows_of_filter]])
  moreover have "family_size f db \<le> max_refresh_tokens_per_family" for f
    using db_wfD(3) [OF wf] unfolding caps_ok_def by blast
  ultimately have "family_size f ?db \<le> max_refresh_tokens_per_family" for f by (rule order_trans)
  then show "caps_ok ?db" using db_wfD(3) [OF wf] unfolding caps_ok_def by simp
  have "ogr_id ` u ` set (db_grants db) = ogr_id ` set (db_grants db)" by (simp add: image_image same)
  then show "refs_ok ?db" using db_wfD(2) [OF wf] unfolding refs_ok_def by (simp add: same)
qed

lemma use_refresh_wf:
  assumes "db_wf db"
  shows "db_wf (use_refresh now h db)"
proof (rule db_wfI)
  have hashes: "orf_hash \<circ> mark_used now h = orf_hash" by (rule ext) simp
  show "keys_ok (use_refresh now h db)"
    using db_wfD(1) [OF assms] unfolding keys_ok_def use_refresh_def by (simp add: hashes)
  have "family_size f (use_refresh now h db) = family_size f db" for f
    by (simp add: family_size_def filter_map o_def use_refresh_def)
  then show "caps_ok (use_refresh now h db)"
    using db_wfD(3) [OF assms] unfolding caps_ok_def by (simp add: use_refresh_def)
  show "refs_ok (use_refresh now h db)"
    using db_wfD(2) [OF assms] unfolding refs_ok_def use_refresh_def by simp
qed

lemma revoke_family_wf: "db_wf db \<Longrightarrow> db_wf (revoke_family now family db)"
  unfolding revoke_family_def Let_def by (rule map_grants_wf) simp_all

lemma revoke_grant_wf: "db_wf db \<Longrightarrow> db_wf (revoke_grant now i db)"
  unfolding revoke_grant_def by (rule map_grants_wf) simp_all

section \<open>Handlers keep the tables well-formed\<close>

lemma register_tx_wf:
  assumes wf: "db_wf db" and res: "register_tx scan now client db = Inr db'"
  shows "db_wf db'"
proof -
  obtain db1 where db1: "prune_unapproved_clients_tx now (prune_database_tx now db) = Some db1"
    using prune_unapproved_some [OF prune_tx_wf [OF wf]] by blast
  note wf1 = prune_unapproved_wf [OF prune_tx_wf [OF wf] db1]
  obtain db2 where db2: "(if max_clients \<le> length (db_clients db1) then evict_client scan db1 else Some db1) = Some db2"
    and rest: "\<not> max_clients \<le> length (db_clients db2)" "insert_client client db2 = Some db'"
    using res unfolding register_tx_def db1 option.case by (auto split: option.splits if_splits)
  have "db_wf db2" using db2 wf1 evict_client_wf [OF wf1] by (auto split: if_splits)
  then show ?thesis using insert_client_wf rest by (meson not_le)
qed

lemma register_wf: "db_wf db \<Longrightarrow> db_wf (snd (register srv scan storage now random req db))"
  unfolding register_def Let_def
  by (auto split: sum.splits option.splits storage.splits tx_error.splits intro: register_tx_wf)

lemma store_code_tx_wf: "db_wf db \<Longrightarrow> store_code_tx now code db = Some db' \<Longrightarrow> db_wf db'"
  unfolding store_code_tx_def Let_def by (auto simp: not_le split: if_splits intro: insert_code_wf [OF prune_tx_wf])

lemma store_code_wf: "db_wf db \<Longrightarrow> db_wf (snd (store_code srv storage now random request db))"
  unfolding store_code_def by (auto split: option.splits storage.splits intro: store_code_tx_wf)

lemma find_some: "List.find P xs = Some x \<Longrightarrow> x \<in> set xs \<and> P x"
  by (metis find_Some_iff nth_mem)

text \<open>The rows an exchange writes.\<close>

lemma issue_grant_some:
  assumes "issue_grant srv xs now resource stored db = Some db'"
  shows "db_clients db' = map (mark_approved now (oco_client stored)) (db_clients db)
    \<and> db_codes db' = filter (\<lambda>c. oco_hash c \<noteq> oco_hash stored) (db_codes db)
    \<and> db_grants db' = db_grants db @ [\<lparr>ogr_id = xs_grant xs, ogr_family = xs_family xs, ogr_client = oco_client stored,
         ogr_resource = resource, ogr_scope = oco_scope stored, ogr_created = now, ogr_revoked = None\<rparr>]
    \<and> db_access db' = db_access db @ [\<lparr>oac_hash = token_hash srv (xs_access xs), oac_grant = xs_grant xs,
         oac_expires = now + access_ttl_seconds\<rparr>]
    \<and> db_refresh db' = db_refresh db @ [\<lparr>orf_hash = token_hash srv (xs_refresh xs), orf_grant = xs_grant xs,
         orf_family = xs_family xs, orf_client = oco_client stored, orf_resource = resource,
         orf_scope = oco_scope stored, orf_expires = now + refresh_ttl_seconds, orf_used = None\<rparr>]
    \<and> xs_grant xs \<notin> ogr_id ` set (db_grants db) \<and> token_hash srv (xs_refresh xs) \<notin> orf_hash ` set (db_refresh db)"
  using assms
  by (auto simp: issue_grant_def insert_grant_def insert_access_def insert_refresh_def approve_client_def
      Let_def bind_eq_Some_conv split: if_splits)

lemma family_fresh:
  assumes "refs_ok db" "f \<notin> ogr_family ` set (db_grants db)"
  shows "family_size f db = 0"
proof -
  have "orf_family r \<noteq> f" if r: "r \<in> set (db_refresh db)" for r
    using refs_okD(4) [OF assms(1) r] assms(2) by (metis imageI)
  then show ?thesis by (simp add: family_size_def filter_empty_conv)
qed

lemma issue_grant_wf:
  assumes wf: "db_wf db" and room: "length (db_grants db) < max_grants"
    and client: "oco_client stored \<in> ocl_id ` set (db_clients db)"
    and some: "issue_grant srv xs now resource stored db = Some db'"
  shows "db_wf db'"
proof -
  define db0 where "db0 = db\<lparr>db_codes := filter (\<lambda>c. oco_hash c \<noteq> oco_hash stored) (db_codes db)\<rparr>"
  define db1 where "db1 = approve_client now (oco_client stored) db0"
  define gr where "gr = \<lparr>ogr_id = xs_grant xs, ogr_family = xs_family xs, ogr_client = oco_client stored,
    ogr_resource = resource, ogr_scope = oco_scope stored, ogr_created = now, ogr_revoked = None\<rparr>"
  have "fewer_rows db0 db" by (simp add: db0_def fewer_rows_def)
  then have "db_wf db0"
    using db_wfD [OF wf] fewer_rows_keys fewer_rows_caps by (intro db_wfI) (auto simp: refs_ok_def db0_def)
  then have wf1: "db_wf db1" unfolding db1_def by (rule approve_client_wf)
  have approved: "\<exists>c \<in> set (db_clients db1). ocl_id c = ogr_client gr \<and> ocl_approved c \<noteq> None"
    using approve_client_approves [of "oco_client stored" db0 now] client by (simp add: gr_def db1_def db0_def)
  obtain db2 db3 where steps: "insert_grant gr db1 = Some db2"
    "insert_access \<lparr>oac_hash = token_hash srv (xs_access xs), oac_grant = xs_grant xs,
       oac_expires = now + access_ttl_seconds\<rparr> db2 = Some db3"
    "insert_refresh \<lparr>orf_hash = token_hash srv (xs_refresh xs), orf_grant = xs_grant xs,
       orf_family = xs_family xs, orf_client = oco_client stored, orf_resource = resource,
       orf_scope = oco_scope stored, orf_expires = now + refresh_ttl_seconds, orf_used = None\<rparr> db3 = Some db'"
    using some unfolding issue_grant_def Let_def gr_def db1_def db0_def by (auto simp: bind_eq_Some_conv)
  have "length (db_grants db1) < max_grants" using room by (simp add: db1_def db0_def approve_client_def)
  then have wf2: "db_wf db2" by (rule insert_grant_wf [OF wf1 _ approved steps(1)])
  note wf3 = insert_access_wf [OF wf2 steps(2)]
  have grants: "gr \<in> set (db_grants db3)" "xs_family xs \<notin> ogr_family ` set (db_grants db1)"
    "db_refresh db3 = db_refresh db1"
    using steps(1,2) by (auto simp: insert_grant_def insert_access_def gr_def split: if_splits)
  have "family_size (xs_family xs) db3 = family_size (xs_family xs) db1" by (simp add: family_size_def grants(3))
  then have "family_size (xs_family xs) db3 = 0" using family_fresh [OF db_wfD(2) [OF wf1] grants(2)] by simp
  then show ?thesis
    using grants(1) by (intro insert_refresh_wf [OF wf3 _ _ steps(3)])
      (auto simp: max_refresh_tokens_per_family_def gr_def intro!: bexI [of _ gr])
qed

text \<open>What a successful exchange found and did.\<close>

lemma exchange_tx_inr:
  assumes "exchange_tx srv scan xs now client redirect resource code verifier db0 = Inr (response, db')"
  shows "\<exists>stored db1. List.find (\<lambda>c. oco_hash c = token_hash srv code) (db_codes (prune_database_tx now db0)) = Some stored
    \<and> oco_client stored = client \<and> oco_redirect stored = redirect \<and> oco_resource stored = resource
    \<and> oco_challenge stored = s256_challenge srv verifier
    \<and> (db1 = prune_database_tx now db0 \<or> db1 = evict_grant scan (prune_database_tx now db0))
    \<and> length (db_grants db1) < max_grants \<and> issue_grant srv xs now resource stored db1 = Some db'"
  using assms unfolding exchange_tx_def Let_def
  by (auto simp: not_le split: option.splits if_splits)

lemma exchange_code_inr:
  assumes "exchange_code srv scan storage secrets now form db = (Inr response, db')"
  shows "\<exists>xs code redirect verifier. secrets = Some xs \<and> tf_code form = Some code \<and> tf_redirect form = Some redirect
    \<and> tf_verifier form = Some verifier \<and> tf_resource form = Some (sv_resource srv)
    \<and> exchange_tx srv scan xs now (tf_client form) redirect (sv_resource srv) code verifier db = Inr (response, db')"
  using assms unfolding exchange_code_def
  by (auto split: option.splits if_splits sum.splits prod.splits)

lemma exchange_code_inl: "exchange_code srv scan storage secrets now form db = (Inl f, db') \<Longrightarrow> db' = db"
  unfolding exchange_code_def by (auto split: option.splits if_splits sum.splits prod.splits)

lemma exchange_tx_wf:
  assumes wf: "db_wf db0" and res: "exchange_tx srv scan xs now client redirect resource code verifier db0 = Inr (response, db')"
  shows "db_wf db'"
proof -
  obtain stored db1 where x: "List.find (\<lambda>c. oco_hash c = token_hash srv code) (db_codes (prune_database_tx now db0)) = Some stored"
    "db1 = prune_database_tx now db0 \<or> db1 = evict_grant scan (prune_database_tx now db0)"
    "length (db_grants db1) < max_grants" "issue_grant srv xs now resource stored db1 = Some db'"
    using exchange_tx_inr [OF res] by blast
  note wfp = prune_tx_wf [OF wf, of now]
  have wf1: "db_wf db1" using x(2) wfp evict_grant_wf [OF wfp] by blast
  have same: "db_clients db1 = db_clients (prune_database_tx now db0)"
    using x(2) by (auto simp: evict_grant_def delete_grants_def Let_def split: list.splits)
  have "oco_client stored \<in> ocl_id ` set (db_clients (prune_database_tx now db0))"
    using find_some [OF x(1)] refs_okD(1) [OF db_wfD(2) [OF wfp]] by blast
  then show ?thesis using issue_grant_wf [OF wf1 x(3) _ x(4)] same by simp
qed

lemma exchange_code_wf: "db_wf db \<Longrightarrow> db_wf (snd (exchange_code srv scan storage secrets now form db))"
proof (cases "exchange_code srv scan storage secrets now form db")
  case (Pair r db')
  assume wf: "db_wf db"
  show ?thesis
  proof (cases r)
    case (Inl f)
    then show ?thesis using Pair wf exchange_code_inl by fastforce
  next
    case (Inr response)
    then show ?thesis using exchange_code_inr [OF Pair [unfolded Inr]] exchange_tx_wf [OF wf] Pair by fastforce
  qed
qed

text \<open>A rotation in all its outcomes: refused with nothing changed, a replay, or the next pair of tokens.\<close>

lemma rotate_refresh_cases:
  assumes "rotate_refresh srv storage secrets now form db0 = (r, db')"
  obtains (refused) f where "r = Inl f" "db' = db0" "f \<noteq> invalid_grant ''refresh token reuse detected''"
  | (replay) stored given where "r = Inl (invalid_grant ''refresh token reuse detected'')"
      "db' = revoke_family now (orf_family stored) (prune_database_tx now db0)"
      "tf_refresh form = Some given" "stored \<in> set (db_refresh (prune_database_tx now db0))"
      "orf_hash stored = token_hash srv given" "orf_used stored \<noteq> None"
  | (rotated) response stored given g tokens requested where "r = Inr response" "secrets = Some tokens"
      "tf_refresh form = Some given" "stored \<in> set (db_refresh (prune_database_tx now db0))"
      "orf_hash stored = token_hash srv given" "orf_used stored = None"
      "g \<in> set (db_grants (prune_database_tx now db0))" "ogr_id g = orf_grant stored" "ogr_revoked g = None"
      "family_size (orf_family stored) (prune_database_tx now db0) < max_refresh_tokens_per_family"
      "scope_is_subset requested (orf_scope stored)" "requested_scope stored (tf_scope form) = Some requested"
      "rotate_tx srv tokens now stored requested (prune_database_tx now db0) = Some db'"
      "response = \<lparr>tr_access = fst tokens, tr_scope = requested, tr_refresh = snd tokens\<rparr>"
proof -
  let ?db = "prune_database_tx now db0"
  show ?thesis
  proof (cases "storage = Ready")
    case False
    then show ?thesis
      using assms by (intro refused [of "case tf_refresh form of
          None \<Rightarrow> OAuthFailure ''invalid_request'' ''refresh_token is required'' | Some _ \<Rightarrow> StorageFailure"])
        (auto simp: rotate_refresh_def invalid_grant_def split: option.splits)
  next
    case True
    show ?thesis
    proof (cases "tf_refresh form")
      case None
      then show ?thesis using assms refused by (auto simp: rotate_refresh_def invalid_grant_def)
    next
      case given: (Some given)
      show ?thesis
      proof (cases secrets)
        case None
        then show ?thesis using assms refused given by (auto simp: rotate_refresh_def invalid_grant_def)
      next
        case tokens: (Some tokens)
        show ?thesis
        proof (cases "List.find (\<lambda>r. orf_hash r = token_hash srv given) (db_refresh ?db)")
          case None
          then show ?thesis using assms refused given tokens True
            by (auto simp: rotate_refresh_def invalid_grant_def Let_def)
        next
          case stored: (Some stored)
          note found = find_some [OF stored]
          show ?thesis
          proof (cases "List.find (\<lambda>g. ogr_id g = orf_grant stored) (db_grants ?db)")
            case None
            then show ?thesis using assms refused given tokens stored True
              by (auto simp: rotate_refresh_def invalid_grant_def Let_def)
          next
            case g: (Some g)
            note start = assms [unfolded rotate_refresh_def Let_def given tokens stored g True option.case, simplified]
            obtain a b where ab: "tokens = (a, b)" by (cases tokens)
            from start show ?thesis
              using found find_some [OF g] given tokens refused replay rotated
              by (auto simp: ab invalid_grant_def family_size_def not_le split: if_splits option.splits)
          qed
        qed
      qed
    qed
  qed
qed

lemma rotate_tx_some:
  assumes "rotate_tx srv tokens now stored requested db = Some db'"
  shows "db_clients db' = db_clients db \<and> db_codes db' = db_codes db \<and> db_grants db' = db_grants db
    \<and> db_access db' = filter (\<lambda>a. oac_grant a \<noteq> orf_grant stored) (db_access db)
        @ [\<lparr>oac_hash = token_hash srv (fst tokens), oac_grant = orf_grant stored, oac_expires = now + access_ttl_seconds\<rparr>]
    \<and> db_refresh db' = map (mark_used now (orf_hash stored)) (db_refresh db)
        @ [\<lparr>orf_hash = token_hash srv (snd tokens), orf_grant = orf_grant stored, orf_family = orf_family stored,
            orf_client = orf_client stored, orf_resource = orf_resource stored, orf_scope = requested,
            orf_expires = now + refresh_ttl_seconds, orf_used = None\<rparr>]
    \<and> token_hash srv (snd tokens) \<notin> orf_hash ` set (db_refresh db)"
  using assms
  by (auto simp: rotate_tx_def insert_access_def insert_refresh_def use_refresh_def
      Let_def bind_eq_Some_conv image_image split: if_splits)

lemma rotate_tx_wf:
  assumes wf: "db_wf db" and stored: "stored \<in> set (db_refresh db)"
    and room: "family_size (orf_family stored) db < max_refresh_tokens_per_family"
    and some: "rotate_tx srv tokens now stored requested db = Some db'"
  shows "db_wf db'"
proof -
  define db1 where "db1 = use_refresh now (orf_hash stored) db"
  define db2 where "db2 = db1\<lparr>db_access := filter (\<lambda>a. oac_grant a \<noteq> orf_grant stored) (db_access db1)\<rparr>"
  note wf1 = use_refresh_wf [OF wf, of now "orf_hash stored", folded db1_def]
  have "fewer_rows db2 db1" by (simp add: db2_def fewer_rows_def)
  then have wf2: "db_wf db2"
    using db_wfD [OF wf1] fewer_rows_keys fewer_rows_caps by (intro db_wfI) (auto simp: refs_ok_def db2_def)
  obtain db3 where db3: "insert_access \<lparr>oac_hash = token_hash srv (fst tokens), oac_grant = orf_grant stored,
      oac_expires = now + access_ttl_seconds\<rparr> db2 = Some db3"
    and last_step: "insert_refresh \<lparr>orf_hash = token_hash srv (snd tokens), orf_grant = orf_grant stored,
      orf_family = orf_family stored, orf_client = orf_client stored, orf_resource = orf_resource stored,
      orf_scope = requested, orf_expires = now + refresh_ttl_seconds, orf_used = None\<rparr> db3 = Some db'"
    using some unfolding rotate_tx_def Let_def db1_def db2_def by (auto simp: bind_eq_Some_conv)
  note wf3 = insert_access_wf [OF wf2 db3]
  have same: "db_grants db3 = db_grants db" "db_refresh db3 = map (mark_used now (orf_hash stored)) (db_refresh db)"
    using db3 by (auto simp: insert_access_def db2_def db1_def use_refresh_def split: if_splits)
  have "family_size f db3 = family_size f db" for f
    by (simp add: family_size_def same filter_map o_def)
  then show ?thesis
    using refs_okD(4) [OF db_wfD(2) [OF wf] stored] room by (intro insert_refresh_wf [OF wf3 _ _ last_step]) (simp_all add: same)
qed

lemma rotate_refresh_wf:
  assumes wf: "db_wf db0"
  shows "db_wf (snd (rotate_refresh srv storage secrets now form db0))"
proof (cases "rotate_refresh srv storage secrets now form db0")
  case (Pair r db')
  then have "db_wf db'"
    using wf
  proof (cases rule: rotate_refresh_cases)
    case (rotated response stored given g tokens requested)
    then show ?thesis using rotate_tx_wf [OF prune_tx_wf [OF wf] rotated(4) rotated(10) rotated(13)] by blast
  qed (simp_all add: revoke_family_wf prune_tx_wf)
  then show ?thesis using Pair by simp
qed

lemma token_wf: "db_wf db \<Longrightarrow> db_wf (snd (token srv scan storage secrets tokens now form db))"
  using exchange_code_wf [of db srv scan storage secrets now form] rotate_refresh_wf [of db srv storage tokens now form]
  by (auto simp: token_def Let_def split: prod.splits)

lemma revoke_wf: "db_wf db \<Longrightarrow> db_wf (snd (revoke srv storage now given client db))"
  by (auto simp: revoke_def revoke_grant_wf split: storage.splits option.splits)

lemma revoke_all_wf:
  assumes "db_wf db"
  shows "db_wf (snd (revoke_all now True db))"
proof -
  let ?u = "\<lambda>g. if ogr_revoked g = None then g\<lparr>ogr_revoked := Some now\<rparr> else g"
  let ?db = "db\<lparr>db_grants := map ?u (db_grants db), db_access := filter (\<lambda>_. False) (db_access db),
      db_refresh := filter (\<lambda>_. False) (db_refresh db)\<rparr>"
  have "db_wf ?db" by (rule map_grants_wf [OF assms]) simp
  then have "db_wf (?db\<lparr>db_codes := []\<rparr>)"
    by (simp add: db_wf_def wf_defs family_size_def)
  then show ?thesis by (simp add: revoke_all_def initialize_schema_def Let_def)
qed

end
