(* ===== verification/OAuthRuns.thy ===== *)
theory OAuthRuns
  imports OAuthTables
begin

text \<open>
  Runs of the authorization server of theory \<open>OAuth\<close>: any sequence of requests, decisions of the owner,
  revocations and restarts, with any clocks, random tokens and storage failures. An approved request
  waits in \<open>os_flight\<close> until its code is stored, so other requests may come between. An access token is
  accepted only while an approval of the owner stands behind it; approvals, codes and refresh tokens are
  good for one use; a replayed refresh token takes down its family.
\<close>

section \<open>Runs\<close>

record oauth_state =
  os_db :: oauth_db
  os_pending :: pending_state
  os_flight :: "pending_request list"

definition no_pending :: pending_state where
  "no_pending = \<lparr>pn_requests = [], pn_failed = []\<rparr>"

definition fresh_state :: oauth_state where
  "fresh_state = \<lparr>os_db = empty_db, os_pending = no_pending, os_flight = []\<rparr>"

text \<open>What an observer of the server learns; tokens appear as their hashes.\<close>

datatype oauth_event =
    Quiet
  | Approval str pending_request
  | GrantIssued str str code_row str str
  | Rotated str str str str
  | GrantRevoked str
  | AllRevoked

definition reuse_detected :: oauth_response where
  "reuse_detected = failure_response (invalid_grant ''refresh token reuse detected'')"

inductive oauth_step :: "oauth_server \<Rightarrow> oauth_state \<Rightarrow> oauth_event \<Rightarrow> oauth_state \<Rightarrow> bool" for srv where
  registered: "register srv scan storage now random req (os_db s) = (response, db') \<Longrightarrow>
    oauth_step srv s Quiet (s\<lparr>os_db := db'\<rparr>)"
| asked: "authorize_get srv origins storage iter instant random q (os_db s) (os_pending s) = (response, ps) \<Longrightarrow>
    oauth_step srv s Quiet (s\<lparr>os_pending := ps\<rparr>)"
| declined: "decide_approval srv origins instant form (os_pending s) = (Inl response, ps) \<Longrightarrow>
    oauth_step srv s Quiet (s\<lparr>os_pending := ps\<rparr>)"
| approved: "decide_approval srv origins instant form (os_pending s) = (Inr request, ps) \<Longrightarrow>
    oauth_step srv s (Approval (af_owner_key form) request) (s\<lparr>os_pending := ps, os_flight := request # os_flight s\<rparr>)"
| stored: "request \<in> set (os_flight s) \<Longrightarrow> store_code srv storage now random request (os_db s) = (response, db') \<Longrightarrow>
    oauth_step srv s Quiet (s\<lparr>os_db := db', os_flight := remove1 request (os_flight s)\<rparr>)"
| exchanged: "token srv scan storage (Some xs) tokens now form (os_db s) = (Tokens response, db') \<Longrightarrow>
    tf_grant_type form = ''authorization_code'' \<Longrightarrow> tf_code form = Some code \<Longrightarrow> tf_verifier form = Some verifier \<Longrightarrow>
    List.find (\<lambda>c. oco_hash c = token_hash srv code) (db_codes (prune_database_tx now (os_db s))) = Some c \<Longrightarrow>
    oauth_step srv s (GrantIssued (xs_grant xs) verifier c (token_hash srv (xs_access xs)) (token_hash srv (xs_refresh xs)))
      (s\<lparr>os_db := db'\<rparr>)"
| rotated: "token srv scan storage secrets tokens now form (os_db s) = (Tokens response, db') \<Longrightarrow>
    tf_grant_type form = ''refresh_token'' \<Longrightarrow> tf_refresh form = Some given \<Longrightarrow>
    r \<in> set (db_refresh (os_db s)) \<Longrightarrow> orf_hash r = token_hash srv given \<Longrightarrow>
    oauth_step srv s (Rotated (orf_grant r) (token_hash srv given) (token_hash srv (tr_access response))
      (token_hash srv (tr_refresh response))) (s\<lparr>os_db := db'\<rparr>)"
| replayed: "token srv scan storage secrets tokens now form (os_db s) = (reuse_detected, db') \<Longrightarrow>
    tf_refresh form = Some given \<Longrightarrow> r \<in> set (db_refresh (os_db s)) \<Longrightarrow> orf_hash r = token_hash srv given \<Longrightarrow>
    oauth_step srv s (GrantRevoked (orf_grant r)) (s\<lparr>os_db := db'\<rparr>)"
| refused: "token srv scan storage secrets tokens now form (os_db s) = (response, db') \<Longrightarrow>
    response \<noteq> reuse_detected \<Longrightarrow> (\<And>t. response \<noteq> Tokens t) \<Longrightarrow> oauth_step srv s Quiet (s\<lparr>os_db := db'\<rparr>)"
| revoked: "revoke srv Ready now given client (os_db s) = (response, db') \<Longrightarrow>
    grant_of_token (token_hash srv given) (os_db s) = Some g \<Longrightarrow> ogr_client g = client \<Longrightarrow>
    oauth_step srv s (GrantRevoked (ogr_id g)) (s\<lparr>os_db := db'\<rparr>)"
| ignored: "revoke srv storage now given client (os_db s) = (response, db') \<Longrightarrow>
    storage \<noteq> Ready \<or> is_none_or (\<lambda>g. ogr_client g \<noteq> client) (grant_of_token (token_hash srv given) (os_db s)) \<Longrightarrow>
    oauth_step srv s Quiet (s\<lparr>os_db := db'\<rparr>)"
| cleared: "revoke_all now True (os_db s) = (n, db') \<Longrightarrow> oauth_step srv s AllRevoked (s\<lparr>os_db := db'\<rparr>)"
| restarted: "server_new (sv_crypto srv) (sv_owner srv) (sv_parse srv) (sv_extend srv) public_url True now (os_db s)
      = (Some srv, db') \<Longrightarrow>
    oauth_step srv s Quiet \<lparr>os_db = db', os_pending = no_pending, os_flight = []\<rparr>"

inductive oauth_run :: "oauth_server \<Rightarrow> oauth_event list \<Rightarrow> oauth_state \<Rightarrow> bool" for srv where
  start: "oauth_run srv [] fresh_state"
| step: "oauth_run srv tr s \<Longrightarrow> oauth_step srv s e s' \<Longrightarrow> oauth_run srv (tr @ [e]) s'"

section \<open>What a token request does\<close>

lemma token_code:
  assumes "token srv scan storage secrets tokens now form db = (Tokens response, db')"
    "tf_grant_type form = ''authorization_code''"
  shows "exchange_code srv scan storage secrets now form db = (Inr response, db')"
  using assms by (auto simp: token_def failure_response_def internal_error_def database_busy_def
      split: prod.splits sum.splits token_failure.splits if_splits)

lemma token_refresh:
  assumes "token srv scan storage secrets tokens now form db = (Tokens response, db')"
    "tf_grant_type form = ''refresh_token''"
  shows "rotate_refresh srv storage tokens now form db = (Inr response, db')"
  using assms by (auto simp: token_def failure_response_def internal_error_def database_busy_def
      split: prod.splits sum.splits token_failure.splits if_splits)

lemma exchange_failures:
  assumes "exchange_code srv scan storage secrets now form db = (Inl f, db')"
  shows "failure_response f \<noteq> reuse_detected"
  using assms
  by (auto simp: exchange_code_def exchange_tx_def Let_def invalid_grant_def reuse_detected_def failure_response_def
      internal_error_def split: option.splits if_splits sum.splits prod.splits)

lemma token_reuse:
  assumes "token srv scan storage secrets tokens now form db = (reuse_detected, db')"
  shows "rotate_refresh srv storage tokens now form db = (Inl (invalid_grant ''refresh token reuse detected''), db')"
proof (cases "storage = Busy \<or> tf_grant_type form = ''authorization_code'' \<or> tf_grant_type form \<noteq> ''refresh_token''")
  case True
  then show ?thesis
    using assms exchange_failures [of srv scan storage secrets now form db]
    by (auto simp: token_def reuse_detected_def failure_response_def invalid_grant_def internal_error_def
        database_busy_def split: prod.splits sum.splits token_failure.splits if_splits)
next
  case False
  then show ?thesis
    using assms by (auto simp: token_def reuse_detected_def failure_response_def invalid_grant_def internal_error_def
        split: prod.splits sum.splits token_failure.splits if_splits)
qed

lemma token_refused:
  assumes "token srv scan storage secrets tokens now form db = (response, db')"
    "response \<noteq> reuse_detected" "\<And>t. response \<noteq> Tokens t"
  shows "db' = db"
proof -
  have rotate: "db'' = db" if "rotate_refresh srv storage tokens now form db = (Inl f, db'')"
      "failure_response f \<noteq> reuse_detected" for f db''
    using that(1) by (cases rule: rotate_refresh_cases) (use that(2) in \<open>auto simp: reuse_detected_def\<close>)
  show ?thesis
    using assms rotate exchange_code_inl [of srv scan storage secrets now form db]
    by (auto simp: token_def split: prod.splits sum.splits if_splits)
qed

section \<open>The tables\<close>

lemma server_new_db: "server_new c owner parse extender url True now db = (Some srv, db') \<Longrightarrow>
    db' = snd (prune_database now db)"
  by (auto simp: server_new_def initialize_schema_def split: option.splits prod.splits bool.splits)

lemma step_wf: "oauth_step srv s e s' \<Longrightarrow> db_wf (os_db s) \<Longrightarrow> db_wf (os_db s')"
proof (induction rule: oauth_step.induct)
  case (registered scan storage now random req s response db')
  then show ?case using register_wf [of "os_db s" srv scan storage now random req] by simp
next
  case (stored request s storage now random response db')
  then show ?case using store_code_wf [of "os_db s" srv storage now random request] by simp
next
  case (exchanged scan storage xs tokens now form s response db' code verifier c)
  then show ?case using token_wf [of "os_db s" srv scan storage "Some xs" tokens now form] by simp
next
  case (rotated scan storage secrets tokens now form s response db' given r)
  then show ?case using token_wf [of "os_db s" srv scan storage secrets tokens now form] by simp
next
  case (replayed scan storage secrets tokens now form s db' given r)
  then show ?case using token_wf [of "os_db s" srv scan storage secrets tokens now form] by simp
next
  case (refused scan storage secrets tokens now form s response db')
  then show ?case using token_wf [of "os_db s" srv scan storage secrets tokens now form] by simp
next
  case (revoked now given client s response db' g)
  then show ?case using revoke_wf [of "os_db s" srv Ready now given client] by simp
next
  case (ignored storage now given client s response db')
  then show ?case using revoke_wf [of "os_db s" srv storage now given client] by simp
next
  case (cleared now s n db')
  then show ?case using revoke_all_wf [of "os_db s" now] by simp
next
  case (restarted public_url now s db')
  then show ?case using prune_database_wf [of "os_db s" now] server_new_db by fastforce
qed simp_all

lemma run_wf: "oauth_run srv tr s \<Longrightarrow> db_wf (os_db s)"
  by (induction rule: oauth_run.induct) (simp_all add: fresh_state_def empty_db_wf step_wf)

section \<open>Approvals behind requests and codes\<close>

definition approved_by_owner :: "oauth_server \<Rightarrow> oauth_event list \<Rightarrow> pending_request \<Rightarrow> bool" where
  "approved_by_owner srv tr rq \<longleftrightarrow> (\<exists>key. Approval key rq \<in> set tr
    \<and> authorize_bearer (sv_crypto srv) (sv_owner srv) (trim key) \<and> prq_resource rq = sv_resource srv)"

definition request_of_code :: "code_row \<Rightarrow> pending_request \<Rightarrow> bool" where
  "request_of_code c rq \<longleftrightarrow> oco_client c = prq_client rq \<and> oco_redirect c = prq_redirect rq
    \<and> oco_resource c = prq_resource rq \<and> oco_challenge c = prq_challenge rq \<and> oco_scope c = prq_scope rq"

lemma approved_mono: "approved_by_owner srv tr rq \<Longrightarrow> approved_by_owner srv (tr @ tr') rq"
  by (auto simp: approved_by_owner_def)

definition asked_for :: "oauth_server \<Rightarrow> pending_state \<Rightarrow> bool" where
  "asked_for srv ps \<longleftrightarrow> (\<forall>(i, rq) \<in> set (pn_requests ps). prq_resource rq = sv_resource srv)"

lemma retain_asked: "asked_for srv ps \<Longrightarrow> asked_for srv (retain_pending now ps)"
  by (auto simp: asked_for_def retain_pending_def)

lemma delete_asked: "asked_for srv ps \<Longrightarrow> asked_for srv (ps\<lparr>pn_requests := AList.delete i (pn_requests ps)\<rparr>)"
  by (auto simp: asked_for_def AList.delete_eq)

lemma insert_asked:
  assumes "asked_for srv ps" "prq_resource rq = sv_resource srv" "insert_pending srv iter now random rq ps = (response, ps')"
  shows "asked_for srv ps'"
proof -
  let ?ps = "retain_pending now ps"
  obtain ps2 where ps2: "asked_for srv ps2"
    "ps' = (case random of None \<Rightarrow> ps2 | Some i \<Rightarrow> ps2\<lparr>pn_requests := AList.update i rq (pn_requests ps2)\<rparr>)"
    using assms(3) retain_asked [OF assms(1), of now] delete_asked [OF retain_asked [OF assms(1), of now]]
    unfolding insert_pending_def Let_def
    by (auto split: option.splits if_splits list.splits)
  then show ?thesis using assms(2) by (auto simp: asked_for_def dest!: set_updateD split: option.splits)
qed

lemma authorize_get_asked:
  assumes "asked_for srv ps" "authorize_get srv origins storage iter instant random q db ps = (response, ps')"
  shows "asked_for srv ps'"
proof -
  have "ps' = ps \<or> (\<exists>rq r. prq_resource rq = sv_resource srv \<and> insert_pending srv iter instant random rq ps = (r, ps'))"
    using assms(2) unfolding authorize_get_def authorize_checks_def
    by (auto simp: Let_def split: sum.splits if_splits storage.splits option.splits prod.splits)
  then show ?thesis using assms(1) insert_asked by blast
qed

lemma decide_inl_asked:
  assumes "asked_for srv ps" "decide_approval srv origins instant form ps = (r, ps')"
  shows "asked_for srv ps'"
proof -
  have failed: "asked_for srv (ps\<lparr>pn_failed := f\<rparr>)" for f using assms(1) by (simp add: asked_for_def)
  show ?thesis
    using assms(2) retain_asked [OF assms(1), of instant] retain_asked [OF failed, of instant] assms(1)
      delete_asked [OF retain_asked [OF assms(1), of instant]]
    unfolding decide_approval_def
    by (auto simp: take_pending_def pending_approval_response_def approval_allowed_def record_failed_approval_def Let_def
        split: if_splits option.splits prod.splits)
qed

lemma decide_inr:
  assumes "decide_approval srv origins instant form ps = (Inr rq, ps')"
  shows "authorize_bearer (sv_crypto srv) (sv_owner srv) (trim (af_owner_key form)) \<and> rq \<in> snd ` set (pn_requests ps)"
  using assms
  by (auto simp: decide_approval_def take_pending_def retain_pending_def Let_def
      split: if_splits option.splits prod.splits dest!: map_of_SomeD intro: rev_image_eqI)

text \<open>The approvals that requests on their way and stored codes rest on.\<close>

definition requests_ok :: "oauth_server \<Rightarrow> oauth_event list \<Rightarrow> oauth_state \<Rightarrow> bool" where
  "requests_ok srv tr s \<longleftrightarrow> asked_for srv (os_pending s)
    \<and> (\<forall>rq \<in> set (os_flight s). approved_by_owner srv tr rq)
    \<and> (\<forall>c \<in> set (db_codes (os_db s)). \<exists>rq. approved_by_owner srv tr rq \<and> request_of_code c rq)"

lemma requests_ok_fewer:
  assumes "requests_ok srv tr s" "asked_for srv ps" "set flight \<subseteq> set (os_flight s)"
    "set (db_codes db') \<subseteq> set (db_codes (os_db s))"
  shows "requests_ok srv (tr @ [e]) \<lparr>os_db = db', os_pending = ps, os_flight = flight\<rparr>"
  using assms approved_mono [of srv tr _ "[e]"] unfolding requests_ok_def by (simp add: subset_iff) blast

lemma prune_codes:
  "set (db_codes (prune_database_tx now db)) \<subseteq> set (db_codes db)"
  "length (db_codes (prune_database_tx now db)) \<le> length (db_codes db)"
  using prune_tx_fewer [of now db] unfolding fewer_rows_def by (blast dest: rows_of_length rows_of_set)+

text \<open>Registration adds a client and may drop rows of the other tables.\<close>

lemma register_rows:
  assumes "register srv scan storage now random req db = (response, db')"
  shows "set (db_codes db') \<subseteq> set (db_codes db) \<and> length (db_codes db') \<le> length (db_codes db)
    \<and> set (db_grants db') \<subseteq> set (db_grants db) \<and> set (db_access db') \<subseteq> set (db_access db)
    \<and> set (db_refresh db') \<subseteq> set (db_refresh db)"
proof -
  have tx: "\<exists>db2. fewer_rows db2 db \<and> db_codes db' = db_codes db2 \<and> db_grants db' = db_grants db2
      \<and> db_access db' = db_access db2 \<and> db_refresh db' = db_refresh db2"
    if reg: "register_tx scan now client db = Inr db'" for client
  proof -
    obtain db1 where x1: "prune_unapproved_clients_tx now (prune_database_tx now db) = Some db1"
      using reg by (auto simp: register_tx_def split: option.splits)
    obtain db2 where x: "db2 = db1 \<or> evict_client scan db1 = Some db2" "insert_client client db2 = Some db'"
      using reg unfolding register_tx_def x1 option.case by (auto split: option.splits if_splits)
    have "fewer_rows db1 db"
      using x1 delete_clients_fewer prune_tx_fewer fewer_rows_trans unfolding prune_unapproved_clients_tx_def by blast
    moreover have "fewer_rows db2 db1"
      using x(1) delete_clients_fewer fewer_rows_refl unfolding evict_client_def by (auto split: list.splits)
    ultimately have "fewer_rows db2 db" by (meson fewer_rows_trans)
    then show ?thesis using x(2) by (intro exI [of _ db2]) (auto simp: insert_client_def split: if_splits)
  qed
  have "db' = db \<or> (\<exists>client. register_tx scan now client db = Inr db')"
    using assms by (auto simp: register_def Let_def split: sum.splits option.splits storage.splits tx_error.splits if_splits)
  then obtain db2 where db2: "fewer_rows db2 db" "db_codes db' = db_codes db2" "db_grants db' = db_grants db2"
    "db_access db' = db_access db2" "db_refresh db' = db_refresh db2"
    using tx fewer_rows_refl by blast
  have "length (db_codes db2) \<le> length (db_codes db)"
    using db2(1) unfolding fewer_rows_def by (blast dest: rows_of_length)
  then show ?thesis using fewer_rows_set [OF db2(1)] db2 by simp
qed

lemma store_code_codes:
  assumes "store_code srv storage now random rq db = (response, db')"
  shows "(\<forall>c \<in> set (db_codes db'). c \<in> set (db_codes db) \<or> request_of_code c rq)
    \<and> length (db_codes db') \<le> Suc (length (db_codes db))"
proof -
  have "(\<forall>c \<in> set (db_codes db'). c \<in> set (db_codes db) \<or> c = code) \<and> length (db_codes db') \<le> Suc (length (db_codes db))"
    if "store_code_tx now code db = Some db'" for code
    using that prune_codes [of now db]
    by (auto simp: store_code_tx_def insert_code_def Let_def split: if_splits)
  note tx = this
  have "db' = db \<or> (\<exists>code. request_of_code code rq \<and> store_code_tx now code db = Some db')"
    using assms by (auto simp: store_code_def request_of_code_def split: option.splits storage.splits)
  then show ?thesis
  proof
    assume "\<exists>code. request_of_code code rq \<and> store_code_tx now code db = Some db'"
    then obtain code where "request_of_code code rq" "store_code_tx now code db = Some db'" by blast
    then show ?thesis using tx [of code] by blast
  qed simp
qed

lemma evict_grant_codes: "db_codes (evict_grant scan db) = db_codes db"
  by (auto simp: evict_grant_def delete_grants_def Let_def split: list.splits)

lemma exchange_codes:
  assumes "exchange_code srv scan storage secrets now form db = (Inr response, db')"
  shows "set (db_codes db') \<subseteq> set (db_codes db) \<and> length (db_codes db') < length (db_codes db)"
proof -
  obtain xs code redirect verifier
    where "exchange_tx srv scan xs now (tf_client form) redirect (sv_resource srv) code verifier db = Inr (response, db')"
    using exchange_code_inr [OF assms] by blast
  then obtain stored db1 where x: "List.find (\<lambda>c. oco_hash c = token_hash srv code) (db_codes (prune_database_tx now db)) = Some stored"
    "db1 = prune_database_tx now db \<or> db1 = evict_grant scan (prune_database_tx now db)"
    "issue_grant srv xs now (sv_resource srv) stored db1 = Some db'"
    using exchange_tx_inr by blast
  have codes: "db_codes db1 = db_codes (prune_database_tx now db)" using x(2) evict_grant_codes by blast
  have "length (filter (\<lambda>c. oco_hash c \<noteq> oco_hash stored) (db_codes db1)) < length (db_codes db1)"
    using find_some [OF x(1)] unfolding codes by (intro length_filter_less) auto
  moreover have "db_codes db' = filter (\<lambda>c. oco_hash c \<noteq> oco_hash stored) (db_codes db1)"
    using issue_grant_some [OF x(3)] by blast
  moreover have "length (db_codes db1) \<le> length (db_codes db)" "set (db_codes db1) \<subseteq> set (db_codes db)"
    unfolding codes by (rule prune_codes)+
  ultimately show ?thesis by auto
qed

lemma rotate_codes:
  assumes "rotate_refresh srv storage secrets now form db = (r, db')"
  shows "set (db_codes db') \<subseteq> set (db_codes db) \<and> length (db_codes db') \<le> length (db_codes db)"
proof -
  note p = prune_codes [of now db]
  from assms show ?thesis
  proof (cases rule: rotate_refresh_cases)
    case (rotated response stored given g tokens requested)
    then show ?thesis using rotate_tx_some [OF rotated(13)] p by simp
  qed (use p in \<open>simp_all add: revoke_family_def Let_def\<close>)
qed

lemma prune_database_fewer: "fewer_rows (snd (prune_database now db)) db"
  using prune_tx_fewer [of now db] delete_clients_fewer fewer_rows_trans
  unfolding prune_database_def prune_unapproved_clients_tx_def Let_def by (auto split: option.splits) blast

lemma revoke_all_codes: "db_codes (snd (revoke_all now True db)) = []"
  by (simp add: revoke_all_def initialize_schema_def Let_def)

lemma revoke_codes: "db_codes (snd (revoke srv storage now given client db)) = db_codes db"
  by (auto simp: revoke_def revoke_grant_def split: storage.splits option.splits)

lemma step_requests_ok: "oauth_step srv s e s' \<Longrightarrow> requests_ok srv tr s \<Longrightarrow> requests_ok srv (tr @ [e]) s'"
proof (induction rule: oauth_step.induct)
  case (registered scan storage now random req s response db')
  then show ?case
    using requests_ok_fewer [of srv tr s "os_pending s" "os_flight s" db'] register_rows [OF registered(1)]
    by (simp add: requests_ok_def)
next
  case (asked origins storage iter instant random q s response ps)
  then show ?case
    using requests_ok_fewer [of srv tr s ps "os_flight s" "os_db s"] authorize_get_asked [OF _ asked(1)]
    by (simp add: requests_ok_def)
next
  case (declined origins instant form s response ps)
  then show ?case
    using requests_ok_fewer [of srv tr s ps "os_flight s" "os_db s"] decide_inl_asked [OF _ declined(1)]
    by (simp add: requests_ok_def)
next
  case (approved origins instant form s request ps)
  note owner = decide_inr [OF approved(1)]
  have "prq_resource request = sv_resource srv"
    using owner approved(2) unfolding requests_ok_def asked_for_def by fastforce
  then have "approved_by_owner srv (tr @ [Approval (af_owner_key form) request]) request"
    using owner unfolding approved_by_owner_def by auto
  moreover have "requests_ok srv (tr @ [Approval (af_owner_key form) request])
      \<lparr>os_db = os_db s, os_pending = ps, os_flight = os_flight s\<rparr>"
    using approved decide_inl_asked by (intro requests_ok_fewer) (auto simp: requests_ok_def)
  ultimately show ?case by (simp add: requests_ok_def)
next
  case (stored request s storage now random response db')
  note codes = store_code_codes [OF stored(2)]
  have rq: "approved_by_owner srv (tr @ [Quiet]) request"
    using stored(1,3) approved_mono unfolding requests_ok_def by blast
  have old: "requests_ok srv (tr @ [Quiet]) \<lparr>os_db = os_db s, os_pending = os_pending s, os_flight = remove1 request (os_flight s)\<rparr>"
    using stored(3) by (intro requests_ok_fewer) (auto simp: requests_ok_def dest: notin_set_remove1 set_mp [OF set_remove1_subset])
  have "\<exists>rq. approved_by_owner srv (tr @ [Quiet]) rq \<and> request_of_code c rq" if c: "c \<in> set (db_codes db')" for c
    using codes c old rq unfolding requests_ok_def by auto
  then show ?case using old by (simp add: requests_ok_def)
next
  case (exchanged scan storage xs tokens now form s response db' code verifier c)
  then show ?case
    using exchange_codes [OF token_code] requests_ok_fewer [of srv tr s "os_pending s" "os_flight s" db']
    by (simp add: requests_ok_def)
next
  case (rotated scan storage secrets tokens now form s response db' given r)
  then show ?case
    using rotate_codes [OF token_refresh] requests_ok_fewer [of srv tr s "os_pending s" "os_flight s" db']
    by (simp add: requests_ok_def)
next
  case (replayed scan storage secrets tokens now form s db' given r)
  then show ?case
    using rotate_codes [OF token_reuse] requests_ok_fewer [of srv tr s "os_pending s" "os_flight s" db']
    by (simp add: requests_ok_def)
next
  case (refused scan storage secrets tokens now form s response db')
  then show ?case
    using token_refused [OF refused(1,2,3)] requests_ok_fewer [of srv tr s "os_pending s" "os_flight s" db']
    by (simp add: requests_ok_def)
next
  case (revoked now given client s response db' g)
  then show ?case
    using revoke_codes [of srv Ready now given client "os_db s"] requests_ok_fewer [of srv tr s "os_pending s" "os_flight s" db']
    by (simp add: requests_ok_def)
next
  case (ignored storage now given client s response db')
  then show ?case
    using revoke_codes [of srv storage now given client "os_db s"] requests_ok_fewer [of srv tr s "os_pending s" "os_flight s" db']
    by (simp add: requests_ok_def)
next
  case (cleared now s n db')
  then show ?case
    using revoke_all_codes [of now "os_db s"] requests_ok_fewer [of srv tr s "os_pending s" "os_flight s" db']
    by (simp add: requests_ok_def)
next
  case (restarted public_url now s db')
  then show ?case
    using fewer_rows_set(2) [OF prune_database_fewer [of now "os_db s"]] server_new_db
      requests_ok_fewer [of srv tr s no_pending "[]" db'] by (fastforce simp: no_pending_def asked_for_def)
qed

lemma fresh_requests_ok: "requests_ok srv [] fresh_state"
  by (simp add: requests_ok_def fresh_state_def empty_db_def no_pending_def asked_for_def)

lemma run_requests_ok: "oauth_run srv tr s \<Longrightarrow> requests_ok srv tr s"
proof (induction rule: oauth_run.induct)
  case (step tr s e s')
  then show ?case by (intro step_requests_ok)
qed (rule fresh_requests_ok)

section \<open>What stands behind a grant\<close>

text \<open>A grant is backed when it was issued on a code of an approved request, by the holder of the request's
  verifier, and not revoked since; \<open>later\<close> is what happened since.\<close>

definition backed ::
    "oauth_server \<Rightarrow> oauth_event list \<Rightarrow> str \<Rightarrow> pending_request \<Rightarrow> str \<Rightarrow> oauth_event list \<Rightarrow> bool" where
  "backed srv tr g rq access later \<longleftrightarrow> (\<exists>before verifier c refresh.
    tr = before @ [GrantIssued g verifier c access refresh] @ later \<and> request_of_code c rq
    \<and> approved_by_owner srv before rq \<and> s256_challenge srv verifier = prq_challenge rq
    \<and> GrantRevoked g \<notin> set later \<and> AllRevoked \<notin> set later)"

definition issued_since :: "str \<Rightarrow> str \<Rightarrow> oauth_event list \<Rightarrow> str \<Rightarrow> bool" where
  "issued_since g access later h \<longleftrightarrow> h = access \<or> (\<exists>old new. Rotated g old h new \<in> set later)"

definition grant_backed :: "oauth_server \<Rightarrow> oauth_event list \<Rightarrow> oauth_db \<Rightarrow> grant_row \<Rightarrow> bool" where
  "grant_backed srv tr db gr \<longleftrightarrow> (\<exists>rq access later. backed srv tr (ogr_id gr) rq access later
    \<and> ogr_scope gr = prq_scope rq \<and> ogr_resource gr = prq_resource rq \<and> ogr_client gr = prq_client rq
    \<and> (\<forall>a \<in> set (db_access db). oac_grant a = ogr_id gr \<longrightarrow> issued_since (ogr_id gr) access later (oac_hash a)))"

definition grants_backed :: "oauth_server \<Rightarrow> oauth_event list \<Rightarrow> oauth_db \<Rightarrow> bool" where
  "grants_backed srv tr db \<longleftrightarrow> (\<forall>gr \<in> set (db_grants db). ogr_revoked gr = None \<longrightarrow> grant_backed srv tr db gr)"

lemma backed_snoc:
  assumes "backed srv tr g rq access later" "e \<noteq> GrantRevoked g" "e \<noteq> AllRevoked"
  shows "backed srv (tr @ [e]) g rq access (later @ [e])"
proof -
  obtain before verifier c refresh where b: "tr = before @ [GrantIssued g verifier c access refresh] @ later"
    "request_of_code c rq" "approved_by_owner srv before rq" "s256_challenge srv verifier = prq_challenge rq"
    "GrantRevoked g \<notin> set later" "AllRevoked \<notin> set later"
    using assms(1) unfolding backed_def by blast
  show ?thesis
    unfolding backed_def using b assms(2,3)
    by (intro exI [of _ before] exI [of _ verifier] exI [of _ c] exI [of _ refresh]) auto
qed

lemma issued_since_snoc: "issued_since g access later h \<Longrightarrow> issued_since g access (later @ [e]) h"
  by (auto simp: issued_since_def)

lemma grant_backed_snoc:
  assumes "grant_backed srv tr db gr" "e \<noteq> GrantRevoked (ogr_id gr)" "e \<noteq> AllRevoked"
    "\<And>a. a \<in> set (db_access db') \<Longrightarrow> oac_grant a = ogr_id gr \<Longrightarrow>
      a \<in> set (db_access db) \<or> (\<exists>old new. e = Rotated (ogr_id gr) old (oac_hash a) new)"
  shows "grant_backed srv (tr @ [e]) db' gr"
proof -
  obtain rq access later where b: "backed srv tr (ogr_id gr) rq access later" "ogr_scope gr = prq_scope rq"
    "ogr_resource gr = prq_resource rq" "ogr_client gr = prq_client rq"
    "\<forall>a \<in> set (db_access db). oac_grant a = ogr_id gr \<longrightarrow> issued_since (ogr_id gr) access later (oac_hash a)"
    using assms(1) unfolding grant_backed_def by blast
  have "issued_since (ogr_id gr) access (later @ [e]) (oac_hash a)"
    if a: "a \<in> set (db_access db')" "oac_grant a = ogr_id gr" for a
    using assms(4) [OF a] b(5) a(2) issued_since_snoc by (auto simp: issued_since_def)
  then show ?thesis
    unfolding grant_backed_def using backed_snoc [OF b(1) assms(2,3)] b(2,3,4) by blast
qed

lemma grants_backed_fewer:
  assumes "grants_backed srv tr db" "set (db_grants db') \<subseteq> set (db_grants db)"
    "set (db_access db') \<subseteq> set (db_access db)"
    "\<And>gr. gr \<in> set (db_grants db') \<Longrightarrow> ogr_revoked gr = None \<Longrightarrow> e \<noteq> GrantRevoked (ogr_id gr)" "e \<noteq> AllRevoked"
  shows "grants_backed srv (tr @ [e]) db'"
  unfolding grants_backed_def
proof (intro ballI impI)
  fix gr assume gr: "gr \<in> set (db_grants db')" "ogr_revoked gr = None"
  then have "grant_backed srv tr db gr" using assms(1,2) unfolding grants_backed_def by blast
  then show "grant_backed srv (tr @ [e]) db' gr"
    using assms(3,5) by (intro grant_backed_snoc [OF _ assms(4) [OF gr]]) auto
qed

lemma store_code_grants:
  assumes "store_code srv storage now random rq db = (response, db')"
  shows "set (db_grants db') \<subseteq> set (db_grants db) \<and> set (db_access db') \<subseteq> set (db_access db)
    \<and> set (db_refresh db') \<subseteq> set (db_refresh db)"
  using assms fewer_rows_set [OF prune_tx_fewer [of now db]]
  by (auto simp: store_code_def store_code_tx_def insert_code_def Let_def split: option.splits storage.splits if_splits)

text \<open>An exchange: the new grant is backed by the code it consumed.\<close>

lemma exchange_grants:
  assumes wf: "db_wf db" and rq: "requests_ok srv tr s" "os_db s = db" and ok: "grants_backed srv tr db"
    and ex: "exchange_code srv scan storage (Some xs) now form db = (Inr response, db')"
    and ev: "tf_code form = Some code" "tf_verifier form = Some verifier"
      "List.find (\<lambda>c. oco_hash c = token_hash srv code) (db_codes (prune_database_tx now db)) = Some c"
      "e = GrantIssued (xs_grant xs) verifier c (token_hash srv (xs_access xs)) (token_hash srv (xs_refresh xs))"
  shows "grants_backed srv (tr @ [e]) db'"
proof -
  obtain redirect where tx: "exchange_tx srv scan xs now (tf_client form) redirect (sv_resource srv) code verifier db
      = Inr (response, db')"
    using exchange_code_inr [OF ex] ev(1,2) by auto
  obtain db1 where x: "oco_resource c = sv_resource srv" "oco_challenge c = s256_challenge srv verifier"
    "db1 = prune_database_tx now db \<or> db1 = evict_grant scan (prune_database_tx now db)"
    "issue_grant srv xs now (sv_resource srv) c db1 = Some db'"
    using exchange_tx_inr [OF tx] ev(3) by auto
  have "fewer_rows db1 db" using x(3) prune_tx_fewer evict_grant_fewer fewer_rows_trans by blast
  then have old: "set (db_grants db1) \<subseteq> set (db_grants db)" "set (db_access db1) \<subseteq> set (db_access db)"
    by (blast dest: fewer_rows_set)+
  have wf1: "db_wf db1" using x(3) prune_tx_wf [OF wf] evict_grant_wf by blast
  note new = issue_grant_some [OF x(4)]
  have fresh: "oac_grant a \<noteq> xs_grant xs" if a: "a \<in> set (db_access db1)" for a
    using refs_okD(3) [OF db_wfD(2) [OF wf1] a] new by auto
  have "c \<in> set (db_codes db)" using find_some [OF ev(3)] prune_codes(1) by blast
  then obtain rq where r: "approved_by_owner srv tr rq" "request_of_code c rq"
    using rq unfolding requests_ok_def by blast
  have "backed srv (tr @ [e]) (xs_grant xs) rq (token_hash srv (xs_access xs)) []"
    unfolding backed_def ev(4) using r x(2)
    by (intro exI [of _ tr] exI [of _ verifier] exI [of _ c] exI [of _ "token_hash srv (xs_refresh xs)"])
      (simp add: request_of_code_def)
  then have issued: "grant_backed srv (tr @ [e]) db' gr"
    if g: "gr = \<lparr>ogr_id = xs_grant xs, ogr_family = xs_family xs, ogr_client = oco_client c,
      ogr_resource = sv_resource srv, ogr_scope = oco_scope c, ogr_created = now, ogr_revoked = None\<rparr>" for gr
    unfolding grant_backed_def g using r(2) x(1) new fresh
    by (intro exI [of _ rq] exI [of _ "token_hash srv (xs_access xs)"] exI [of _ "[]"])
      (auto simp: request_of_code_def issued_since_def)
  have kept: "grant_backed srv (tr @ [e]) db' gr" if g: "gr \<in> set (db_grants db1)" "ogr_revoked gr = None" for gr
  proof (rule grant_backed_snoc [of srv tr db])
    show "grant_backed srv tr db gr" using ok g old(1) unfolding grants_backed_def by blast
    fix a assume a: "a \<in> set (db_access db')" "oac_grant a = ogr_id gr"
    have "ogr_id gr \<in> ogr_id ` set (db_grants db1)" using g(1) by (rule imageI)
    then have "ogr_id gr \<noteq> xs_grant xs" using new by auto
    then show "a \<in> set (db_access db) \<or> (\<exists>old new. e = Rotated (ogr_id gr) old (oac_hash a) new)"
      using a new old(2) by auto
  qed (simp_all add: ev(4))
  show ?thesis unfolding grants_backed_def using new issued kept by auto
qed

text \<open>A rotation: the grant's old access tokens go, the new one is recorded.\<close>

lemma rotate_grants:
  assumes ok: "grants_backed srv tr db"
    and st: "stored \<in> set (db_refresh (prune_database_tx now db))"
    and tx: "rotate_tx srv tokens now stored requested (prune_database_tx now db) = Some db'"
    and e: "e = Rotated (orf_grant stored) old (token_hash srv (fst tokens)) new"
  shows "grants_backed srv (tr @ [e]) db'"
  unfolding grants_backed_def
proof (intro ballI impI)
  fix gr assume gr: "gr \<in> set (db_grants db')" "ogr_revoked gr = None"
  note rows = rotate_tx_some [OF tx] fewer_rows_set [OF prune_tx_fewer [of now db]]
  show "grant_backed srv (tr @ [e]) db' gr"
  proof (rule grant_backed_snoc [of srv tr db])
    show "grant_backed srv tr db gr" using ok gr rows unfolding grants_backed_def by (simp add: subset_iff)
    fix a assume "a \<in> set (db_access db')" "oac_grant a = ogr_id gr"
    then show "a \<in> set (db_access db) \<or> (\<exists>old new. e = Rotated (ogr_id gr) old (oac_hash a) new)"
      using rows by (auto simp: e)
  qed (simp_all add: e)
qed

text \<open>Revoking a family revokes every grant with the id of a replayed token.\<close>

lemma revoke_family_grants:
  assumes wf: "db_wf db" and ok: "grants_backed srv tr db" and st: "stored \<in> set (db_refresh (prune_database_tx now db))"
    and db': "db' = revoke_family now (orf_family stored) (prune_database_tx now db)"
  shows "grants_backed srv (tr @ [GrantRevoked (orf_grant stored)]) db'"
proof -
  let ?db = "prune_database_tx now db"
  note rows = fewer_rows_set [OF prune_tx_fewer [of now db]]
  note wfp = prune_tx_wf [OF wf, of now]
  have alive: "gr \<in> set (db_grants ?db) \<and> ogr_family gr \<noteq> orf_family stored"
    if "gr \<in> set (db_grants db')" "ogr_revoked gr = None" for gr
    using that by (auto simp: db' revoke_family_def Let_def split: if_splits)
  obtain g where g: "g \<in> set (db_grants ?db)" "ogr_id g = orf_grant stored" "ogr_family g = orf_family stored"
    using refs_okD(4) [OF db_wfD(2) [OF wfp] st] by blast
  have other: "ogr_id gr \<noteq> orf_grant stored" if gr: "gr \<in> set (db_grants db')" "ogr_revoked gr = None" for gr
  proof
    assume "ogr_id gr = orf_grant stored"
    moreover have "distinct (map ogr_id (db_grants ?db))" using db_wfD(1) [OF wfp] unfolding keys_ok_def by blast
    ultimately have "gr = g" using alive [OF gr] g by (intro key_unique [of ogr_id "db_grants ?db"]) simp_all
    then show False using alive [OF gr] g(3) by simp
  qed
  show ?thesis
    unfolding grants_backed_def
  proof (intro ballI impI)
    fix gr assume gr: "gr \<in> set (db_grants db')" "ogr_revoked gr = None"
    show "grant_backed srv (tr @ [GrantRevoked (orf_grant stored)]) db' gr"
    proof (rule grant_backed_snoc [of srv tr db])
      show "grant_backed srv tr db gr" using ok alive [OF gr] gr(2) rows(3) unfolding grants_backed_def by blast
      show "GrantRevoked (orf_grant stored) \<noteq> GrantRevoked (ogr_id gr)" using other [OF gr] by simp
      fix a assume "a \<in> set (db_access db')" "oac_grant a = ogr_id gr"
      then show "a \<in> set (db_access db) \<or> (\<exists>old new. GrantRevoked (orf_grant stored) = Rotated (ogr_id gr) old (oac_hash a) new)"
        using rows(4) by (auto simp: db' revoke_family_def Let_def)
    qed simp
  qed
qed

lemma revoke_grant_grants:
  assumes ok: "grants_backed srv tr db"
  shows "grants_backed srv (tr @ [GrantRevoked i]) (revoke_grant now i db)"
  unfolding grants_backed_def
proof (intro ballI impI)
  fix gr assume gr: "gr \<in> set (db_grants (revoke_grant now i db))" "ogr_revoked gr = None"
  have alive: "gr \<in> set (db_grants db) \<and> ogr_id gr \<noteq> i"
    using gr by (auto simp: revoke_grant_def split: if_splits)
  show "grant_backed srv (tr @ [GrantRevoked i]) (revoke_grant now i db) gr"
  proof (rule grant_backed_snoc [of srv tr db])
    show "grant_backed srv tr db gr" using ok alive gr(2) unfolding grants_backed_def by blast
    fix a assume "a \<in> set (db_access (revoke_grant now i db))" "oac_grant a = ogr_id gr"
    then show "a \<in> set (db_access db) \<or> (\<exists>old new. GrantRevoked i = Rotated (ogr_id gr) old (oac_hash a) new)"
      by (simp add: revoke_grant_def)
  qed (use alive in auto)
qed

lemma refresh_unique:
  assumes "db_wf db" "r \<in> set (db_refresh db)" "r' \<in> set (db_refresh (prune_database_tx now db))" "orf_hash r' = orf_hash r"
  shows "r' = r"
proof -
  have "r' \<in> set (db_refresh db)" using assms(3) fewer_rows_set(5) [OF prune_tx_fewer] by blast
  moreover have "distinct (map orf_hash (db_refresh db))" using db_wfD(1) [OF assms(1)] unfolding keys_ok_def by blast
  ultimately show ?thesis by (rule key_unique [OF _ _ assms(2,4), rotated])
qed

lemma step_grants_backed:
  assumes "oauth_step srv s e s'" "db_wf (os_db s)" "requests_ok srv tr s" "grants_backed srv tr (os_db s)"
  shows "grants_backed srv (tr @ [e]) (os_db s')"
  using assms
proof (induction rule: oauth_step.induct)
  case (registered scan storage now random req s response db')
  then show ?case using register_rows [OF registered(1)] by (simp add: grants_backed_fewer)
next
  case (stored request s storage now random response db')
  then show ?case using store_code_grants [OF stored(2)] by (simp add: grants_backed_fewer)
next
  case (exchanged scan storage xs tokens now form s response db' code verifier c)
  have "grants_backed srv (tr @ [GrantIssued (xs_grant xs) verifier c (token_hash srv (xs_access xs))
      (token_hash srv (xs_refresh xs))]) db'"
    by (rule exchange_grants [OF exchanged(6,7) refl exchanged(8) token_code [OF exchanged(1,2)] exchanged(3,4,5) refl])
  then show ?case by simp
next
  case outer: (rotated scan storage secrets tokens now form s response db' given r)
  from token_refresh [OF outer(1,2)] show ?case
  proof (cases rule: rotate_refresh_cases)
    case (rotated response' stored given' g toks requested)
    have "stored = r" using refresh_unique [OF outer(6,4) rotated(4)] rotated(3,5) outer(3,5) by simp
    then show ?thesis using rotate_grants [OF outer(8) rotated(4,13) refl] rotated(1,14) by simp
  qed simp_all
next
  case outer: (replayed scan storage secrets tokens now form s db' given r)
  from token_reuse [OF outer(1)] show ?case
  proof (cases rule: rotate_refresh_cases)
    case (replay stored given')
    have "stored = r" using refresh_unique [OF outer(5,3) replay(4)] replay(3,5) outer(2,4) by simp
    then show ?thesis using revoke_family_grants [OF outer(5,7) replay(4,2)] by simp
  qed simp_all
next
  case (refused scan storage secrets tokens now form s response db')
  then show ?case using token_refused [OF refused(1,2,3)] by (simp add: grants_backed_fewer)
next
  case (revoked now given client s response db' g)
  then show ?case using revoke_grant_grants [of srv tr "os_db s" "ogr_id g" now] by (auto simp: revoke_def)
next
  case (ignored storage now given client s response db')
  then have "db' = os_db s" by (auto simp: revoke_def split: storage.splits option.splits if_splits)
  then show ?case using ignored by (simp add: grants_backed_fewer)
next
  case (cleared now s n db')
  then show ?case by (auto simp: grants_backed_def revoke_all_def initialize_schema_def Let_def split: if_splits)
next
  case (restarted public_url now s db')
  then have "db' = snd (prune_database now (os_db s))" using server_new_db by blast
  then show ?case using restarted fewer_rows_set [OF prune_database_fewer [of now "os_db s"]] by (simp add: grants_backed_fewer)
qed (simp_all add: grants_backed_fewer)

end
