(* ===== verification/OAuthSafety.thy ===== *)
theory OAuthSafety
  imports OAuthRuns
begin

text \<open>
  The properties of the authorization server in every run: well-formed tables, no access without the
  owner's approval, single use of approvals, codes and refresh tokens, and revocation on replay.
\<close>

section \<open>Counting\<close>

fun is_approval :: "oauth_event \<Rightarrow> bool" where
  "is_approval (Approval _ _) = True"
| "is_approval _ = False"

fun is_issue :: "oauth_event \<Rightarrow> bool" where
  "is_issue (GrantIssued _ _ _ _ _) = True"
| "is_issue _ = False"

text \<open>The events that hand out a refresh token, and those that consume it.\<close>

fun hands_out :: "str \<Rightarrow> oauth_event \<Rightarrow> bool" where
  "hands_out h (GrantIssued _ _ _ _ refresh) = (refresh = h)"
| "hands_out h (Rotated _ _ _ refresh) = (refresh = h)"
| "hands_out h _ = False"

fun consumes :: "str \<Rightarrow> oauth_event \<Rightarrow> bool" where
  "consumes h (Rotated _ old _ _) = (old = h)"
| "consumes h _ = False"

definition count_of :: "(oauth_event \<Rightarrow> bool) \<Rightarrow> oauth_event list \<Rightarrow> nat" where
  "count_of P tr = length (filter P tr)"

lemma count_of_simps [simp]: "count_of P [] = 0" "count_of P (tr @ [e]) = count_of P tr + (if P e then 1 else 0)"
  by (simp_all add: count_of_def)

definition unused_rows :: "str \<Rightarrow> oauth_db \<Rightarrow> nat" where
  "unused_rows h db = (if \<exists>r \<in> set (db_refresh db). orf_hash r = h \<and> orf_used r = None then 1 else 0)"

lemma unused_mono: "set (db_refresh db') \<subseteq> set (db_refresh db) \<Longrightarrow> unused_rows h db' \<le> unused_rows h db"
  by (auto simp: unused_rows_def)

definition counts_ok :: "oauth_event list \<Rightarrow> oauth_state \<Rightarrow> bool" where
  "counts_ok tr s \<longleftrightarrow> count_of is_issue tr + length (db_codes (os_db s)) + length (os_flight s) \<le> count_of is_approval tr
    \<and> (\<forall>h. count_of (consumes h) tr + unused_rows h (os_db s) \<le> count_of (hands_out h) tr)"

lemma counts_ok_fewer:
  assumes "counts_ok tr s"
    "length (db_codes (os_db s')) + length (os_flight s') \<le> length (db_codes (os_db s)) + length (os_flight s)"
    "set (db_refresh (os_db s')) \<subseteq> set (db_refresh (os_db s))" "\<not> is_issue e" "\<And>h. \<not> consumes h e"
  shows "counts_ok (tr @ [e]) s'"
proof -
  have "count_of (consumes h) tr + unused_rows h (os_db s') \<le> count_of (hands_out h) tr" for h
    using assms(1) unused_mono [OF assms(3), of h] unfolding counts_ok_def by (meson add_left_mono order_trans)
  then show ?thesis using assms(1,2,4,5) by (auto simp: counts_ok_def trans_le_add1)
qed

lemma exchange_refresh:
  assumes "exchange_code srv scan storage (Some xs) now form db = (Inr response, db')"
  shows "unused_rows h db' \<le> (if token_hash srv (xs_refresh xs) = h then 1 else unused_rows h db)"
proof -
  obtain code redirect verifier
    where tx: "exchange_tx srv scan xs now (tf_client form) redirect (sv_resource srv) code verifier db = Inr (response, db')"
    using exchange_code_inr [OF assms] by auto
  obtain c db1 where x: "db1 = prune_database_tx now db \<or> db1 = evict_grant scan (prune_database_tx now db)"
    "issue_grant srv xs now (sv_resource srv) c db1 = Some db'"
    using exchange_tx_inr [OF tx] by blast
  have "fewer_rows db1 db" using x(1) prune_tx_fewer evict_grant_fewer fewer_rows_trans by blast
  then have "set (db_refresh db1) \<subseteq> set (db_refresh db)" by (rule fewer_rows_set)
  then show ?thesis using issue_grant_some [OF x(2)] by (auto simp: unused_rows_def)
qed

lemma rotate_unused:
  assumes st: "stored \<in> set (db_refresh (prune_database_tx now db))" "orf_used stored = None"
    and tx: "rotate_tx srv tokens now stored requested (prune_database_tx now db) = Some db'"
  shows "unused_rows (orf_hash stored) db = 1 \<and> unused_rows (orf_hash stored) db' = 0
    \<and> token_hash srv (snd tokens) \<noteq> orf_hash stored
    \<and> (h \<noteq> orf_hash stored \<longrightarrow> unused_rows h db' \<le> (if token_hash srv (snd tokens) = h then 1 else unused_rows h db))"
proof -
  note rows = rotate_tx_some [OF tx] fewer_rows_set(5) [OF prune_tx_fewer [of now db]]
  have fresh: "token_hash srv (snd tokens) \<noteq> orf_hash stored"
    using rows imageI [OF st(1), of orf_hash] by auto
  have one: "unused_rows (orf_hash stored) db = 1" using st rows by (auto simp: unused_rows_def)
  have none: "orf_used (mark_used now (orf_hash stored) r) \<noteq> None" if "orf_hash r = orf_hash stored" for r
    using that by (simp add: mark_used_def)
  have zero: "unused_rows (orf_hash stored) db' = 0"
    using rows fresh none by (auto simp: unused_rows_def)
  have "unused_rows h db' \<le> unused_rows h db" if other: "h \<noteq> orf_hash stored" "h \<noteq> token_hash srv (snd tokens)"
  proof -
    have "\<exists>y \<in> set (db_refresh db). orf_hash y = h \<and> orf_used y = None"
      if x: "x \<in> set (db_refresh db')" "orf_hash x = h" "orf_used x = None" for x
    proof -
      have "x \<in> mark_used now (orf_hash stored) ` set (db_refresh (prune_database_tx now db))"
        using conjunct1 [OF conjunct2 [OF conjunct2 [OF conjunct2 [OF conjunct2 [OF rows(1)]]]]] x(1,2) other(2) by auto
      then obtain y where y: "x = mark_used now (orf_hash stored) y" "y \<in> set (db_refresh (prune_database_tx now db))"
        by (rule imageE)
      have "orf_hash y = h" using y(1) x(2) by simp
      then have "x = y" using y(1) other(1) by (simp add: mark_used_def)
      then show ?thesis using x y(2) rows(2) by blast
    qed
    then show ?thesis by (auto simp: unused_rows_def)
  qed
  moreover have "unused_rows h db' \<le> 1" by (simp add: unused_rows_def)
  ultimately show ?thesis using fresh one zero by auto
qed

lemma revoke_rows:
  "set (db_refresh (snd (revoke srv storage now given client db))) \<subseteq> set (db_refresh db)"
  by (auto simp: revoke_def revoke_grant_def split: storage.splits option.splits)

lemma step_counts_ok:
  assumes "oauth_step srv s e s'" "db_wf (os_db s)" "counts_ok tr s"
  shows "counts_ok (tr @ [e]) s'"
  using assms
proof (induction rule: oauth_step.induct)
  case (registered scan storage now random req s response db')
  then show ?case
    using counts_ok_fewer [of tr s "s\<lparr>os_db := db'\<rparr>" Quiet] register_rows [OF registered(1)] by simp
next
  case (asked origins storage iter instant random q s response ps)
  then show ?case using counts_ok_fewer [of tr s "s\<lparr>os_pending := ps\<rparr>" Quiet] by simp
next
  case (declined origins instant form s response ps)
  then show ?case using counts_ok_fewer [of tr s "s\<lparr>os_pending := ps\<rparr>" Quiet] by simp
next
  case (approved origins instant form s request ps)
  then show ?case by (simp add: counts_ok_def)
next
  case (stored request s storage now random response db')
  have "length (remove1 request (os_flight s)) + 1 = length (os_flight s)"
    using stored(1) length_pos_if_in_set [OF stored(1)] by (simp add: length_remove1)
  then show ?case
    using stored store_code_codes [OF stored(2)] store_code_grants [OF stored(2)]
      counts_ok_fewer [of tr s "s\<lparr>os_db := db', os_flight := remove1 request (os_flight s)\<rparr>" Quiet] by simp
next
  case (exchanged scan storage xs tokens now form s response db' code verifier c)
  note ex = token_code [OF exchanged(1,2)]
  have "count_of (consumes h) tr + unused_rows h db'
      \<le> count_of (hands_out h) tr + (if token_hash srv (xs_refresh xs) = h then 1 else 0)" for h
  proof -
    have "count_of (consumes h) tr + unused_rows h (os_db s) \<le> count_of (hands_out h) tr"
      using exchanged(7) unfolding counts_ok_def by blast
    then show ?thesis using exchange_refresh [OF ex, of h] by (simp split: if_split_asm)
  qed
  then show ?case using exchange_codes [OF ex] exchanged(7) by (auto simp: counts_ok_def)
next
  case outer: (rotated scan storage secrets tokens now form s response db' given r)
  from token_refresh [OF outer(1,2)] show ?case
  proof (cases rule: rotate_refresh_cases)
    case (rotated response' stored given' g toks requested)
    have "stored = r" using refresh_unique [OF outer(6,4) rotated(4)] rotated(3,5) outer(3,5) by simp
    then have h: "orf_hash stored = token_hash srv given" using outer(5) by simp
    note u = rotate_unused [OF rotated(4,6,13)]
    have "count_of (consumes h) tr + (if token_hash srv given = h then 1 else 0) + unused_rows h db'
        \<le> count_of (hands_out h) tr + (if token_hash srv (snd toks) = h then 1 else 0)" for h
    proof -
      have "count_of (consumes h) tr + unused_rows h (os_db s) \<le> count_of (hands_out h) tr"
        using outer(7) unfolding counts_ok_def by blast
      then show ?thesis using u [of h] h by (cases "token_hash srv given = h") (auto split: if_splits)
    qed
    then show ?thesis
      using outer(7) rotated(1,14) rotate_codes [OF token_refresh [OF outer(1,2)]] by (auto simp: counts_ok_def)
  qed simp_all
next
  case outer: (replayed scan storage secrets tokens now form s db' given r)
  from token_reuse [OF outer(1)] show ?case
  proof (cases rule: rotate_refresh_cases)
    case (replay stored given')
    have "set (db_refresh db') \<subseteq> set (db_refresh (os_db s))"
      using replay(2) fewer_rows_set(5) [OF prune_tx_fewer [of now "os_db s"]] by (auto simp: revoke_family_def Let_def)
    then show ?thesis
      using outer(6) rotate_codes [OF token_reuse [OF outer(1)]]
        counts_ok_fewer [of tr s "s\<lparr>os_db := db'\<rparr>" "GrantRevoked (orf_grant r)"] by simp
  qed simp_all
next
  case (refused scan storage secrets tokens now form s response db')
  then show ?case
    using token_refused [OF refused(1,2,3)] counts_ok_fewer [of tr s "s\<lparr>os_db := db'\<rparr>" Quiet] by simp
next
  case (revoked now given client s response db' g)
  then show ?case
    using revoke_codes [of srv Ready now given client "os_db s"] revoke_rows [of srv Ready now given client "os_db s"]
      counts_ok_fewer [of tr s "s\<lparr>os_db := db'\<rparr>" "GrantRevoked (ogr_id g)"] by simp
next
  case (ignored storage now given client s response db')
  then show ?case
    using revoke_codes [of srv storage now given client "os_db s"] revoke_rows [of srv storage now given client "os_db s"]
      counts_ok_fewer [of tr s "s\<lparr>os_db := db'\<rparr>" Quiet] by simp
next
  case (cleared now s n db')
  then have "db_codes db' = []" "db_refresh db' = []" by (auto simp: revoke_all_def initialize_schema_def Let_def)
  then show ?case using cleared counts_ok_fewer [of tr s "s\<lparr>os_db := db'\<rparr>" AllRevoked] by simp
next
  case (restarted public_url now s db')
  have "db' = snd (prune_database now (os_db s))" using server_new_db [OF restarted(1)] .
  then have "fewer_rows db' (os_db s)" using prune_database_fewer by simp
  then have "length (db_codes db') \<le> length (db_codes (os_db s))" "set (db_refresh db') \<subseteq> set (db_refresh (os_db s))"
    unfolding fewer_rows_def by (blast dest: rows_of_length rows_of_set)+
  then show ?case using restarted counts_ok_fewer [of tr s "\<lparr>os_db = db', os_pending = no_pending, os_flight = []\<rparr>" Quiet] by simp
qed

lemma run_invariants: "oauth_run srv tr s \<Longrightarrow> db_wf (os_db s) \<and> requests_ok srv tr s
    \<and> grants_backed srv tr (os_db s) \<and> counts_ok tr s"
proof (induction rule: oauth_run.induct)
  case start
  then show ?case using fresh_requests_ok [of srv] empty_db_wf by (simp add: fresh_state_def grants_backed_def counts_ok_def empty_db_def unused_rows_def)
next
  case (step tr s e s')
  then show ?case using step_wf step_requests_ok step_grants_backed step_counts_ok by blast
qed

section \<open>Properties\<close>

text \<open>
  C38: The tables of the authorization server stay well-formed in every run: primary keys and families are
  unique, codes belong to registered and grants to approved clients, tokens to grants; there are never
  more than 256 clients, codes or grants, nor more refresh tokens in a family than the rotation limit; and
  pruning, which deletes clients that grants may refer to, never fails.
\<close>

theorem oauth_tables_wf:
  assumes "oauth_run srv tr s"
  shows "db_wf (os_db s) \<and> fst (prune_database now (os_db s))"
  using run_wf [OF assms] prune_database_wf by blast

text \<open>
  C37: No access without the owner: whenever an access token is accepted, the owner approved, with the right
  key, a request for this resource and the read scope; the token's grant was issued later, on the code of
  that request, to the holder of the verifier behind its challenge; the token is the one issued then or by
  a later rotation; and the grant has not been revoked since, whatever else happened in between.
\<close>

theorem access_needs_approval:
  assumes "oauth_run srv tr s" "authorize_access srv now bearer (os_db s)"
  shows "\<exists>before g verifier c access refresh later key request.
    tr = before @ [GrantIssued g verifier c access refresh] @ later
    \<and> Approval key request \<in> set before
    \<and> authorize_bearer (sv_crypto srv) (sv_owner srv) (trim key)
    \<and> prq_resource request = sv_resource srv \<and> scope_allows_read (prq_scope request)
    \<and> request_of_code c request \<and> s256_challenge srv verifier = prq_challenge request
    \<and> (access = token_hash srv bearer \<or> (\<exists>old new. Rotated g old (token_hash srv bearer) new \<in> set later))
    \<and> GrantRevoked g \<notin> set later \<and> AllRevoked \<notin> set later"
proof -
  obtain a gr where a: "a \<in> set (db_access (os_db s))" "oac_hash a = token_hash srv bearer"
    and gr: "gr \<in> set (db_grants (os_db s))" "ogr_id gr = oac_grant a" "ogr_revoked gr = None"
      "scope_allows_read (ogr_scope gr)"
    using assms(2) unfolding authorize_access_def list_ex_iff by blast
  have "grant_backed srv tr (os_db s) gr"
    using run_invariants [OF assms(1)] gr(1,3) unfolding grants_backed_def by blast
  then obtain rq access later where b: "backed srv tr (ogr_id gr) rq access later" "ogr_scope gr = prq_scope rq"
    "issued_since (ogr_id gr) access later (token_hash srv bearer)"
    using a gr(2) unfolding grant_backed_def by metis
  obtain before verifier c refresh where x: "tr = before @ [GrantIssued (ogr_id gr) verifier c access refresh] @ later"
    "request_of_code c rq" "approved_by_owner srv before rq" "s256_challenge srv verifier = prq_challenge rq"
    "GrantRevoked (ogr_id gr) \<notin> set later" "AllRevoked \<notin> set later"
    using b(1) unfolding backed_def by blast
  obtain key where key: "Approval key rq \<in> set before" "authorize_bearer (sv_crypto srv) (sv_owner srv) (trim key)"
    "prq_resource rq = sv_resource srv"
    using x(3) unfolding approved_by_owner_def by blast
  have token: "access = token_hash srv bearer \<or> (\<exists>old new. Rotated (ogr_id gr) old (token_hash srv bearer) new \<in> set later)"
    using b(3) unfolding issued_since_def by metis
  show ?thesis
    using x(1) key x(2,4,5,6) gr(4) [unfolded b(2)] token
    by (intro exI [of _ before] exI [of _ "ogr_id gr"] exI [of _ verifier] exI [of _ c] exI [of _ access]
        exI [of _ refresh] exI [of _ later] exI [of _ key] exI [of _ rq] conjI)
qed

text \<open>
  C39: Everything is good for one use: in every run no more grants are issued than requests were approved,
  and no refresh token is rotated more often than it was handed out.
\<close>

theorem oauth_single_use:
  assumes "oauth_run srv tr s"
  shows "count_of is_issue tr \<le> count_of is_approval tr \<and> count_of (consumes h) tr \<le> count_of (hands_out h) tr"
proof -
  have "count_of is_issue tr + length (db_codes (os_db s)) + length (os_flight s) \<le> count_of is_approval tr"
    "count_of (consumes h) tr + unused_rows h (os_db s) \<le> count_of (hands_out h) tr"
    using run_invariants [OF assms] unfolding counts_ok_def by blast+
  then show ?thesis by linarith
qed

lemma prune_keeps:
  assumes wf: "db_wf db" and r: "r \<in> set (db_refresh db)" "now < orf_expires r"
    and g: "g \<in> set (db_grants db)" "ogr_id g = orf_grant r" "ogr_revoked g = None"
  shows "r \<in> set (db_refresh (prune_database_tx now db)) \<and> g \<in> set (db_grants (prune_database_tx now db))"
proof -
  define live where "live = db\<lparr>db_codes := filter (\<lambda>c. \<not> oco_expires c \<le> now) (db_codes db),
    db_access := filter (\<lambda>a. \<not> oac_expires a \<le> now) (db_access db),
    db_refresh := filter (\<lambda>r. \<not> orf_expires r \<le> now) (db_refresh db)\<rparr>"
  define P where "P g = (is_some_and (\<lambda>t. t \<le> now - refresh_ttl_seconds) (ogr_revoked g)
      \<or> \<not> list_ex (\<lambda>a. oac_grant a = ogr_id g) (db_access live)
        \<and> \<not> list_ex (\<lambda>r. orf_grant r = ogr_id g) (db_refresh live))" for g :: grant_row
  have p: "prune_database_tx now db = delete_grants P live"
    unfolding prune_database_tx_def Let_def live_def [symmetric] P_def [abs_def] ..
  have live: "r \<in> set (db_refresh live)" "db_grants live = db_grants db" using r by (simp_all add: live_def)
  then have keep: "\<not> P g" using g(2,3) by (auto simp: P_def list_ex_iff)
  have "orf_grant r \<notin> ogr_id ` set (filter P (db_grants live))"
  proof
    assume "orf_grant r \<in> ogr_id ` set (filter P (db_grants live))"
    then obtain x where x: "x \<in> set (db_grants db)" "P x" "ogr_id x = orf_grant r" unfolding live(2) set_filter by auto
    have "distinct (map ogr_id (db_grants db))" using db_wfD(1) [OF wf] unfolding keys_ok_def by blast
    then have "x = g" by (rule key_unique [OF _ x(1) g(1)]) (simp add: x(3) g(2))
    then show False using keep x(2) by simp
  qed
  then show ?thesis using live g(1) keep unfolding p delete_grants_def Let_def by simp
qed

lemma find_unique:
  assumes "distinct (map f xs)" "x \<in> set xs" "f x = k"
  shows "List.find (\<lambda>y. f y = k) xs = Some x"
proof -
  have "List.find (\<lambda>y. f y = k) xs \<noteq> None" using assms(2,3) by (auto simp: find_None_iff)
  then obtain y where y: "List.find (\<lambda>y. f y = k) xs = Some y" by blast
  have "y = x" using find_some [OF y] assms(2,3) by (intro key_unique [OF assms(1)]) auto
  then show ?thesis using y by simp
qed

text \<open>
  C40: A replayed refresh token takes down its family: presenting a token that was already rotated, with the
  right client and resource, is refused as reuse, and afterwards the grant is revoked, none of its access
  tokens is left, and no refresh token of the family either.
\<close>

theorem replay_revokes_family:
  assumes "oauth_run srv tr s" "r \<in> set (db_refresh (os_db s))" "orf_used r \<noteq> None" "now < orf_expires r"
    "g \<in> set (db_grants (os_db s))" "ogr_id g = orf_grant r" "ogr_revoked g = None"
    "tf_refresh form = Some given" "orf_hash r = token_hash srv given" "tf_client form = orf_client r"
    "orf_resource r = sv_resource srv" "tf_resource form = Some (sv_resource srv)"
  shows "let (result, db') = rotate_refresh srv Ready (Some tokens) now form (os_db s)
    in result = Inl (invalid_grant ''refresh token reuse detected'')
      \<and> (\<forall>a \<in> set (db_access db'). oac_grant a \<noteq> ogr_id g)
      \<and> (\<forall>x \<in> set (db_refresh db'). orf_family x \<noteq> ogr_family g)
      \<and> (\<forall>x \<in> set (db_grants db'). ogr_id x = ogr_id g \<longrightarrow> ogr_revoked x = Some now)"
proof -
  let ?db = "prune_database_tx now (os_db s)"
  note wf = run_wf [OF assms(1)]
  note wfp = prune_tx_wf [OF wf, of now]
  have kept: "r \<in> set (db_refresh ?db)" "g \<in> set (db_grants ?db)"
    using prune_keeps [OF wf assms(2,4,5,6,7)] by blast+
  have keys: "distinct (map orf_hash (db_refresh ?db))" "distinct (map ogr_id (db_grants ?db))"
    using db_wfD(1) [OF wfp] unfolding keys_ok_def by blast+
  have found: "List.find (\<lambda>x. orf_hash x = token_hash srv given) (db_refresh ?db) = Some r"
    "List.find (\<lambda>x. ogr_id x = orf_grant r) (db_grants ?db) = Some g"
    using find_unique [OF keys(1) kept(1) assms(9)] find_unique [OF keys(2) kept(2) assms(6)] by blast+
  have res: "rotate_refresh srv Ready (Some tokens) now form (os_db s) =
      (Inl (invalid_grant ''refresh token reuse detected''), revoke_family now (orf_family r) ?db)"
    using assms(3,8,10,11,12) found by (auto simp: rotate_refresh_def Let_def)
  have same: "x = g" if "x \<in> set (db_grants ?db)" "ogr_id x = ogr_id g" for x
    using key_unique [OF keys(2) that(1) kept(2) that(2)] .
  obtain g' where "g' \<in> set (db_grants ?db)" "ogr_id g' = orf_grant r" "ogr_family g' = orf_family r"
    using refs_okD(4) [OF db_wfD(2) [OF wfp] kept(1)] by blast
  then have family: "ogr_family g = orf_family r" using same [of g'] assms(6) by simp
  have "g\<lparr>ogr_revoked := Some now\<rparr> \<in> set (filter (\<lambda>x. ogr_family x = orf_family r)
      (map (\<lambda>x. if ogr_family x = orf_family r then x\<lparr>ogr_revoked := Some now\<rparr> else x) (db_grants ?db)))"
    using kept(2) family by (auto intro!: image_eqI [of _ _ g])
  then have "ogr_id (g\<lparr>ogr_revoked := Some now\<rparr>) \<in> ogr_id ` set (filter (\<lambda>x. ogr_family x = orf_family r)
      (map (\<lambda>x. if ogr_family x = orf_family r then x\<lparr>ogr_revoked := Some now\<rparr> else x) (db_grants ?db)))"
    by (rule imageI)
  then have access: "\<forall>a \<in> set (db_access (revoke_family now (orf_family r) ?db)). oac_grant a \<noteq> ogr_id g"
    unfolding revoke_family_def Let_def by (simp del: set_map image_iff) metis
  have refresh: "\<forall>x \<in> set (db_refresh (revoke_family now (orf_family r) ?db)). orf_family x \<noteq> ogr_family g"
    by (simp add: revoke_family_def Let_def family)
  have "ogr_revoked x = Some now"
    if x: "x \<in> set (db_grants (revoke_family now (orf_family r) ?db))" "ogr_id x = ogr_id g" for x
  proof -
    obtain y where y: "y \<in> set (db_grants ?db)" "x = (if ogr_family y = orf_family r then y\<lparr>ogr_revoked := Some now\<rparr> else y)"
      using x(1) unfolding revoke_family_def Let_def by auto
    have "ogr_id y = ogr_id g" using y(2) x(2) by (simp split: if_split_asm)
    then have "y = g" by (rule same [OF y(1)])
    then show ?thesis using y(2) family by simp
  qed
  then show ?thesis unfolding res Let_def case_prod_conv using access refresh by blast
qed

section \<open>A run\<close>

text \<open>A client registers, asks, is approved, exchanges its code and rotates its refresh token.\<close>

definition sample_owner :: str where "sample_owner = replicate 32 CHR ''k''"
definition sample_verifier :: str where "sample_verifier = replicate 43 CHR ''v''"
definition sample_request_id :: str where "sample_request_id = replicate 43 CHR ''i''"

definition sample_url :: "str \<Rightarrow> url option" where
  "sample_url v = Some \<lparr>url_scheme = ''https'', url_username = '''', url_password = None,
    url_host = Some (HostDomain ''h''), url_path = ''/'', url_query = None, url_fragment = None,
    url_text = v, url_origin = v\<rparr>"

definition sample_server :: oauth_server where
  "sample_server = \<lparr>sv_crypto = plain_crypto, sv_owner = auth_new sample_owner, sv_parse = sample_url,
    sv_extend = (\<lambda>u pairs. Some u), sv_origin = ''o'', sv_resource = ''o/mcp''\<rparr>"

definition sample_client :: client_row where
  "sample_client = \<lparr>ocl_id = ''memex_c'', ocl_name = ''n'', ocl_redirects = [''r''], ocl_created = 0, ocl_approved = None\<rparr>"

definition sample_pending :: pending_request where
  "sample_pending = \<lparr>prq_created = 5, prq_client = ''memex_c'', prq_name = ''n'', prq_redirect = ''r'',
    prq_challenge = sample_verifier, prq_resource = ''o/mcp'', prq_scope = ''memex:read'', prq_state = None\<rparr>"

definition sample_code :: code_row where
  "sample_code = \<lparr>oco_hash = ''code'', oco_client = ''memex_c'', oco_redirect = ''r'', oco_resource = ''o/mcp'',
    oco_challenge = sample_verifier, oco_scope = ''memex:read'', oco_expires = 301\<rparr>"

definition sample_grant :: grant_row where
  "sample_grant = \<lparr>ogr_id = ''g'', ogr_family = ''m'', ogr_client = ''memex_c'', ogr_resource = ''o/mcp'',
    ogr_scope = ''memex:read'', ogr_created = 2, ogr_revoked = None\<rparr>"

definition sample_refresh :: "str \<Rightarrow> int \<Rightarrow> int option \<Rightarrow> refresh_row" where
  "sample_refresh h expires used = \<lparr>orf_hash = h, orf_grant = ''g'', orf_family = ''m'', orf_client = ''memex_c'',
    orf_resource = ''o/mcp'', orf_scope = ''memex:read'', orf_expires = expires, orf_used = used\<rparr>"

definition sample_registered :: oauth_db where
  "sample_registered = empty_db\<lparr>db_clients := [sample_client]\<rparr>"

definition sample_issued :: oauth_db where
  "sample_issued = empty_db\<lparr>db_clients := [sample_client\<lparr>ocl_approved := Some 2\<rparr>], db_grants := [sample_grant],
    db_access := [\<lparr>oac_hash = ''a'', oac_grant = ''g'', oac_expires = 3602\<rparr>],
    db_refresh := [sample_refresh ''f'' 2592002 None]\<rparr>"

definition sample_rotated :: oauth_db where
  "sample_rotated = sample_issued\<lparr>db_access := [\<lparr>oac_hash = ''b'', oac_grant = ''g'', oac_expires = 3603\<rparr>],
    db_refresh := [sample_refresh ''f'' 2592002 (Some 3), sample_refresh ''h'' 2592003 None]\<rparr>"

definition sample_registration :: registration_request where
  "sample_registration = \<lparr>rr_redirects = [''r''], rr_name = Some ''n'', rr_method = None\<rparr>"

definition sample_query :: authorize_query where
  "sample_query = \<lparr>aq_response_type = ''code'', aq_client = ''memex_c'', aq_redirect = ''r'', aq_challenge = sample_verifier,
    aq_method = ''S256'', aq_resource = ''o/mcp'', aq_scope = None, aq_state = None\<rparr>"

definition sample_decision :: approval_form where
  "sample_decision = \<lparr>af_request_id = sample_request_id, af_owner_key = sample_owner, af_decision = ''approve''\<rparr>"

definition sample_form :: "str \<Rightarrow> token_form" where
  "sample_form grant_type = \<lparr>tf_grant_type = grant_type, tf_client = ''memex_c'', tf_code = Some ''code'', tf_redirect = Some ''r'',
    tf_verifier = Some sample_verifier, tf_refresh = Some ''f'', tf_resource = Some ''o/mcp'', tf_scope = None\<rparr>"

lemmas sample_defs = sample_server_def sample_url_def sample_client_def sample_pending_def sample_code_def
  sample_grant_def sample_refresh_def sample_registered_def sample_issued_def sample_rotated_def
  sample_registration_def sample_query_def sample_decision_def sample_form_def empty_db_def plain_crypto_def

lemma sample_facts: "trim ''n'' = ''n''" "trim sample_owner = sample_owner" "normalize_scope None = Some ''memex:read''"
  "valid_code_challenge sample_verifier" "valid_code_verifier sample_verifier" "length (sample_verifier) = 43"
  "length sample_request_id = 43" "length sample_owner = 32" "utf8_chars ''n'' = [''n'']"
  "header_value_ok (approval_policy ''r'')"
  by code_simp+

lemma sample_registers:
  "register sample_server (\<lambda>xs. xs) Ready 0 (Some ''c'') sample_registration empty_db =
    (Registered ''memex_c'' ''n'' [''r''], sample_registered)"
  by (simp add: register_def register_tx_def prune_database_tx_def prune_unapproved_clients_tx_def delete_grants_def
      delete_clients_def insert_client_def validate_redirect_uri_def secure_scheme_def no_userinfo_def
      max_clients_def Let_def sample_defs sample_facts)

lemma sample_asks:
  "authorize_get sample_server [] Ready (\<lambda>xs. xs) 5 (Some sample_request_id) sample_query sample_registered no_pending =
    (ApprovalPage 200 sample_pending sample_request_id None (approval_policy ''r''),
     \<lparr>pn_requests = [(sample_request_id, sample_pending)], pn_failed = []\<rparr>)"
  by (simp add: authorize_get_def authorize_checks_def valid_request_origin_def find_client_def insert_pending_def
      retain_pending_def max_pending_def approval_response_def no_pending_def Let_def sample_defs sample_facts)

lemma sample_approves:
  "decide_approval sample_server [] 6 sample_decision \<lparr>pn_requests = [(sample_request_id, sample_pending)], pn_failed = []\<rparr> =
    (Inr sample_pending, no_pending)"
  by (simp add: decide_approval_def valid_request_origin_def take_pending_def retain_pending_def authorize_bearer_def
      access_bytes_def auth_new_def access_token_bytes_def pending_ttl_def no_pending_def Let_def sample_defs sample_facts)

lemma sample_stores:
  "store_code sample_server Ready 1 (Some ''code'') sample_pending sample_registered =
    (RedirectTo ''r'', sample_registered\<lparr>db_codes := [sample_code]\<rparr>)"
  by (simp add: store_code_def store_code_tx_def prune_database_tx_def delete_grants_def insert_code_def max_pending_def
      token_hash_def authorization_redirect_def code_ttl_seconds_def Let_def sample_defs)

lemma sample_exchanges:
  "token sample_server (\<lambda>xs. xs) Ready (Some \<lparr>xs_access = ''a'', xs_refresh = ''f'', xs_grant = ''g'', xs_family = ''m''\<rparr>) None 2
      (sample_form ''authorization_code'') (sample_registered\<lparr>db_codes := [sample_code]\<rparr>) =
    (Tokens \<lparr>tr_access = ''a'', tr_scope = ''memex:read'', tr_refresh = ''f''\<rparr>, sample_issued)"
  by (simp add: token_def exchange_code_def exchange_tx_def prune_database_tx_def delete_grants_def token_hash_def
      s256_challenge_def active_grants_def max_grants_def issue_grant_def approve_client_def mark_approved_def
      insert_grant_def insert_access_def insert_refresh_def access_ttl_seconds_def refresh_ttl_seconds_def
      Let_def sample_defs sample_facts)

lemma sample_pruned: "prune_database_tx 3 sample_issued = sample_issued"
  by (auto simp: prune_database_tx_def delete_grants_def sample_defs)

lemma sample_rotates:
  "token sample_server (\<lambda>xs. xs) Ready None (Some (''b'', ''h'')) 3 (sample_form ''refresh_token'') sample_issued =
    (Tokens \<lparr>tr_access = ''b'', tr_scope = ''memex:read'', tr_refresh = ''h''\<rparr>, sample_rotated)"
proof -
  have subset: "scope_is_subset ''memex:read'' ''memex:read''" by code_simp
  show ?thesis
    unfolding token_def rotate_refresh_def Let_def sample_pruned
    by (simp add: token_hash_def max_refresh_tokens_per_family_def rotate_tx_def use_refresh_def mark_used_def
        requested_scope_def insert_access_def insert_refresh_def access_ttl_seconds_def refresh_ttl_seconds_def
        subset Let_def image_iff sample_defs)
qed

definition sample_requests :: pending_state where
  "sample_requests = \<lparr>pn_requests = [(sample_request_id, sample_pending)], pn_failed = []\<rparr>"

definition sample_secrets :: exchange_secrets where
  "sample_secrets = \<lparr>xs_access = ''a'', xs_refresh = ''f'', xs_grant = ''g'', xs_family = ''m''\<rparr>"

definition sample_trace :: "oauth_event list" where
  "sample_trace = [Quiet, Quiet, Approval sample_owner sample_pending, Quiet,
    GrantIssued ''g'' sample_verifier sample_code ''a'' ''f'', Rotated ''g'' ''f'' ''b'' ''h'']"

definition sample_at :: "oauth_db \<Rightarrow> pending_state \<Rightarrow> pending_request list \<Rightarrow> oauth_state" where
  "sample_at db ps flight = \<lparr>os_db = db, os_pending = ps, os_flight = flight\<rparr>"

lemma sample_at_simps [simp]: "os_db (sample_at db ps flight) = db" "os_pending (sample_at db ps flight) = ps"
  "os_flight (sample_at db ps flight) = flight" "(sample_at db ps flight)\<lparr>os_db := db2\<rparr> = sample_at db2 ps flight"
  "(sample_at db ps flight)\<lparr>os_pending := ps2\<rparr> = sample_at db ps2 flight"
  "(sample_at db ps flight)\<lparr>os_flight := flight2\<rparr> = sample_at db ps flight2"
  by (simp_all add: sample_at_def)

lemma sample_hash: "token_hash sample_server t = t"
  by (simp add: token_hash_def sample_server_def plain_crypto_def)

lemma sample_step1: "oauth_step sample_server (sample_at empty_db no_pending []) Quiet (sample_at sample_registered no_pending [])"
  using oauth_step.registered [where s = "sample_at empty_db no_pending []", simplified, OF sample_registers] .

lemma sample_step2: "oauth_step sample_server (sample_at sample_registered no_pending []) Quiet
    (sample_at sample_registered sample_requests [])"
  using oauth_step.asked [where s = "sample_at sample_registered no_pending []", simplified, OF sample_asks]
  by (simp add: sample_requests_def)

lemma sample_step3: "oauth_step sample_server (sample_at sample_registered sample_requests [])
    (Approval sample_owner sample_pending) (sample_at sample_registered no_pending [sample_pending])"
  using oauth_step.approved [where s = "sample_at sample_registered sample_requests []", simplified,
      OF sample_approves [folded sample_requests_def]]
  by (simp add: sample_decision_def)

lemma sample_step4: "oauth_step sample_server (sample_at sample_registered no_pending [sample_pending]) Quiet
    (sample_at (sample_registered\<lparr>db_codes := [sample_code]\<rparr>) no_pending [])"
  using oauth_step.stored [where s = "sample_at sample_registered no_pending [sample_pending]" and request = sample_pending,
      simplified, OF sample_stores] .

lemma sample_step5: "oauth_step sample_server (sample_at (sample_registered\<lparr>db_codes := [sample_code]\<rparr>) no_pending [])
    (GrantIssued ''g'' sample_verifier sample_code ''a'' ''f'') (sample_at sample_issued no_pending [])"
proof -
  have "List.find (\<lambda>c. oco_hash c = token_hash sample_server ''code'')
      (db_codes (prune_database_tx 2 (sample_registered\<lparr>db_codes := [sample_code]\<rparr>))) = Some sample_code"
    by (simp add: prune_database_tx_def delete_grants_def sample_hash) (simp add: sample_defs)
  then show ?thesis
    using oauth_step.exchanged [where s = "sample_at (sample_registered\<lparr>db_codes := [sample_code]\<rparr>) no_pending []"
        and code = "''code''" and verifier = sample_verifier and c = sample_code, simplified, OF sample_exchanges]
    by (simp add: sample_form_def sample_hash)
qed

lemma sample_step6: "oauth_step sample_server (sample_at sample_issued no_pending [])
    (Rotated ''g'' ''f'' ''b'' ''h'') (sample_at sample_rotated no_pending [])"
proof -
  have "sample_refresh ''f'' 2592002 None \<in> set (db_refresh sample_issued)" "orf_hash (sample_refresh ''f'' 2592002 None) = ''f''"
    "orf_grant (sample_refresh ''f'' 2592002 None) = ''g''"
    by (simp_all add: sample_issued_def sample_refresh_def)
  then show ?thesis
    using oauth_step.rotated [where s = "sample_at sample_issued no_pending []" and given = "''f''"
        and r = "sample_refresh ''f'' 2592002 None", simplified, OF sample_rotates]
    by (simp add: sample_form_def sample_hash)
qed

lemma sample_oauth_run: "oauth_run sample_server sample_trace (sample_at sample_rotated no_pending [])"
proof -
  have "oauth_run sample_server [] (sample_at empty_db no_pending [])"
    using oauth_run.start unfolding fresh_state_def sample_at_def .
  note run = oauth_run.step [OF this sample_step1]
  note run = oauth_run.step [OF oauth_run.step [OF run sample_step2] sample_step3]
  note run = oauth_run.step [OF oauth_run.step [OF run sample_step4] sample_step5]
  show ?thesis
    using oauth_run.step [OF run sample_step6] by (simp add: sample_trace_def)
qed

lemma oauth_tables_wf_witness: "db_wf sample_rotated \<and> fst (prune_database 4 sample_rotated)"
  using oauth_tables_wf [OF sample_oauth_run, of 4] by simp

lemma sample_authorized: "authorize_access sample_server 4 ''b'' sample_rotated"
proof -
  have "scope_allows_read ''memex:read''" by code_simp
  then show ?thesis by (simp add: authorize_access_def sample_hash) (simp add: sample_defs)
qed

lemma access_needs_approval_witness:
  "\<exists>key request. Approval key request \<in> set sample_trace
    \<and> authorize_bearer (sv_crypto sample_server) (sv_owner sample_server) (trim key)"
proof -
  have "authorize_access sample_server 4 ''b'' (os_db (sample_at sample_rotated no_pending []))"
    using sample_authorized by simp
  from access_needs_approval [OF sample_oauth_run this] obtain before later key request
    where tr: "sample_trace = before @ later" and approval: "Approval key request \<in> set before"
      and key: "authorize_bearer (sv_crypto sample_server) (sv_owner sample_server) (trim key)"
    by blast
  have "Approval key request \<in> set sample_trace" using approval unfolding tr by simp
  then show ?thesis using key by blast
qed

lemma oauth_single_use_witness:
  "count_of is_issue sample_trace \<le> count_of is_approval sample_trace
    \<and> count_of (consumes ''f'') sample_trace \<le> count_of (hands_out ''f'') sample_trace"
  by (rule oauth_single_use [OF sample_oauth_run])

lemma replay_revokes_family_witness:
  "let (result, db') = rotate_refresh sample_server Ready (Some (''x'', ''y'')) 4 (sample_form ''refresh_token'') sample_rotated
    in result = Inl (invalid_grant ''refresh token reuse detected'')
      \<and> (\<forall>a \<in> set (db_access db'). oac_grant a \<noteq> ''g'')
      \<and> (\<forall>x \<in> set (db_refresh db'). orf_family x \<noteq> ''m'')
      \<and> (\<forall>x \<in> set (db_grants db'). ogr_id x = ''g'' \<longrightarrow> ogr_revoked x = Some 4)"
proof -
  have "sample_refresh ''f'' 2592002 (Some 3) \<in> set (db_refresh sample_rotated)" "sample_grant \<in> set (db_grants sample_rotated)"
    by (simp_all add: sample_rotated_def sample_issued_def)
  then show ?thesis
    using replay_revokes_family [OF sample_oauth_run, of "sample_refresh ''f'' 2592002 (Some 3)" 4 sample_grant
        "sample_form ''refresh_token''" "''f''" "(''x'', ''y'')"]
    by (simp add: sample_hash) (simp add: sample_refresh_def sample_grant_def sample_form_def sample_server_def)
qed

end
