(* ===== verification/DirectoryWalk.thy ===== *)
theory DirectoryWalk
  imports Directories
begin

text \<open>
  What the stamps of a directory walk certify: the behaviour of file systems the walk relies on, the
  certificate a stamp stands for, its preservation by every turn of the walk, and the end of the walk.
\<close>

section \<open>What is relied on\<close>

text \<open>
  \<open>content t d\<close> is what directory \<open>d\<close> really holds at time \<open>t\<close>. The documented behaviour the walk
  rests on: while a stamp holds, nothing is created, removed or renamed in the directory; a complete
  read that falls into such a time lists exactly its entries; and \<open>symlink_metadata\<close> agrees with
  the type of the entry.
\<close>

definition dir_at :: "world \<Rightarrow> nat \<Rightarrow> str \<Rightarrow> directory_stamp \<Rightarrow> bool" where
  "dir_at w t p s = (fv_metadata (w t) p = Some (KindDir, s) \<or> fv_symlink (w t) p = Some (KindDir, s))"

definition fs_behaves :: "world \<Rightarrow> (nat \<Rightarrow> str \<Rightarrow> (str \<times> file_kind) set) \<Rightarrow> bool" where
  "fs_behaves w content =
    ((\<forall>t d n k. (n, k) \<in> content t d \<longrightarrow> name_ok n)
     \<and> (\<forall>t d es n k. fv_read (w t) d = Some es \<longrightarrow> (n, k) \<in> listed es \<longrightarrow> name_ok n)
     \<and> (\<forall>d s t r u. t \<le> r \<longrightarrow> r \<le> u \<longrightarrow> dir_at w t d s \<longrightarrow> dir_at w u d s \<longrightarrow> content r d = content u d)
     \<and> (\<forall>d s t r u es. t \<le> r \<longrightarrow> r \<le> u \<longrightarrow> dir_at w t d s \<longrightarrow> dir_at w u d s \<longrightarrow>
          fv_read (w r) d = Some es \<longrightarrow> whole es \<longrightarrow> listed es = content u d)
     \<and> (\<forall>t d n k k' s. (n, k) \<in> content t d \<longrightarrow> fv_symlink (w t) (path_join d n) = Some (k', s) \<longrightarrow> k' = k))"

text \<open>No root lies below another.\<close>

definition roots_ok :: "str set \<Rightarrow> bool" where
  "roots_ok R = (\<forall>r \<in> R. normal_path r \<and> (\<forall>r' \<in> R. path_under r r' \<longrightarrow> r = r'))"

text \<open>
  A stamp certifies its directory: as long as it is the stamp of the directory, every subdirectory is
  stamped, and every relevant file tracked.
\<close>

definition certified ::
    "world \<Rightarrow> (nat \<Rightarrow> str \<Rightarrow> (str \<times> file_kind) set) \<Rightarrow> (str \<Rightarrow> bool) \<Rightarrow> nat \<Rightarrow> str \<Rightarrow> directory_stamp
     \<Rightarrow> (str \<Rightarrow> bool) \<Rightarrow> (str \<Rightarrow> bool) \<Rightarrow> bool" where
  "certified w content rel now d s dirs files =
    (\<forall>u \<ge> now. dir_at w u d s \<longrightarrow>
       (\<forall>n. ((n, KindDir) \<in> content u d \<longrightarrow> dirs (path_join d n))
          \<and> ((n, KindFile) \<in> content u d \<longrightarrow> rel (path_join d n) \<longrightarrow> files (path_join d n))))"

definition stamps_ok ::
    "world \<Rightarrow> (nat \<Rightarrow> str \<Rightarrow> (str \<times> file_kind) set) \<Rightarrow> (str \<Rightarrow> bool) \<Rightarrow> str set \<Rightarrow> nat
     \<Rightarrow> (str \<Rightarrow> directory_stamp option) \<Rightarrow> (str \<Rightarrow> bool) \<Rightarrow> (str \<Rightarrow> bool) \<Rightarrow> bool" where
  "stamps_ok w content rel R now stamps dirs files =
    (\<forall>d s. stamps d = Some s \<longrightarrow> normal_path d \<and> (\<exists>r \<in> R. path_under d r)
       \<and> (\<exists>t < now. dir_at w t d s) \<and> certified w content rel now d s dirs files)"

lemma certified_mono:
  assumes "certified w content rel now d s dirs files" "now \<le> now'" "\<And>p. dirs p \<Longrightarrow> dirs' p"
    "\<And>p. files p \<Longrightarrow> files' p"
  shows "certified w content rel now' d s dirs' files'"
  unfolding certified_def
proof (intro allI impI)
  fix u n
  assume u: "now' \<le> u" "dir_at w u d s"
  then have "now \<le> u" using assms(2) by simp
  then show "((n, KindDir) \<in> content u d \<longrightarrow> dirs' (path_join d n))
      \<and> ((n, KindFile) \<in> content u d \<longrightarrow> rel (path_join d n) \<longrightarrow> files' (path_join d n))"
    using assms(1,3,4) u(2) unfolding certified_def by blast
qed

lemma stamps_ok_mono:
  assumes "stamps_ok w content rel R now stamps dirs files" "now \<le> now'" "\<And>p. dirs p \<Longrightarrow> dirs' p"
    "\<And>p. files p \<Longrightarrow> files' p"
  shows "stamps_ok w content rel R now' stamps dirs' files'"
  unfolding stamps_ok_def
proof (intro allI impI)
  fix d s
  assume "stamps d = Some s"
  then have d: "normal_path d \<and> (\<exists>r \<in> R. path_under d r)" "\<exists>t < now. dir_at w t d s"
    "certified w content rel now d s dirs files"
    using assms(1) unfolding stamps_ok_def by blast+
  obtain t where "t < now" "dir_at w t d s" using d(2) by blast
  then have "\<exists>t < now'. dir_at w t d s" using assms(2) by (intro exI [of _ t]) simp
  moreover have "certified w content rel now' d s dirs' files'"
    by (rule certified_mono [OF d(3) assms(2)]) (rule assms(3,4), assumption)+
  ultimately show "normal_path d \<and> (\<exists>r \<in> R. path_under d r) \<and> (\<exists>t < now'. dir_at w t d s)
      \<and> certified w content rel now' d s dirs' files'"
    using d(1) by blast
qed

lemma fs_names:
  assumes "fs_behaves w content" "(n, k) \<in> content t d"
  shows "name_ok n"
proof -
  have "\<forall>t d n k. (n, k) \<in> content t d \<longrightarrow> name_ok n" using assms(1) unfolding fs_behaves_def by (elim conjE)
  then show ?thesis using assms(2) by blast
qed

lemma fs_read_names:
  assumes "fs_behaves w content" "fv_read (w t) d = Some es" "(n, k) \<in> listed es"
  shows "name_ok n"
proof -
  have "\<forall>t d es n k. fv_read (w t) d = Some es \<longrightarrow> (n, k) \<in> listed es \<longrightarrow> name_ok n"
    using assms(1) unfolding fs_behaves_def by (elim conjE)
  then show ?thesis using assms(2-) by blast
qed

lemma fs_holds:
  assumes "fs_behaves w content" "t \<le> r" "r \<le> u" "dir_at w t d s" "dir_at w u d s"
  shows "content r d = content u d"
proof -
  have "\<forall>d s t r u. t \<le> r \<longrightarrow> r \<le> u \<longrightarrow> dir_at w t d s \<longrightarrow> dir_at w u d s \<longrightarrow> content r d = content u d"
    using assms(1) unfolding fs_behaves_def by (elim conjE)
  then show ?thesis using assms(2-) by blast
qed

lemma fs_read_holds:
  assumes "fs_behaves w content" "t \<le> r" "r \<le> u" "dir_at w t d s" "dir_at w u d s"
    "fv_read (w r) d = Some es" "whole es"
  shows "listed es = content u d"
proof -
  have "\<forall>d s t r u es. t \<le> r \<longrightarrow> r \<le> u \<longrightarrow> dir_at w t d s \<longrightarrow> dir_at w u d s \<longrightarrow>
      fv_read (w r) d = Some es \<longrightarrow> whole es \<longrightarrow> listed es = content u d"
    using assms(1) unfolding fs_behaves_def by (elim conjE)
  then show ?thesis using assms(2-) by blast
qed

lemma fs_kinds:
  assumes "fs_behaves w content" "(n, k) \<in> content t d" "fv_symlink (w t) (path_join d n) = Some (k', s)"
  shows "k' = k"
proof -
  have "\<forall>t d n k k' s. (n, k) \<in> content t d \<longrightarrow> fv_symlink (w t) (path_join d n) = Some (k', s) \<longrightarrow> k' = k"
    using assms(1) unfolding fs_behaves_def by (elim conjE)
  then show ?thesis using assms(2-) by blast
qed

section \<open>What the stamps of a walk certify\<close>

lemma stamps_okD:
  assumes "stamps_ok w content rel R now stamps dirs files" "stamps d = Some s"
  shows "normal_path d" "\<exists>r \<in> R. path_under d r" "\<exists>t < now. dir_at w t d s"
    "certified w content rel now d s dirs files"
  using assms unfolding stamps_ok_def by blast+

lemma certifiedD:
  assumes "certified w content rel now d s dirs files" "now \<le> u" "dir_at w u d s"
  shows "(n, KindDir) \<in> content u d \<Longrightarrow> dirs (path_join d n)"
    "(n, KindFile) \<in> content u d \<Longrightarrow> rel (path_join d n) \<Longrightarrow> files (path_join d n)"
  using assms unfolding certified_def by blast+

lemma certified_rel:
  "certified w content rel now d s dirs files \<Longrightarrow> certified w content rel now d s dirs (\<lambda>p. files p \<and> rel p)"
  unfolding certified_def by blast

lemma stamps_ok_rel:
  "stamps_ok w content rel R now stamps dirs files \<Longrightarrow> stamps_ok w content rel R now stamps dirs (\<lambda>p. files p \<and> rel p)"
  unfolding stamps_ok_def using certified_rel by blast

lemma child_parent:
  assumes "fs_behaves w content" "(n, k) \<in> content u d" "normal_path d"
  shows "path_parent (path_join d n) = Some d"
  by (rule path_parent_join [OF assms(3) fs_names [OF assms(1,2)]])

lemma covered_forget:
  fixes previous :: stamps
  assumes fs: "fs_behaves w content"
    and ok: "stamps_ok w content rel R now (map_of m) (\<lambda>p. map_of m p \<noteq> None \<or> p = directory \<or> p \<in> P) files"
  defines "m' \<equiv> forget_ancestors previous directory m"
  shows "stamps_ok w content rel R now (map_of m') (\<lambda>p. map_of m' p \<noteq> None \<or> p \<in> P) files"
  unfolding stamps_ok_def
proof (intro allI impI)
  fix d s
  assume d': "map_of m' d = Some s"
  then have d: "map_of m d = Some s" unfolding m'_def by (rule forget_ancestors_sub)
  note facts = stamps_okD [OF ok d]
  have "certified w content rel now d s (\<lambda>p. map_of m' p \<noteq> None \<or> p \<in> P) files"
    unfolding certified_def
  proof (intro allI impI conjI)
    fix u n
    assume u: "now \<le> u" "dir_at w u d s"
    { assume n: "(n, KindDir) \<in> content u d"
      have parent: "path_parent (path_join d n) = Some d" by (rule child_parent [OF fs n facts(1)])
      have "map_of m (path_join d n) \<noteq> None \<or> path_join d n = directory \<or> path_join d n \<in> P"
        by (rule certifiedD(1) [OF facts(4) u n])
      moreover have "path_join d n \<noteq> directory"
        using forget_ancestors_parent [of directory d previous m] parent d' unfolding m'_def by auto
      moreover have "map_of m (path_join d n) \<noteq> None \<Longrightarrow> map_of m' (path_join d n) \<noteq> None"
        using forget_ancestors_chain [of m "path_join d n" previous directory d] parent d' unfolding m'_def by auto
      ultimately show "map_of m' (path_join d n) \<noteq> None \<or> path_join d n \<in> P" by blast }
    { assume "(n, KindFile) \<in> content u d" "rel (path_join d n)"
      then show "files (path_join d n)" by (rule certifiedD(2) [OF facts(4) u]) }
  qed
  then show "normal_path d \<and> (\<exists>r \<in> R. path_under d r) \<and> (\<exists>t < now. dir_at w t d s)
      \<and> certified w content rel now d s (\<lambda>p. map_of m' p \<noteq> None \<or> p \<in> P) files"
    using facts(1-3) by blast
qed

lemma covered_insert:
  assumes ok: "stamps_ok w content rel R now (map_of m) (\<lambda>p. map_of m p \<noteq> None \<or> p = directory \<or> p \<in> P) files"
    and d: "normal_path directory" "\<exists>r \<in> R. path_under directory r" "dir_at w t directory stamp" "t < now"
    and c: "certified w content rel now directory stamp (\<lambda>p. p \<in> P) files"
  defines "m' \<equiv> AList.update directory stamp m"
  shows "stamps_ok w content rel R now (map_of m') (\<lambda>p. map_of m' p \<noteq> None \<or> p \<in> P) files"
  unfolding stamps_ok_def
proof (intro allI impI)
  fix x s
  assume x: "map_of m' x = Some s"
  show "normal_path x \<and> (\<exists>r \<in> R. path_under x r) \<and> (\<exists>t < now. dir_at w t x s)
      \<and> certified w content rel now x s (\<lambda>p. map_of m' p \<noteq> None \<or> p \<in> P) files"
  proof (cases "x = directory")
    case True
    then have "s = stamp" using x by (simp add: m'_def)
    moreover have "certified w content rel now directory stamp (\<lambda>p. map_of m' p \<noteq> None \<or> p \<in> P) files"
      by (rule certified_mono [OF c]) simp_all
    ultimately show ?thesis using d True by blast
  next
    case False
    then have "map_of m x = Some s" using x by (simp add: m'_def)
    note facts = stamps_okD [OF ok this]
    have "certified w content rel now x s (\<lambda>p. map_of m' p \<noteq> None \<or> p \<in> P) files"
      by (rule certified_mono [OF facts(4)]) (auto simp: m'_def)
    then show ?thesis using facts(1-3) by blast
  qed
qed

text \<open>A popped path that is no directory any more was none of a directory whose stamp still holds.\<close>

lemma covered_drop:
  assumes fs: "fs_behaves w content"
    and ok: "stamps_ok w content rel R now (map_of m) (\<lambda>p. map_of m p \<noteq> None \<or> p = directory \<or> p \<in> P) files"
    and no_dir: "fv_symlink (w now) directory = Some (k, s')" "k \<noteq> KindDir"
  shows "stamps_ok w content rel R (Suc now) (map_of m) (\<lambda>p. map_of m p \<noteq> None \<or> p \<in> P) files"
  unfolding stamps_ok_def
proof (intro allI impI)
  fix d s
  assume d: "map_of m d = Some s"
  note facts = stamps_okD [OF ok d]
  obtain t where t: "t < now" "dir_at w t d s" using facts(3) by blast
  have "certified w content rel (Suc now) d s (\<lambda>p. map_of m p \<noteq> None \<or> p \<in> P) files"
    unfolding certified_def
  proof (intro allI impI conjI)
    fix u n
    assume u: "Suc now \<le> u" "dir_at w u d s"
    then have now: "now \<le> u" by simp
    { assume n: "(n, KindDir) \<in> content u d"
      have "content now d = content u d" using fs_holds [OF fs less_imp_le [OF t(1)] now t(2) u(2)] .
      then have "path_join d n \<noteq> directory" using fs_kinds [OF fs, of n KindDir now d k s'] n no_dir by auto
      then show "map_of m (path_join d n) \<noteq> None \<or> path_join d n \<in> P"
        using certifiedD(1) [OF facts(4) now u(2) n] by blast }
    { assume "(n, KindFile) \<in> content u d" "rel (path_join d n)"
      then show "files (path_join d n)" by (rule certifiedD(2) [OF facts(4) now u(2)]) }
  qed
  moreover have "\<exists>t < Suc now. dir_at w t d s" using t by (intro exI [of _ t]) simp
  ultimately show "normal_path d \<and> (\<exists>r \<in> R. path_under d r) \<and> (\<exists>t < Suc now. dir_at w t d s)
      \<and> certified w content rel (Suc now) d s (\<lambda>p. map_of m p \<noteq> None \<or> p \<in> P) files"
    using facts(1,2) by blast
qed

lemma certified_reuse:
  assumes "fs_behaves w content"
    "stamps_ok w content rel R t0 (map_of previous) (\<lambda>p. map_of previous p \<noteq> None) (\<lambda>p. p \<in> set known)"
    "map_of previous d = Some s" "t0 \<le> now"
  shows "certified w content rel now d s (\<lambda>p. p \<in> set (filter (\<lambda>p. path_parent p = Some d) (map fst previous)))
    (\<lambda>p. p \<in> set (filter (\<lambda>p. path_parent p = Some d) known))"
  unfolding certified_def
proof (intro allI impI conjI)
  note facts = stamps_okD [OF assms(2,3)]
  fix u n
  assume u: "now \<le> u" "dir_at w u d s"
  then have t0: "t0 \<le> u" using assms(4) by simp
  { assume n: "(n, KindDir) \<in> content u d"
    have "map_of previous (path_join d n) \<noteq> None" by (rule certifiedD(1) [OF facts(4) t0 u(2) n])
    then show "path_join d n \<in> set (filter (\<lambda>p. path_parent p = Some d) (map fst previous))"
      using child_parent [OF assms(1) n facts(1)] by (simp add: map_of_eq_None_iff) }
  { assume n: "(n, KindFile) \<in> content u d" "rel (path_join d n)"
    have "path_join d n \<in> set known" by (rule certifiedD(2) [OF facts(4) t0 u(2) n])
    then show "path_join d n \<in> set (filter (\<lambda>p. path_parent p = Some d) known)"
      using child_parent [OF assms(1) n(1) facts(1)] by simp }
qed

lemma certified_read:
  assumes "fs_behaves w content" "fv_read (w r) d = Some es" "whole es" "dir_at w t d s" "t \<le> r" "r < now"
  shows "certified w content rel now d s (\<lambda>p. p \<in> {path_join d n |n. (n, KindDir) \<in> listed es})
    (\<lambda>p. p \<in> {path_join d n |n. (n, KindFile) \<in> listed es})"
  unfolding certified_def
proof (intro allI impI)
  fix u n
  assume u: "now \<le> u" "dir_at w u d s"
  then have "r \<le> u" using assms(6) by simp
  then have "listed es = content u d" using fs_read_holds [OF assms(1,5) _ assms(4) u(2) assms(2,3)] by simp
  then show "((n, KindDir) \<in> content u d \<longrightarrow> path_join d n \<in> {path_join d n |n. (n, KindDir) \<in> listed es})
      \<and> ((n, KindFile) \<in> content u d \<longrightarrow> rel (path_join d n) \<longrightarrow>
          path_join d n \<in> {path_join d n |n. (n, KindFile) \<in> listed es})"
    by blast
qed

section \<open>The walk keeps them\<close>

definition walk_shape :: "stamps \<Rightarrow> str list \<Rightarrow> stamped_walk \<Rightarrow> bool" where
  "walk_shape previous known k =
    (sw_previous k = previous \<and> sw_children k = by_parent (map fst previous) \<and> sw_known k = by_parent known
     \<and> distinct (map fst (sw_next k)))"

lemma forget_ancestors_distinct: "distinct (map fst m) \<Longrightarrow> distinct (map fst (forget_ancestors previous d m))"
  by (induction previous d m rule: forget_ancestors.induct)
    (subst forget_ancestors.simps, auto split: option.splits simp: distinct_delete)

definition pending_ok :: "world \<Rightarrow> str set \<Rightarrow> nat \<Rightarrow> pending \<Rightarrow> bool" where
  "pending_ok w R now pending =
    (\<forall>(p, m) \<in> set pending. normal_path p \<and> (\<exists>r \<in> R. path_under p r)
       \<and> is_none_or (\<lambda>(k, s). k = KindDir \<and> (\<exists>t < now. dir_at w t p s)) m)"

text \<open>What holds between two turns of the loop; \<open>found\<close> holds the files of earlier roots.\<close>

definition loop_inv ::
    "world \<Rightarrow> (nat \<Rightarrow> str \<Rightarrow> (str \<times> file_kind) set) \<Rightarrow> (str \<Rightarrow> bool) \<Rightarrow> str set \<Rightarrow> str set
     \<Rightarrow> nat \<Rightarrow> stamped_walk \<Rightarrow> str list \<Rightarrow> pending \<Rightarrow> bool" where
  "loop_inv w content rel R found now k files pending =
    (pending_ok w R now pending
     \<and> stamps_ok w content rel R now (map_of (sw_next k)) (\<lambda>p. map_of (sw_next k) p \<noteq> None \<or> p \<in> fst ` set pending)
          (\<lambda>p. p \<in> found \<union> set files))"

lemma visit_shape:
  "visit w now directory m k files pending = (now', k', files', pending') \<Longrightarrow>
    (walk_shape previous known k \<longrightarrow> walk_shape previous known k') \<and> sw_roots k' = sw_roots k
    \<and> now \<le> now' \<and> set files \<subseteq> set files' \<and> set pending \<subseteq> set pending'"
  by (auto simp: visit_def walk_shape_def Let_def forget_def reuse_def enumerate_def
      forget_ancestors_distinct distinct_update split: option.splits prod.splits if_splits dest!: read_entries_result)

lemma pending_ok_mono: "pending_ok w R now pending \<Longrightarrow> now \<le> now' \<Longrightarrow> pending_ok w R now' pending"
  unfolding pending_ok_def by (fastforce simp: is_none_or_def split: option.splits intro: less_le_trans)

lemma pending_ok_children:
  assumes "pending_ok w R now pending" "\<And>p. p \<in> C \<Longrightarrow> normal_path p \<and> (\<exists>r \<in> R. path_under p r)"
    "set pending' \<subseteq> set pending \<union> (\<lambda>p. (p, None)) ` C"
  shows "pending_ok w R now pending'"
  using assms unfolding pending_ok_def by fastforce

text \<open>The popped path with the answer to its first call.\<close>

definition looked_up ::
    "world \<Rightarrow> nat \<Rightarrow> str \<Rightarrow> (file_kind \<times> directory_stamp) option \<Rightarrow> (file_kind \<times> directory_stamp) option \<times> nat" where
  "looked_up w now directory m = (case m of Some x \<Rightarrow> (Some x, now) | None \<Rightarrow> (fv_symlink (w now) directory, Suc now))"

lemma visit_cases:
  assumes "visit w now directory m k files pending = (now', k', files', pending')"
  obtains (gone) "looked_up w now directory m = (None, now')" "k' = forget directory k" "files' = files"
      "pending' = pending"
  | (no_dir) kind stamp where "looked_up w now directory m = (Some (kind, stamp), now')" "kind \<noteq> KindDir" "k' = k"
      "files' = files" "pending' = pending"
  | (reused) stamp where "looked_up w now directory m = (Some (KindDir, stamp), now')"
      "map_of (sw_previous k) directory = Some stamp"
      "sw_next k' = AList.update directory stamp (sw_next k)"
      "files' = files @ unwrap_or [] (map_of (sw_known k) directory)"
      "set pending' = (\<lambda>p. (p, None)) ` set (unwrap_or [] (map_of (sw_children k) directory)) \<union> set pending"
      "pending' = rev (map (\<lambda>c. (c, None)) (unwrap_or [] (map_of (sw_children k) directory))) @ pending"
  | (unread) stamp t where "looked_up w now directory m = (Some (KindDir, stamp), t)" "now' = Suc t"
      "fv_read (w t) directory = None" "sw_next k' = sw_next (forget directory k)" "files' = files" "pending' = pending"
  | (read) stamp t es where "looked_up w now directory m = (Some (KindDir, stamp), t)" "now' = Suc t"
      "map_of (sw_previous k) directory \<noteq> Some stamp" "fv_read (w t) directory = Some es"
      "sw_next k' = (if whole es then AList.update directory stamp (sw_next k) else sw_next (forget directory k))"
      "set files' = set files \<union> {path_join directory n |n. (n, KindFile) \<in> listed es}"
      "set pending' = set pending \<union> {(path_join directory n, None) |n. (n, KindDir) \<in> listed es}"
      "\<exists>c f. read_entries directory es (True, files, pending) = (c, f, pending')"
proof -
  obtain found t where l: "looked_up w now directory m = (found, t)" by fastforce
  have v: "(case found of None \<Rightarrow> (t, forget directory k, files, pending)
      | Some (kind, stamp) \<Rightarrow> if kind \<noteq> KindDir then (t, k, files, pending)
          else if map_of (sw_previous k) directory = Some stamp then (t, reuse directory stamp k files pending)
          else (Suc t, enumerate (w t) directory stamp k files pending)) = (now', k', files', pending')"
    using assms l unfolding visit_def looked_up_def Let_def by (cases m) auto
  show thesis
  proof (cases found)
    case None
    then show ?thesis using v l by (intro gone) auto
  next
    case (Some p)
    obtain kind stamp where p: "p = (kind, stamp)" by fastforce
    consider "kind \<noteq> KindDir" | "kind = KindDir" "map_of (sw_previous k) directory = Some stamp"
      | "kind = KindDir" "map_of (sw_previous k) directory \<noteq> Some stamp" by blast
    then show ?thesis
    proof cases
      case 1
      then show ?thesis using v l Some p by (intro no_dir [of kind stamp]) auto
    next
      case 2
      then show ?thesis using v l Some p by (intro reused [of stamp]) (auto simp: reuse_def)
    next
      case 3
      then have e: "Suc t = now'" "enumerate (w t) directory stamp k files pending = (k', files', pending')"
        using v Some p by auto
      show ?thesis
      proof (cases "fv_read (w t) directory")
        case None
        then show ?thesis using e l Some p 3 by (intro unread [of stamp t]) (auto simp: enumerate_def forget_def)
      next
        case (Some es)
        obtain c f q where r: "read_entries directory es (True, files, pending) = (c, f, q)" by (metis prod_cases3)
        note read_entries_result [OF r]
        then show ?thesis using e l \<open>found = Some p\<close> p 3 Some r
          by (intro read [of stamp t es]) (auto simp: enumerate_def forget_def)
      qed
    qed
  qed
qed

lemma looked_up_facts:
  assumes "looked_up w now directory m = (found, t)"
  shows "now \<le> t" "m = None \<Longrightarrow> found = fv_symlink (w now) directory \<and> t = Suc now" "m \<noteq> None \<Longrightarrow> found = m \<and> t = now"
  using assms by (auto simp: looked_up_def split: option.splits)

lemma looked_up_dir:
  assumes "pending_ok w R now ((directory, m) # pending)" "looked_up w now directory m = (Some (KindDir, stamp), t)"
  shows "\<exists>t' < t. dir_at w t' directory stamp"
proof (cases m)
  case None
  then show ?thesis using looked_up_facts(2) [OF assms(2)] by (intro exI [of _ now]) (auto simp: dir_at_def)
next
  case (Some x)
  then show ?thesis using looked_up_facts(3) [OF assms(2)] assms(1) by (auto simp: pending_ok_def)
qed

lemma stamps_ok_normal:
  assumes "stamps_ok w content rel R now (map_of previous) dirs files" "(p, s) \<in> set previous"
  shows "normal_path p"
proof -
  have "p \<in> fst ` set previous" using assms(2) by force
  then obtain s' where "map_of previous p = Some s'" by (metis domD dom_map_of_conv_image_fst)
  then show ?thesis by (rule stamps_okD(1) [OF assms(1)])
qed

lemma visit_inv:
  assumes fs: "fs_behaves w content"
    and prev: "stamps_ok w content rel R t0 (map_of previous) (\<lambda>p. map_of previous p \<noteq> None) (\<lambda>p. p \<in> set known)"
    and shape: "walk_shape previous known k" and t0: "t0 \<le> now"
    and inv: "loop_inv w content rel R found now k files ((directory, m) # pending)"
    and v: "visit w now directory m k files pending = (now', k', files', pending')"
  shows "loop_inv w content rel R found now' k' files' pending'"
proof -
  let ?dirs = "\<lambda>p. map_of (sw_next k) p \<noteq> None \<or> p = directory \<or> p \<in> fst ` set pending"
  have po: "pending_ok w R now ((directory, m) # pending)" and po': "pending_ok w R now pending"
    and dir: "normal_path directory" "\<exists>r \<in> R. path_under directory r"
    using inv by (auto simp: loop_inv_def pending_ok_def)
  have le: "now \<le> now'" "set files \<subseteq> set files'" "set pending \<subseteq> set pending'" using visit_shape [OF v] by blast+
  have "stamps_ok w content rel R now (map_of (sw_next k)) ?dirs (\<lambda>p. p \<in> found \<union> set files)"
    using inv unfolding loop_inv_def by (auto elim: stamps_ok_mono)
  then have ok: "stamps_ok w content rel R now (map_of (sw_next k))
      (\<lambda>p. map_of (sw_next k) p \<noteq> None \<or> p = directory \<or> p \<in> fst ` set pending') (\<lambda>p. p \<in> found \<union> set files')"
    by (rule stamps_ok_mono [OF _ order.refl]) (use le(2,3) in auto)
  have ok': "stamps_ok w content rel R now' (map_of (sw_next k))
      (\<lambda>p. map_of (sw_next k) p \<noteq> None \<or> p = directory \<or> p \<in> fst ` set pending') (\<lambda>p. p \<in> found \<union> set files')"
    by (rule stamps_ok_mono [OF ok le(1)])
  let ?goal = "\<lambda>nxt. stamps_ok w content rel R now' (map_of nxt) (\<lambda>p. map_of nxt p \<noteq> None \<or> p \<in> fst ` set pending')
      (\<lambda>p. p \<in> found \<union> set files')"
  have forgotten: "?goal (sw_next (forget directory k))"
    using covered_forget [OF fs ok'] by (simp add: forget_def)
  have "pending_ok w R now' pending' \<and> ?goal (sw_next k')"
    using v
  proof (cases rule: visit_cases)
    case gone
    then show ?thesis using forgotten pending_ok_mono [OF po' le(1)] by simp
  next
    case (no_dir kind stamp)
    have "m = None"
      using no_dir(1,2) po looked_up_facts(3) [OF no_dir(1)] by (cases m) (auto simp: pending_ok_def)
    then have l: "fv_symlink (w now) directory = Some (kind, stamp)" "now' = Suc now"
      using looked_up_facts(2) [OF no_dir(1)] by simp_all
    show ?thesis using covered_drop [OF fs ok l(1) no_dir(2)] l(2) no_dir(3,5) pending_ok_mono [OF po' le(1)] by simp
  next
    case (reused stamp)
    obtain t' where t': "t' < now'" "dir_at w t' directory stamp" using looked_up_dir [OF po reused(1)] by blast
    have s: "map_of previous directory = Some stamp"
      and kids: "unwrap_or [] (map_of (sw_children k) directory) = filter (\<lambda>p. path_parent p = Some directory) (map fst previous)"
      and old: "unwrap_or [] (map_of (sw_known k) directory) = filter (\<lambda>p. path_parent p = Some directory) known"
      using reused(2) shape by (simp_all add: walk_shape_def by_parent_eq)
    have heads: "fst ` set pending' = set (filter (\<lambda>p. path_parent p = Some directory) (map fst previous)) \<union> fst ` set pending"
      unfolding reused(5) kids image_Un image_image by simp
    have "certified w content rel now' directory stamp (\<lambda>p. p \<in> fst ` set pending') (\<lambda>p. p \<in> found \<union> set files')"
      by (rule certified_mono [OF certified_reuse [OF fs prev s order.trans [OF t0 le(1)]]])
        (unfold heads reused(4) old, simp_all)
    then have "?goal (AList.update directory stamp (sw_next k))"
      by (rule covered_insert [OF ok' dir t'(2,1)])
    moreover have "pending_ok w R now pending'"
      by (rule pending_ok_children [OF po', of "set (filter (\<lambda>p. path_parent p = Some directory) (map fst previous))"])
        (use stamps_ok_normal [OF prev] dir(2) in \<open>auto simp: reused(5) kids dest: path_under_child\<close>)
    ultimately show ?thesis using pending_ok_mono [OF _ le(1)] reused(3) by simp
  next
    case (unread stamp t)
    then show ?thesis using forgotten pending_ok_mono [OF po' le(1)] by simp
  next
    case (read stamp t es)
    obtain t' where t': "t' < t" "dir_at w t' directory stamp" using looked_up_dir [OF po read(1)] by blast
    have "pending_ok w R now pending'"
      by (rule pending_ok_children [OF po', of "{path_join directory n |n. (n, KindDir) \<in> listed es}"])
        (use dir(2) fs_read_names [OF fs read(4)] in \<open>auto simp: read(7) intro!: normal_path_join dest: path_under_join\<close>)
    then have p: "pending_ok w R now' pending'" by (rule pending_ok_mono [OF _ le(1)])
    show ?thesis
    proof (cases "whole es")
      case True
      have heads: "path_join directory n \<in> fst ` set pending'" if "(n, KindDir) \<in> listed es" for n
        using that unfolding read(7) by force
      have "certified w content rel now' directory stamp (\<lambda>p. p \<in> fst ` set pending') (\<lambda>p. p \<in> found \<union> set files')"
        by (rule certified_mono [OF certified_read [OF fs read(4) True t'(2), of now']])
          (use t'(1) in \<open>auto simp: read(2,6) heads\<close>)
      then have "?goal (AList.update directory stamp (sw_next k))"
        using t' read(2) by (intro covered_insert [OF ok' dir, of t']) auto
      then show ?thesis using p read(5) True by simp
    next
      case False
      then show ?thesis using p forgotten read(5) by simp
    qed
  qed
  then show ?thesis unfolding loop_inv_def by blast
qed

lemma walk_loop_inv:
  assumes fs: "fs_behaves w content"
    and prev: "stamps_ok w content rel R t0 (map_of previous) (\<lambda>p. map_of previous p \<noteq> None) (\<lambda>p. p \<in> set known)"
  shows "walk_loop w fuel now k files pending = Some (now', k', files') \<Longrightarrow> walk_shape previous known k \<Longrightarrow>
    t0 \<le> now \<Longrightarrow> loop_inv w content rel R found now k files pending \<Longrightarrow>
    loop_inv w content rel R found now' k' files' [] \<and> walk_shape previous known k' \<and> now \<le> now'
    \<and> sw_roots k' = sw_roots k"
proof (induction fuel arbitrary: now k files pending)
  case 0
  then show ?case by (cases pending) auto
next
  case (Suc fuel)
  show ?case
  proof (cases pending)
    case Nil
    then show ?thesis using Suc.prems by auto
  next
    case (Cons p rest)
    obtain directory m where p: "p = (directory, m)" by fastforce
    obtain t k1 files1 pending1 where v: "visit w now directory m k files rest = (t, k1, files1, pending1)"
      by (metis prod_cases4)
    note shape = visit_shape [OF v, of previous known]
    have "loop_inv w content rel R found t k1 files1 pending1"
      using visit_inv [OF fs prev Suc.prems(2,3) _ v] Suc.prems(4) unfolding Cons p by blast
    moreover have "walk_loop w fuel t k1 files1 pending1 = Some (now', k', files')"
      using Suc.prems(1) v by (simp add: Cons p)
    ultimately show ?thesis using Suc.IH [of t k1 files1 pending1] Suc.prems(2,3) shape by auto
  qed
qed

text \<open>Between two roots.\<close>

definition walk_inv ::
    "world \<Rightarrow> (nat \<Rightarrow> str \<Rightarrow> (str \<times> file_kind) set) \<Rightarrow> (str \<Rightarrow> bool) \<Rightarrow> str set \<Rightarrow> str set
     \<Rightarrow> nat \<Rightarrow> stamped_walk \<Rightarrow> bool" where
  "walk_inv w content rel R found now k =
    (stamps_ok w content rel R now (map_of (sw_next k)) (\<lambda>p. map_of (sw_next k) p \<noteq> None) (\<lambda>p. p \<in> found)
     \<and> set (sw_roots k) \<subseteq> R)"

lemma walk_inv_mono:
  "walk_inv w content rel R found now k \<Longrightarrow> now \<le> now' \<Longrightarrow> found \<subseteq> found' \<Longrightarrow> walk_inv w content rel R found' now' k"
  unfolding walk_inv_def by (auto elim!: stamps_ok_mono)

lemma walk_shape_new: "walk_shape previous known (walk_new previous known)"
  by (simp add: walk_shape_def walk_new_def)

lemma walk_inv_new: "walk_inv w content rel R {} now (walk_new previous known)"
  by (simp add: walk_inv_def walk_new_def stamps_ok_def)

lemma walk_files_inv:
  assumes "fs_behaves w content"
    "stamps_ok w content rel R t0 (map_of previous) (\<lambda>p. map_of previous p \<noteq> None) (\<lambda>p. p \<in> set known)"
    "walk_files w fuel root now k = Some (now', k', files)" "walk_shape previous known k" "t0 \<le> now"
    "walk_inv w content rel R found now k" "root \<in> R" "normal_path root"
  shows "walk_inv w content rel R (found \<union> set files) now' k' \<and> walk_shape previous known k' \<and> now < now'"
proof (cases "\<exists>stamp. fv_metadata (w now) root = Some (KindDir, stamp)")
  case True
  then obtain stamp where m: "fv_metadata (w now) root = Some (KindDir, stamp)" ..
  let ?k = "k\<lparr>sw_roots := sw_roots k @ [root]\<rparr>" and ?pending = "[(root, Some (KindDir, stamp))]"
  have l: "walk_loop w fuel (Suc now) ?k [] ?pending = Some (now', k', files)"
    using assms(3) m by (simp add: walk_files_def)
  have "stamps_ok w content rel R now (map_of (sw_next k)) (\<lambda>p. map_of (sw_next k) p \<noteq> None) (\<lambda>p. p \<in> found)"
    using assms(6) by (simp add: walk_inv_def)
  then have "stamps_ok w content rel R (Suc now) (map_of (sw_next k))
      (\<lambda>p. map_of (sw_next k) p \<noteq> None \<or> p \<in> fst ` set ?pending) (\<lambda>p. p \<in> found \<union> set [])"
    by (rule stamps_ok_mono) simp_all
  moreover have "pending_ok w R (Suc now) ?pending"
    using m assms(7,8) by (auto simp: pending_ok_def dir_at_def intro!: exI [of _ now] bexI [of _ root])
  ultimately have inv: "loop_inv w content rel R found (Suc now) ?k [] ?pending" by (simp add: loop_inv_def)
  have shape: "walk_shape previous known ?k" using assms(4) by (simp add: walk_shape_def)
  have r: "loop_inv w content rel R found now' k' files []" "walk_shape previous known k'" "Suc now \<le> now'"
    "sw_roots k' = sw_roots ?k"
    using walk_loop_inv [OF assms(1,2) l shape le_SucI [OF assms(5)] inv] by blast+
  then show ?thesis using assms(6,7) by (auto simp: walk_inv_def loop_inv_def)
next
  case False
  then have "now' = Suc now \<and> k' = k"
    using assms(3) by (auto simp: walk_files_def split: option.splits prod.splits file_kind.splits)
  then show ?thesis using assms(4) walk_inv_mono [OF assms(6), of now' "found \<union> set files"] by simp
qed

definition found_files :: "(str \<times> str list) list \<Rightarrow> str set" where
  "found_files results = (\<Union>(root, files) \<in> set results. set files)"

lemma found_files_simps [simp]: "found_files [] = {}" "found_files ((r, fs) # results) = set fs \<union> found_files results"
  by (auto simp: found_files_def)

lemma walk_all_inv:
  assumes fs: "fs_behaves w content"
    and prev: "stamps_ok w content rel R t0 (map_of previous) (\<lambda>p. map_of previous p \<noteq> None) (\<lambda>p. p \<in> set known)"
    and R: "\<forall>r \<in> R. normal_path r"
  shows "walk_all w fuel roots now k = Some (now', k', results) \<Longrightarrow> walk_shape previous known k \<Longrightarrow> t0 \<le> now \<Longrightarrow>
    walk_inv w content rel R found now k \<Longrightarrow> snd ` set roots \<subseteq> R \<Longrightarrow>
    walk_inv w content rel R (found \<union> found_files results) now' k' \<and> walk_shape previous known k' \<and> now \<le> now'"
proof (induction roots arbitrary: now k found results)
  case (Cons r rest)
  obtain pause root where r: "r = (pause, root)" by fastforce
  obtain t k1 files rest_results where f: "walk_files w fuel root (now + pause) k = Some (t, k1, files)"
    and rest: "walk_all w fuel rest t k1 = Some (now', k', rest_results)" "results = (root, files) # rest_results"
    using Cons.prems(1) r by (auto split: option.splits prod.splits)
  have inv: "walk_inv w content rel R found (now + pause) k" by (rule walk_inv_mono [OF Cons.prems(4)]) simp_all
  have root: "root \<in> R" "normal_path root" using Cons.prems(5) R r by auto
  have step: "walk_inv w content rel R (found \<union> set files) t k1" "walk_shape previous known k1" "now + pause < t"
    using walk_files_inv [OF fs prev f Cons.prems(2) _ inv root] Cons.prems(3) by auto
  have "walk_inv w content rel R ((found \<union> set files) \<union> found_files rest_results) now' k'
      \<and> walk_shape previous known k' \<and> t \<le> now'"
    using Cons.IH [OF rest(1) step(2) _ step(1)] Cons.prems(3,5) step(3) by simp
  then show ?case using step(3) rest(2) by (simp add: Un_assoc)
qed simp

section \<open>The walk ends\<close>

text \<open>Every directory that ever shows up lies in \<open>V\<close>, and no listing names a directory twice.\<close>

definition subdirs :: "(str \<times> file_kind option) option list \<Rightarrow> str list" where
  "subdirs es = concat (map (\<lambda>e. case e of Some (n, Some KindDir) \<Rightarrow> [n] | _ \<Rightarrow> []) es)"

definition finite_tree :: "world \<Rightarrow> str set \<Rightarrow> bool" where
  "finite_tree w V =
    (finite V \<and> (\<forall>p \<in> V. normal_path p)
     \<and> (\<forall>t. \<forall>d \<in> V. \<forall>es. fv_read (w t) d = Some es \<longrightarrow>
          distinct (subdirs es) \<and> (\<forall>n \<in> set (subdirs es). name_ok n \<and> path_join d n \<in> V)))"

definition child_of :: "(str \<times> str) set" where
  "child_of = {(c, d). path_parent c = Some d}"

definition subtree :: "str set \<Rightarrow> str \<Rightarrow> str set" where
  "subtree V p = {q \<in> V. (q, p) \<in> child_of\<^sup>*}"

lemma child_of_star_length: "(q, p) \<in> child_of\<^sup>* \<Longrightarrow> length p \<le> length q"
  by (induction rule: rtrancl_induct) (auto simp: child_of_def dest: path_parent_shorter)

lemma child_of_linear:
  assumes "(q, a) \<in> child_of\<^sup>*" "(q, b) \<in> child_of\<^sup>*"
  shows "(a, b) \<in> child_of\<^sup>* \<or> (b, a) \<in> child_of\<^sup>*"
proof (rule single_valued_confluent [OF _ assms])
  show "single_valued child_of" by (auto simp: single_valued_def child_of_def)
qed

lemma siblings_apart:
  assumes "path_parent a = Some d" "path_parent b = Some d" "a \<noteq> b"
  shows "subtree V a \<inter> subtree V b = {}"
proof -
  have no: "(x, y) \<notin> child_of\<^sup>*" if xy: "path_parent x = Some d" "path_parent y = Some d" "x \<noteq> y" for x y
  proof
    assume "(x, y) \<in> child_of\<^sup>*"
    then obtain z where "(x, z) \<in> child_of" "(z, y) \<in> child_of\<^sup>*" using xy(3) by (meson converse_rtranclE)
    then have "(d, y) \<in> child_of\<^sup>*" using xy(1) by (simp add: child_of_def)
    then show False using child_of_star_length path_parent_shorter [OF xy(2)] by fastforce
  qed
  show ?thesis using child_of_linear no assms unfolding subtree_def by blast
qed

lemma children_weigh_less:
  assumes "finite V" "d \<in> V" "distinct cs" "\<And>c. c \<in> set cs \<Longrightarrow> path_parent c = Some d"
  shows "sum_list (map (\<lambda>c. card (subtree V c)) cs) < card (subtree V d)"
proof -
  have fin: "finite (subtree V p)" for p using assms(1) by (simp add: subtree_def)
  have "sum_list (map (\<lambda>c. card (subtree V c)) cs) = (\<Sum>c \<in> set cs. card (subtree V c))"
    using assms(3) by (rule sum_list_distinct_conv_sum_set)
  also have "\<dots> = card (\<Union>c \<in> set cs. subtree V c)"
    using fin siblings_apart assms(4) by (subst card_UN_disjoint) auto
  also have "\<dots> \<le> card (subtree V d - {d})"
  proof (rule card_mono)
    show "(\<Union>c \<in> set cs. subtree V c) \<subseteq> subtree V d - {d}"
    proof
      fix q assume "q \<in> (\<Union>c \<in> set cs. subtree V c)"
      then obtain c where c: "c \<in> set cs" "q \<in> V" "(q, c) \<in> child_of\<^sup>*" by (auto simp: subtree_def)
      then have "(q, d) \<in> child_of\<^sup>*" using assms(4) by (auto simp: child_of_def intro: rtrancl_into_rtrancl)
      moreover have "length d < length q"
        using child_of_star_length [OF c(3)] path_parent_shorter [OF assms(4) [OF c(1)]] by simp
      ultimately show "q \<in> subtree V d - {d}" using c(2) by (auto simp: subtree_def)
    qed
  qed (simp add: fin)
  also have "\<dots> < card (subtree V d)"
    using assms(2) by (intro psubset_card_mono [OF fin]) (auto simp: subtree_def)
  finally show ?thesis .
qed

lemma read_entries_pending:
  "read_entries d es (c, files, pending) = (c', files', pending') \<Longrightarrow>
    pending' = rev (map (\<lambda>n. (path_join d n, None)) (subdirs es)) @ pending"
  by (induction d es "(c, files, pending)" arbitrary: c files pending rule: read_entries.induct)
    (auto simp: subdirs_def split: file_kind.splits)

definition weight :: "str set \<Rightarrow> pending \<Rightarrow> nat" where
  "weight V pending = sum_list (map (\<lambda>(p, m). card (subtree V p)) pending)"

lemma visit_lighter:
  assumes w: "finite_tree w V" and prev: "distinct (map fst previous)" "fst ` set previous \<subseteq> V"
    and shape: "walk_shape previous known k" and V: "directory \<in> V" "fst ` set pending \<subseteq> V"
    and v: "visit w now directory m k files pending = (now', k', files', pending')"
  shows "weight V pending' < weight V ((directory, m) # pending) \<and> fst ` set pending' \<subseteq> V"
proof -
  have fin: "finite V" using w by (simp add: finite_tree_def)
  have pos: "weight V pending < weight V ((directory, m) # pending)"
    using V(1) fin by (auto simp: weight_def card_gt_0_iff subtree_def)
  have lighter: "weight V (rev (map (\<lambda>c. (c, None)) cs) @ pending) < weight V ((directory, m) # pending)
      \<and> fst ` set (rev (map (\<lambda>c. (c, None :: (file_kind \<times> directory_stamp) option)) cs) @ pending) \<subseteq> V"
    if cs: "distinct cs" "\<And>c. c \<in> set cs \<Longrightarrow> path_parent c = Some directory" "set cs \<subseteq> V" for cs
  proof
    show "weight V (rev (map (\<lambda>c. (c, None)) cs) @ pending) < weight V ((directory, m) # pending)"
      using children_weigh_less [OF fin V(1) cs(1,2)]
      by (simp add: weight_def rev_map [symmetric] comp_def split_def sum_list_rev)
    show "fst ` set (rev (map (\<lambda>c. (c, None :: (file_kind \<times> directory_stamp) option)) cs) @ pending) \<subseteq> V"
      using cs(3) V(2) by (simp add: image_Un image_image)
  qed
  show ?thesis
    using v
  proof (cases rule: visit_cases)
    case (reused s)
    define cs where "cs = filter (\<lambda>p. path_parent p = Some directory) (map fst previous)"
    have p: "pending' = rev (map (\<lambda>c. (c, None)) cs) @ pending"
      using reused(6) shape by (simp add: walk_shape_def by_parent_eq cs_def)
    have "distinct cs" "\<And>c. c \<in> set cs \<Longrightarrow> path_parent c = Some directory"
      unfolding cs_def using prev(1) by simp_all
    moreover have "set cs \<subseteq> V"
      unfolding cs_def by (rule order.trans [OF filter_is_subset]) (use prev(2) in simp)
    ultimately show ?thesis unfolding p by (rule lighter)
  next
    case (read s t es)
    let ?cs = "map (path_join directory) (subdirs es)"
    have p: "pending' = rev (map (\<lambda>c. (c, None)) ?cs) @ pending"
      using read(8) by (auto simp: comp_def dest: read_entries_pending)
    have e: "distinct (subdirs es)" "\<And>n. n \<in> set (subdirs es) \<Longrightarrow> name_ok n \<and> path_join directory n \<in> V" "normal_path directory"
      using w V(1) read(4) unfolding finite_tree_def by blast+
    have "distinct ?cs" using e(1) by (auto simp: distinct_map inj_on_def path_join_def)
    moreover have "\<And>c. c \<in> set ?cs \<Longrightarrow> path_parent c = Some directory" using e(2,3) path_parent_join by auto
    moreover have "set ?cs \<subseteq> V" using e(2) by auto
    ultimately show ?thesis using lighter [of ?cs] unfolding p by simp
  qed (use pos V in auto)
qed

lemma walk_loop_returns:
  assumes w: "finite_tree w V" and prev: "distinct (map fst previous)" "fst ` set previous \<subseteq> V"
  shows "walk_shape previous known k \<Longrightarrow> fst ` set pending \<subseteq> V \<Longrightarrow> weight V pending \<le> fuel \<Longrightarrow>
    \<exists>now' k' files'. walk_loop w fuel now k files pending = Some (now', k', files') \<and> walk_shape previous known k'"
proof (induction fuel arbitrary: now k files pending)
  case 0
  have "pending = []"
  proof (cases pending)
    case (Cons p rest)
    have "fst p \<in> V" "finite V" using 0(2) Cons w by (auto simp: finite_tree_def)
    then show ?thesis using 0(3) Cons by (auto simp: weight_def subtree_def split_def)
  qed
  then show ?case using 0 by auto
next
  case (Suc fuel)
  show ?case
  proof (cases pending)
    case (Cons p rest)
    obtain directory m where p: "p = (directory, m)" by fastforce
    obtain t k1 files1 pending1 where v: "visit w now directory m k files rest = (t, k1, files1, pending1)"
      by (metis prod_cases4)
    have "weight V pending1 < weight V ((directory, m) # rest) \<and> fst ` set pending1 \<subseteq> V"
      by (rule visit_lighter [OF w prev Suc.prems(1) _ _ v]) (use Suc.prems(2) Cons p in auto)
    then show ?thesis
      using Suc.IH [of k1 pending1 t files1] visit_shape [OF v, of previous known] Suc.prems(1,3) v Cons p by auto
  qed (use Suc.prems in auto)
qed

lemma walk_files_returns:
  assumes w: "finite_tree w V" and prev: "distinct (map fst previous)" "fst ` set previous \<subseteq> V"
    and shape: "walk_shape previous known k" and root: "root \<in> V"
  shows "\<exists>now' k' files. walk_files w (card V) root now k = Some (now', k', files) \<and> walk_shape previous known k'"
proof (cases "\<exists>s. fv_metadata (w now) root = Some (KindDir, s)")
  case True
  then obtain s where m: "fv_metadata (w now) root = Some (KindDir, s)" ..
  have "weight V [(root, Some (KindDir, s))] \<le> card V"
    using w by (simp add: weight_def finite_tree_def subtree_def card_mono)
  then show ?thesis
    using walk_loop_returns [OF w prev, of known "k\<lparr>sw_roots := sw_roots k @ [root]\<rparr>" "[(root, Some (KindDir, s))]"] shape root m
    by (simp add: walk_files_def walk_shape_def)
next
  case False
  then show ?thesis using shape by (auto simp: walk_files_def split: option.splits prod.splits file_kind.splits)
qed

text \<open>
  C35: A walk ends: when finitely many directories ever show up, a walk of any roots, over any persisted
  stamps and at any pace of changes, makes at most one turn per directory and root, and returns.
\<close>

theorem walk_returns:
  assumes "finite_tree w V" "distinct (map fst previous)" "fst ` set previous \<subseteq> V" "snd ` set roots \<subseteq> V"
  shows "\<exists>r. walk_all w (card V) roots now (walk_new previous known) = Some r"
proof -
  have "\<exists>r. walk_all w (card V) roots now k = Some r" if "walk_shape previous known k" for k
    using that assms(4)
  proof (induction roots arbitrary: now k)
    case (Cons r rest)
    obtain pause root where r: "r = (pause, root)" by fastforce
    have "root \<in> V" using Cons.prems(2) r by simp
    then obtain t k1 files where f: "walk_files w (card V) root (now + pause) k = Some (t, k1, files)" "walk_shape previous known k1"
      using walk_files_returns [OF assms(1-3) Cons.prems(1)] by blast
    then obtain x where "walk_all w (card V) rest t k1 = Some x" using Cons.IH [of k1 t] Cons.prems(2) by auto
    then show ?case using f(1) r by (cases x) auto
  qed simp
  then show ?thesis using walk_shape_new by blast
qed

end
