(* ===== verification/DirectoryRefresh.thy ===== *)
theory DirectoryRefresh
  imports DirectoryWalk
begin

text \<open>
  Histories of refreshes over the persisted stamps: the certificates hold between refreshes, so no file
  stays hidden behind a stamp; and the one kind of refresh, a rebuild, that can break them.
\<close>

section \<open>Refreshes\<close>

definition fp_stamps :: "str \<Rightarrow> 't ckpt_tables \<Rightarrow> stamps" where
  "fp_stamps fingerprint t = load_directory_stamps (Sqlite 0 t) fingerprint"

text \<open>
  The discovery reports what it found; until the refresh is committed at \<open>T2\<close> a tracked or found file
  is dropped from the table only after it was seen missing.
\<close>

definition keeps_tracked ::
    "(nat \<Rightarrow> str \<Rightarrow> (str \<times> file_kind) set) \<Rightarrow> (str \<Rightarrow> bool) \<Rightarrow> nat \<Rightarrow> nat \<Rightarrow> str set \<Rightarrow> 't ckpt_tables \<Rightarrow> bool" where
  "keeps_tracked content rel T1 T2 found t' =
    (\<forall>d n. normal_path d \<longrightarrow> name_ok n \<longrightarrow> path_join d n \<in> found \<longrightarrow> rel (path_join d n) \<longrightarrow>
       path_join d n \<in> fst ` set (ct_files t') \<or> (\<exists>u. T1 \<le> u \<and> u < T2 \<and> (n, KindFile) \<notin> content u d))"

text \<open>
  The refreshes of one set of roots and filters, the fingerprint: full ones, rebuilds of an empty index
  that reach every stamped directory again, refreshes that do not walk, and those of another fingerprint.
\<close>

inductive discovery_run ::
    "world \<Rightarrow> (nat \<Rightarrow> str \<Rightarrow> (str \<times> file_kind) set) \<Rightarrow> (str \<Rightarrow> bool) \<Rightarrow> str set \<Rightarrow> str \<Rightarrow> nat \<Rightarrow> 't ckpt_tables \<Rightarrow> bool"
  for w content rel R fingerprint where
  unstamped: "fp_stamps fingerprint t = [] \<Longrightarrow> distinct (map fst (ct_directories t)) \<Longrightarrow>
    discovery_run w content rel R fingerprint T t"
| walked: "discovery_run w content rel R fingerprint T t \<Longrightarrow>
    distinct (map fst previous) \<Longrightarrow> set previous = set (fp_stamps fingerprint t) \<Longrightarrow>
    set known \<subseteq> fst ` set (ct_files t) \<Longrightarrow> (\<And>p. p \<in> fst ` set (ct_files t) \<Longrightarrow> rel p \<Longrightarrow> p \<in> set known) \<Longrightarrow>
    snd ` set roots \<subseteq> R \<Longrightarrow> walk_all w fuel roots T (walk_new previous known) = Some (T1, k, results) \<Longrightarrow> T1 \<le> T2 \<Longrightarrow>
    ct_directories t' = write_directories (walk_finish fingerprint k) (ct_directories t) \<Longrightarrow>
    keeps_tracked content rel T1 T2 (fst ` set (ct_files t) \<union> found_files results) t' \<Longrightarrow>
    discovery_run w content rel R fingerprint T2 t'"
| rebuilt: "discovery_run w content rel R fingerprint T t \<Longrightarrow>
    snd ` set roots \<subseteq> R \<Longrightarrow> walk_all w fuel roots T (walk_new [] []) = Some (T1, k, results) \<Longrightarrow> T1 \<le> T2 \<Longrightarrow>
    fst ` set (fp_stamps fingerprint t) \<subseteq> fst ` set (sw_next k) \<Longrightarrow>
    ct_directories t' = write_directories (walk_finish fingerprint k) (ct_directories t) \<Longrightarrow>
    keeps_tracked content rel T1 T2 (found_files results) t' \<Longrightarrow>
    discovery_run w content rel R fingerprint T2 t'"
| narrowed: "discovery_run w content rel R fingerprint T t \<Longrightarrow> T \<le> T2 \<Longrightarrow>
    ct_directories t' = ct_directories t \<Longrightarrow>
    keeps_tracked content rel T T2 (fst ` set (ct_files t)) t' \<Longrightarrow>
    discovery_run w content rel R fingerprint T2 t'"
| foreign: "discovery_run w content rel R fingerprint T t \<Longrightarrow> T \<le> T2 \<Longrightarrow> du_fingerprint u \<noteq> fingerprint \<Longrightarrow>
    ct_directories t' = write_directories u (ct_directories t) \<Longrightarrow>
    discovery_run w content rel R fingerprint T2 t'"

lemma map_of_filter_rows:
  "distinct (map fst rows) \<Longrightarrow> map_of (filter (\<lambda>(p, x). Q p x) rows) d =
    (case map_of rows d of None \<Rightarrow> None | Some x \<Rightarrow> if Q d x then Some x else None)"
  by (induction rows) (auto split: option.splits simp: map_of_eq_None_iff image_iff)

lemma map_of_fp_stamps:
  assumes "distinct (map fst (ct_directories t))"
  shows "map_of (fp_stamps fingerprint t) d =
    (case map_of (ct_directories t) d of None \<Rightarrow> None | Some (fp, s) \<Rightarrow> if fp = fingerprint then Some s else None)"
proof -
  have "map_of (map (\<lambda>(path, fp, s). (path, s)) rows) d = map_option snd (map_of rows d)" for rows :: "(str \<times> str \<times> directory_stamp) list"
    by (induction rows) auto
  then show ?thesis
    using map_of_filter_rows [OF assms, of "\<lambda>p (fp, s). fp = fingerprint" d]
    by (auto simp: fp_stamps_def load_directory_stamps_def split: option.splits)
qed

lemma write_directories_rows:
  assumes "distinct (map fst rows)" "distinct (map fst (du_upserts u))"
  shows "distinct (map fst (write_directories u rows))"
    "map_of (write_directories u rows) d =
      (case map_of (du_upserts u) d of
         Some s \<Rightarrow> Some (du_fingerprint u, s)
       | None \<Rightarrow> (case map_of rows d of
           None \<Rightarrow> None
         | Some (fp, s) \<Rightarrow> if fp = du_fingerprint u \<and> d \<notin> set (du_deletes u) then Some (fp, s) else None))"
proof -
  let ?kept = "filter (\<lambda>(path, fp, _). fp = du_fingerprint u \<and> path \<notin> set (du_deletes u)) rows"
  have kept: "distinct (map fst ?kept)" by (rule distinct_map_filter [OF assms(1)])
  have upd: "distinct (map fst (fold (\<lambda>(path, stamp). AList.update path (f, stamp)) ups base))
      \<and> map_of (fold (\<lambda>(path, stamp). AList.update path (f, stamp)) ups base) d =
        (case map_of ups d of Some s \<Rightarrow> Some (f, s) | None \<Rightarrow> map_of base d)"
    if "distinct (map fst base)" "distinct (map fst ups)" for f ups base
    using that
    by (induction ups arbitrary: base) (auto split: option.splits simp: distinct_update map_of_eq_None_iff image_iff, force+)
  show "distinct (map fst (write_directories u rows))"
    using upd [OF kept assms(2)] unfolding write_directories_def by blast
  show "map_of (write_directories u rows) d =
      (case map_of (du_upserts u) d of
         Some s \<Rightarrow> Some (du_fingerprint u, s)
       | None \<Rightarrow> (case map_of rows d of
           None \<Rightarrow> None
         | Some (fp, s) \<Rightarrow> if fp = du_fingerprint u \<and> d \<notin> set (du_deletes u) then Some (fp, s) else None))"
    using upd [OF kept assms(2), of "du_fingerprint u"]
      map_of_filter_rows [OF assms(1), of "\<lambda>p (fp, s). fp = du_fingerprint u \<and> p \<notin> set (du_deletes u)" d]
    unfolding write_directories_def by (auto split: option.splits)
qed

lemma map_of_same:
  assumes "distinct (map fst xs)" "distinct (map fst ys)" "set xs = set ys"
  shows "map_of xs = map_of ys"
proof
  fix d
  have "map_of xs d = Some s \<longleftrightarrow> map_of ys d = Some s" for s
    unfolding map_of_eq_Some_iff [OF assms(1)] map_of_eq_Some_iff [OF assms(2)] assms(3) ..
  then show "map_of xs d = map_of ys d" by (metis not_None_eq)
qed

text \<open>The stamps that a finished walk leaves in the table.\<close>

lemma finished_stamps:
  assumes rows: "distinct (map fst (ct_directories t))" and nxt: "distinct (map fst (sw_next k))"
    and t': "ct_directories t' = write_directories (walk_finish fingerprint k) (ct_directories t)"
  shows "map_of (fp_stamps fingerprint t') d =
    (case map_of (sw_next k) d of
       Some s \<Rightarrow> if map_of (sw_previous k) d = Some s then map_of (fp_stamps fingerprint t) d else Some s
     | None \<Rightarrow> if map_of (sw_previous k) d \<noteq> None \<and> under_roots k d then None else map_of (fp_stamps fingerprint t) d)"
    and "distinct (map fst (ct_directories t'))"
proof -
  let ?u = "walk_finish fingerprint k"
  let ?fresh = "filter (\<lambda>(d, stamp). map_of (sw_previous k) d \<noteq> Some stamp) (sw_next k)"
  have fresh: "distinct (map fst ?fresh)" by (rule distinct_map_filter [OF nxt])
  have ups: "distinct (map fst (du_upserts ?u))"
    using fresh by (auto simp: walk_finish_def distinct_map inj_on_def)
  have fp: "du_fingerprint ?u = fingerprint" by (simp add: walk_finish_def)
  have dels: "d \<in> set (du_deletes ?u) \<longleftrightarrow> map_of (sw_previous k) d \<noteq> None \<and> under_roots k d \<and> map_of (sw_next k) d = None"
    by (auto simp: walk_finish_def map_of_eq_None_iff)
  have "map_of (du_upserts ?u) = map_of ?fresh" by (rule map_of_same [OF ups fresh]) (simp add: walk_finish_def)
  then have up: "map_of (du_upserts ?u) d =
      (case map_of (sw_next k) d of None \<Rightarrow> None | Some s \<Rightarrow> if map_of (sw_previous k) d \<noteq> Some s then Some s else None)"
    using map_of_filter_rows [OF nxt, of "\<lambda>d stamp. map_of (sw_previous k) d \<noteq> Some stamp" d] by simp
  show dist: "distinct (map fst (ct_directories t'))"
    unfolding t' by (rule write_directories_rows(1) [OF rows ups])
  have row: "map_of (ct_directories t') d =
      (case map_of (du_upserts ?u) d of
         Some s \<Rightarrow> Some (fingerprint, s)
       | None \<Rightarrow> (case map_of (ct_directories t) d of
           None \<Rightarrow> None
         | Some (fp, s) \<Rightarrow> if fp = fingerprint \<and> d \<notin> set (du_deletes ?u) then Some (fp, s) else None))"
    unfolding t' using write_directories_rows(2) [OF rows ups, of d] unfolding fp .
  show "map_of (fp_stamps fingerprint t') d =
    (case map_of (sw_next k) d of
       Some s \<Rightarrow> if map_of (sw_previous k) d = Some s then map_of (fp_stamps fingerprint t) d else Some s
     | None \<Rightarrow> if map_of (sw_previous k) d \<noteq> None \<and> under_roots k d then None else map_of (fp_stamps fingerprint t) d)"
    unfolding map_of_fp_stamps [OF dist] map_of_fp_stamps [OF rows] row up
    by (auto simp: dels split: option.splits)
qed

lemma foreign_stamps:
  assumes "distinct (map fst (ct_directories t))" "du_fingerprint u \<noteq> fingerprint"
    "ct_directories t' = write_directories u (ct_directories t)"
  shows "fp_stamps fingerprint t' = [] \<and> distinct (map fst (ct_directories t'))"
proof -
  have upd: "(\<forall>(p, f, s) \<in> set (fold (\<lambda>(path, stamp). AList.update path (g, stamp)) ups base). f = g)
      \<and> distinct (map fst (fold (\<lambda>(path, stamp). AList.update path (g, stamp)) ups base))"
    if "\<forall>(p, f, s) \<in> set base. f = g" "distinct (map fst base)" for g ups and base :: "(str \<times> str \<times> directory_stamp) list"
    using that
  proof (induction ups arbitrary: base)
    case (Cons a ups)
    obtain path stamp where a: "a = (path, stamp)" by fastforce
    have "set (AList.update path (g, stamp) base) \<subseteq> insert (path, g, stamp) (set base)" for base :: "(str \<times> str \<times> directory_stamp) list"
      by (induction base) auto
    then have "\<forall>(p, f, s) \<in> set (AList.update path (g, stamp) base). f = g" using Cons.prems(1) by blast
    then show ?case using Cons.IH [of "AList.update path (g, stamp) base"] Cons.prems(2)
      by (simp add: a distinct_update)
  qed simp
  let ?kept = "filter (\<lambda>(path, fp, _). fp = du_fingerprint u \<and> path \<notin> set (du_deletes u)) (ct_directories t)"
  have "(\<forall>(p, f, s) \<in> set (ct_directories t'). f = du_fingerprint u) \<and> distinct (map fst (ct_directories t'))"
    unfolding assms(3) write_directories_def by (rule upd) (auto intro: distinct_map_filter [OF assms(1)])
  then show ?thesis using assms(2) by (auto simp: fp_stamps_def load_directory_stamps_def filter_empty_conv)
qed

section \<open>Persisted stamps certify\<close>

definition run_inv ::
    "world \<Rightarrow> (nat \<Rightarrow> str \<Rightarrow> (str \<times> file_kind) set) \<Rightarrow> (str \<Rightarrow> bool) \<Rightarrow> str set \<Rightarrow> str \<Rightarrow> nat \<Rightarrow> 't ckpt_tables \<Rightarrow> bool" where
  "run_inv w content rel R fingerprint T t =
    (distinct (map fst (ct_directories t))
     \<and> stamps_ok w content rel R T (map_of (fp_stamps fingerprint t)) (\<lambda>p. map_of (fp_stamps fingerprint t) p \<noteq> None)
          (\<lambda>p. p \<in> fst ` set (ct_files t)))"

lemma kept_file:
  assumes "fs_behaves w content" "keeps_tracked content rel T1 T2 found t'" "normal_path d" "dir_at w c d s" "c \<le> T1"
    "T2 \<le> u" "dir_at w u d s" "(n, KindFile) \<in> content u d" "rel (path_join d n)" "path_join d n \<in> found"
  shows "path_join d n \<in> fst ` set (ct_files t')"
proof (rule ccontr)
  assume "path_join d n \<notin> fst ` set (ct_files t')"
  then obtain v where v: "T1 \<le> v" "v < T2" "(n, KindFile) \<notin> content v d"
    using assms(2,3,9,10) fs_names [OF assms(1,8)] unfolding keeps_tracked_def by blast
  have "content v d = content u d" using fs_holds [OF assms(1) _ _ assms(4,7), of v] assms(5,6) v by simp
  then show False using v(3) assms(8) by simp
qed

text \<open>A certificate survives until the files it speaks of are committed.\<close>

lemma certified_kept:
  assumes fs: "fs_behaves w content" and keeps: "keeps_tracked content rel T1 T2 found t'"
    and d: "normal_path d" "dir_at w c d s" "c \<le> T1" "now \<le> T2"
    and cert: "certified w content rel now d s dirs (\<lambda>p. p \<in> found)"
    and dirs: "\<And>n k u. (n, k) \<in> content u d \<Longrightarrow> dirs (path_join d n) \<Longrightarrow> dirs' (path_join d n)"
  shows "certified w content rel T2 d s dirs' (\<lambda>p. p \<in> fst ` set (ct_files t'))"
  unfolding certified_def
proof (intro allI impI conjI)
  fix u n
  assume u: "T2 \<le> u" "dir_at w u d s"
  then have now: "now \<le> u" using d(4) by simp
  { assume n: "(n, KindDir) \<in> content u d"
    then show "dirs' (path_join d n)" using dirs certifiedD(1) [OF cert now u(2) n] by blast }
  { assume n: "(n, KindFile) \<in> content u d" "rel (path_join d n)"
    then show "path_join d n \<in> fst ` set (ct_files t')"
      using kept_file [OF fs keeps d(1-3) u n(1,2)] certifiedD(2) [OF cert now u(2) n] by simp }
qed

lemma finished_inv:
  assumes fs: "fs_behaves w content" and R: "roots_ok R"
    and inv: "run_inv w content rel R fingerprint T t"
    and walk: "walk_inv w content rel R found T1 k" and nxt: "distinct (map fst (sw_next k))"
    and times: "T \<le> T1" "T1 \<le> T2"
    and t': "ct_directories t' = write_directories (walk_finish fingerprint k) (ct_directories t)"
    and keeps: "keeps_tracked content rel T1 T2 found' t'" "found \<subseteq> found'"
    and prev: "map_of (sw_previous k) = map_of (fp_stamps fingerprint t) \<and> fst ` set (ct_files t) \<subseteq> found'
      \<or> sw_previous k = [] \<and> fst ` set (fp_stamps fingerprint t) \<subseteq> fst ` set (sw_next k)"
  shows "run_inv w content rel R fingerprint T2 t'"
proof -
  let ?S = "map_of (fp_stamps fingerprint t)" and ?S' = "map_of (fp_stamps fingerprint t')" and ?N = "map_of (sw_next k)"
  have rows: "distinct (map fst (ct_directories t))"
    and S: "stamps_ok w content rel R T ?S (\<lambda>p. ?S p \<noteq> None) (\<lambda>p. p \<in> fst ` set (ct_files t))"
    using inv by (simp_all add: run_inv_def)
  have N: "stamps_ok w content rel R T1 ?N (\<lambda>p. ?N p \<noteq> None) (\<lambda>p. p \<in> found)" and roots: "set (sw_roots k) \<subseteq> R"
    using walk by (simp_all add: walk_inv_def)
  note fin = finished_stamps [OF rows nxt t']
  have seen: "?S' d = Some s" if "?N d = Some s" for d s
    using that prev by (auto simp: fin(1))
  have unseen: "?S d = Some s \<and> \<not> under_roots k d \<and> map_of (sw_previous k) = ?S \<and> fst ` set (ct_files t) \<subseteq> found'"
    if "?S' d = Some s" "?N d = None" for d s
  proof -
    have "?S d = Some s" using that by (auto simp: fin(1) split: if_splits)
    moreover from this have "d \<in> fst ` set (fp_stamps fingerprint t)" 
      by (auto dest!: map_of_SomeD intro: rev_image_eqI)
    then have "\<not> fst ` set (fp_stamps fingerprint t) \<subseteq> fst ` set (sw_next k)" using that(2) by (auto simp: map_of_eq_None_iff)
    ultimately show ?thesis using that prev by (auto simp: fin(1) split: if_splits)
  qed
  have "stamps_ok w content rel R T2 ?S' (\<lambda>p. ?S' p \<noteq> None) (\<lambda>p. p \<in> fst ` set (ct_files t'))"
    unfolding stamps_ok_def
  proof (intro allI impI)
    fix d s
    assume d: "?S' d = Some s"
    show "normal_path d \<and> (\<exists>r \<in> R. path_under d r) \<and> (\<exists>t < T2. dir_at w t d s)
        \<and> certified w content rel T2 d s (\<lambda>p. ?S' p \<noteq> None) (\<lambda>p. p \<in> fst ` set (ct_files t'))"
    proof (cases "?N d")
      case (Some s')
      then have s: "?N d = Some s" using seen d by fastforce
      note facts = stamps_okD [OF N s]
      obtain c where c: "c < T1" "dir_at w c d s" using facts(3) by blast
      have "certified w content rel T1 d s (\<lambda>p. ?N p \<noteq> None) (\<lambda>p. p \<in> found')"
        by (rule certified_mono [OF facts(4)]) (use keeps(2) in auto)
      then have "certified w content rel T2 d s (\<lambda>p. ?S' p \<noteq> None) (\<lambda>p. p \<in> fst ` set (ct_files t'))"
        by (rule certified_kept [OF fs keeps(1) facts(1) c(2) less_imp_le [OF c(1)] times(2)]) (use seen in auto)
      moreover have "\<exists>t < T2. dir_at w t d s" using c times(2) by (intro exI [of _ c]) simp
      ultimately show ?thesis using facts(1,2) by blast
    next
      case None
      note old = unseen [OF d None]
      then have "?S d = Some s" by blast
      note facts = stamps_okD [OF S this]
      obtain c where c: "c < T" "dir_at w c d s" using facts(3) by blast
      have cert: "certified w content rel T d s (\<lambda>p. ?S p \<noteq> None) (\<lambda>p. p \<in> found')"
        by (rule certified_mono [OF facts(4)]) (use old in auto)
      have "?S' (path_join d n) \<noteq> None" if n: "(n, kd) \<in> content u d" "?S (path_join d n) \<noteq> None" for n kd u
      proof (cases "?N (path_join d n)")
        case None
        have "\<not> under_roots k (path_join d n)"
        proof
          assume "under_roots k (path_join d n)"
          then obtain r where r: "r \<in> set (sw_roots k)" "path_under (path_join d n) r"
            by (auto simp: under_roots_def list_ex_iff)
          have "path_under d r"
          proof (cases "path_join d n = r")
            case True
            obtain r' where r': "r' \<in> R" "path_under d r'" using facts(2) by blast
            then have "r = r'" using R r(1) roots path_under_join [OF r'(2), of n] True by (auto simp: roots_ok_def)
            then show ?thesis using r'(2) by simp
          next
            case False
            show ?thesis
              by (rule path_under_parent [OF r(2) False fs_names [OF fs n(1)] facts(1)])
                (use R r(1) roots in \<open>auto simp: roots_ok_def\<close>)
          qed
          then show False using old r(1) by (auto simp: under_roots_def list_ex_iff)
        qed
        then show ?thesis using n(2) None by (simp add: fin(1))
      qed (use seen in auto)
      then have "certified w content rel T2 d s (\<lambda>p. ?S' p \<noteq> None) (\<lambda>p. p \<in> fst ` set (ct_files t'))"
        by (intro certified_kept [OF fs keeps(1) facts(1) c(2) _ _ cert]) (use c(1) times in auto)
      moreover have "\<exists>t < T2. dir_at w t d s" using c times by (intro exI [of _ c]) simp
      ultimately show ?thesis using facts(1,2) by blast
    qed
  qed
  then show ?thesis using fin(2) by (simp add: run_inv_def)
qed

lemma distinct_fp_stamps: "distinct (map fst (ct_directories t)) \<Longrightarrow> distinct (map fst (fp_stamps fingerprint t))"
  by (auto simp: fp_stamps_def load_directory_stamps_def distinct_map inj_on_def split_def)

lemma previous_stamps:
  assumes "run_inv w content rel R fingerprint T t" "distinct (map fst previous)"
    "set previous = set (fp_stamps fingerprint t)" "\<And>p. p \<in> fst ` set (ct_files t) \<Longrightarrow> rel p \<Longrightarrow> p \<in> set known"
  shows "map_of previous = map_of (fp_stamps fingerprint t)"
    "stamps_ok w content rel R T (map_of previous) (\<lambda>p. map_of previous p \<noteq> None) (\<lambda>p. p \<in> set known)"
proof -
  show eq: "map_of previous = map_of (fp_stamps fingerprint t)"
    using map_of_same [OF assms(2) _ assms(3)] distinct_fp_stamps assms(1) unfolding run_inv_def by blast
  have "stamps_ok w content rel R T (map_of previous) (\<lambda>p. map_of previous p \<noteq> None) (\<lambda>p. p \<in> fst ` set (ct_files t) \<and> rel p)"
    using assms(1) stamps_ok_rel unfolding run_inv_def eq by blast
  then show "stamps_ok w content rel R T (map_of previous) (\<lambda>p. map_of previous p \<noteq> None) (\<lambda>p. p \<in> set known)"
    by (rule stamps_ok_mono) (use assms(4) in auto)
qed

lemma run_inv_holds:
  assumes "discovery_run w content rel R fingerprint T t" "fs_behaves w content" "roots_ok R"
  shows "run_inv w content rel R fingerprint T t"
  using assms(1)
proof (induction rule: discovery_run.induct)
  case (unstamped t T)
  then show ?case by (simp add: run_inv_def stamps_ok_def)
next
  case (walked T t previous known roots fuel T1 k results T2 t')
  have R: "\<forall>r \<in> R. normal_path r" using assms(3) by (simp add: roots_ok_def)
  note prev = previous_stamps [OF walked.IH walked.hyps(2,3,5)]
  have w: "walk_inv w content rel R (found_files results) T1 k" "walk_shape previous known k" "T \<le> T1"
    using walk_all_inv [OF assms(2) prev(2) R walked.hyps(7) walk_shape_new order.refl walk_inv_new walked.hyps(6)] by auto
  show ?case
    by (rule finished_inv [OF assms(2,3) walked.IH w(1) _ w(3) walked.hyps(8,9,10)])
      (use w(2) prev(1) in \<open>auto simp: walk_shape_def\<close>)
next
  case (rebuilt T t roots fuel T1 k results T2 t')
  have R: "\<forall>r \<in> R. normal_path r" using assms(3) by (simp add: roots_ok_def)
  have none: "stamps_ok w content rel R T (map_of []) (\<lambda>p. map_of [] p \<noteq> None) (\<lambda>p. p \<in> set [])"
    by (simp add: stamps_ok_def)
  have w: "walk_inv w content rel R (found_files results) T1 k" "walk_shape [] [] k" "T \<le> T1"
    using walk_all_inv [OF assms(2) none R rebuilt.hyps(3) walk_shape_new order.refl walk_inv_new rebuilt.hyps(2)] by auto
  show ?case
    by (rule finished_inv [OF assms(2,3) rebuilt.IH w(1) _ w(3) rebuilt.hyps(4,6,7)])
      (use w(2) rebuilt.hyps(5) in \<open>auto simp: walk_shape_def\<close>)
next
  case (narrowed T t T2 t')
  have eq: "fp_stamps fingerprint t' = fp_stamps fingerprint t"
    using narrowed.hyps(3) by (simp add: fp_stamps_def load_directory_stamps_def)
  have S: "stamps_ok w content rel R T (map_of (fp_stamps fingerprint t)) (\<lambda>p. map_of (fp_stamps fingerprint t) p \<noteq> None)
      (\<lambda>p. p \<in> fst ` set (ct_files t))"
    using narrowed.IH by (simp add: run_inv_def)
  have "stamps_ok w content rel R T2 (map_of (fp_stamps fingerprint t)) (\<lambda>p. map_of (fp_stamps fingerprint t) p \<noteq> None)
      (\<lambda>p. p \<in> fst ` set (ct_files t'))"
    unfolding stamps_ok_def
  proof (intro allI impI)
    fix d s
    assume "map_of (fp_stamps fingerprint t) d = Some s"
    note facts = stamps_okD [OF S this]
    obtain c where c: "c < T" "dir_at w c d s" using facts(3) by blast
    have "certified w content rel T2 d s (\<lambda>p. map_of (fp_stamps fingerprint t) p \<noteq> None) (\<lambda>p. p \<in> fst ` set (ct_files t'))"
      by (rule certified_kept [OF assms(2) narrowed.hyps(4) facts(1) c(2) less_imp_le [OF c(1)] narrowed.hyps(2) facts(4)])
    moreover have "\<exists>t < T2. dir_at w t d s" using c narrowed.hyps(2) by (intro exI [of _ c]) simp
    ultimately show "normal_path d \<and> (\<exists>r \<in> R. path_under d r) \<and> (\<exists>t < T2. dir_at w t d s)
        \<and> certified w content rel T2 d s (\<lambda>p. map_of (fp_stamps fingerprint t) p \<noteq> None) (\<lambda>p. p \<in> fst ` set (ct_files t'))"
      using facts(1,2) by blast
  qed
  then show ?case using narrowed.IH narrowed.hyps(3) by (simp add: run_inv_def eq)
next
  case (foreign T t T2 u t')
  have "distinct (map fst (ct_directories t))" using foreign.IH by (simp add: run_inv_def)
  then show ?case using foreign_stamps [OF _ foreign.hyps(3,4)] by (simp add: run_inv_def stamps_ok_def)
qed

section \<open>Nothing stays hidden\<close>

text \<open>
  A directory that is there, and can be looked up and listed, at every moment from \<open>T\<close> to \<open>T1\<close>.
\<close>

definition readable :: "world \<Rightarrow> (nat \<Rightarrow> str \<Rightarrow> (str \<times> file_kind) set) \<Rightarrow> nat \<Rightarrow> nat \<Rightarrow> str \<Rightarrow> bool" where
  "readable w content T T1 d = (\<forall>t. T \<le> t \<longrightarrow> t < T1 \<longrightarrow> (\<exists>es. fv_read (w t) d = Some es \<and> content t d \<subseteq> listed es))"

inductive stable_dir ::
    "world \<Rightarrow> (nat \<Rightarrow> str \<Rightarrow> (str \<times> file_kind) set) \<Rightarrow> nat \<Rightarrow> nat \<Rightarrow> str \<Rightarrow> str \<Rightarrow> bool"
  for w content T T1 root where
  top: "(\<And>t. T \<le> t \<Longrightarrow> t < T1 \<Longrightarrow> \<exists>s. fv_metadata (w t) root = Some (KindDir, s)) \<Longrightarrow>
    readable w content T T1 root \<Longrightarrow> stable_dir w content T T1 root root"
| below: "stable_dir w content T T1 root d \<Longrightarrow>
    (\<And>t. T \<le> t \<Longrightarrow> t < T1 \<Longrightarrow> (n, KindDir) \<in> content t d
       \<and> (\<exists>s. fv_symlink (w t) (path_join d n) = Some (KindDir, s))) \<Longrightarrow>
    readable w content T T1 (path_join d n) \<Longrightarrow> stable_dir w content T T1 root (path_join d n)"

text \<open>The children of a visited stable directory are found.\<close>

definition explored ::
    "world \<Rightarrow> (nat \<Rightarrow> str \<Rightarrow> (str \<times> file_kind) set) \<Rightarrow> (str \<Rightarrow> bool) \<Rightarrow> nat \<Rightarrow> nat \<Rightarrow> str set \<Rightarrow> str set \<Rightarrow> str \<Rightarrow> bool" where
  "explored w content rel T T1 dirs files d =
    (\<forall>n. ((\<forall>t. T \<le> t \<longrightarrow> t < T1 \<longrightarrow> (n, KindDir) \<in> content t d) \<longrightarrow> path_join d n \<in> dirs)
       \<and> ((\<forall>t. T \<le> t \<longrightarrow> t < T1 \<longrightarrow> (n, KindFile) \<in> content t d) \<longrightarrow> rel (path_join d n) \<longrightarrow> path_join d n \<in> files))"

lemma explored_mono:
  "explored w content rel T T1 dirs files d \<Longrightarrow> dirs \<subseteq> dirs' \<Longrightarrow> files \<subseteq> files' \<Longrightarrow> explored w content rel T T1 dirs' files' d"
  unfolding explored_def by (meson subsetD)

lemma visit_explores:
  assumes fs: "fs_behaves w content"
    and prev: "stamps_ok w content rel R t0 (map_of previous) (\<lambda>p. map_of previous p \<noteq> None) (\<lambda>p. p \<in> set known)"
    and shape: "walk_shape previous known k" and t0: "t0 \<le> T"
    and v: "visit w now directory m k files pending = (now', k', files', pending')"
    and times: "T \<le> now" "now' \<le> T1" and readable: "readable w content T T1 directory"
    and l: "looked_up w now directory m = (Some (KindDir, stamp), t)"
    and at: "\<exists>c. T \<le> c \<and> c < T1 \<and> dir_at w c directory stamp"
  shows "explored w content rel T T1 (fst ` set pending') (set files') directory"
  using v
proof (cases rule: visit_cases)
  case (reused s)
  then have s: "map_of previous directory = Some stamp" using l shape by (simp add: walk_shape_def)
  note facts = stamps_okD [OF prev s]
  obtain c where c: "T \<le> c" "c < T1" "dir_at w c directory stamp" using at by blast
  then have c0: "t0 \<le> c" using t0 by simp
  have heads: "fst ` set pending' = set (filter (\<lambda>p. path_parent p = Some directory) (map fst previous)) \<union> fst ` set pending"
    unfolding reused(5) image_Un image_image using shape by (simp add: walk_shape_def by_parent_eq)
  have old: "set files' = set files \<union> set (filter (\<lambda>p. path_parent p = Some directory) known)"
    using shape reused(4) by (simp add: walk_shape_def by_parent_eq)
  note cert = certifiedD [OF certified_reuse [OF fs prev s c0] order.refl c(3)]
  show ?thesis
    unfolding explored_def
  proof (intro allI conjI impI)
    fix n
    { assume "\<forall>t. T \<le> t \<longrightarrow> t < T1 \<longrightarrow> (n, KindDir) \<in> content t directory"
      then have "(n, KindDir) \<in> content c directory" using c by blast
      then show "path_join directory n \<in> fst ` set pending'" using cert(1) unfolding heads by blast }
    { assume "\<forall>t. T \<le> t \<longrightarrow> t < T1 \<longrightarrow> (n, KindFile) \<in> content t directory" "rel (path_join directory n)"
      then have "(n, KindFile) \<in> content c directory" "rel (path_join directory n)" using c by blast+
      then show "path_join directory n \<in> set files'" using cert(2) unfolding old by blast }
  qed
next
  case (unread s r)
  have "T \<le> r" "r < T1" using looked_up_facts(1) [OF unread(1)] unread(2) times by auto
  then show ?thesis using unread(3) readable by (auto simp: readable_def)
next
  case (read s r es)
  have r: "T \<le> r" "r < T1" using looked_up_facts(1) [OF read(1)] read(2) times by auto
  then have "content r directory \<subseteq> listed es" using read(4) readable unfolding readable_def by fastforce
  then show ?thesis using r unfolding explored_def read(6,7) by force
qed (use l in auto)

definition all_explored ::
    "world \<Rightarrow> (nat \<Rightarrow> str \<Rightarrow> (str \<times> file_kind) set) \<Rightarrow> (str \<Rightarrow> bool) \<Rightarrow> nat \<Rightarrow> nat \<Rightarrow> str \<Rightarrow> str set \<Rightarrow> str set \<Rightarrow> str set \<Rightarrow> bool" where
  "all_explored w content rel T T1 root seen waiting files =
    (\<forall>d \<in> seen. stable_dir w content T T1 root d \<longrightarrow> explored w content rel T T1 (seen \<union> waiting) files d)"

lemma walk_loop_time: "walk_loop w fuel now k files pending = Some (now', k', files') \<Longrightarrow> now \<le> now'"
proof (induction w fuel now k files pending rule: walk_loop.induct)
  case (3 w fuel now k files directory m pending)
  obtain t k1 files1 pending1 where v: "visit w now directory m k files pending = (t, k1, files1, pending1)"
    by (metis prod_cases4)
  then show ?case using 3 visit_shape [OF v] by fastforce
qed simp_all

lemma visit_waits:
  assumes "visit w now directory m k files pending = (now', k', files', pending')"
  shows "snd ` set pending' \<subseteq> insert None (snd ` set pending)" "m = None \<Longrightarrow> now < now'"
proof -
  show "snd ` set pending' \<subseteq> insert None (snd ` set pending)"
    using assms by (cases rule: visit_cases) auto
  show "m = None \<Longrightarrow> now < now'"
    using assms by (cases rule: visit_cases) (auto dest!: looked_up_facts(2))
qed

lemma loop_explores:
  assumes fs: "fs_behaves w content"
    and prev: "stamps_ok w content rel R t0 (map_of previous) (\<lambda>p. map_of previous p \<noteq> None) (\<lambda>p. p \<in> set known)"
    and t0: "t0 \<le> T"
  shows "walk_loop w fuel now k files pending = Some (T1, k', files') \<Longrightarrow> walk_shape previous known k \<Longrightarrow>
    T \<le> now \<Longrightarrow> T1 \<le> T2 \<Longrightarrow> root \<in> seen \<Longrightarrow> snd ` set pending \<subseteq> {None} \<Longrightarrow>
    all_explored w content rel T T2 root seen (fst ` set pending) (set files) \<Longrightarrow>
    \<exists>seen'. seen \<subseteq> seen' \<and> all_explored w content rel T T2 root seen' {} (set files')"
proof (induction fuel arbitrary: now k files pending seen)
  case 0
  then show ?case by (cases pending) (auto intro!: exI [of _ seen])
next
  case (Suc fuel)
  show ?case
  proof (cases pending)
    case Nil
    then show ?thesis using Suc.prems by (auto intro!: exI [of _ seen])
  next
    case (Cons p rest)
    obtain directory m where p: "p = (directory, m)" by fastforce
    then have m: "m = None" using Suc.prems(6) Cons by auto
    obtain t k1 files1 pending1 where v: "visit w now directory m k files rest = (t, k1, files1, pending1)"
      by (metis prod_cases4)
    have rest: "walk_loop w fuel t k1 files1 pending1 = Some (T1, k', files')"
      using Suc.prems(1) v by (simp add: Cons p)
    have sh: "walk_shape previous known k1" "now \<le> t" "set files \<subseteq> set files1" "set rest \<subseteq> set pending1"
      using visit_shape [OF v, of previous known] Suc.prems(2) by blast+
    have "t \<le> T1" using walk_loop_time [OF rest] .
    then have times: "t \<le> T2" using Suc.prems(4) by simp
    have none: "snd ` set pending1 \<subseteq> {None}" using visit_waits(1) [OF v] Suc.prems(6) Cons by auto
    have new_explored: "explored w content rel T T2 (fst ` set pending1) (set files1) directory"
      if new: "directory \<notin> seen" and stable: "stable_dir w content T T2 root directory"
    proof -
      have now: "T \<le> now" "now < T2" using visit_waits(2) [OF v m] times Suc.prems(3) by simp_all
      obtain stamp where s: "fv_symlink (w now) directory = Some (KindDir, stamp)"
        using stable new Suc.prems(5) now by (cases rule: stable_dir.cases) auto
      have r: "readable w content T T2 directory" using stable by (cases rule: stable_dir.cases) auto
      have "looked_up w now directory m = (Some (KindDir, stamp), Suc now)" by (simp add: looked_up_def m s)
      then show ?thesis
        using visit_explores [OF fs prev Suc.prems(2) t0 v Suc.prems(3) times r] s now by (auto simp: dir_at_def)
    qed
    have "all_explored w content rel T T2 root (insert directory seen) (fst ` set pending1) (set files1)"
    proof -
      have "explored w content rel T T2 (insert directory seen \<union> fst ` set pending1) (set files1) d"
        if d: "d \<in> insert directory seen" "stable_dir w content T T2 root d" for d
      proof (cases "d \<in> seen")
        case True
        then have "explored w content rel T T2 (seen \<union> fst ` set pending) (set files) d"
          using Suc.prems(7) d(2) unfolding all_explored_def by blast
        then show ?thesis by (rule explored_mono) (use sh(3,4) in \<open>auto simp: Cons p\<close>)
      next
        case False
        then show ?thesis using d new_explored by (auto elim: explored_mono)
      qed
      then show ?thesis unfolding all_explored_def by blast
    qed
    then show ?thesis using Suc.IH [OF rest sh(1) _ Suc.prems(4) _ none, of "insert directory seen"] Suc.prems(3,5) sh(2) by auto
  qed
qed

lemma stable_root:
  "stable_dir w content T T1 root d \<Longrightarrow>
    (\<forall>t. T \<le> t \<longrightarrow> t < T1 \<longrightarrow> (\<exists>s. fv_metadata (w t) root = Some (KindDir, s))) \<and> readable w content T T1 root"
  by (induction rule: stable_dir.induct) auto

lemma walk_files_finds:
  assumes fs: "fs_behaves w content"
    and prev: "stamps_ok w content rel R t0 (map_of previous) (\<lambda>p. map_of previous p \<noteq> None) (\<lambda>p. p \<in> set known)"
    and t0: "t0 \<le> T" and shape: "walk_shape previous known k"
    and f: "walk_files w fuel root now k = Some (t, k', files)" and times: "T \<le> now" "t \<le> T2"
    and stable: "stable_dir w content T T2 root d"
    and present: "\<And>t. T \<le> t \<Longrightarrow> t < T2 \<Longrightarrow> (n, KindFile) \<in> content t d" "rel (path_join d n)"
  shows "path_join d n \<in> set files"
proof -
  have "now < t"
    using f by (auto simp: walk_files_def Suc_le_eq dest!: walk_loop_time split: option.splits prod.splits file_kind.splits)
  then have now: "now < T2" using times(2) by simp
  obtain s where m: "fv_metadata (w now) root = Some (KindDir, s)" using stable_root [OF stable] times(1) now by blast
  let ?k = "k\<lparr>sw_roots := sw_roots k @ [root]\<rparr>" and ?m = "Some (KindDir, s)"
  have l: "walk_loop w fuel (Suc now) ?k [] [(root, ?m)] = Some (t, k', files)"
    using f m by (simp add: walk_files_def)
  then obtain fuel' where fuel: "fuel = Suc fuel'" by (cases fuel) auto
  obtain t1 k1 files1 pending1 where v: "visit w (Suc now) root ?m ?k [] [] = (t1, k1, files1, pending1)"
    by (metis prod_cases4)
  have rest: "walk_loop w fuel' t1 k1 files1 pending1 = Some (t, k', files)" using l v by (simp add: fuel)
  have shape0: "walk_shape previous known ?k" using shape by (simp add: walk_shape_def)
  then have sh: "walk_shape previous known k1" "Suc now \<le> t1" using visit_shape [OF v, of previous known] by blast+
  have "t1 \<le> T2" using walk_loop_time [OF rest] times(2) by simp
  moreover have "looked_up w (Suc now) root ?m = (Some (KindDir, s), Suc now)" by (simp add: looked_up_def)
  moreover have "\<exists>c. T \<le> c \<and> c < T2 \<and> dir_at w c root s" using m times(1) now by (auto simp: dir_at_def)
  ultimately have "explored w content rel T T2 (fst ` set pending1) (set files1) root"
    using visit_explores [OF fs prev shape0 t0 v] times(1) stable_root [OF stable] by simp
  then have "all_explored w content rel T T2 root {root} (fst ` set pending1) (set files1)"
    by (auto simp: all_explored_def elim: explored_mono)
  then obtain seen where seen: "{root} \<subseteq> seen" "all_explored w content rel T T2 root seen {} (set files)"
    using loop_explores [OF fs prev t0 rest sh(1) _ times(2), of root "{root}"] times(1) sh(2) visit_waits(1) [OF v]
    by auto
  have in_seen: "stable_dir w content T T2 root d' \<Longrightarrow> d' \<in> seen" for d'
  proof (induction rule: stable_dir.induct)
    case (below d' n')
    then have "explored w content rel T T2 seen (set files) d'" using seen(2) unfolding all_explored_def by auto
    then show ?case using below.hyps(2) unfolding explored_def by blast
  qed (use seen(1) in auto)
  have "explored w content rel T T2 seen (set files) d"
    using seen(2) in_seen [OF stable] stable unfolding all_explored_def by auto
  then show ?thesis using present unfolding explored_def by blast
qed

lemma walk_all_finds:
  assumes fs: "fs_behaves w content"
    and prev: "stamps_ok w content rel R t0 (map_of previous) (\<lambda>p. map_of previous p \<noteq> None) (\<lambda>p. p \<in> set known)"
    and R: "\<forall>r \<in> R. normal_path r" and t0: "t0 \<le> T"
    and stable: "stable_dir w content T T2 root d"
    and present: "\<And>t. T \<le> t \<Longrightarrow> t < T2 \<Longrightarrow> (n, KindFile) \<in> content t d" "rel (path_join d n)"
  shows "walk_all w fuel roots now k = Some (now', k', results) \<Longrightarrow> walk_shape previous known k \<Longrightarrow> T \<le> now \<Longrightarrow>
    now' \<le> T2 \<Longrightarrow> walk_inv w content rel R found now k \<Longrightarrow> snd ` set roots \<subseteq> R \<Longrightarrow>
    (root, files) \<in> set results \<Longrightarrow> path_join d n \<in> set files"
proof (induction roots arbitrary: now k found results)
  case (Cons r rest)
  obtain pause root' where r: "r = (pause, root')" by fastforce
  obtain t k1 files1 rest_results where f: "walk_files w fuel root' (now + pause) k = Some (t, k1, files1)"
    and rest: "walk_all w fuel rest t k1 = Some (now', k', rest_results)" "results = (root', files1) # rest_results"
    using Cons.prems(1) r by (auto split: option.splits prod.splits)
  have inv: "walk_inv w content rel R found (now + pause) k" by (rule walk_inv_mono [OF Cons.prems(5)]) simp_all
  have root: "root' \<in> R" "normal_path root'" using Cons.prems(6) R r by auto
  have step: "walk_inv w content rel R (found \<union> set files1) t k1" "walk_shape previous known k1" "now + pause < t"
    using walk_files_inv [OF fs prev f Cons.prems(2) _ inv root] Cons.prems(3) t0 by auto
  have "t \<le> now'" using walk_all_inv [OF fs prev R rest(1) step(2) _ step(1)] Cons.prems(3,6) step(3) t0 by simp
  then have t: "t \<le> T2" using Cons.prems(4) by simp
  show ?case
  proof (cases "(root, files) = (root', files1)")
    case True
    then show ?thesis
      using walk_files_finds [OF fs prev t0 Cons.prems(2) f _ t, of d n] stable present Cons.prems(3) by simp
  next
    case False
    then show ?thesis using Cons.IH [OF rest(1) step(2) _ Cons.prems(4) step(1)] Cons.prems(3,6,7) rest(2) step(3) by auto
  qed
qed simp


section \<open>A rebuild can hide files\<close>

lemma cleared_commit:
  assumes "commit_delta bytes parse render delta (Sqlite v t) = Some (changed, Sqlite v t')"
    "cd_clear_files delta" "cd_upserts delta = []" "cd_directory_stamps delta = Some u"
  shows "ct_files t' = [] \<and> ct_directories t' = write_directories u (ct_directories t)"
  using assms
  by (auto simp: commit_delta_def delta_is_empty_def write_files_def replace_pending_def
      split: if_splits option.splits bind_splits pending_change.splits)

lemma no_own_parent: "path_parent p \<noteq> Some p"
  using path_parent_shorter by fastforce

text \<open>
  C36: A rebuild of an empty index that cannot reach a root clears the tracked files and leaves the root's
  stamp: once the root is back with that stamp, the next discovery skips it and returns none of its
  files, whatever it holds.
\<close>

theorem rebuild_hides_files:
  assumes "fp_stamps fingerprint t = [(root, s)]"
    "walk_all w fuel [(pause, root)] T (walk_new [] []) = Some (T1, k, results)"
    "fv_metadata (w (T + pause)) root = None"
    "commit_delta bytes parse render delta (Sqlite v t) = Some (changed, Sqlite v t')"
    "cd_clear_files delta" "cd_upserts delta = []" "cd_directory_stamps delta = Some (walk_finish fingerprint k)"
    "fv_metadata (w now) root = Some (KindDir, s)"
  shows "ct_files t' = [] \<and>
    (\<exists>k'. walk_files w (Suc fuel') root now (walk_new (fp_stamps fingerprint t') (map fst (ct_files t')))
       = Some (Suc now, k', []))"
proof -
  have k: "k = walk_new [] []" using assms(2,3) by (auto simp: walk_files_def)
  have t': "ct_files t' = []" "ct_directories t' = write_directories (walk_finish fingerprint k) (ct_directories t)"
    using cleared_commit [OF assms(4-7)] by simp_all
  have "ct_directories t' = filter (\<lambda>(_, fp, _). fp = fingerprint) (ct_directories t)"
    unfolding t'(2) k by (simp add: write_directories_def walk_finish_def walk_new_def)
  then have stamps: "fp_stamps fingerprint t' = [(root, s)]"
    using assms(1) by (simp add: fp_stamps_def load_directory_stamps_def)
  have "visit w (Suc now) root (Some (KindDir, s)) (walk_new [(root, s)] []\<lparr>sw_roots := [root]\<rparr>) [] [] =
      (Suc now, walk_new [(root, s)] []\<lparr>sw_roots := [root], sw_reused := 1, sw_next := [(root, s)]\<rparr>, [], [])"
    using by_parent_eq [of "[root]" root] by (simp add: visit_def reuse_def walk_new_def no_own_parent by_parent_eq)
  then show ?thesis
    using assms(8) by (simp add: t'(1) stamps walk_files_def) (simp add: walk_new_def)
qed

section \<open>Sample file system\<close>

definition sample_stamp :: directory_stamp where
  "sample_stamp = \<lparr>ds_device = 1, ds_inode = 2, ds_mtime_secs = 3, ds_mtime_nanos = 4, ds_ctime_secs = 5, ds_ctime_nanos = 6\<rparr>"

text \<open>Directory \<open>/r\<close> with one file; at time 7 it cannot be reached.\<close>

definition sample_world :: world where
  "sample_world t =
    \<lparr>fv_metadata = (\<lambda>p. if p = ''/r'' \<and> t \<noteq> 7 then Some (KindDir, sample_stamp) else None),
     fv_symlink = (\<lambda>p. if p = ''/r'' \<and> t \<noteq> 7 then Some (KindDir, sample_stamp) else None),
     fv_read = (\<lambda>p. if p = ''/r'' \<and> t \<noteq> 7 then Some [Some (''f'', Some KindFile)] else None)\<rparr>"

definition sample_content :: "nat \<Rightarrow> str \<Rightarrow> (str \<times> file_kind) set" where
  "sample_content t d = (if d = ''/r'' then {(''f'', KindFile)} else {})"

definition sample_tables :: "(str \<times> nat) list \<Rightarrow> (str \<times> str \<times> directory_stamp) list \<Rightarrow> nat ckpt_tables" where
  "sample_tables files directories =
    \<lparr>ct_files = files, ct_next_doc_id = ''1'', ct_databases = 0, ct_legacy_extras = 0, ct_pending = None,
     ct_scan_cache = None, ct_directories = directories, ct_journal = []\<rparr>"

lemma sample_stat: "t \<noteq> 7 \<Longrightarrow> fv_metadata (sample_world t) ''/r'' = Some (KindDir, sample_stamp)"
  by (simp add: sample_world_def)

lemma sample_fs: "fs_behaves sample_world sample_content"
  by (auto simp: fs_behaves_def sample_world_def sample_content_def name_ok_def dir_at_def listed_def path_join_def
      split: if_splits)

lemma sample_roots: "roots_ok {''/r''}"
  by (simp add: roots_ok_def normal_path_def)

lemma sample_tree: "finite_tree sample_world {''/r''}"
  by (simp add: finite_tree_def sample_world_def subdirs_def normal_path_def)

definition sample_walk :: "stamps \<Rightarrow> str list \<Rightarrow> nat \<Rightarrow> (nat \<times> stamped_walk \<times> (str \<times> str list) list) option" where
  "sample_walk previous known now = walk_all sample_world (Suc 0) [(0, ''/r'')] now (walk_new previous known)"

definition sample_done :: stamped_walk where
  "sample_done = \<lparr>sw_previous = [], sw_children = [], sw_known = [], sw_next = [(''/r'', sample_stamp)],
     sw_roots = [''/r''], sw_reused = 0, sw_enumerated = 1\<rparr>"

lemma sample_first: "sample_walk [] [] 0 = Some (Suc (Suc 0), sample_done, [(''/r'', [''/r/f''])])"
  by (simp add: sample_walk_def walk_files_def walk_new_def by_parent_def visit_def enumerate_def sample_world_def
      path_join_def sample_done_def)

lemma sample_discovery:
  "discovery_run sample_world sample_content (\<lambda>p. True) {''/r''} ''fp'' 2
    (sample_tables [(''/r/f'', 0)] [(''/r'', ''fp'', sample_stamp)])"
proof (rule discovery_run.walked [where T = 0 and t = "sample_tables [] []" and previous = "[]" and known = "[]"])
  show "discovery_run sample_world sample_content (\<lambda>p. True) {''/r''} ''fp'' 0 (sample_tables [] [])"
    by (rule discovery_run.unstamped) (simp_all add: sample_tables_def fp_stamps_def load_directory_stamps_def)
  show "walk_all sample_world (Suc 0) [(0, ''/r'')] 0 (walk_new [] []) = Some (Suc (Suc 0), sample_done, [(''/r'', [''/r/f''])])"
    using sample_first by (simp add: sample_walk_def)
  show "ct_directories (sample_tables [(''/r/f'', 0)] [(''/r'', ''fp'', sample_stamp)]) =
      write_directories (walk_finish ''fp'' sample_done) (ct_directories (sample_tables [] []))"
    by (simp add: sample_tables_def sample_done_def write_directories_def walk_finish_def)
qed (auto simp: sample_tables_def fp_stamps_def load_directory_stamps_def keeps_tracked_def)

lemma sample_stable: "stable_dir sample_world sample_content 2 3 ''/r'' ''/r''"
  by (rule stable_dir.top) (auto simp: sample_stat readable_def sample_world_def sample_content_def)

lemma sample_second:
  "\<exists>k files. sample_walk [(''/r'', sample_stamp)] [''/r/f''] 2 = Some (3, k, [(''/r'', files)]) \<and> sw_reused k = 1"
  by (simp add: sample_walk_def walk_files_def walk_new_def visit_def reuse_def sample_world_def no_own_parent
      by_parent_eq)


lemma walk_returns_witness: "\<exists>r. walk_all sample_world (card {''/r''}) [(5, ''/r'')] 2 (walk_new [(''/r'', sample_stamp)] []) = Some r"
  by (rule walk_returns [OF sample_tree]) simp_all

lemma rebuild_hides_files_witness:
  "\<exists>t'. commit_delta (\<lambda>n. n) (\<lambda>n. None) (\<lambda>j. 0)
      (delta_default\<lparr>cd_clear_files := True, cd_directory_stamps := Some (walk_finish ''fp'' (walk_new [] []))\<rparr>)
      (Sqlite 1 (sample_tables [(''/r/f'', 0)] [(''/r'', ''fp'', sample_stamp)])) = Some (True, Sqlite 1 t')
    \<and> (\<exists>k'. walk_files sample_world 1 ''/r'' 8 (walk_new (fp_stamps ''fp'' t') (map fst (ct_files t'))) = Some (9, k', []))
    \<and> (''f'', KindFile) \<in> sample_content 8 ''/r''"
proof -
  let ?t = "sample_tables [(''/r/f'', 0)] [(''/r'', ''fp'', sample_stamp)]"
  let ?d = "delta_default\<lparr>cd_clear_files := True, cd_directory_stamps := Some (walk_finish ''fp'' (walk_new [] []))\<rparr>"
  have stamps: "fp_stamps ''fp'' ?t = [(''/r'', sample_stamp)]"
    by (simp add: fp_stamps_def load_directory_stamps_def sample_tables_def)
  have walk: "walk_all sample_world 0 [(7, ''/r'')] 0 (walk_new [] []) = Some (8, walk_new [] [], [(''/r'', [])])"
    by (simp add: walk_files_def sample_world_def)
  have "\<exists>t'. commit_delta (\<lambda>n. n) (\<lambda>n. None) (\<lambda>j. 0) ?d (Sqlite 1 ?t) = Some (True, Sqlite 1 t')"
    by (simp add: commit_delta_def delta_is_empty_def delta_default_def write_files_def replace_pending_def)
  then obtain t' where t': "commit_delta (\<lambda>n. n) (\<lambda>n. None) (\<lambda>j. 0) ?d (Sqlite 1 ?t) = Some (True, Sqlite 1 t')" ..
  have "\<exists>k'. walk_files sample_world (Suc 0) ''/r'' 8 (walk_new (fp_stamps ''fp'' t') (map fst (ct_files t'))) = Some (Suc 8, k', [])"
    by (rule rebuild_hides_files [OF stamps walk _ t', THEN conjunct2])
      (simp_all add: sample_world_def delta_default_def)
  then show ?thesis using t' by (auto simp: sample_content_def)
qed

end
