(* ===== verification/Spec2Isabelle.thy ===== *)
theory Spec2Isabelle
  imports ReadBudget RecordLimits MuseParser PiParser CursorParser UsageSort UsageFactsRead IngestPlan CheckpointSession WebSecret Watch Retrieval OAuthSafety DirectoryRefresh
begin

text \<open>
  A verification development for memex, the local index over the transcripts of coding assistants.

  \<^bold>\<open>The program.\<close> memex watches the directories in which assistants write their sessions
  (\<open>src/watch.rs\<close> and the daemon loop of \<open>src/cli.rs\<close>). When something changed it ingests: it finds the
  transcript files (\<open>src/ingest/directories.rs\<close>), compares each with what a checkpoint remembers of it
  (\<open>src/ingest/plan.rs\<close>, \<open>src/ingest/checkpoint.rs\<close>), parses what is new, hands the records to a search
  index and commits the checkpoint (\<open>src/state.rs\<close>, \<open>src/state/checkpoint.rs\<close>, \<open>codec.rs\<close>). Readers
  resolve and page records (\<open>src/retrieval.rs\<close>, \<open>src/read_budget.rs\<close>). A second pipeline turns token
  logs into usage reports (\<open>src/usage/*.rs\<close>). A web server and an MCP server give remote access behind
  credentials (\<open>src/web_auth.rs\<close>, \<open>src/mcp/oauth.rs\<close>).

  \<^bold>\<open>Shared theories.\<close> \<open>Prelude\<close>: integers at their width, Rust strings as UTF-8 bytes with their
  character view, fallible results, and lemmas on lists, sorting and permutations. \<open>Types\<close>: sources,
  filters and records of \<open>src/types.rs\<close>. \<open>Decimal\<close>: decimal numerals as \<open>to_string\<close> and \<open>parse\<close> have
  them. \<open>Json\<close>: JSON values and what serde's derives write and read.

  \<^bold>\<open>Usage.\<close> \<open>UsageTypes\<close> has the events and reports of \<open>src/usage.rs\<close>. \<open>UsageSort\<close> is the unsafe
  in-place rotation of \<open>snapshot.rs\<close>: it stays in bounds and is the stable sort. \<open>UsageCompact\<close> is the
  interned storage of \<open>compact.rs\<close>: it gives every event back. \<open>UsageMerge\<close> is the k-way merge of
  \<open>merge.rs\<close>: the stable sort of the concatenation. \<open>UsageFilter\<close> is \<open>filter.rs\<close>: a query, through caches
  and windows, selects exactly the events its predicates accept. \<open>UsagePricing\<close> is \<open>pricing.rs\<close>: exact
  costs without wrap-around, and the estimate of wasted prompt caching with its bounds. \<open>UsageReports\<close>
  is the readers of \<open>query.rs\<close>: totals are exact, and a report over merged partitions is that over one
  assembly. \<open>UsageFacts\<close>, \<open>UsageFactsSync\<close> and \<open>UsageFactsRead\<close> are the canonical tables of \<open>cache.rs\<close> and
  \<open>facts.rs\<close>: an incremental replacement writes what a full rewrite would, and reports from rows are
  the reports of the stored events. The chain is: files, sorted assembly, rows, windows, merged report;
  each link is an equivalence over the previous one.

  \<^bold>\<open>Ingest.\<close> \<open>State\<close> has the records of \<open>src/state.rs\<close> and their JSON round trips. \<open>CheckpointCodec\<close> is
  \<open>codec.rs\<close>: rewriting a payload keeps members a newer version wrote. \<open>Checkpoint\<close> and \<open>CheckpointStore\<close>
  are the tables and both backends of \<open>src/state/checkpoint.rs\<close>; a locale states what a session asks of
  them and both are interpretations. \<open>CheckpointSession\<close> is \<open>src/ingest/checkpoint.rs\<close>: a session
  refines a plain map, and a commit publishes that map. \<open>IngestPlan\<close> is \<open>src/ingest/plan.rs\<close>.
  \<open>Directories\<close>, \<open>DirectoryWalk\<close> and \<open>DirectoryRefresh\<close> are the stamped walk of
  \<open>src/ingest/directories.rs\<close>, in which unchanged directories are not read again: a walk returns, no
  history of refreshes hides a file behind a stamp, and the one operation that can hide one (a rebuild
  that cannot reach a root, which clears the files and not the stamps) is exhibited. \<open>Watch\<close> is the
  scheduler: no event is lost, overflows included, and every change fires in bounded time.

  \<^bold>\<open>Transcripts.\<close> \<open>Transcripts\<close> has parsed JSON, paths and what the parsers of \<open>src/sources\<close> share
  (\<open>common.rs\<close>, \<open>mod.rs\<close>). \<open>Jsonl\<close> is where a parse of a growing file resumes (\<open>jsonl.rs\<close>) and the loop over
  its lines; the locale \<open>line_parser\<close> states what a parser has to recover when it resumes, and proves
  inside it that the parses of a file's versions amount to one parse of the last version. \<open>MuseParser\<close>
  (\<open>muse.rs\<close>), \<open>PiParser\<close> (\<open>pi.rs\<close>, which \<open>omp.rs\<close> and \<open>openclaw.rs\<close> delegate to) and \<open>CursorParser\<close>
  (\<open>cursor.rs\<close>) interpret it, each under the condition its recovery needs; where the condition is a
  defect of the recovery, a transcript on which the two differ is exhibited. \<open>RecordLimits\<close> is the
  truncation of indexed tool content in \<open>src/ingest/execution.rs\<close>: its bounds, and texts on which its
  loop never ends.

  \<^bold>\<open>Readers and servers.\<close> \<open>ReadBudget\<close>: what is shown is bounded, and following continuations ends and
  rebuilds the text. \<open>Retrieval\<close>: canonical ids, selectors and the bounded window around a record.
  \<open>WebAuth\<close>: runs of the web server's credentials, in which a bootstrap token buys at most one session
  save for one exhibited race. \<open>WebSecret\<close>: processes racing to create the access token agree on one.
  \<open>OAuth\<close>, \<open>OAuthTables\<close>, \<open>OAuthRuns\<close> and \<open>OAuthSafety\<close> are \<open>src/mcp/oauth.rs\<close>: each handler with its
  statements, an invariant of the five tables, a step relation over any interleaving of requests,
  restarts and failures, and the safety of tokens in every run.

  \<^bold>\<open>Conventions.\<close> A struct is a \<open>record\<close>, an enum a \<open>datatype\<close>, a transaction a function of the tables
  that answers an option or a sum: a failure leaves the tables as they were. \<open>HashMap\<close> iteration orders
  are arguments constrained to be permutations. Unbounded interleavings are \<open>inductive\<close> relations, with
  invariants proved by rule induction. What the code takes from elsewhere is an argument: digests and
  MACs, URL and JSON text parsing, random bytes, clocks, floating point (no law assumed), Unicode
  tables, the file system (a sequence of views, any two calls of which may differ), the search index.
  Their documented behaviour is a named hypothesis where a theorem needs it, and each such theorem has
  a witness at a concrete instance.

  \<^bold>\<open>Bounds.\<close> Loops of the code that are not structural carry fuel: the cycle rotation (the number of
  events), the directory walk (the number of directories, \<open>walk_returns\<close>), reading pages (the number of
  characters). Each has a theorem that this fuel gives a result. The truncation of tool content may run
  for ever, so it is a partial function whose value \<open>None\<close> is not returning. Constants such as queue capacities,
  lifetimes and window sizes are the code's.

  \<^bold>\<open>Not modelled.\<close> The other transcript parsers of \<open>src/sources\<close>, and of all of them the discovery of files
  and the usage events; the search index, embeddings and vectors, which are calls of libraries; the command line, terminal and
  web interfaces; remote machines and archive transfer (processes, ssh, archives); the threads and
  channels of ingest, and the opening, migration and locking of database files. They do input and
  output or call libraries; what the modelled parts use of them is an argument.
\<close>

end
